(* ===== verification/Prelude.thy ===== *)
theory Prelude
  imports Main "HOL-Library.Word" "HOL-Library.Monad_Syntax"
begin

text \<open>
  What every component of the development shares: the type names of the engine's scalar types,
  searching in byte strings (the members of \<open>std::string_view\<close> the sources call), string views as
  offset and size into their underlying string, and the generic facts about lists that the component
  theories rewrite with.  \<open>size_t\<close> is \<^typ>\<open>nat\<close>: no modelled path reaches \<open>2^64\<close> bytes; where
  the code narrows or wraps an integer the width is written out in the component.
\<close>

type_synonym addr = nat
type_synonym size_t = nat
type_synonym u32 = "32 word"

named_theorems search_simps \<open>searching in strings, as rewrite rules\<close>
named_theorems view_simps \<open>string views and their contents\<close>

text \<open>
  A failed assertion, and a precondition of the standard library that does not hold, is \<open>None\<close>: the code has
  no defined behaviour from there on, or stops.
\<close>

definition require :: "bool \<Rightarrow> unit option" where
  "require b = (if b then Some () else None)"

lemma require_bind [simp]: "Option.bind (require b) f = (if b then f () else None)"
  by (simp add: require_def)

section \<open>Searching\<close>

text \<open>\<open>std::find_if\<close> as an index: \<open>None\<close> stands for \<open>npos\<close>.\<close>

fun find_index :: "('a \<Rightarrow> bool) \<Rightarrow> 'a list \<Rightarrow> nat option" where
  "find_index P [] = None"
| "find_index P (x # xs) = (if P x then Some 0 else map_option Suc (find_index P xs))"

lemma find_index_None [search_simps]: "find_index P xs = None \<longleftrightarrow> (\<forall>x\<in>set xs. \<not> P x)"
  by (induction xs) auto

lemma find_index_Some:
  "find_index P xs = Some i \<longleftrightarrow> i < length xs \<and> P (xs ! i) \<and> (\<forall>j<i. \<not> P (xs ! j))"
proof (induction xs arbitrary: i)
  case (Cons x xs)
  show ?case
    by (cases i) (auto simp: Cons.IH less_Suc_eq_0_disj)
qed simp

lemma find_index_takeWhile:
  "find_index P xs =
    (if \<forall>x\<in>set xs. \<not> P x then None else Some (length (takeWhile (\<lambda>x. \<not> P x) xs)))"
  by (induction xs) auto

lemma find_index_less: "find_index P xs = Some i \<Longrightarrow> i < length xs"
  by (simp add: find_index_Some)

lemma find_index_take: "find_index P xs = Some i \<Longrightarrow> \<forall>x\<in>set (take i xs). \<not> P x"
  by (auto simp: find_index_Some in_set_conv_nth)

lemma find_index_append:
  "find_index P (xs @ ys) =
    (case find_index P xs of Some i \<Rightarrow> Some i | None \<Rightarrow> map_option ((+) (length xs)) (find_index P ys))"
  by (induction xs; cases "find_index P ys") (auto split: option.splits)

text \<open>\<open>find_first_of(set, offset)\<close> and \<open>find(ch, offset)\<close> of \<open>std::string_view\<close>.\<close>

definition find_first_of :: "string \<Rightarrow> string \<Rightarrow> nat \<Rightarrow> nat option" where
  "find_first_of s seps off =
     map_option ((+) off) (find_index (\<lambda>c. c \<in> set seps) (drop off s))"

definition find_char :: "string \<Rightarrow> char \<Rightarrow> nat \<Rightarrow> nat option" where
  "find_char s c off = map_option ((+) off) (find_index (\<lambda>d. d = c) (drop off s))"

text \<open>\<open>rfind(ch)\<close>, which is also \<open>find_last_of(ch)\<close>: the last position of the character.\<close>

definition rfind_char :: "string \<Rightarrow> char \<Rightarrow> nat option" where
  "rfind_char s c = map_option (\<lambda>i. length s - 1 - i) (find_index (\<lambda>d. d = c) (rev s))"

text \<open>\<open>starts_with\<close>, \<open>ends_with\<close>, and \<open>find(text, offset)\<close>.\<close>

definition starts_with :: "'a list \<Rightarrow> 'a list \<Rightarrow> bool" where
  "starts_with s p \<longleftrightarrow> take (length p) s = p"

definition ends_with :: "'a list \<Rightarrow> 'a list \<Rightarrow> bool" where
  "ends_with s p \<longleftrightarrow> starts_with (rev s) (rev p)"

fun find_sub :: "'a list \<Rightarrow> 'a list \<Rightarrow> nat option" where
  "find_sub p [] = (if p = [] then Some 0 else None)"
| "find_sub p (x # xs) =
     (if starts_with (x # xs) p then Some 0 else map_option Suc (find_sub p xs))"

definition find_str :: "'a list \<Rightarrow> 'a list \<Rightarrow> nat \<Rightarrow> nat option" where
  "find_str s p off =
     (if length s < off then None else map_option ((+) off) (find_sub p (drop off s)))"

lemma starts_with_append [simp]: "starts_with (p @ s) p"
  by (simp add: starts_with_def)

lemma starts_with_iff: "starts_with s p \<longleftrightarrow> (\<exists>r. s = p @ r)"
  by (metis append_eq_conv_conj append_take_drop_id starts_with_def)

lemma starts_with_Nil [simp]: "starts_with s []"
  by (simp add: starts_with_def)

lemma starts_with_single [simp]: "starts_with s [c] \<longleftrightarrow> s \<noteq> [] \<and> hd s = c"
  by (cases s) (auto simp: starts_with_def)

lemma ends_with_iff: "ends_with s p \<longleftrightarrow> (\<exists>r. s = r @ p)"
  unfolding ends_with_def starts_with_iff by (metis rev_append rev_rev_ident)

lemma ends_with_single [simp]: "ends_with s [c] \<longleftrightarrow> s \<noteq> [] \<and> last s = c"
  by (auto simp: ends_with_def hd_rev)

lemma find_sub_Some:
  "find_sub p s = Some i \<Longrightarrow> take (length p) (drop i s) = p \<and> i + length p \<le> length s"
proof (induction p s arbitrary: i rule: find_sub.induct)
  case (2 p x xs)
  then show ?case
    by (auto simp: starts_with_def split: if_splits dest: arg_cong [where f = length])
qed (auto split: if_splits)

lemma find_sub_first:
  "find_sub p s = Some i \<Longrightarrow> j < i \<Longrightarrow> \<not> starts_with (drop j s) p"
proof (induction p s arbitrary: i j rule: find_sub.induct)
  case (2 p x xs)
  then show ?case by (cases j) (auto split: if_splits)
qed (auto split: if_splits)

lemma find_sub_None: "find_sub p s = None \<Longrightarrow> \<not> starts_with (drop j s) p"
proof (induction p s arbitrary: j rule: find_sub.induct)
  case (2 p x xs)
  then show ?case by (cases j) (auto split: if_splits)
qed (auto split: if_splits simp: starts_with_def)

section \<open>String views\<close>

text \<open>
  A \<open>std::string_view\<close> into a known string: the default-constructed view, whose \<open>data()\<close> is null,
  or an offset into the string and a size.  The code tells the null view from an empty one.
\<close>

datatype view = NullView | View nat nat

fun view_str :: "'a list \<Rightarrow> view \<Rightarrow> 'a list" where
  "view_str s NullView = []"
| "view_str s (View off n) = take n (drop off s)"

fun view_size :: "view \<Rightarrow> nat" where
  "view_size NullView = 0"
| "view_size (View off n) = n"

fun view_wf :: "'a list \<Rightarrow> view \<Rightarrow> bool" where
  "view_wf s NullView = True"
| "view_wf s (View off n) \<longleftrightarrow> off + n \<le> length s"

lemma length_view_str [view_simps]: "view_wf s v \<Longrightarrow> length (view_str s v) = view_size v"
  by (cases v) auto

lemma view_str_empty [view_simps]: "view_wf s v \<Longrightarrow> view_str s v = [] \<longleftrightarrow> view_size v = 0"
  by (metis length_0_conv length_view_str)

section \<open>Lists\<close>

lemma map_option_Suc_Some [simp]: "map_option Suc x = Some (Suc i) \<longleftrightarrow> x = Some i"
  by (cases x) auto

lemma last_butlast_snoc: "xs \<noteq> [] \<Longrightarrow> butlast xs @ [last xs] = xs"
  by simp

lemma hd_dropWhile_not: "dropWhile P xs \<noteq> [] \<Longrightarrow> \<not> P (hd (dropWhile P xs))"
  using hd_dropWhile by blast

lemma dropWhile_snoc:
  "dropWhile P (xs @ [c]) = (if dropWhile P xs = [] then dropWhile P [c] else dropWhile P xs @ [c])"
  by (induction xs) auto

lemma last_notin: "c \<notin> set s \<Longrightarrow> s \<noteq> [] \<Longrightarrow> last s \<noteq> c"
  by (metis last_in_set)

lemma hd_notin: "c \<notin> set s \<Longrightarrow> s \<noteq> [] \<Longrightarrow> hd s \<noteq> c"
  by (metis hd_in_set)

lemma map_upd_other [simp]: "k \<noteq> k' \<Longrightarrow> (m(k \<mapsto> v)) k' = m k'"
  by simp

lemma nth_update: "j < length xs \<Longrightarrow> xs[i := x] ! j = (if i = j then x else xs ! j)"
  by (cases "i = j") auto

lemma count_list_update:
  "i < length xs \<Longrightarrow> count_list (xs[i := y]) x + of_bool (xs ! i = x) = count_list xs x + of_bool (y = x)"
proof (induction xs arbitrary: i)
  case (Cons z zs)
  then show ?case by (cases i) auto
qed simp

section \<open>Sums over threads\<close>

text \<open>The sum of a measure over a list, of threads or handles, and how it changes with one of them.\<close>

definition sum_over :: "('b \<Rightarrow> 'a::comm_monoid_add) \<Rightarrow> 'b list \<Rightarrow> 'a" where
  "sum_over f ts = sum_list (map f ts)"

lemma sum_over_update:
  fixes f :: "'b \<Rightarrow> 'a::cancel_comm_monoid_add"
  shows "t < length ts \<Longrightarrow> sum_over f (ts[t := x]) + f (ts ! t) = sum_over f ts + f x"
proof (induction ts arbitrary: t)
  case (Cons u us)
  then show ?case by (cases t) (auto simp: sum_over_def ac_simps)
qed simp

lemma sum_over_member: "x \<in> set xs \<Longrightarrow> f x \<le> (sum_over f xs :: nat)"
  by (induction xs) (auto simp: sum_over_def)

lemma sum_over_mono: "(\<And>x. f x \<le> g x) \<Longrightarrow> sum_over f xs \<le> (sum_over g xs :: nat)"
  by (induction xs) (auto simp: sum_over_def intro: add_mono)

lemma sum_over_add: "sum_over (\<lambda>x. f x + g x) xs = sum_over f xs + (sum_over g xs :: nat)"
  by (induction xs) (auto simp: sum_over_def)

lemma sum_over_append [simp]: "sum_over f (xs @ ys) = sum_over f xs + sum_over f ys" "sum_over f [] = 0" "sum_over f [x] = f x"
  by (simp_all add: sum_over_def)

lemma sum_over_zero: "(\<And>x. x \<in> set xs \<Longrightarrow> f x = 0) \<Longrightarrow> sum_over f xs = 0"
  by (induction xs) (auto simp: sum_over_def)

section \<open>Numbers in text\<close>

text \<open>\<open>std::to_string\<close> of an unsigned number.\<close>

fun show_nat :: "nat \<Rightarrow> string" where
  "show_nat n = (if n < 10 then [char_of (48 + n)] else show_nat (n div 10) @ [char_of (48 + n mod 10)])"

declare show_nat.simps [simp del]

section \<open>Runs and simulations\<close>

text \<open>
  A component as an interpreter of operations: \<open>exec op s\<close> is the next state and the result of the call, or
  \<open>None\<close> where the code has no defined behaviour.  \<open>run\<close> is a sequence of calls with all its results.
\<close>

fun run :: "('op \<Rightarrow> 's \<Rightarrow> ('s \<times> 'o) option) \<Rightarrow> 'op list \<Rightarrow> 's \<Rightarrow> ('s \<times> 'o list) option" where
  "run exec [] s = Some (s, [])"
| "run exec (x # xs) s =
     (case exec x s of
        None \<Rightarrow> None
      | Some (s', r) \<Rightarrow> (case run exec xs s' of None \<Rightarrow> None | Some (s'', rs) \<Rightarrow> Some (s'', r # rs)))"

definition observe :: "('s \<times> 'o list) option \<Rightarrow> 'o list option" where
  "observe r = map_option snd r"

text \<open>
  The contract of an implementation towards its specification: from related states every operation is
  defined on both sides or on neither, gives the same result and leads to related states.
\<close>

definition same_step :: "('s \<Rightarrow> 'a \<Rightarrow> bool) \<Rightarrow> ('s \<times> 'o) option \<Rightarrow> ('a \<times> 'o) option \<Rightarrow> bool" where
  "same_step rel x y \<longleftrightarrow>
     (case (x, y) of
        (None, None) \<Rightarrow> True
      | (Some (s, r), Some (a, q)) \<Rightarrow> r = q \<and> rel s a
      | _ \<Rightarrow> False)"

lemma same_stepI [intro]:
  "x = None \<Longrightarrow> y = None \<Longrightarrow> same_step rel x y"
  "x = Some (s, r) \<Longrightarrow> y = Some (a, r) \<Longrightarrow> rel s a \<Longrightarrow> same_step rel x y"
  by (auto simp: same_step_def)

locale simulation =
  fixes exec :: "'op \<Rightarrow> 's \<Rightarrow> ('s \<times> 'o) option"
    and spec :: "'op \<Rightarrow> 'a \<Rightarrow> ('a \<times> 'o) option"
    and rel :: "'s \<Rightarrow> 'a \<Rightarrow> bool"
  assumes step: "rel s a \<Longrightarrow> same_step rel (exec x s) (spec x a)"
begin

lemma run_same: "rel s a \<Longrightarrow> same_step rel (run exec xs s) (run spec xs a)"
proof (induction xs arbitrary: s a)
  case Nil
  then show ?case by (simp add: same_step_def)
next
  case (Cons x xs)
  from step [OF Cons.prems, of x] show ?case
  proof (cases "exec x s"; cases "spec x a")
    fix p q assume pq: "exec x s = Some p" "spec x a = Some q"
    obtain s' r a' where "p = (s', r)" "q = (a', r)" and rel': "rel s' a'"
      using step [OF Cons.prems, of x] pq by (cases p; cases q) (auto simp: same_step_def)
    then show ?thesis
      using pq Cons.IH [OF rel'] by (auto simp: same_step_def split: option.splits)
  qed (auto simp: same_step_def)
qed

lemma observe_same: "rel s a \<Longrightarrow> observe (run exec xs s) = observe (run spec xs a)"
  using run_same [of s a xs] by (auto simp: same_step_def observe_def split: option.splits)

lemma run_rel: "rel s a \<Longrightarrow> run exec xs s = Some (s', rs) \<Longrightarrow> \<exists>a'. run spec xs a = Some (a', rs) \<and> rel s' a'"
  using run_same [of s a xs] by (auto simp: same_step_def split: option.splits)

end

text \<open>
  The weaker contract of an implementation whose callers have obligations: wherever the specification
  defines a call, the implementation is defined, gives the same result and keeps the relation.
\<close>

locale implements =
  fixes exec :: "'op \<Rightarrow> 's \<Rightarrow> ('s \<times> 'o) option"
    and spec :: "'op \<Rightarrow> 'a \<Rightarrow> ('a \<times> 'o) option"
    and rel :: "'s \<Rightarrow> 'a \<Rightarrow> bool"
  assumes exec_step: "rel s a \<Longrightarrow> spec x a = Some (a', r) \<Longrightarrow> \<exists>s'. exec x s = Some (s', r) \<and> rel s' a'"
begin

lemma run_exec: "rel s a \<Longrightarrow> run spec xs a = Some (a', rs) \<Longrightarrow> \<exists>s'. run exec xs s = Some (s', rs) \<and> rel s' a'"
proof (induction xs arbitrary: s a rs)
  case (Cons x xs)
  then obtain a1 r rs' where a1: "spec x a = Some (a1, r)" "run spec xs a1 = Some (a', rs')" "rs = r # rs'"
    by (auto split: option.splits)
  obtain s1 where s1: "exec x s = Some (s1, r)" "rel s1 a1" using exec_step [OF Cons.prems(1) a1(1)] by blast
  show ?case using Cons.IH [OF s1(2) a1(2)] s1(1) a1(3) by auto
qed auto

lemma observe_exec: "rel s a \<Longrightarrow> observe (run spec xs a) = Some rs \<Longrightarrow> observe (run exec xs s) = Some rs"
  using run_exec [of s a xs] by (auto simp: observe_def)

end

sublocale simulation \<subseteq> fwd: implements exec spec rel
proof
  fix s a x a' r
  assume "rel s a" "spec x a = Some (a', r)"
  then show "\<exists>s'. exec x s = Some (s', r) \<and> rel s' a'"
    using step [of s a x] by (auto simp: same_step_def split: option.splits)
qed

end
