(* ===== verification/Strings.thy ===== *)
theory Strings
  imports Prelude
begin

text \<open>
  \<open>engine/kernel/src/utils/string_utils.cpp\<close> and \<open>engine/kernel/include/my/utils/string_utils.h\<close>:
  the two splitters (the sequence \<open>strings::Split\<close> with its forward iterator, and the older
  \<open>kernel_detail::SplitNext\<close>), trimming, \<open>cut\<close>, and the case-insensitive comparisons.  The lemmas show
  that iterating a \<open>SplitSequence\<close> ends and yields exactly the pieces between separators, where
  \<open>SplitNext\<close> differs from it, what trimming keeps, and that the case-insensitive comparison is a
  total preorder, as the ordered containers that use \<open>CiStringComparer\<close> need.
\<close>

section \<open>Reference: the pieces between separators\<close>

fun pieces :: "('a \<Rightarrow> bool) \<Rightarrow> 'a list \<Rightarrow> 'a list list" where
  "pieces P [] = [[]]"
| "pieces P (x # xs) =
     (if P x then [] # pieces P xs
      else (case pieces P xs of [] \<Rightarrow> [[x]] | p # ps \<Rightarrow> (x # p) # ps))"

fun join :: "'a list \<Rightarrow> 'a list list \<Rightarrow> 'a list" where
  "join sep [] = []"
| "join sep [p] = p"
| "join sep (p # q # ps) = p @ sep @ join sep (q # ps)"

lemma pieces_nonempty [simp]: "pieces P xs \<noteq> []"
  by (induction xs) (auto split: list.splits)

lemma pieces_unfold:
  "pieces P s = (case find_index P s of
     None \<Rightarrow> [s] | Some i \<Rightarrow> take i s # pieces P (drop (Suc i) s))"
  by (induction s) (auto split: option.splits)

lemma pieces_sep_free: "p \<in> set (pieces P s) \<Longrightarrow> x \<in> set p \<Longrightarrow> \<not> P x"
proof (induction s arbitrary: p)
  case (Cons y ys)
  then show ?case
    by (cases "pieces P ys") (fastforce split: if_splits)+
qed simp

lemma join_Cons: "ps \<noteq> [] \<Longrightarrow> join sep (p # ps) = p @ sep @ join sep ps"
  by (cases ps) auto

lemma join_snoc: "join sep (ds @ [d]) = (if ds = [] then d else join sep ds @ sep @ d)"
  by (induction ds rule: induct_list012) auto

lemma join_append:
  "join sep (as @ bs) = (if as = [] then join sep bs else if bs = [] then join sep as
     else join sep as @ sep @ join sep bs)"
  by (induction as rule: induct_list012) (auto simp: join_Cons)

lemma join_pieces: "join [c] (pieces (\<lambda>d. d = c) s) = s"
proof (induction s)
  case (Cons x xs)
  obtain p ps where ps: "pieces (\<lambda>d. d = c) xs = p # ps"
    by (cases "pieces (\<lambda>d. d = c) xs") auto
  show ?case
  proof (cases "x = c")
    case True
    then show ?thesis using Cons by (simp add: join_Cons)
  next
    case False
    then show ?thesis using Cons ps by (cases ps) auto
  qed
qed simp

lemma pieces_snoc_sep: "P c \<Longrightarrow> pieces P (s @ [c]) = pieces P s @ [[]]"
  by (induction s) (auto split: list.splits)

lemma pieces_append_sep: "P c \<Longrightarrow> pieces P (s @ c # t) = pieces P s @ pieces P t"
proof (induction s)
  case (Cons x xs)
  then show ?case by (cases "pieces P xs") (auto split: list.splits)
qed simp

lemma pieces_no_sep: "\<forall>x\<in>set s. \<not> P x \<Longrightarrow> pieces P s = [s]"
  by (induction s) auto

section \<open>SplitSequence\<close>

text \<open>
  \<open>StrSplitNext\<close>: the next offset (\<open>None\<close> is \<open>npos\<close>) and the piece, as a view into the input.
\<close>

definition StrSplitNext :: "string \<Rightarrow> string \<Rightarrow> nat option \<Rightarrow> nat option \<times> view" where
  "StrSplitNext input sep offset =
     (case offset of
        None \<Rightarrow> (None, NullView)
      | Some off \<Rightarrow>
          if input = [] then (None, NullView)
          else (case find_first_of input sep off of
                  None \<Rightarrow> (None, View off (length input - off))
                | Some pos \<Rightarrow> (Some (pos + 1), View off (pos - off))))"

text \<open>\<open>SplitSequence::iterator\<close>: \<open>m_str\<close>, \<open>m_separators\<close>, \<open>m_value\<close>, \<open>m_nextOffset\<close>.\<close>

record split_iter =
  it_str :: string
  it_separators :: string
  it_value :: view
  it_nextOffset :: "nat option"

definition default_iter :: split_iter where
  "default_iter = \<lparr>it_str = [], it_separators = [], it_value = NullView, it_nextOffset = None\<rparr>"

definition advance :: "split_iter \<Rightarrow> split_iter" where
  "advance it =
     (let (n, v) = StrSplitNext (it_str it) (it_separators it) (it_nextOffset it);
          it' = it\<lparr>it_value := v, it_nextOffset := n\<rparr>
      in if v = NullView then it'\<lparr>it_str := [], it_separators := []\<rparr> else it')"

definition iter_eq :: "split_iter \<Rightarrow> split_iter \<Rightarrow> bool" where
  "iter_eq a b =
     (if it_str a = [] \<or> it_str b = [] then it_str a = [] \<and> it_str b = []
      else it_nextOffset a = it_nextOffset b)"

definition iter_deref :: "split_iter \<Rightarrow> string" where
  "iter_deref it = view_str (it_str it) (it_value it)"

definition split_begin :: "string \<Rightarrow> string \<Rightarrow> split_iter" where
  "split_begin s sep =
     advance \<lparr>it_str = s, it_separators = sep, it_value = NullView, it_nextOffset = Some 0\<rparr>"

definition split_end :: split_iter where
  "split_end = default_iter"

lemma iter_eq_end: "iter_eq it split_end \<longleftrightarrow> it_str it = []"
  by (auto simp: iter_eq_def split_end_def default_iter_def)

text \<open>The offsets still to come shrink with every \<open>operator++\<close>.\<close>

definition iter_left :: "split_iter \<Rightarrow> nat" where
  "iter_left it =
     (if it_str it = [] then 0
      else case it_nextOffset it of None \<Rightarrow> 1 | Some n \<Rightarrow> 2 + (length (it_str it) - n))"

lemma find_first_of_bounds:
  "find_first_of s seps off = Some pos \<Longrightarrow> off \<le> pos \<and> pos < length s"
  by (auto simp: find_first_of_def dest: find_index_less)

lemma advance_less: "it_str it \<noteq> [] \<Longrightarrow> iter_left (advance it) < iter_left it"
  by (auto simp: advance_def StrSplitNext_def iter_left_def Let_def
      split: option.splits dest!: find_first_of_bounds)

text \<open>The range-based \<open>for\<close> over a sequence: dereference, advance, until equal to \<open>end()\<close>.\<close>

function iterate :: "split_iter \<Rightarrow> string list" where
  "iterate it = (if iter_eq it split_end then [] else iter_deref it # iterate (advance it))"
  by pat_completeness auto
termination
  by (relation "measure iter_left") (auto simp: iter_eq_end intro: advance_less)

declare iterate.simps [simp del]

definition Split :: "string \<Rightarrow> string \<Rightarrow> string list" where
  "Split s sep = iterate (split_begin s sep)"

lemma iterate_last:
  "s \<noteq> [] \<Longrightarrow> iterate \<lparr>it_str = s, it_separators = seps, it_value = v, it_nextOffset = None\<rparr> =
     [view_str s v]"
  by (simp add: iterate.simps [of "\<lparr>it_str = _, it_separators = _, it_value = _, it_nextOffset = _\<rparr>"]
      iterate.simps [of "\<lparr>it_str = [], it_separators = [], it_value = _, it_nextOffset = _\<rparr>"]
      iter_eq_end iter_deref_def advance_def StrSplitNext_def)

lemma iterate_from:
  "s \<noteq> [] \<Longrightarrow> n \<le> length s \<Longrightarrow>
     iterate \<lparr>it_str = s, it_separators = seps, it_value = v, it_nextOffset = Some n\<rparr> =
     view_str s v # pieces (\<lambda>c. c \<in> set seps) (drop n s)"
proof (induction "length s - n" arbitrary: n v rule: less_induct)
  case less
  let ?P = "\<lambda>c. c \<in> set seps"
  let ?it = "\<lparr>it_str = s, it_separators = seps, it_value = v, it_nextOffset = Some n\<rparr>"
  have step: "iterate ?it = view_str s v # iterate (advance ?it)"
    using less.prems by (simp add: iterate.simps [of ?it] iter_eq_end iter_deref_def)
  show ?case
  proof (cases "find_index ?P (drop n s)")
    case None
    then have "advance ?it = \<lparr>it_str = s, it_separators = seps,
        it_value = View n (length s - n), it_nextOffset = None\<rparr>"
      using less.prems by (simp add: advance_def StrSplitNext_def find_first_of_def)
    then show ?thesis
      using less.prems None
      by (simp add: step iterate_last pieces_unfold [of _ "drop n s"])
  next
    case (Some i)
    then have i: "n + i < length s"
      by (auto dest: find_index_less)
    from Some have "advance ?it = \<lparr>it_str = s, it_separators = seps,
        it_value = View n i, it_nextOffset = Some (n + i + 1)\<rparr>"
      using less.prems by (simp add: advance_def StrSplitNext_def find_first_of_def)
    moreover have "iterate \<lparr>it_str = s, it_separators = seps, it_value = View n i,
        it_nextOffset = Some (n + i + 1)\<rparr> = view_str s (View n i) # pieces ?P (drop (n + i + 1) s)"
      using less.prems i by (intro less.hyps) auto
    ultimately show ?thesis
      using Some by (simp add: step pieces_unfold [of _ "drop n s"] add.commute)
  qed
qed

lemma Split_pieces:
  "Split s sep = (if s = [] then [] else pieces (\<lambda>c. c \<in> set sep) s)"
proof (cases "s = []")
  case True
  then show ?thesis
    by (simp add: Split_def split_begin_def advance_def StrSplitNext_def iterate.simps iter_eq_end)
next
  case False
  let ?it = "\<lparr>it_str = s, it_separators = sep, it_value = NullView, it_nextOffset = Some 0\<rparr>"
  have "iterate ?it = [] # iterate (advance ?it)"
    using False by (simp add: iterate.simps [of ?it] iter_eq_end iter_deref_def)
  then show ?thesis
    using iterate_from [of s 0 sep NullView] False by (simp add: Split_def split_begin_def)
qed

text \<open>What a user of a splitter relies on: it loses nothing, so two strings with equal pieces are equal.\<close>

locale splitter =
  fixes split_by :: "string \<Rightarrow> string \<Rightarrow> string list"
  assumes split_join: "s \<noteq> [] \<Longrightarrow> join [c] (split_by s [c]) = s"
    and split_empty: "split_by s [c] = [] \<longleftrightarrow> s = []"
    and split_free: "p \<in> set (split_by s [c]) \<Longrightarrow> c \<notin> set p"
begin

lemma split_inj: "split_by s [c] = split_by t [c] \<longleftrightarrow> s = t"
  by (metis split_empty split_join)

lemma split_separator_free: "s \<noteq> [] \<Longrightarrow> c \<notin> set s \<Longrightarrow> split_by s [c] = [s]"
proof -
  assume s: "s \<noteq> []" "c \<notin> set s"
  obtain p ps where eq: "split_by s [c] = p # ps"
    using s split_empty by (cases "split_by s [c]") auto
  have "ps = []"
  proof (rule ccontr)
    assume "ps \<noteq> []"
    then have "c \<in> set (join [c] (p # ps))" by (simp add: join_Cons)
    then show False using split_join [OF s(1), of c] eq s(2) by simp
  qed
  then show "split_by s [c] = [s]"
    using split_join [OF s(1), of c] eq by simp
qed

end

interpretation seq: splitter Split
proof
  show "s \<noteq> [] \<Longrightarrow> join [c] (Split s [c]) = s" for s c
    by (simp add: Split_pieces join_pieces)
  show "Split s [c] = [] \<longleftrightarrow> s = []" for s c
    by (simp add: Split_pieces)
  show "p \<in> set (Split s [c]) \<Longrightarrow> c \<notin> set p" for p s c
    by (auto simp: Split_pieces split: if_splits dest: pieces_sep_free)
qed

section \<open>SplitNext\<close>

text \<open>
  The older interface: given the previous piece (a view into \<open>str\<close>, null at first), the next one.
  The body of its \<open>do\<close> loop returns in the first round, so there is no loop to model.
\<close>

definition SplitNextImpl :: "string \<Rightarrow> view \<Rightarrow> string \<Rightarrow> view" where
  "SplitNextImpl str current separators =
     (if str = [] then NullView
      else
        let offset = (case current of NullView \<Rightarrow> 0 | View o' n \<Rightarrow> o' + (n + 1))
        in if offset = length str then
             (case current of
                NullView \<Rightarrow> View (length str - 1) 0
              | View o' n \<Rightarrow> if length str - 1 = o' then NullView else View (length str - 1) 0)
           else if offset > length str then NullView
           else (case find_first_of str separators offset of
                   None \<Rightarrow> View offset (length str - offset)
                 | Some pos \<Rightarrow> if pos = offset then View offset 0 else View offset (pos - offset)))"

text \<open>
  The caller's loop: the pieces from \<open>current\<close> on, until the null view.  \<open>next_ok\<close> is the assertion that
  the previous piece lies inside the string.
\<close>

definition next_ok :: "string \<Rightarrow> view \<Rightarrow> bool" where
  "next_ok str v = (case v of NullView \<Rightarrow> True | View o' n \<Rightarrow> o' < length str \<and> o' + n \<le> length str)"

lemma next_ok_step: "next_ok str (SplitNextImpl str v separators)"
  by (auto simp: SplitNextImpl_def next_ok_def Let_def
      split: option.splits view.splits dest!: find_first_of_bounds)

lemma SplitNextImpl_offset:
  "next_ok str (View o' n) \<Longrightarrow> SplitNextImpl str (View o' n) separators = View o'' n' \<Longrightarrow> o' < o''"
  by (auto simp: SplitNextImpl_def next_ok_def Let_def split: option.splits if_splits)

function SplitNext_all :: "string \<Rightarrow> view \<Rightarrow> string \<Rightarrow> string list" where
  "SplitNext_all str current separators =
     (if \<not> next_ok str current then []
      else case SplitNextImpl str current separators of
        NullView \<Rightarrow> []
      | View o' n \<Rightarrow> view_str str (View o' n) # SplitNext_all str (View o' n) separators)"
  by pat_completeness auto
termination
proof (relation "measure (\<lambda>(str, v, _). case v of NullView \<Rightarrow> length str + 1 | View o' n \<Rightarrow> length str - o')")
  show "wf (measure (\<lambda>(str, v, _). case v of NullView \<Rightarrow> length str + 1 | View o' n \<Rightarrow> length str - o'))"
    by simp
next
  fix str current separators o' n
  assume ok: "\<not> \<not> next_ok str current"
    and eq: "SplitNextImpl str current separators = View o' n"
  have "next_ok str (View o' n)"
    using next_ok_step [of str current separators] eq by simp
  then show "((str, View o' n, separators), (str, current, separators))
    \<in> measure (\<lambda>(str, v, _). case v of NullView \<Rightarrow> length str + 1 | View o' n \<Rightarrow> length str - o')"
    using ok SplitNextImpl_offset [of str _ _ separators o' n] eq
    by (cases current) (auto simp: next_ok_def intro: diff_less_mono2)
qed

declare SplitNext_all.simps [simp del]

text \<open>
  Which strings lose their last, empty piece under \<open>SplitNext\<close>: a separator at the end that is the
  whole string or follows another separator.
\<close>

definition drops_last :: "('a \<Rightarrow> bool) \<Rightarrow> 'a list \<Rightarrow> bool" where
  "drops_last P s \<longleftrightarrow> s \<noteq> [] \<and> P (last s) \<and> (length s = 1 \<or> P (s ! (length s - 2)))"

definition next_pieces :: "('a \<Rightarrow> bool) \<Rightarrow> 'a list \<Rightarrow> 'a list list" where
  "next_pieces P s = (if drops_last P s then butlast (pieces P s) else pieces P s)"

lemma next_pieces_None:
  "s \<noteq> [] \<Longrightarrow> find_index P s = None \<Longrightarrow> next_pieces P s = [s]"
  by (auto simp: next_pieces_def drops_last_def find_index_None pieces_no_sep)

lemma next_pieces_inner:
  assumes "find_index P s = Some i" and "Suc i < length s"
  shows "next_pieces P s = take i s # next_pieces P (drop (Suc i) s)"
proof -
  have i: "i < length s" "P (s ! i)" using assms(1) by (auto simp: find_index_Some)
  have ps: "pieces P s = take i s # pieces P (drop (Suc i) s)"
    using assms(1) by (subst pieces_unfold) simp
  have "drops_last P s \<longleftrightarrow> drops_last P (drop (Suc i) s)"
  proof (cases "Suc (Suc i) = length s")
    case True
    then have "length s - 2 = i" by simp
    then show ?thesis using True assms i by (auto simp: drops_last_def)
  next
    case False
    then have "Suc i + (length (drop (Suc i) s) - 2) = length s - 2"
      using assms(2) by simp
    then have "drop (Suc i) s ! (length (drop (Suc i) s) - 2) = s ! (length s - 2)"
      using assms(2) by (metis less_imp_le nth_drop)
    then show ?thesis
      using False assms(2) unfolding drops_last_def by auto
  qed
  then show ?thesis by (simp add: next_pieces_def ps)
qed

lemma next_pieces_final:
  assumes "find_index P s = Some i" and "Suc i = length s"
  shows "next_pieces P s = take i s # (if i = 0 then [] else [[]])"
proof -
  have i: "P (s ! i)" "\<forall>j<i. \<not> P (s ! j)" using assms(1) by (auto simp: find_index_Some)
  have ps: "pieces P s = [take i s, []]"
    using assms by (subst pieces_unfold) simp
  have "last s = s ! i" using assms(2) by (cases s) (auto simp: last_conv_nth)
  moreover have "i \<noteq> 0 \<Longrightarrow> length s - 2 < i" using assms(2) by simp
  ultimately have "drops_last P s \<longleftrightarrow> i = 0"
    using i assms(2) by (auto simp: drops_last_def)
  then show ?thesis by (simp add: next_pieces_def ps)
qed

lemma SplitNext_all_from:
  assumes "next_ok s v"
    and "off = (case v of NullView \<Rightarrow> 0 | View o' n \<Rightarrow> o' + (n + 1))"
    and "off < length s"
  shows "SplitNext_all s v seps = next_pieces (\<lambda>c. c \<in> set seps) (drop off s)"
  using assms
proof (induction "length s - off" arbitrary: v off rule: less_induct)
  case less
  let ?P = "\<lambda>c. c \<in> set seps" and ?t = "drop off s"
  have t: "?t \<noteq> []" and s: "s \<noteq> []" using less.prems(3) by auto
  have impl: "SplitNextImpl s v seps = (case find_index ?P ?t of
      None \<Rightarrow> View off (length s - off) | Some i \<Rightarrow> View off i)"
    using less.prems s
    by (auto simp: SplitNextImpl_def Let_def find_first_of_def split: option.splits view.splits)
  show ?case
  proof (cases "find_index ?P ?t")
    case None
    have "SplitNext_all s (View off (length s - off)) seps = []"
      using s less.prems(3) by (subst SplitNext_all.simps) (simp add: SplitNextImpl_def)
    then show ?thesis
      using None less.prems t
      by (subst SplitNext_all.simps) (simp add: impl next_pieces_None)
  next
    case (Some i)
    then have i: "off + i < length s" by (auto dest: find_index_less)
    have head: "SplitNext_all s v seps = take i ?t # SplitNext_all s (View off i) seps"
      using less.prems Some by (subst SplitNext_all.simps) (simp add: impl)
    show ?thesis
    proof (cases "off + i + 1 = length s")
      case True
      have last: "SplitNext_all s (View (length s - 1) 0) seps = []"
        using s by (subst SplitNext_all.simps) (simp add: SplitNextImpl_def)
      have "SplitNext_all s (View off i) seps = (if i = 0 then [] else [[]])"
        using True i s last
        by (subst SplitNext_all.simps) (auto simp: SplitNextImpl_def next_ok_def Let_def)
      then show ?thesis
        using Some True head by (simp add: next_pieces_final)
    next
      case False
      then have "SplitNext_all s (View off i) seps = next_pieces ?P (drop (off + (i + 1)) s)"
        using i by (intro less.hyps) (auto simp: next_ok_def)
      then show ?thesis
        using Some False head i by (simp add: next_pieces_inner add.commute)
    qed
  qed
qed

lemma SplitNext_all_pieces:
  "SplitNext_all s NullView seps = (if s = [] then [] else next_pieces (\<lambda>c. c \<in> set seps) s)"
proof (cases "s = []")
  case True
  then show ?thesis by (simp add: SplitNext_all.simps SplitNextImpl_def)
next
  case False
  then show ?thesis using SplitNext_all_from [of s NullView 0 seps] by (simp add: next_ok_def)
qed

section \<open>Trimming and cutting\<close>

text \<open>The trimmed character is the space only; the results are views into the same string.\<close>

definition trimEndImpl :: "string \<Rightarrow> view \<Rightarrow> view" where
  "trimEndImpl s v =
     (case v of
        NullView \<Rightarrow> NullView
      | View o' n \<Rightarrow>
          let spaces = length (takeWhile (\<lambda>c. c = CHR '' '') (rev (view_str s v)))
          in if spaces = 0 then v else View o' (n - spaces))"

definition trimStartImpl :: "string \<Rightarrow> view \<Rightarrow> view" where
  "trimStartImpl s v =
     (case v of
        NullView \<Rightarrow> NullView
      | View o' n \<Rightarrow>
          let offset = length (takeWhile (\<lambda>c. c = CHR '' '') (view_str s v))
          in if offset = n then NullView
             else if offset = 0 then v else View (o' + offset) (n - offset))"

definition trimImpl :: "string \<Rightarrow> view \<Rightarrow> view" where
  "trimImpl s v = trimStartImpl s (trimEndImpl s v)"

abbreviation is_space :: "char \<Rightarrow> bool" where
  "is_space c \<equiv> c = CHR '' ''"

definition strip :: "string \<Rightarrow> string" where
  "strip s = dropWhile is_space (rev (dropWhile is_space (rev s)))"

lemma trimEnd_str:
  assumes "view_wf s v"
  shows "view_str s (trimEndImpl s v) = rev (dropWhile is_space (rev (view_str s v)))"
proof (cases v)
  case (View o' n)
  let ?x = "view_str s v"
  have n: "length ?x = n" using assms View by simp
  have "rev (dropWhile is_space (rev ?x)) = take (n - length (takeWhile is_space (rev ?x))) ?x"
    by (simp add: dropWhile_eq_drop rev_drop n)
  then show ?thesis
    using View n by (simp add: trimEndImpl_def Let_def min_absorb1)
qed (simp add: trimEndImpl_def)

lemma trimStart_str:
  assumes "view_wf s v"
  shows "view_str s (trimStartImpl s v) = dropWhile is_space (view_str s v)"
proof (cases v)
  case (View o' n)
  let ?x = "view_str s v"
  have n: "length ?x = n" using assms View by simp
  have "dropWhile is_space ?x = drop (length (takeWhile is_space ?x)) ?x"
    by (rule dropWhile_eq_drop)
  then show ?thesis
    using View n by (auto simp: trimStartImpl_def Let_def drop_take add.commute)
qed (simp add: trimStartImpl_def)

lemma trimEnd_wf: "view_wf s v \<Longrightarrow> view_wf s (trimEndImpl s v)"
  by (cases v) (auto simp: trimEndImpl_def Let_def)

lemma trimStart_wf: "view_wf s v \<Longrightarrow> view_wf s (trimStartImpl s v)"
proof (cases v)
  case (View o' n)
  assume "view_wf s v"
  then have "length (takeWhile is_space (view_str s v)) \<le> n"
    using View length_takeWhile_le [of is_space "view_str s v"] by simp
  then show ?thesis
    using View \<open>view_wf s v\<close> by (auto simp: trimStartImpl_def Let_def)
qed (simp add: trimStartImpl_def)

lemma trim_wf: "view_wf s v \<Longrightarrow> view_wf s (trimImpl s v)"
  by (simp add: trimImpl_def trimEnd_wf trimStart_wf)

lemma trim_str: "view_wf s v \<Longrightarrow> view_str s (trimImpl s v) = strip (view_str s v)"
  by (simp add: trimImpl_def strip_def trimStart_str trimEnd_str trimEnd_wf)

text \<open>A trimmed view stays inside the one it was made from.\<close>

lemma trimEnd_inside: "\<exists>m\<le>n. trimEndImpl s (View o' n) = View o' m"
proof -
  define k where "k = length (takeWhile is_space (rev (view_str s (View o' n))))"
  have "trimEndImpl s (View o' n) = (if k = 0 then View o' n else View o' (n - k))"
    unfolding trimEndImpl_def Let_def view.case k_def by (rule refl)
  then show ?thesis by (cases "k = 0") auto
qed

lemma trimStart_inside:
  assumes "trimStartImpl s (View o' n) = View p m"
  shows "o' \<le> p \<and> p + m = o' + n"
proof -
  define k where "k = length (takeWhile is_space (view_str s (View o' n)))"
  have "k \<le> n"
    unfolding k_def by (rule order_trans [OF length_takeWhile_le]) simp
  moreover have "trimStartImpl s (View o' n) =
      (if k = n then NullView else if k = 0 then View o' n else View (o' + k) (n - k))"
    unfolding trimStartImpl_def Let_def view.case k_def by (rule refl)
  ultimately show ?thesis using assms by (auto split: if_splits)
qed

lemma trim_inside:
  assumes "trimImpl s (View o' n) = View p m"
  shows "o' \<le> p \<and> p + m \<le> o' + n"
proof -
  obtain k where "k \<le> n" "trimEndImpl s (View o' n) = View o' k"
    using trimEnd_inside by blast
  then show ?thesis using assms trimStart_inside [of s o' k p m] by (simp add: trimImpl_def)
qed

definition cut :: "string \<Rightarrow> char \<Rightarrow> string \<times> string" where
  "cut str separator =
     (if length str < 2 then (str, [])
      else (case find_char str separator 0 of
              None \<Rightarrow> (str, [])
            | Some index \<Rightarrow> (take index str, take (length str - index - 1) (drop (index + 1) str))))"

lemma cut_found:
  assumes "a @ [c] @ b \<noteq> [c]" and "c \<notin> set a"
  shows "cut (a @ [c] @ b) c = (a, b)"
proof -
  have "find_index (\<lambda>d. d = c) a = None"
    using assms(2) by (auto simp: find_index_None)
  then have "find_index (\<lambda>d. d = c) (a @ c # b) = Some (length a)"
    by (simp add: find_index_append)
  moreover have "2 \<le> length (a @ [c] @ b)" using assms(1) by (cases a; cases b) auto
  ultimately show ?thesis by (auto simp: cut_def find_char_def)
qed

section \<open>Case-insensitive comparison\<close>

text \<open>
  \<open>lower\<close> and \<open>upper\<close> are \<open>tolower\<close> and \<open>toupper\<close> of the C locale on the unsigned character; \<open>char\<close> is
  signed where characters are compared (as on the x86-64 targets of the build files).
\<close>

definition lower :: "char \<Rightarrow> char" where
  "lower c = (let n = of_char c :: nat in if 65 \<le> n \<and> n \<le> 90 then char_of (n + 32) else c)"

definition upper :: "char \<Rightarrow> char" where
  "upper c = (let n = of_char c :: nat in if 97 \<le> n \<and> n \<le> 122 then char_of (n - 32) else c)"

definition schar :: "char \<Rightarrow> int" where
  "schar c = (let n = of_char c :: nat in if n < 128 then int n else int n - 256)"

fun icaseEqual_loop :: "string \<Rightarrow> string \<Rightarrow> bool" where
  "icaseEqual_loop (c1 # r1) (c2 # r2) = (if lower c1 \<noteq> lower c2 then False else icaseEqual_loop r1 r2)"
| "icaseEqual_loop _ _ = True"

definition icaseEqual :: "string \<Rightarrow> string \<Rightarrow> bool" where
  "icaseEqual s1 s2 = (if length s1 \<noteq> length s2 then False else icaseEqual_loop s1 s2)"

text \<open>\<open>std::mismatch\<close> walks both strings to the first characters that differ.\<close>

fun icaseCompare :: "string \<Rightarrow> string \<Rightarrow> int" where
  "icaseCompare [] [] = 0"
| "icaseCompare [] (_ # _) = -1"
| "icaseCompare (_ # _) [] = 1"
| "icaseCompare (c1 # r1) (c2 # r2) =
     (if lower c1 = lower c2 then icaseCompare r1 r2
      else if schar (lower c1) < schar (lower c2) then -1 else 1)"

definition ci_less :: "string \<Rightarrow> string \<Rightarrow> bool" where
  "ci_less s1 s2 \<longleftrightarrow> icaseCompare s1 s2 < 0"

lemma of_char_lt_256: "(of_char c :: nat) < 256"
  by simp

lemma signed_byte_inj:
  "x < 256 \<Longrightarrow> y < 256 \<Longrightarrow>
     (if x < 128 then int x else int x - 256) = (if y < 128 then int y else int y - 256) \<Longrightarrow> x = y"
  for x y :: nat
  by (auto split: if_splits)

lemma schar_inj: "schar a = schar b \<longleftrightarrow> a = b"
  using signed_byte_inj [OF of_char_lt_256 of_char_lt_256, of a b]
  by (auto simp: schar_def Let_def)

lemma icaseEqual_map: "icaseEqual s t \<longleftrightarrow> map lower s = map lower t"
proof (cases "length s = length t")
  case True
  then have "icaseEqual_loop s t \<longleftrightarrow> map lower s = map lower t"
    by (induction s t rule: list_induct2) auto
  then show ?thesis using True by (simp add: icaseEqual_def)
next
  case False
  then show ?thesis by (auto simp: icaseEqual_def dest: map_eq_imp_length_eq)
qed

lemma icaseCompare_zero: "icaseCompare s t = 0 \<longleftrightarrow> icaseEqual s t"
  unfolding icaseEqual_map by (induction s t rule: icaseCompare.induct) auto

lemma icaseCompare_flip: "icaseCompare t s = - icaseCompare s t"
  by (induction s t rule: icaseCompare.induct) (auto simp: schar_inj dest!: antisym)

lemma icaseCompare_range: "icaseCompare s t \<in> {-1, 0, 1}"
  by (induction s t rule: icaseCompare.induct) auto

lemma icaseCompare_trans:
  "icaseCompare s t \<le> 0 \<Longrightarrow> icaseCompare t u \<le> 0 \<Longrightarrow> icaseCompare s u \<le> 0"
proof (induction s arbitrary: t u)
  case Nil
  then show ?case by (cases u) auto
next
  case (Cons a s)
  then obtain b t' where t: "t = b # t'" by (cases t) auto
  with Cons.prems obtain c u' where u: "u = c # u'" by (cases u) auto
  have "lower b \<noteq> lower c \<Longrightarrow> lower a = lower c \<Longrightarrow> lower a \<noteq> lower b" by auto
  then show ?case
    using Cons.prems Cons.IH [of t' u'] schar_inj [of "lower a" "lower b"]
      schar_inj [of "lower b" "lower c"] schar_inj [of "lower a" "lower c"]
    by (auto simp: t u split: if_splits)
qed

lemma lower_idem [simp]: "lower (lower c) = lower c"
proof (cases "65 \<le> (of_char c :: nat) \<and> (of_char c :: nat) \<le> 90")
  case True
  then have "(of_char (char_of ((of_char c :: nat) + 32) :: char) :: nat) = of_char c + 32"
    by simp
  then show ?thesis using True by (simp add: lower_def Let_def)
next
  case False
  then have "lower c = c" by (auto simp: lower_def Let_def)
  then show ?thesis by simp
qed

section \<open>Booleans as text\<close>

definition lexicalCast_bool :: "string \<Rightarrow> bool" where
  "lexicalCast_bool str =
     (if icaseEqual str ''true'' then True
      else if icaseEqual str ''false'' then False else False)"

definition lexicalCast_of_bool :: "bool \<Rightarrow> string" where
  "lexicalCast_of_bool value = (if value then ''true'' else ''false'')"

section \<open>Properties\<close>

text \<open>
  C39. Iterating \<open>strings::Split(s, sep)\<close> ends, and the pieces it yields are those between the
  separators, empty ones at both ends included (none at all for the empty string); with a single
  separator, joining the pieces gives the string back.
\<close>

theorem Split_exact:
  "Split s sep = (if s = [] then [] else pieces (\<lambda>c. c \<in> set sep) s) \<and> join [c] (Split s [c]) = s"
proof (cases "s = []")
  case True
  then show ?thesis by (simp add: Split_pieces)
next
  case False
  then show ?thesis using seq.split_join [OF False] by (simp add: Split_pieces)
qed

text \<open>
  Collecting the pieces of \<open>kernel_detail::SplitNext\<close> ends too, but gives one piece less than
  \<open>Split\<close> exactly when the string ends in a separator that is its only character or follows another
  separator: the last, empty piece is taken for the end of the string.
\<close>

theorem SplitNext_loses_last_piece:
  "SplitNext_all s NullView seps =
     (if drops_last (\<lambda>c. c \<in> set seps) s then butlast (Split s seps) else Split s seps)"
  by (auto simp: SplitNext_all_pieces Split_pieces next_pieces_def drops_last_def)

text \<open>
  The comparison behind \<open>CiStringComparer\<close> is a total preorder that ignores case: it is 0 exactly
  on strings \<open>icaseEqual\<close> accepts, swapping the arguments negates it, and \<open>\<le> 0\<close> is transitive, so the
  comparer is a strict weak ordering.
\<close>

theorem icaseCompare_ordering:
  assumes "\<not> ci_less t s" and "\<not> ci_less u t"
  shows "\<not> ci_less u s \<and> icaseCompare t s = - icaseCompare s t \<and>
    (icaseCompare s t = 0 \<longleftrightarrow> icaseEqual s t)"
proof -
  have "icaseCompare s u \<le> 0"
    by (rule icaseCompare_trans [of s t u])
      (use assms icaseCompare_flip [of s t] icaseCompare_flip [of t u] in \<open>simp_all add: ci_less_def\<close>)
  then have "\<not> ci_less u s" using icaseCompare_flip [of s u] by (simp add: ci_less_def)
  then show ?thesis using icaseCompare_flip icaseCompare_zero by blast
qed

theorem icaseCompare_ordering_witness:
  "\<not> ci_less ''b'' ''A'' \<and> \<not> ci_less ''C'' ''b'' \<and> \<not> ci_less ''C'' ''A''"
proof -
  have h: "\<not> ci_less ''b'' ''A''" "\<not> ci_less ''C'' ''b''" by code_simp+
  then show ?thesis using icaseCompare_ordering [OF h] by blast
qed

end
