(* ===== verification/FsPath.thy ===== *)
theory FsPath
  imports Strings
begin

text \<open>
  \<open>engine/kernel/src/io/fs_path.cpp\<close> and \<open>engine/kernel/include/my/io/fs_path.h\<close>.  A path is its string
  \<open>m_path\<close>.  The constructors bring the string into the preferred form (\<open>makePreferredPathString\<close>);
  assignment copies it verbatim.  The lemmas characterise the preferred form, show that the
  element-wise \<open>operator==\<close> decides equality of the strings (so it agrees with the hash and with
  \<open>operator<=>\<close>), that parent and name, and stem and extension, put a path together again, and what
  \<open>getRelativePath\<close> computes, for the root as a base included.
\<close>

type_synonym fs_path = string

named_theorems path_simps \<open>rewrite rules for preferred path strings\<close>

abbreviation slash :: char where
  "slash \<equiv> CHR ''/''"

section \<open>The preferred form\<close>

fun erase_leading_spaces :: "string \<Rightarrow> string" where
  "erase_leading_spaces [] = []"
| "erase_leading_spaces (c # cs) = (if c = CHR '' '' then erase_leading_spaces cs else c # cs)"

function erase_trailing_spaces :: "string \<Rightarrow> string" where
  "erase_trailing_spaces s =
     (if s \<noteq> [] \<and> ends_with s '' '' then erase_trailing_spaces (take (length s - 1) s) else s)"
  by pat_completeness auto
termination
  by (relation "measure length") auto

declare erase_trailing_spaces.simps [simp del]

definition replace_backslashes :: "string \<Rightarrow> string" where
  "replace_backslashes = map (\<lambda>c. if c = CHR 0x5C then slash else c)"

text \<open>\<open>while ((p = find("//", p)) != npos) replace(p, 2, "/", 1)\<close>.\<close>

function remove_double_slashes :: "string \<Rightarrow> nat \<Rightarrow> string" where
  "remove_double_slashes s p =
     (case find_str s ''//'' p of
        None \<Rightarrow> s
      | Some q \<Rightarrow> remove_double_slashes (take q s @ ''/'' @ drop (q + 2) s) q)"
  by pat_completeness auto
termination
proof (relation "measure (\<lambda>(s, p). length s)")
  fix s p q
  assume "find_str s ''//'' p = Some q"
  then have "q + 2 \<le> length s"
    by (auto simp: find_str_def split: if_splits dest!: find_sub_Some)
  then show "((take q s @ ''/'' @ drop (q + 2) s, q), (s, p)) \<in> measure (\<lambda>(s, p). length s)"
    by simp
qed simp

declare remove_double_slashes.simps [simp del]

definition makePreferredPathString :: "string \<Rightarrow> string" where
  "makePreferredPathString pathString =
     (let s = erase_trailing_spaces (erase_leading_spaces pathString)
      in if s = [] then []
         else let t = remove_double_slashes (replace_backslashes s) 0
              in if length t > 1 \<and> ends_with t ''/'' then take (length t - 1) t else t)"

text \<open>What the loops compute, structurally.\<close>

fun squeeze :: "string \<Rightarrow> string" where
  "squeeze (a # b # s) = (if a = slash \<and> b = slash then squeeze (b # s) else a # squeeze (b # s))"
| "squeeze s = s"

lemma erase_leading_dropWhile [path_simps]: "erase_leading_spaces s = dropWhile is_space s"
  by (induction s) auto

lemma erase_trailing_dropWhile [path_simps]:
  "erase_trailing_spaces s = rev (dropWhile is_space (rev s))"
proof (induction s rule: rev_induct)
  case Nil
  then show ?case by (simp add: erase_trailing_spaces.simps)
next
  case (snoc c s)
  then show ?case by (subst erase_trailing_spaces.simps) (auto simp: ends_with_def starts_with_def)
qed

lemma squeeze_find:
  "find_sub ''//'' t = Some i \<Longrightarrow>
     squeeze t = take i t @ squeeze (slash # drop (i + 2) t)"
proof (induction t arbitrary: i rule: squeeze.induct)
  case (1 a b s)
  show ?case
  proof (cases "a = slash \<and> b = slash")
    case True
    then show ?thesis using 1 by (auto simp: starts_with_def)
  next
    case False
    then have "\<not> starts_with (a # b # s) ''//''" by (auto simp: starts_with_def)
    then obtain j where "i = Suc j" "find_sub ''//'' (b # s) = Some j"
      using 1 by (auto simp del: find_sub.simps(2) simp: find_sub.simps(2) [of _ a])
    then show ?thesis using 1 False by auto
  qed
qed (auto simp: starts_with_def split: if_splits)

lemma squeeze_none: "find_sub ''//'' t = None \<Longrightarrow> squeeze t = t"
  by (induction t rule: squeeze.induct) (auto simp: starts_with_def split: if_splits)

lemma remove_double_slashes_from:
  "p \<le> length s \<Longrightarrow> remove_double_slashes s p = take p s @ squeeze (drop p s)"
proof (induction s p rule: remove_double_slashes.induct)
  case (1 s p)
  show ?case
  proof (cases "find_sub ''//'' (drop p s)")
    case None
    then have "find_str s ''//'' p = None" using "1.prems" by (simp add: find_str_def)
    then show ?thesis using None by (simp add: remove_double_slashes.simps [of s] squeeze_none)
  next
    case (Some i)
    then have q: "find_str s ''//'' p = Some (p + i)"
      using "1.prems" by (simp add: find_str_def)
    have len: "p + i + 2 \<le> length s"
    proof -
      have "i + 2 \<le> length s - p" using find_sub_Some [OF Some] by simp
      then show ?thesis using "1.prems" by linarith
    qed
    let ?s' = "take (p + i) s @ ''/'' @ drop (p + i + 2) s"
    have parts: "take (p + i) ?s' = take (p + i) s" "drop (p + i) ?s' = slash # drop (p + i + 2) s"
      using len by simp_all
    have rest: "drop (p + i + 2) s = drop (i + 2) (drop p s)"
      by (simp add: ac_simps)
    have "remove_double_slashes s p = remove_double_slashes ?s' (p + i)"
      by (simp add: remove_double_slashes.simps [of s p] q)
    also have "\<dots> = take (p + i) ?s' @ squeeze (drop (p + i) ?s')"
      using "1.IH" [OF q] len by simp
    also have "\<dots> = take p s @ take i (drop p s) @ squeeze (slash # drop (i + 2) (drop p s))"
      unfolding parts unfolding rest by (simp only: take_add append_assoc)
    finally show ?thesis by (simp only: squeeze_find [OF Some])
  qed
qed

lemma remove_double_slashes_squeeze [path_simps]: "remove_double_slashes s 0 = squeeze s"
  by (simp add: remove_double_slashes_from)

definition strip_final_slash :: "string \<Rightarrow> string" where
  "strip_final_slash t = (if length t > 1 \<and> last t = slash then butlast t else t)"

lemma preferred_eq:
  "makePreferredPathString s =
     strip_final_slash (squeeze (replace_backslashes (rev (dropWhile is_space (rev (dropWhile is_space s))))))"
proof -
  define t where "t = rev (dropWhile is_space (rev (dropWhile is_space s)))"
  have ne: "u \<noteq> [] \<Longrightarrow> squeeze u \<noteq> []" for u
    by (induction u rule: squeeze.induct) auto
  have final: "(if length u > 1 \<and> ends_with u ''/'' then take (length u - 1) u else u) = strip_final_slash u"
    if "u \<noteq> []" for u
    using that by (simp add: strip_final_slash_def butlast_conv_take)
  have eq: "makePreferredPathString s = (if t = [] then []
      else let u = squeeze (replace_backslashes t)
           in if length u > 1 \<and> ends_with u ''/'' then take (length u - 1) u else u)"
    unfolding makePreferredPathString_def path_simps t_def [symmetric] Let_def by (rule refl)
  show ?thesis
  proof (cases "t = []")
    case True
    then show ?thesis
      by (simp add: eq t_def [symmetric] replace_backslashes_def strip_final_slash_def)
  next
    case False
    then have "squeeze (replace_backslashes t) \<noteq> []"
      by (intro ne) (simp add: replace_backslashes_def)
    then show ?thesis
      using False final by (simp only: eq Let_def if_False t_def [symmetric])
  qed
qed

subsection \<open>Canonical strings\<close>

fun no_double :: "string \<Rightarrow> bool" where
  "no_double (a # b # s) \<longleftrightarrow> \<not> (a = slash \<and> b = slash) \<and> no_double (b # s)"
| "no_double s \<longleftrightarrow> True"

definition canonical :: "string \<Rightarrow> bool" where
  "canonical s \<longleftrightarrow> s = [] \<or>
     hd s \<noteq> CHR '' '' \<and> last s \<noteq> CHR '' '' \<and> CHR 0x5C \<notin> set s \<and> no_double s \<and>
     (last s = slash \<longrightarrow> s = ''/'')"

lemma squeeze_id: "no_double s \<Longrightarrow> squeeze s = s"
  by (induction s rule: squeeze.induct) auto

lemma squeeze_hd: "s \<noteq> [] \<Longrightarrow> squeeze s \<noteq> [] \<and> hd (squeeze s) = hd s"
  by (induction s rule: squeeze.induct) auto

lemma squeeze_no_double: "no_double (squeeze s)"
proof (induction s rule: squeeze.induct)
  case (1 a b s)
  then show ?case
    using squeeze_hd [of "b # s"] by (cases "squeeze (b # s)") auto
qed auto

lemma squeeze_last: "s \<noteq> [] \<Longrightarrow> last (squeeze s) = last s"
  by (induction s rule: squeeze.induct) (use squeeze_hd in auto)

lemma squeeze_set: "set (squeeze s) \<subseteq> set s"
  by (induction s rule: squeeze.induct) auto

lemma squeeze_length: "length (squeeze s) \<le> length s"
  by (induction s rule: squeeze.induct) auto

lemma no_double_append1: "no_double (s @ t) \<Longrightarrow> no_double s"
  by (induction s rule: no_double.induct) (auto simp: neq_Nil_conv)

lemma no_double_append:
  "no_double (s @ t) \<longleftrightarrow> no_double s \<and> no_double t \<and>
     \<not> (s \<noteq> [] \<and> t \<noteq> [] \<and> last s = slash \<and> hd t = slash)"
proof (induction s rule: no_double.induct, goal_cases)
  case (3 v)
  then show ?case by (cases t) auto
qed auto

lemma butlast_no_double: "no_double s \<Longrightarrow> no_double (butlast s)"
  by (cases s rule: rev_cases) (auto dest: no_double_append1)

lemma no_double_final:
  assumes "no_double t" and "length t > 1" and "last t = slash"
  shows "last (butlast t) \<noteq> slash"
proof -
  have ne: "butlast t \<noteq> []"
    using assms(2) by (cases t) auto
  have t: "butlast t @ [slash] = t"
    using assms(2,3) append_butlast_last_id [of t] by force
  then have "no_double (butlast t @ [slash])" using assms by simp
  then show ?thesis using ne by (simp add: no_double_append)
qed

lemma canonical_id: "canonical s \<Longrightarrow> makePreferredPathString s = s"
proof (cases "s = []")
  case True
  then show ?thesis by (simp add: preferred_eq replace_backslashes_def strip_final_slash_def)
next
  case False
  assume c: "canonical s"
  then have "dropWhile is_space s = s" "dropWhile is_space (rev s) = rev s"
    using False by (auto simp: canonical_def dropWhile_eq_self_iff hd_rev)
  moreover have "replace_backslashes s = s"
    using c False by (auto simp: canonical_def replace_backslashes_def intro!: map_idI)
  moreover have "squeeze s = s" using c False by (auto simp: canonical_def squeeze_id)
  moreover have "strip_final_slash s = s"
    using c False by (auto simp: canonical_def strip_final_slash_def)
  ultimately show ?thesis by (simp add: preferred_eq)
qed

text \<open>What every preferred string satisfies; a space may stay at its end.\<close>

definition preferred :: "string \<Rightarrow> bool" where
  "preferred r \<longleftrightarrow> r = [] \<or>
     hd r \<noteq> CHR '' '' \<and> CHR 0x5C \<notin> set r \<and> no_double r \<and> (last r = slash \<longrightarrow> r = ''/'')"

lemma canonical_preferred: "canonical r \<longleftrightarrow> preferred r \<and> (r \<noteq> [] \<longrightarrow> last r \<noteq> CHR '' '')"
  by (auto simp: canonical_def preferred_def)

lemma makePreferred_preferred: "preferred (makePreferredPathString s)"
proof -
  define t where "t = rev (dropWhile is_space (rev (dropWhile is_space s)))"
  define u where "u = squeeze (replace_backslashes t)"
  show ?thesis
  proof (cases "t = []")
    case True
    then show ?thesis
      by (simp add: preferred_eq t_def [symmetric] replace_backslashes_def strip_final_slash_def preferred_def)
  next
    case False
    have "hd t \<noteq> CHR '' ''"
    proof -
      have "dropWhile is_space s \<noteq> []"
        using False by (metis dropWhile.simps(1) rev.simps(1) t_def)
      then have "hd (dropWhile is_space s) \<noteq> CHR '' ''" by (rule hd_dropWhile_not)
      moreover have "\<exists>r. dropWhile is_space s = t @ r"
        using takeWhile_dropWhile_id [of is_space "rev (dropWhile is_space s)"]
        by (metis rev_append rev_rev_ident t_def)
      ultimately show ?thesis using False by (metis hd_append2)
    qed
    then have hd_u: "u \<noteq> []" "hd u \<noteq> CHR '' ''"
      using False squeeze_hd [of "replace_backslashes t"]
      by (auto simp: u_def replace_backslashes_def hd_map split: if_splits)
    have bs: "CHR 0x5C \<notin> set u"
      using squeeze_set [of "replace_backslashes t"]
      by (auto simp: u_def replace_backslashes_def split: if_splits)
    have nd: "no_double u" by (simp add: u_def squeeze_no_double)
    have r: "makePreferredPathString s = strip_final_slash u"
      by (simp add: preferred_eq t_def u_def)
    show ?thesis
    proof (cases "length u > 1 \<and> last u = slash")
      case True
      then have "butlast u \<noteq> []" "hd (butlast u) = hd u"
        by (cases u; auto)+
      then show ?thesis
        using True hd_u bs nd no_double_final [OF nd]
        by (auto simp: r strip_final_slash_def preferred_def butlast_no_double dest: in_set_butlastD)
    next
      case False
      then show ?thesis
        using hd_u bs nd by (cases u) (auto simp: r strip_final_slash_def preferred_def)
    qed
  qed
qed

lemma makePreferred_length:
  "length (makePreferredPathString s) \<le> length s"
proof -
  define t where "t = rev (dropWhile is_space (rev (dropWhile is_space s)))"
  have "length t \<le> length s"
    unfolding t_def by (simp add: length_dropWhile_le le_trans [OF length_dropWhile_le])
  moreover have "length (strip_final_slash u) \<le> length u" for u
    by (simp add: strip_final_slash_def)
  ultimately show ?thesis
    unfolding preferred_eq t_def [symmetric]
    using squeeze_length [of "replace_backslashes t"]
    by (metis (no_types, lifting) le_trans length_map replace_backslashes_def)
qed

lemma makePreferred_trailing_space:
  assumes "s \<noteq> []" and "last s = CHR '' ''"
  shows "length (makePreferredPathString s) < length s"
proof -
  obtain s' where s: "s = s' @ '' ''" using assms by (metis append_butlast_last_id)
  have "dropWhile is_space (rev (dropWhile is_space s)) = dropWhile is_space (rev (dropWhile is_space s'))"
    by (cases "dropWhile is_space s'") (simp_all add: s dropWhile_snoc del: dropWhile_eq_Nil_conv)
  then have "makePreferredPathString s = makePreferredPathString s'"
    by (simp add: preferred_eq)
  then show ?thesis using makePreferred_length [of s'] s by simp
qed

lemma makePreferred_fixed_iff: "makePreferredPathString s = s \<longleftrightarrow> canonical s"
proof
  assume eq: "makePreferredPathString s = s"
  then have "preferred s" using makePreferred_preferred [of s] by simp
  moreover have "s \<noteq> [] \<Longrightarrow> last s \<noteq> CHR '' ''"
    using makePreferred_trailing_space [of s] eq by force
  ultimately show "canonical s" by (simp add: canonical_preferred)
qed (rule canonical_id)

section \<open>Construction, comparison, queries\<close>

text \<open>
  Every constructor normalises, the copy and move constructors too (with copy elision no constructor
  runs for a returned temporary); \<open>operator=\<close> copies \<open>m_path\<close> as it is.
\<close>

definition FsPath_from :: "string \<Rightarrow> fs_path" where
  "FsPath_from str = makePreferredPathString str"

definition FsPath_copy :: "fs_path \<Rightarrow> fs_path" where
  "FsPath_copy other = makePreferredPathString other"

definition FsPath_assign :: "fs_path \<Rightarrow> fs_path" where
  "FsPath_assign other = other"

definition isAbsolute :: "fs_path \<Rightarrow> bool" where
  "isAbsolute p \<longleftrightarrow> starts_with p ''/''"

definition isEmpty :: "fs_path \<Rightarrow> bool" where
  "isEmpty p \<longleftrightarrow> p = []"

definition isRelative :: "fs_path \<Rightarrow> bool" where
  "isRelative p \<longleftrightarrow> \<not> isEmpty p \<and> \<not> isAbsolute p"

definition getString :: "fs_path \<Rightarrow> string" where
  "getString p = p"

definition getHashCode :: "(string \<Rightarrow> nat) \<Rightarrow> fs_path \<Rightarrow> nat" where
  "getHashCode std_hash p = (if p = [] then 0 else std_hash p)"

definition splitElements :: "fs_path \<Rightarrow> split_iter" where
  "splitElements p = split_begin p ''/''"

text \<open>The loop of \<open>operator==\<close>, on the two iterators.\<close>

function path_eq_loop :: "split_iter \<Rightarrow> split_iter \<Rightarrow> bool" where
  "path_eq_loop iter1 iter2 =
     (if \<not> iter_eq iter1 split_end \<and> \<not> iter_eq iter2 split_end then
        if iter_deref iter1 \<noteq> iter_deref iter2 then False
        else path_eq_loop (advance iter1) (advance iter2)
      else iter_eq iter1 split_end \<and> iter_eq iter2 split_end)"
  by pat_completeness auto
termination
  by (relation "measure (\<lambda>(a, b). iter_left a)") (auto simp: iter_eq_end intro: advance_less)

declare path_eq_loop.simps [simp del]

definition FsPath_eq :: "fs_path \<Rightarrow> fs_path \<Rightarrow> bool" where
  "FsPath_eq p q =
     (if isEmpty p \<and> isEmpty q then True
      else if p = ''/'' \<or> q = ''/'' then p = q
      else path_eq_loop (splitElements p) (splitElements q))"

lemma iterate_step:
  "iterate it = (if iter_eq it split_end then [] else iter_deref it # iterate (advance it))"
  by (rule iterate.simps)

lemma path_eq_loop_iterate: "path_eq_loop a b \<longleftrightarrow> iterate a = iterate b"
proof (induction a b rule: path_eq_loop.induct)
  case (1 a b)
  then show ?case
    by (simp add: path_eq_loop.simps [of a b] iterate_step [of a] iterate_step [of b])
qed

lemma iterate_splitElements [path_simps]: "iterate (splitElements p) = Split p ''/''"
  by (simp add: splitElements_def Split_def)

lemma FsPath_eq_iff: "FsPath_eq p q \<longleftrightarrow> p = q"
  by (auto simp: FsPath_eq_def isEmpty_def path_eq_loop_iterate path_simps seq.split_inj)

section \<open>Appending\<close>

fun skip_leading_slashes :: "string \<Rightarrow> string" where
  "skip_leading_slashes [] = []"
| "skip_leading_slashes (c # cs) = (if c = slash then skip_leading_slashes cs else c # cs)"

function skip_trailing_slashes :: "string \<Rightarrow> string" where
  "skip_trailing_slashes s =
     (if ends_with s ''/'' then skip_trailing_slashes (take (length s - 1) s) else s)"
  by pat_completeness auto
termination
  by (relation "measure length") auto

declare skip_trailing_slashes.simps [simp del]

definition appendInternal :: "fs_path \<Rightarrow> string \<Rightarrow> fs_path" where
  "appendInternal p name =
     (let name' = skip_trailing_slashes (skip_leading_slashes name);
          p' = (if name' \<noteq> [] then
                  if p = [] then name'
                  else if ends_with p ''/'' then p @ name'
                  else p @ ''/'' @ name'
                else p)
      in makePreferredPathString p')"

definition concatInternal :: "fs_path \<Rightarrow> string \<Rightarrow> fs_path" where
  "concatInternal p str = makePreferredPathString (if str \<noteq> [] then p @ str else p)"

definition makeAbsolute :: "fs_path \<Rightarrow> fs_path" where
  "makeAbsolute p =
     makePreferredPathString
       (if p = [] then ''/'' else if \<not> starts_with p ''/'' then slash # p else p)"

lemma skip_slashes_id:
  assumes "slash \<notin> set s"
  shows "skip_trailing_slashes (skip_leading_slashes s) = s"
proof -
  have "skip_leading_slashes s = s" using assms by (cases s) auto
  moreover have "skip_trailing_slashes s = s"
  proof -
    have "\<not> ends_with s ''/''"
      using assms last_notin [of slash s] by auto
    then show ?thesis by (auto simp: skip_trailing_slashes.simps [of s])
  qed
  ultimately show ?thesis by simp
qed

text \<open>A path element that appending keeps as it is.\<close>

definition elem_ok :: "string \<Rightarrow> bool" where
  "elem_ok e \<longleftrightarrow> e \<noteq> [] \<and> hd e \<noteq> CHR '' '' \<and> last e \<noteq> CHR '' '' \<and> slash \<notin> set e \<and> CHR 0x5C \<notin> set e"

lemma no_double_free: "slash \<notin> set s \<Longrightarrow> no_double s"
  by (induction s rule: no_double.induct) auto

lemma elem_ok_canonical: "elem_ok e \<Longrightarrow> canonical e"
  using last_notin [of slash e] by (auto simp: elem_ok_def canonical_def no_double_free)

lemma canonical_extend:
  assumes "canonical p" and "p \<noteq> []" and "p \<noteq> ''/''" and "elem_ok e"
  shows "canonical (p @ slash # e)"
proof -
  have "last p \<noteq> slash" using assms(1-3) by (auto simp: canonical_def)
  moreover have "hd e \<noteq> slash" "last e \<noteq> slash"
    using assms(4) hd_notin [of slash e] last_notin [of slash e] by (auto simp: elem_ok_def)
  ultimately show ?thesis
    using assms no_double_append [of p "slash # e"] no_double_append [of "[slash]" e]
    by (auto simp: canonical_def elem_ok_def no_double_free)
qed

lemma append_elem:
  assumes "canonical p" and "p \<noteq> ''/''" and "elem_ok e"
  shows "appendInternal p e = (if p = [] then e else p @ slash # e)"
proof -
  have free: "slash \<notin> set e" "e \<noteq> []" using assms(3) by (auto simp: elem_ok_def)
  have "p \<noteq> [] \<Longrightarrow> last p \<noteq> slash" using assms(1,2) by (auto simp: canonical_def)
  then show ?thesis
    using assms free canonical_extend [OF assms(1) _ assms(2,3)] elem_ok_canonical [OF assms(3)]
    by (auto simp: appendInternal_def Let_def skip_slashes_id canonical_id)
qed

lemma join_elems:
  "list_all elem_ok ds \<Longrightarrow>
     canonical (join ''/'' ds) \<and> join ''/'' ds \<noteq> ''/'' \<and> (join ''/'' ds = [] \<longleftrightarrow> ds = [])"
proof (induction ds rule: rev_induct)
  case Nil
  then show ?case by (simp add: canonical_def)
next
  case (snoc d ds)
  then have ok: "elem_ok d" by simp
  then have "d \<noteq> []" "d \<noteq> ''/''" by (auto simp: elem_ok_def)
  then show ?case
    using snoc ok elem_ok_canonical [OF ok] canonical_extend [of "join ''/'' ds" d]
    by (auto simp: join_snoc append_eq_Cons_conv)
qed

lemma append_elems:
  "list_all elem_ok ds \<Longrightarrow> list_all elem_ok es \<Longrightarrow>
     foldl appendInternal (join ''/'' ds) es = join ''/'' (ds @ es)"
proof (induction es arbitrary: ds)
  case (Cons e es)
  have "appendInternal (join ''/'' ds) e = join ''/'' (ds @ [e])"
    using Cons.prems join_elems [of ds] by (auto simp: append_elem join_snoc)
  then show ?case using Cons.IH [of "ds @ [e]"] Cons.prems by simp
qed simp

section \<open>Relative paths\<close>

text \<open>
  The common prefix loop of \<open>getRelativePath\<close> (\<open>None\<close> where it returns the empty path), then the
  remaining elements appended one by one.
\<close>

function skip_base :: "split_iter \<Rightarrow> split_iter \<Rightarrow> split_iter option" where
  "skip_base elementIter otherElementIter =
     (if \<not> iter_eq elementIter split_end \<and> \<not> iter_eq otherElementIter split_end then
        if iter_deref elementIter \<noteq> iter_deref otherElementIter then None
        else skip_base (advance elementIter) (advance otherElementIter)
      else Some elementIter)"
  by pat_completeness auto
termination
  by (relation "measure (\<lambda>(a, b). iter_left a)") (auto simp: iter_eq_end intro: advance_less)

declare skip_base.simps [simp del]

definition getRelativePath :: "fs_path \<Rightarrow> fs_path \<Rightarrow> fs_path" where
  "getRelativePath p base =
     (case skip_base (splitElements p) (splitElements base) of
        None \<Rightarrow> []
      | Some it \<Rightarrow> foldl appendInternal [] (iterate it))"

text \<open>The same on the lists of elements.\<close>

fun strip_base :: "string list \<Rightarrow> string list \<Rightarrow> string list option" where
  "strip_base (x # xs) (y # ys) = (if x \<noteq> y then None else strip_base xs ys)"
| "strip_base xs ys = Some xs"

lemma skip_base_strip: "map_option iterate (skip_base a b) = strip_base (iterate a) (iterate b)"
proof (induction a b rule: skip_base.induct)
  case (1 a b)
  then show ?case
    by (cases "iterate b")
      (auto simp: skip_base.simps [of a b] iterate_step [of a] iterate_step [of b])
qed

lemma getRelativePath_elems:
  "getRelativePath p base =
     (case strip_base (Split p ''/'') (Split base ''/'') of
        None \<Rightarrow> [] | Some es \<Rightarrow> foldl appendInternal [] es)"
proof -
  have "strip_base (Split p ''/'') (Split base ''/'') =
      map_option iterate (skip_base (splitElements p) (splitElements base))"
    by (simp add: skip_base_strip path_simps)
  then show ?thesis
    by (cases "skip_base (splitElements p) (splitElements base)")
      (auto simp: getRelativePath_def)
qed

lemma strip_base_append [simp]: "strip_base (bs @ es) bs = Some es"
  by (induction bs) auto

lemma Split_slash_append:
  "b \<noteq> [] \<Longrightarrow> r \<noteq> [] \<Longrightarrow> Split (b @ slash # r) ''/'' = Split b ''/'' @ Split r ''/''"
  by (simp add: Split_pieces pieces_append_sep)

lemma Split_join_elems:
  assumes "list_all elem_ok es"
  shows "Split (join ''/'' es) ''/'' = es"
  using assms
proof (induction es rule: induct_list012)
  case (3 e f es)
  have free: "Split e ''/'' = [e]" "e \<noteq> []"
    using 3 by (auto simp: elem_ok_def intro: seq.split_separator_free)
  have "join ''/'' (f # es) \<noteq> []" using 3 join_elems [of "f # es"] by simp
  then show ?case using 3 free by (simp add: Split_slash_append)
next
  case (2 e)
  then show ?case by (auto simp: Split_pieces elem_ok_def intro!: pieces_no_sep)
qed (simp add: Split_pieces)

lemma getRelativePath_join:
  assumes "b \<noteq> []" and "list_all elem_ok es" and "es \<noteq> []"
  shows "getRelativePath (b @ slash # join ''/'' es) b = join ''/'' es"
proof -
  have "join ''/'' es \<noteq> []" using assms join_elems by blast
  then show ?thesis
    using assms append_elems [of "[]" es]
    by (simp add: getRelativePath_elems Split_slash_append Split_join_elems)
qed

lemma getRelativePath_root:
  assumes "preferred p"
  shows "getRelativePath p ''/'' = []"
proof -
  have root: "Split ''/'' ''/'' = [[], []]" by (simp add: Split_pieces)
  consider "p = []" | "p = ''/''" | c q where "p = c # q" "c \<noteq> slash"
    | c q where "p = slash # c # q" "c \<noteq> slash"
    using assms by (cases p rule: no_double.cases) (auto simp: preferred_def)
  then show ?thesis
  proof cases
    case 3
    obtain x xs where "pieces (\<lambda>c. c = slash) q = x # xs"
      by (cases "pieces (\<lambda>c. c = slash) q") auto
    with 3 show ?thesis by (simp add: getRelativePath_elems Split_pieces)
  next
    case 4
    obtain x xs where "pieces (\<lambda>c. c = slash) q = x # xs"
      by (cases "pieces (\<lambda>c. c = slash) q") auto
    with 4 show ?thesis by (simp add: getRelativePath_elems Split_pieces)
  qed (simp_all add: getRelativePath_elems Split_pieces)
qed

section \<open>Decomposition\<close>

definition getRootPath :: "fs_path \<Rightarrow> string" where
  "getRootPath p =
     (if p = [] then []
      else let separatorIndex = (if starts_with p ''/'' then find_char p slash 1 else find_char p slash 0)
           in if separatorIndex = Some 0 then ''/''
              else (case separatorIndex of None \<Rightarrow> [] | Some i \<Rightarrow> take i p))"

definition getParentPath :: "fs_path \<Rightarrow> fs_path" where
  "getParentPath p =
     (if p = [] then []
      else case rfind_char p slash of
             Some 0 \<Rightarrow> makePreferredPathString ''/''
           | None \<Rightarrow> []
           | Some i \<Rightarrow> makePreferredPathString (take i p))"

definition getName :: "fs_path \<Rightarrow> string" where
  "getName p =
     (case rfind_char p slash of
        None \<Rightarrow> p
      | Some separatorIndex \<Rightarrow> take (length p - (separatorIndex + 1)) (drop (separatorIndex + 1) p))"

definition getExtension :: "fs_path \<Rightarrow> string" where
  "getExtension p =
     (let fileName = getName p
      in if fileName = [] \<or> fileName = ''.'' \<or> fileName = ''..'' then []
         else case rfind_char fileName CHR ''.'' of
                None \<Rightarrow> []
              | Some dotIndex \<Rightarrow>
                  if dotIndex = 0 then []
                  else take (length fileName - dotIndex) (drop dotIndex fileName))"

definition getStem :: "fs_path \<Rightarrow> string" where
  "getStem p =
     (let fileName = getName p
      in if fileName = [] \<or> fileName = ''.'' \<or> fileName = ''..'' then fileName
         else case rfind_char fileName CHR ''.'' of
                None \<Rightarrow> fileName
              | Some dotIndex \<Rightarrow> if dotIndex = 0 then fileName else take dotIndex fileName)"

text \<open>
  \<open>replace_extension\<close> formats the replacement through \<open>getCStr()\<close>, so up to its first NUL; an absent
  separator or dot is \<open>npos\<close>, the largest \<open>size_t\<close>.
\<close>

definition replace_extension :: "fs_path \<Rightarrow> fs_path \<Rightarrow> fs_path" where
  "replace_extension p replacement =
     (let separatorIndex = rfind_char p slash;
          dotIndex = rfind_char p CHR ''.'';
          ext = takeWhile (\<lambda>c. c \<noteq> CHR 0x00) replacement
      in if (case separatorIndex of None \<Rightarrow> True
             | Some i \<Rightarrow> (case dotIndex of None \<Rightarrow> True | Some d \<Rightarrow> i < d))
         then makePreferredPathString
                ((case dotIndex of None \<Rightarrow> p | Some d \<Rightarrow> take d p) @ ''.'' @ ext)
         else makePreferredPathString (p @ ''.'' @ ext))"

definition path_parse :: "string \<Rightarrow> fs_path" where
  "path_parse str = FsPath_assign (FsPath_from str)"

definition path_toString :: "fs_path \<Rightarrow> string" where
  "path_toString p = getString p"

lemma rfind_char_Some:
  "rfind_char p c = Some i \<longleftrightarrow> i < length p \<and> p ! i = c \<and> c \<notin> set (drop (i + 1) p)"
proof (induction p rule: rev_induct)
  case (snoc d p)
  show ?case
  proof (cases "d = c")
    case True
    then show ?thesis
      by (auto simp: rfind_char_def nth_append)
  next
    case False
    have "rfind_char (p @ [d]) c = rfind_char p c"
      using False by (cases "find_index (\<lambda>d. d = c) (rev p)") (auto simp: rfind_char_def dest: find_index_less)
    then show ?thesis using False snoc by (auto simp: nth_append less_Suc_eq)
  qed
qed (simp add: rfind_char_def)

lemma rfind_char_None: "rfind_char p c = None \<longleftrightarrow> c \<notin> set p"
  by (auto simp: rfind_char_def find_index_None)

lemma rfind_split:
  "rfind_char p c = Some i \<Longrightarrow> p = take i p @ c # drop (i + 1) p"
  by (auto simp: rfind_char_Some id_take_nth_drop)

lemma stem_extension: "getStem p @ getExtension p = getName p"
  by (auto simp: getStem_def getExtension_def Let_def split: option.splits)

lemma parent_name:
  assumes "canonical p" and "p \<noteq> []" and "p \<noteq> ''/''"
    and "\<And>i. rfind_char p slash = Some i \<Longrightarrow> i > 0 \<Longrightarrow> p ! (i - 1) \<noteq> CHR '' ''"
  shows "appendInternal (getParentPath p) (getName p) = p"
proof (cases "rfind_char p slash")
  case None
  then have "slash \<notin> set p" by (simp add: rfind_char_None)
  then show ?thesis
    using None assms by (simp add: getParentPath_def getName_def appendInternal_def skip_slashes_id canonical_id)
next
  case (Some i)
  define n where "n = drop (i + 1) p"
  have split: "p = take i p @ slash # n" using Some rfind_split n_def by blast
  have i: "i < length p" "slash \<notin> set n" using Some by (auto simp: rfind_char_Some n_def)
  have name: "getName p = n" by (simp add: getName_def Some n_def)
  have "n \<noteq> []"
  proof
    assume "n = []"
    then have "last p = slash" by (metis last_snoc split)
    then show False using assms by (auto simp: canonical_def)
  qed
  show ?thesis
  proof (cases "i = 0")
    case True
    then show ?thesis
      using Some split assms i \<open>n \<noteq> []\<close> name canonical_id [of "''/''"]
      by (simp add: getParentPath_def appendInternal_def skip_slashes_id canonical_id canonical_def)
  next
    case False
    have par: "canonical (take i p)"
    proof -
      have "no_double (take i p)"
        using assms(1,2) split no_double_append1 [of "take i p"] by (metis canonical_def)
      moreover have "last (take i p) = p ! (i - 1)"
        using i False by (subst last_conv_nth) auto
      moreover have "hd (take i p) = hd p" using False by (cases p) auto
      moreover have "last (take i p) \<noteq> slash"
        using assms(1,2) split False i no_double_append [of "take i p" "slash # n"]
        by (auto simp: canonical_def)
      ultimately show ?thesis
        using assms False Some i by (auto simp: canonical_def dest: in_set_takeD)
    qed
    moreover have "take i p \<noteq> []" using False i by auto
    moreover have "last (take i p) \<noteq> slash"
      using assms(1,2) split False i no_double_append [of "take i p" "slash # n"]
      by (auto simp: canonical_def)
    ultimately show ?thesis
      using Some split False assms i \<open>n \<noteq> []\<close> name
      by (cases i) (simp_all add: getParentPath_def appendInternal_def skip_slashes_id canonical_id)
  qed
qed

section \<open>Properties\<close>


text \<open>
  \<open>FsPath::operator==\<close>, which walks the elements of both paths, ends and decides equality of the
  path strings: paths that compare equal have equal hash codes, and only those compare equal.
\<close>

theorem FsPath_equality:
  "(FsPath_eq p q \<longleftrightarrow> getString p = getString q) \<and> (FsPath_eq p q \<longrightarrow> getHashCode h p = getHashCode h q)"
  by (auto simp: FsPath_eq_iff getString_def)

theorem FsPath_equality_witness: "getHashCode length ''/a'' = getHashCode length ''/a''"
  using FsPath_equality [of "''/a''" "''/a''" length] by (simp add: getString_def)

text \<open>
  A canonical path that is neither empty nor the root is put together again by appending its name
  to its parent, as long as no space stands before its last slash; stem and extension make up the name.
\<close>

theorem parent_name_roundtrip:
  assumes "canonical p" and "p \<noteq> []" and "p \<noteq> ''/''"
    and "\<And>i. rfind_char p slash = Some i \<Longrightarrow> i > 0 \<Longrightarrow> p ! (i - 1) \<noteq> CHR '' ''"
  shows "appendInternal (getParentPath p) (getName p) = p \<and> getStem p @ getExtension p = getName p"
  using parent_name [OF assms] stem_extension by blast

theorem parent_name_roundtrip_witness:
  "appendInternal (getParentPath ''/d/f.x'') (getName ''/d/f.x'') = ''/d/f.x''"
proof -
  have h: "canonical ''/d/f.x''" "''/d/f.x'' \<noteq> []" "''/d/f.x'' \<noteq> ''/''"
    by (simp_all add: canonical_def)
  have r: "rfind_char ''/d/f.x'' slash = Some 2"
    by (simp add: rfind_char_def)
  show ?thesis by (rule parent_name_roundtrip [OF h, THEN conjunct1]) (use r in auto)
qed

text \<open>
  \<open>getRelativePath\<close> removes a base: for a nonempty base and well-formed elements, the path of the
  base extended by the elements is, relative to the base, those elements joined again.  For the root
  as the base it gives the empty path whatever the path is, because the root splits into two empty elements.
\<close>

theorem relative_path:
  assumes "b \<noteq> []" and "list_all elem_ok es" and "es \<noteq> []" and "preferred p"
  shows "getRelativePath (b @ slash # join ''/'' es) b = join ''/'' es \<and> getRelativePath p ''/'' = []"
  using getRelativePath_join [OF assms(1-3)] getRelativePath_root [OF assms(4)] by blast

theorem relative_path_witness:
  "getRelativePath ''/d/e/f'' ''/d'' = ''e/f'' \<and> getRelativePath ''/d'' ''/'' = []"
proof -
  have h: "''/d'' \<noteq> []" "list_all elem_ok [''e'', ''f'']" "[''e'', ''f''] \<noteq> []" "preferred ''/d''"
    by (simp_all add: elem_ok_def preferred_def)
  show ?thesis using relative_path [OF h] by simp
qed

end
