(* ===== verification/IntrusiveList.thy ===== *)
theory IntrusiveList
  imports Prelude
begin

text \<open>
  \<open>engine/kernel/include/my/containers/intrusive_list.h\<close>: doubly linked lists whose links live inside
  the elements.  The state holds the three link fields of every element and the head and tail
  pointer of every list object; elements and lists are addresses.  An operation returns \<open>None\<close> where a
  \<open>MY_DEBUG_ASSERT\<close> of the code fails or a null pointer is followed.  The lemmas show that on well-formed
  states every operation returns and acts on the abstract sequences as its name says: all
  lists at once, so that no operation disturbs another list or loses an element.
\<close>

section \<open>State\<close>

text \<open>\<open>IntrusiveListNode\<close>: \<open>m_list\<close>, \<open>m_prev\<close>, \<open>m_next\<close>.\<close>

record list_node =
  n_list :: "nat option"
  n_prev :: "nat option"
  n_next :: "nat option"

text \<open>All nodes, and \<open>m_head\<close> and \<open>m_tail\<close> of all \<open>IntrusiveList\<close> objects.\<close>

record ilists =
  nodes :: "nat \<Rightarrow> list_node"
  heads :: "nat \<Rightarrow> nat option"
  tails :: "nat \<Rightarrow> nat option"

definition free_node :: list_node where
  "free_node = \<lparr>n_list = None, n_prev = None, n_next = None\<rparr>"

definition ilists_init :: ilists where
  "ilists_init = \<lparr>nodes = (\<lambda>_. free_node), heads = (\<lambda>_. None), tails = (\<lambda>_. None)\<rparr>"

definition upd_node :: "nat \<Rightarrow> (list_node \<Rightarrow> list_node) \<Rightarrow> ilists \<Rightarrow> ilists" where
  "upd_node n f st = st\<lparr>nodes := (nodes st)(n := f (nodes st n))\<rparr>"

definition set_head :: "nat \<Rightarrow> nat option \<Rightarrow> ilists \<Rightarrow> ilists" where
  "set_head l v st = st\<lparr>heads := (heads st)(l := v)\<rparr>"

definition set_tail :: "nat \<Rightarrow> nat option \<Rightarrow> ilists \<Rightarrow> ilists" where
  "set_tail l v st = st\<lparr>tails := (tails st)(l := v)\<rparr>"

definition clearListElementState :: "nat \<Rightarrow> ilists \<Rightarrow> ilists" where
  "clearListElementState n st =
     upd_node n (\<lambda>x. x\<lparr>n_list := None, n_prev := None, n_next := None\<rparr>) st"

section \<open>Operations\<close>

definition asFreeNode :: "ilists \<Rightarrow> nat \<Rightarrow> unit option" where
  "asFreeNode st e =
     require (n_next (nodes st e) = None \<and> n_prev (nodes st e) = None \<and> n_list (nodes st e) = None)"

definition push_back :: "nat \<Rightarrow> nat \<Rightarrow> ilists \<Rightarrow> ilists option" where
  "push_back l e st = do {
     asFreeNode st e;
     let st = upd_node e (\<lambda>x. x\<lparr>n_list := Some l\<rparr>) st;
     (case heads st l of
        None \<Rightarrow> do {
          require (tails st l = None);
          Some (set_tail l (Some e) (set_head l (Some e) st))
        }
      | Some h \<Rightarrow>
          (case tails st l of
             None \<Rightarrow> None
           | Some t \<Rightarrow>
               (let st = upd_node t (\<lambda>x. x\<lparr>n_next := Some e\<rparr>) st;
                    st = upd_node e (\<lambda>x. x\<lparr>n_prev := Some t\<rparr>) st
                in Some (set_tail l (Some e) st))))
   }"

text \<open>\<open>insert(pos, element)\<close>; \<open>None\<close> as the position is \<open>end()\<close>.  The result is the returned iterator.\<close>

definition insert_at :: "nat \<Rightarrow> nat option \<Rightarrow> nat \<Rightarrow> ilists \<Rightarrow> (ilists \<times> nat option) option" where
  "insert_at l pos e st =
     (case pos of
        None \<Rightarrow> do { st \<leftarrow> push_back l e st; Some (st, tails st l) }
      | Some p \<Rightarrow> do {
          require (n_list (nodes st p) = Some l);
          asFreeNode st e;
          let st = upd_node e (\<lambda>x. x\<lparr>n_list := Some l\<rparr>) st;
          let st = upd_node e (\<lambda>x. x\<lparr>n_next := Some p\<rparr>) st;
          let st = upd_node e (\<lambda>x. x\<lparr>n_prev := n_prev (nodes st p)\<rparr>) st;
          let st = (case n_prev (nodes st e) of
                      None \<Rightarrow> st
                    | Some q \<Rightarrow> upd_node q (\<lambda>x. x\<lparr>n_next := Some e\<rparr>) st);
          let st = upd_node p (\<lambda>x. x\<lparr>n_prev := Some e\<rparr>) st;
          let st = (if heads st l = Some p then set_head l (Some e) st else st);
          Some (st, Some e)
        })"

definition push_front :: "nat \<Rightarrow> nat \<Rightarrow> ilists \<Rightarrow> ilists option" where
  "push_front l e st = map_option fst (insert_at l (heads st l) e st)"

text \<open>\<open>erase(pos)\<close>: unlinks one element and returns the iterator behind it.\<close>

definition erase :: "nat \<Rightarrow> nat option \<Rightarrow> ilists \<Rightarrow> (ilists \<times> nat option) option" where
  "erase l pos st =
     (case pos of
        None \<Rightarrow> None
      | Some p \<Rightarrow> do {
          require (n_list (nodes st p) = Some l);
          let prev = n_prev (nodes st p);
          let next = n_next (nodes st p);
          st \<leftarrow> (case prev of
                   Some q \<Rightarrow> do {
                     require (n_next (nodes st q) = Some p);
                     Some (upd_node q (\<lambda>x. x\<lparr>n_next := next\<rparr>) st)
                   }
                 | None \<Rightarrow> Some (set_head l next st));
          st \<leftarrow> (case next of
                   Some q \<Rightarrow> do {
                     require (n_prev (nodes st q) = Some p);
                     Some (upd_node q (\<lambda>x. x\<lparr>n_prev := prev\<rparr>) st)
                   }
                 | None \<Rightarrow> Some (set_tail l prev st));
          Some (clearListElementState p st, next)
        })"

definition remove_elem :: "nat \<Rightarrow> nat \<Rightarrow> ilists \<Rightarrow> ilists option" where
  "remove_elem l e st = map_option fst (erase l (Some e) st)"

text \<open>The destructor of an element: an element that is in a list leaves it.\<close>

definition node_destroy :: "nat \<Rightarrow> ilists \<Rightarrow> ilists option" where
  "node_destroy e st = (case n_list (nodes st e) of None \<Rightarrow> Some st | Some l \<Rightarrow> remove_elem l e st)"

text \<open>Loops over links: \<open>None\<close> as a result also stands for a loop that does not end.\<close>

partial_function (option) clear_from :: "nat option \<Rightarrow> ilists \<Rightarrow> ilists option" where
  "clear_from node st =
     (case node of
        None \<Rightarrow> Some st
      | Some n \<Rightarrow> clear_from (n_prev (nodes st n)) (clearListElementState n st))"

definition clear :: "nat \<Rightarrow> ilists \<Rightarrow> ilists option" where
  "clear l st =
     map_option (\<lambda>st. set_tail l None (set_head l None st)) (clear_from (tails st l) st)"

partial_function (option) size_from :: "ilists \<Rightarrow> nat option \<Rightarrow> nat \<Rightarrow> nat option" where
  "size_from st node counter =
     (case node of
        None \<Rightarrow> Some counter
      | Some n \<Rightarrow> size_from st (n_next (nodes st n)) (counter + 1))"

definition size_of :: "nat \<Rightarrow> ilists \<Rightarrow> nat option" where
  "size_of l st = size_from st (heads st l) 0"

definition list_empty :: "nat \<Rightarrow> ilists \<Rightarrow> bool" where
  "list_empty l st \<longleftrightarrow> heads st l = None"

definition list_back :: "nat \<Rightarrow> ilists \<Rightarrow> nat option" where
  "list_back l st = tails st l"

definition list_front :: "nat \<Rightarrow> ilists \<Rightarrow> nat option" where
  "list_front l st = heads st l"

definition contains :: "nat \<Rightarrow> nat \<Rightarrow> ilists \<Rightarrow> bool" where
  "contains l e st \<longleftrightarrow> n_list (nodes st e) = Some l"

text \<open>\<open>for (auto& x : list)\<close>: from \<open>begin()\<close> by \<open>operator++\<close> until \<open>end()\<close>.\<close>

partial_function (option) elements_from :: "ilists \<Rightarrow> nat option \<Rightarrow> nat list option" where
  "elements_from st node =
     (case node of
        None \<Rightarrow> Some []
      | Some n \<Rightarrow> do { r \<leftarrow> elements_from st (n_next (nodes st n)); Some (n # r) })"

definition elements :: "nat \<Rightarrow> ilists \<Rightarrow> nat list option" where
  "elements l st = elements_from st (heads st l)"

partial_function (option) relink_from :: "nat \<Rightarrow> nat option \<Rightarrow> ilists \<Rightarrow> ilists option" where
  "relink_from l node st =
     (case node of
        None \<Rightarrow> Some st
      | Some n \<Rightarrow>
          (let st = upd_node n (\<lambda>x. x\<lparr>n_list := Some l\<rparr>) st
           in relink_from l (n_next (nodes st n)) st))"

definition moveFrom :: "nat \<Rightarrow> nat \<Rightarrow> ilists \<Rightarrow> ilists option" where
  "moveFrom this other st =
     (if other = this then Some st
      else do {
        st \<leftarrow> clear this st;
        require (heads st this = None \<and> tails st this = None);
        let st' = set_head other (heads st this) (set_head this (heads st other) st);
        let st'' = set_tail other (tails st this) (set_tail this (tails st other) st');
        relink_from this (heads st'' this) st''
      })"

text \<open>
  \<open>erase(first, last)\<close>: the \<open>do\<close>-\<open>while\<close> that erases until the iterator equals \<open>last\<close>, after the walk
  that asserts \<open>last\<close> to stand behind \<open>first\<close>.
\<close>

partial_function (option) erase_until :: "nat \<Rightarrow> nat option \<Rightarrow> nat option \<Rightarrow> ilists \<Rightarrow> ilists option" where
  "erase_until l cur stop st = do {
     (st', next) \<leftarrow> erase l cur st;
     if next = stop then Some st' else erase_until l next stop st'
   }"

partial_function (option) stays_after :: "ilists \<Rightarrow> nat option \<Rightarrow> nat option \<Rightarrow> bool option" where
  "stays_after st cur stop =
     (case cur of
        None \<Rightarrow> Some False
      | Some n \<Rightarrow> if cur = stop then Some True else stays_after st (n_next (nodes st n)) stop)"

definition erase_range :: "nat \<Rightarrow> nat option \<Rightarrow> nat option \<Rightarrow> ilists \<Rightarrow> (ilists \<times> nat option) option" where
  "erase_range l first stop st =
     (case first of
        None \<Rightarrow> None
      | Some f \<Rightarrow> do {
          require (n_list (nodes st f) = Some l);
          (case stop of
             None \<Rightarrow> do { st \<leftarrow> erase_until l first None st; Some (st, None) }
           | Some x \<Rightarrow> do {
               require (n_list (nodes st x) = Some l);
               after \<leftarrow> stays_after st (n_next (nodes st f)) stop;
               require after;
               st \<leftarrow> erase_until l first stop st;
               Some (st, stop)
             })
        })"

section \<open>Well-formed states\<close>

text \<open>Neighbours in a sequence, and the links they must have.\<close>

definition hd_opt :: "'a list \<Rightarrow> 'a option \<Rightarrow> 'a option" where
  "hd_opt xs d = (case xs of [] \<Rightarrow> d | x # _ \<Rightarrow> Some x)"

definition last_opt :: "'a list \<Rightarrow> 'a option \<Rightarrow> 'a option" where
  "last_opt xs d = (if xs = [] then d else Some (last xs))"

lemma hd_opt_simps [simp]:
  "hd_opt [] d = d" "hd_opt (x # xs) d = Some x" "hd_opt (xs @ ys) d = hd_opt xs (hd_opt ys d)"
  by (auto simp: hd_opt_def split: list.splits)

lemma last_opt_simps [simp]:
  "last_opt [] d = d" "last_opt (x # xs) d = last_opt xs (Some x)"
  "last_opt (xs @ ys) d = last_opt ys (last_opt xs d)"
  by (auto simp: last_opt_def)

fun chain :: "(nat \<Rightarrow> list_node) \<Rightarrow> nat \<Rightarrow> nat option \<Rightarrow> nat list \<Rightarrow> nat option \<Rightarrow> bool" where
  "chain h l p [] nx \<longleftrightarrow> True"
| "chain h l p (x # xs) nx \<longleftrightarrow>
     h x = \<lparr>n_list = Some l, n_prev = p, n_next = hd_opt xs nx\<rparr> \<and> chain h l (Some x) xs nx"

lemma chain_append [simp]:
  "chain h l p (xs @ ys) nx \<longleftrightarrow>
     chain h l p xs (hd_opt ys nx) \<and> chain h l (last_opt xs p) ys nx"
  by (induction xs arbitrary: p) auto

lemma chain_upd [simp]: "n \<notin> set xs \<Longrightarrow> chain (h(n := v)) l p xs nx = chain h l p xs nx"
  by (induction xs arbitrary: p) auto

lemma chain_cong: "(\<And>n. n \<in> set xs \<Longrightarrow> h n = h' n) \<Longrightarrow> chain h l p xs nx = chain h' l p xs nx"
  by (induction xs arbitrary: p) auto

lemma chain_list: "chain h l p xs nx \<Longrightarrow> n \<in> set xs \<Longrightarrow> n_list (h n) = Some l"
  by (induction xs arbitrary: p) auto

text \<open>\<open>L\<close> gives every list its sequence of elements.\<close>

definition wf_lists :: "ilists \<Rightarrow> (nat \<Rightarrow> nat list) \<Rightarrow> bool" where
  "wf_lists st L \<longleftrightarrow>
     (\<forall>l. distinct (L l) \<and> heads st l = hd_opt (L l) None \<and> tails st l = last_opt (L l) None \<and>
          chain (nodes st) l None (L l) None) \<and>
     (\<forall>n. (\<forall>l. n \<notin> set (L l)) \<longrightarrow> nodes st n = free_node)"

lemma wf_disjoint:
  "wf_lists st L \<Longrightarrow> n \<in> set (L l) \<Longrightarrow> n \<in> set (L k) \<Longrightarrow> l = k"
  unfolding wf_lists_def by (metis chain_list option.inject)

lemma wf_list_iff: "wf_lists st L \<Longrightarrow> n_list (nodes st n) = Some l \<longleftrightarrow> n \<in> set (L l)"
  unfolding wf_lists_def by (metis chain_list free_node_def list_node.select_convs(1) option.distinct(1) option.inject)

lemma wf_free_iff: "wf_lists st L \<Longrightarrow> n_list (nodes st n) = None \<longleftrightarrow> (\<forall>l. n \<notin> set (L l))"
  using wf_list_iff [of st L n] by (metis not_Some_eq)

lemma wf_init: "wf_lists ilists_init (\<lambda>_. [])"
  by (simp add: wf_lists_def ilists_init_def)

text \<open>
  One list changes at a time: to establish the invariant afterwards it is enough to look at that list
  and at the nodes that changed.
\<close>

lemma wf_change:
  assumes wf: "wf_lists st L"
    and new: "distinct xs" "heads st' l = hd_opt xs None" "tails st' l = last_opt xs None"
      "chain (nodes st') l None xs None"
    and ends: "\<And>k. k \<noteq> l \<Longrightarrow> heads st' k = heads st k \<and> tails st' k = tails st k"
    and keep: "\<And>n. n \<notin> set xs \<Longrightarrow> n \<notin> set (L l) \<Longrightarrow> nodes st' n = nodes st n"
    and gone: "\<And>n. n \<notin> set xs \<Longrightarrow> n \<in> set (L l) \<Longrightarrow> nodes st' n = free_node"
    and fresh: "\<And>n k. n \<in> set xs \<Longrightarrow> n \<notin> set (L l) \<Longrightarrow> k \<noteq> l \<Longrightarrow> n \<notin> set (L k)"
  shows "wf_lists st' (L(l := xs))"
proof -
  have apart: "n \<notin> set (L k)" if "n \<in> set xs" "k \<noteq> l" for n k
    using that fresh wf_disjoint [OF wf, of n l k] by blast
  have other: "chain (nodes st') k None (L k) None" if "k \<noteq> l" for k
  proof -
    have "chain (nodes st') k None (L k) None = chain (nodes st) k None (L k) None"
      using that apart wf_disjoint [OF wf] by (intro chain_cong keep) blast+
    then show ?thesis using wf by (simp add: wf_lists_def)
  qed
  have "nodes st' n = free_node" if n: "\<forall>k. n \<notin> set ((L(l := xs)) k)" for n
  proof (cases "n \<in> set (L l)")
    case True
    then show ?thesis using n gone [of n] by (metis fun_upd_same)
  next
    case False
    then have "\<forall>k. n \<notin> set (L k)" using n by (metis fun_upd_other)
    then have "nodes st n = free_node" using wf by (simp add: wf_lists_def)
    then show ?thesis using n False keep [of n] by (metis fun_upd_same)
  qed
  then show ?thesis
    using wf new ends other unfolding wf_lists_def by auto
qed

section \<open>Operations on well-formed states\<close>

lemmas state_simps = upd_node_def set_head_def set_tail_def clearListElementState_def free_node_def

lemma wfD:
  assumes "wf_lists st L"
  shows "distinct (L l)" "heads st l = hd_opt (L l) None" "tails st l = last_opt (L l) None"
    "chain (nodes st) l None (L l) None"
  using assms by (auto simp: wf_lists_def)

lemma wf_free_node: "wf_lists st L \<Longrightarrow> (\<And>k. e \<notin> set (L k)) \<Longrightarrow> nodes st e = free_node"
  by (simp add: wf_lists_def)

lemma asFreeNode_iff: "asFreeNode st e = Some () \<longleftrightarrow> nodes st e = free_node"
  by (cases "nodes st e") (auto simp: asFreeNode_def require_def free_node_def)

lemma wf_asFreeNode:
  assumes "wf_lists st L"
  shows "asFreeNode st e = (if \<exists>k. e \<in> set (L k) then None else Some ())"
proof (cases "\<exists>k. e \<in> set (L k)")
  case True
  then have "n_list (nodes st e) \<noteq> None" using wf_free_iff [OF assms] by blast
  then show ?thesis using True by (simp add: asFreeNode_def require_def)
next
  case False
  then have "nodes st e = free_node" using assms by (intro wf_free_node) auto
  then show ?thesis using False asFreeNode_iff by simp
qed

lemma push_back_wf:
  assumes wf: "wf_lists st L" and free: "\<And>k. e \<notin> set (L k)"
  shows "\<exists>st'. push_back l e st = Some st' \<and> wf_lists st' (L(l := L l @ [e]))"
proof (cases "L l" rule: rev_cases)
  case Nil
  let ?st = "set_tail l (Some e) (set_head l (Some e) (upd_node e (\<lambda>x. x\<lparr>n_list := Some l\<rparr>) st))"
  have "push_back l e st = Some ?st"
    using wfD [OF wf, of l] Nil free wf_asFreeNode [OF wf]
    by (simp add: push_back_def state_simps)
  moreover have "wf_lists ?st (L(l := [e]))"
    by (rule wf_change [OF wf]) (use free wf_free_node [OF wf free] Nil in \<open>auto simp: state_simps\<close>)
  ultimately show ?thesis using Nil by auto
next
  case (snoc ys t)
  let ?st = "set_tail l (Some e) (upd_node e (\<lambda>x. x\<lparr>n_prev := Some t\<rparr>)
      (upd_node t (\<lambda>x. x\<lparr>n_next := Some e\<rparr>) (upd_node e (\<lambda>x. x\<lparr>n_list := Some l\<rparr>) st)))"
  obtain h where h: "heads st l = Some h" "hd_opt (ys @ [t]) None = Some h"
    using wfD [OF wf, of l] snoc by (cases ys) auto
  have ne: "e \<noteq> t" "e \<notin> set ys" using free [of l] snoc by auto
  have "push_back l e st = Some ?st"
    using wfD(3,4) [OF wf, of l] snoc free wf_asFreeNode [OF wf] h(1) ne
    by (simp add: push_back_def state_simps Let_def)
  moreover have "wf_lists ?st (L(l := L l @ [e]))"
    by (rule wf_change [OF wf])
      (use wfD [OF wf, of l] wfD(2,3) [OF wf] free wf_free_node [OF wf free] snoc ne in \<open>auto simp: state_simps\<close>)
  ultimately show ?thesis by auto
qed

lemma chain_at:
  "chain h l p (xs @ x # ys) nx \<Longrightarrow>
     h x = \<lparr>n_list = Some l, n_prev = last_opt xs p, n_next = hd_opt ys nx\<rparr>"
  by simp

lemma insert_at_wf:
  assumes wf: "wf_lists st L" and free: "\<And>k. e \<notin> set (L k)" and at: "L l = xs @ p # ys"
  shows "\<exists>st'. insert_at l (Some p) e st = Some (st', Some e) \<and> wf_lists st' (L(l := xs @ e # p # ys))"
proof -
  have ne: "e \<noteq> p" "e \<notin> set xs" "e \<notin> set ys" using free [of l] at by auto
  have p: "nodes st p = \<lparr>n_list = Some l, n_prev = last_opt xs None, n_next = hd_opt ys None\<rparr>"
    using wfD(4) [OF wf, of l] at by simp
  have e: "nodes st e = free_node" by (rule wf_free_node [OF wf free])
  have dis: "distinct (xs @ p # ys)" using wfD(1) [OF wf, of l] at by simp
  have head: "heads st l = hd_opt (xs @ p # ys) None" using wfD(2) [OF wf, of l] at by simp
  show ?thesis
  proof (cases xs rule: rev_cases)
    case Nil
    let ?st = "set_head l (Some e) (upd_node p (\<lambda>x. x\<lparr>n_prev := Some e\<rparr>)
      (upd_node e (\<lambda>x. x\<lparr>n_list := Some l, n_prev := None, n_next := Some p\<rparr>) st))"
    have "insert_at l (Some p) e st = Some (?st, Some e)"
      using Nil p e ne head free wf_asFreeNode [OF wf]
      by (simp add: insert_at_def state_simps Let_def)
    moreover have "wf_lists ?st (L(l := xs @ e # p # ys))"
      by (rule wf_change [OF wf])
        (use wfD [OF wf, of l] wfD(2,3) [OF wf] dis free e ne at Nil in \<open>auto simp: state_simps\<close>)
    ultimately show ?thesis by blast
  next
    case (snoc zs q)
    let ?st = "upd_node p (\<lambda>x. x\<lparr>n_prev := Some e\<rparr>) (upd_node q (\<lambda>x. x\<lparr>n_next := Some e\<rparr>)
      (upd_node e (\<lambda>x. x\<lparr>n_list := Some l, n_prev := Some q, n_next := Some p\<rparr>) st))"
    have "p \<noteq> q" "hd_opt (zs @ q # p # ys) None \<noteq> Some p"
      using dis snoc by (cases zs; auto)+
    then have "insert_at l (Some p) e st = Some (?st, Some e)"
      using snoc p e ne head free wf_asFreeNode [OF wf]
      by (auto simp: insert_at_def state_simps Let_def fun_upd_twist)
    moreover have "wf_lists ?st (L(l := xs @ e # p # ys))"
      by (rule wf_change [OF wf])
        (use wfD [OF wf, of l] wfD(2,3) [OF wf] dis free e ne at snoc in \<open>auto simp: state_simps\<close>)
    ultimately show ?thesis by blast
  qed
qed

lemma erase_wf:
  assumes wf: "wf_lists st L" and at: "L l = xs @ p # ys"
  shows "\<exists>st'. erase l (Some p) st = Some (st', hd_opt ys None) \<and> wf_lists st' (L(l := xs @ ys))"
proof -
  have p: "nodes st p = \<lparr>n_list = Some l, n_prev = last_opt xs None, n_next = hd_opt ys None\<rparr>"
    using wfD(4) [OF wf, of l] at by simp
  have dis: "distinct (xs @ p # ys)" using wfD(1) [OF wf, of l] at by simp
  let ?pre = "case last_opt xs None of
      Some q \<Rightarrow> upd_node q (\<lambda>x. x\<lparr>n_next := hd_opt ys None\<rparr>) st
    | None \<Rightarrow> set_head l (hd_opt ys None) st"
  let ?post = "case hd_opt ys None of
      Some q \<Rightarrow> upd_node q (\<lambda>x. x\<lparr>n_prev := last_opt xs None\<rparr>) ?pre
    | None \<Rightarrow> set_tail l (last_opt xs None) ?pre"
  have step: "erase l (Some p) st = Some (clearListElementState p ?post, hd_opt ys None)"
    using wfD(4) [OF wf, of l] dis at p
    by (cases xs rule: rev_cases; cases ys) (simp_all add: erase_def state_simps Let_def)
  moreover have "wf_lists (clearListElementState p ?post) (L(l := xs @ ys))"
    by (rule wf_change [OF wf]; cases xs rule: rev_cases; cases ys)
      (use wfD [OF wf, of l] wfD(2,3) [OF wf] dis at p in \<open>auto simp: state_simps\<close>)
  ultimately show ?thesis by blast
qed

lemma push_front_wf:
  assumes wf: "wf_lists st L" and free: "\<And>k. e \<notin> set (L k)"
  shows "\<exists>st'. push_front l e st = Some st' \<and> wf_lists st' (L(l := e # L l))"
proof (cases "L l")
  case Nil
  then show ?thesis
    using push_back_wf [OF wf free, of l] wfD(2) [OF wf, of l] by (auto simp: push_front_def insert_at_def)
next
  case (Cons p ys)
  then show ?thesis
    using insert_at_wf [OF wf free, of l "[]" p ys] wfD(2) [OF wf, of l] by (auto simp: push_front_def)
qed

lemma remove1_split: "distinct (xs @ p # ys) \<Longrightarrow> remove1 p (xs @ p # ys) = xs @ ys"
  by (simp add: remove1_append)

lemma remove_elem_wf:
  assumes wf: "wf_lists st L" and e: "e \<in> set (L l)"
  shows "\<exists>st'. remove_elem l e st = Some st' \<and> wf_lists st' (L(l := remove1 e (L l)))"
proof -
  obtain xs ys where at: "L l = xs @ e # ys" using e by (meson split_list)
  then have "remove1 e (L l) = xs @ ys" using wfD(1) [OF wf, of l] remove1_split by metis
  then show ?thesis using erase_wf [OF wf at] by (auto simp: remove_elem_def)
qed

lemma node_destroy_wf:
  assumes wf: "wf_lists st L"
  shows "\<exists>st'. node_destroy e st = Some st' \<and> wf_lists st' (\<lambda>l. remove1 e (L l))"
proof (cases "n_list (nodes st e)")
  case None
  then have "(\<lambda>l. remove1 e (L l)) = L" using wf_free_iff [OF wf, of e] by (auto simp: remove1_idem)
  then show ?thesis using None wf by (simp add: node_destroy_def)
next
  case (Some l)
  then have e: "e \<in> set (L l)" using wf_list_iff [OF wf] by simp
  then have "e \<notin> set (L k)" if "k \<noteq> l" for k using that wf_disjoint [OF wf, of e l k] by blast
  then have "(\<lambda>k. remove1 e (L k)) = L(l := remove1 e (L l))" by (auto simp: remove1_idem)
  then show ?thesis using remove_elem_wf [OF wf e] Some by (simp add: node_destroy_def)
qed

subsection \<open>Loops\<close>

lemma elements_from_chain: "chain (nodes st) l p xs None \<Longrightarrow> elements_from st (hd_opt xs None) = Some xs"
  by (induction xs arbitrary: p) (auto simp: elements_from.simps)

lemma elements_wf: "wf_lists st L \<Longrightarrow> elements l st = Some (L l)"
  using elements_from_chain [OF wfD(4)] by (simp add: elements_def wfD(2))

lemma size_from_chain:
  "chain (nodes st) l p xs None \<Longrightarrow> size_from st (hd_opt xs None) c = Some (c + length xs)"
  by (induction xs arbitrary: p c) (auto simp: size_from.simps)

lemma size_of_wf: "wf_lists st L \<Longrightarrow> size_of l st = Some (length (L l))"
  using size_from_chain [OF wfD(4)] by (simp add: size_of_def wfD(2))

definition free_all :: "nat list \<Rightarrow> ilists \<Rightarrow> ilists" where
  "free_all xs st = st\<lparr>nodes := (\<lambda>n. if n \<in> set xs then free_node else nodes st n)\<rparr>"

lemma clearListElementState_eq: "clearListElementState n st = st\<lparr>nodes := (nodes st)(n := free_node)\<rparr>"
  by (cases "nodes st n") (simp add: clearListElementState_def upd_node_def free_node_def)

lemma clear_from_chain:
  "chain (nodes st) l None xs nx \<Longrightarrow> distinct xs \<Longrightarrow>
     clear_from (last_opt xs None) st = Some (free_all xs st)"
proof (induction xs arbitrary: st nx rule: rev_induct)
  case Nil
  show ?case by (simp add: clear_from.simps free_all_def)
next
  case (snoc x xs)
  let ?st = "clearListElementState x st"
  have "clear_from (last_opt xs None) ?st = Some (free_all xs ?st)"
    using snoc.prems by (intro snoc.IH [of _ "Some x"]) (auto simp: clearListElementState_eq simp del: fun_upd_apply)
  moreover have "free_all xs ?st = free_all (xs @ [x]) st"
    by (simp add: free_all_def clearListElementState_eq fun_eq_iff)
  ultimately show ?case using snoc.prems by (simp add: clear_from.simps)
qed

lemma clear_wf:
  assumes wf: "wf_lists st L"
  shows "\<exists>st'. clear l st = Some st' \<and> wf_lists st' (L(l := []))"
proof -
  let ?st = "set_tail l None (set_head l None (free_all (L l) st))"
  have "clear l st = Some ?st"
    using clear_from_chain [OF wfD(4,1) [OF wf]] by (simp add: clear_def wfD(3) [OF wf])
  moreover have "wf_lists ?st (L(l := []))"
    by (rule wf_change [OF wf]) (auto simp: free_all_def set_head_def set_tail_def)
  ultimately show ?thesis by blast
qed

definition relink :: "nat \<Rightarrow> nat list \<Rightarrow> ilists \<Rightarrow> ilists" where
  "relink l xs st =
     st\<lparr>nodes := (\<lambda>n. if n \<in> set xs then (nodes st n)\<lparr>n_list := Some l\<rparr> else nodes st n)\<rparr>"

lemma relink_from_chain:
  "chain (nodes st) k p xs None \<Longrightarrow> distinct xs \<Longrightarrow>
     relink_from l (hd_opt xs None) st = Some (relink l xs st)"
proof (induction xs arbitrary: st p)
  case Nil
  show ?case by (simp add: relink_from.simps relink_def)
next
  case (Cons x xs)
  let ?st = "upd_node x (\<lambda>x. x\<lparr>n_list := Some l\<rparr>) st"
  have "relink_from l (hd_opt xs None) ?st = Some (relink l xs ?st)"
    using Cons.prems by (intro Cons.IH [of _ "Some x"]) (auto simp: upd_node_def simp del: fun_upd_apply)
  moreover have "relink l xs ?st = relink l (x # xs) st"
    by (simp add: relink_def upd_node_def fun_eq_iff)
  ultimately show ?case using Cons.prems by (simp add: relink_from.simps [of l "Some x"] upd_node_def)
qed

lemma chain_relink:
  "chain h k p xs nx \<Longrightarrow> distinct xs \<Longrightarrow>
     chain (\<lambda>n. if n \<in> S \<union> set xs then (h n)\<lparr>n_list := Some l\<rparr> else h n) l p xs nx"
proof (induction xs arbitrary: p S)
  case (Cons x xs)
  then show ?case using Cons.IH [of "Some x" "insert x S"] by simp
qed simp

lemma moveFrom_wf:
  assumes wf: "wf_lists st L" and ne: "other \<noteq> this"
  shows "\<exists>st'. moveFrom this other st = Some st' \<and> wf_lists st' (L(this := L other, other := []))"
proof -
  obtain s1 where s1: "clear this st = Some s1" and w1: "wf_lists s1 (L(this := []))"
    using clear_wf [OF wf] by blast
  define s2 where "s2 = set_tail other None (set_tail this (tails s1 other)
      (set_head other None (set_head this (heads s1 other) s1)))"
  have h: "heads s1 other = hd_opt (L other) None" "tails s1 other = last_opt (L other) None"
    "distinct (L other)" "chain (nodes s1) other None (L other) None"
    using wfD [OF w1, of other] ne by auto
  have "moveFrom this other st = relink_from this (hd_opt (L other) None) s2"
    using s1 ne wfD [OF w1, of this] h
    by (simp add: moveFrom_def s2_def set_head_def set_tail_def)
  also have "\<dots> = Some (relink this (L other) s2)"
    by (rule relink_from_chain [OF _ h(3)]) (use h(4) in \<open>simp add: s2_def set_head_def set_tail_def\<close>)
  finally have "moveFrom this other st = Some (relink this (L other) s2)" .
  moreover have "wf_lists (relink this (L other) s2) (L(this := L other, other := []))"
  proof -
    have s2: "nodes s2 = nodes s1" by (simp add: s2_def set_head_def set_tail_def)
    have n: "nodes (relink this (L other) s2) =
        (\<lambda>n. if n \<in> {} \<union> set (L other) then (nodes s1 n)\<lparr>n_list := Some this\<rparr> else nodes s1 n)"
      by (auto simp: relink_def s2 fun_eq_iff)
    have moved: "chain (nodes (relink this (L other) s2)) this None (L other) None"
      unfolding n by (rule chain_relink [OF h(4,3)])
    have rest: "chain (nodes (relink this (L other) s2)) k None (L k) None"
      if k: "k \<noteq> this" "k \<noteq> other" for k
    proof -
      have "n \<notin> set (L other)" if "n \<in> set (L k)" for n using that k wf_disjoint [OF wf] by blast
      then have "chain (nodes (relink this (L other) s2)) k None (L k) None =
          chain (nodes s1) k None (L k) None" by (intro chain_cong) (simp add: n)
      then show ?thesis using wfD(4) [OF w1, of k] k by simp
    qed
    have free: "nodes (relink this (L other) s2) n = free_node"
      if "\<forall>k. n \<notin> set ((L(this := L other, other := [])) k)" for n
    proof -
      have "n \<notin> set (L other)" using that [rule_format, of this] ne by simp
      moreover have "n \<notin> set ((L(this := [])) k)" for k
        using that [rule_format, of k] calculation by (cases "k = other") auto
      ultimately show ?thesis using wf_free_node [OF w1] by (simp add: n)
    qed
    have ends: "heads (relink this (L other) s2) = (heads s1)(this := hd_opt (L other) None, other := None)"
      "tails (relink this (L other) s2) = (tails s1)(this := last_opt (L other) None, other := None)"
      using ne h by (auto simp: relink_def s2_def set_head_def set_tail_def)
    have kept: "distinct (L k)" "heads s1 k = hd_opt (L k) None" "tails s1 k = last_opt (L k) None"
      if "k \<noteq> this" for k using wfD(1-3) [OF w1, of k] that by simp_all
    show ?thesis
      unfolding wf_lists_def ends
      using moved rest free kept h(3) by auto
  qed
  ultimately show ?thesis by blast
qed

lemma erase_until_wf:
  "wf_lists st L \<Longrightarrow> L l = xs @ ys @ zs \<Longrightarrow> ys \<noteq> [] \<Longrightarrow>
     \<exists>st'. erase_until l (hd_opt ys None) (hd_opt zs None) st = Some st' \<and> wf_lists st' (L(l := xs @ zs))"
proof (induction ys arbitrary: st L)
  case (Cons y ys)
  then have at: "L l = xs @ y # ys @ zs" by simp
  obtain s1 where s1: "erase l (Some y) st = Some (s1, hd_opt (ys @ zs) None)"
    and w1: "wf_lists s1 (L(l := xs @ ys @ zs))"
    using erase_wf [OF Cons.prems(1) at] by auto
  show ?case
  proof (cases ys)
    case Nil
    then show ?thesis using s1 w1 by (simp add: erase_until.simps del: fun_upd_apply)
  next
    case (Cons y' ys')
    have "distinct (L l)" by (rule wfD(1) [OF Cons.prems(1)])
    then have go: "hd_opt (ys @ zs) None \<noteq> hd_opt zs None"
      using Cons at by (cases zs) auto
    have "\<exists>st'. erase_until l (hd_opt ys None) (hd_opt zs None) s1 = Some st' \<and>
        wf_lists st' ((L(l := xs @ ys @ zs))(l := xs @ zs))"
      by (rule Cons.IH [OF w1]) (use Cons in auto)
    then show ?thesis using s1 go Cons by (simp add: erase_until.simps [of l "Some y"] del: fun_upd_apply)
  qed
qed simp

lemma stays_after_chain:
  "chain (nodes st) l p (xs @ x # ys) None \<Longrightarrow> distinct (xs @ x # ys) \<Longrightarrow>
     stays_after st (hd_opt (xs @ [x]) None) (Some x) = Some True"
proof (induction xs arbitrary: p)
  case Nil
  show ?case by (simp add: stays_after.simps)
next
  case (Cons a xs)
  then show ?case by (auto simp: stays_after.simps [of st "Some a"])
qed

lemma erase_range_wf:
  assumes wf: "wf_lists st L" and at: "L l = xs @ (f # ys) @ zs"
  shows "\<exists>st'. erase_range l (Some f) (hd_opt zs None) st = Some (st', hd_opt zs None) \<and>
      wf_lists st' (L(l := xs @ zs))"
proof -
  obtain st' where run: "erase_until l (Some f) (hd_opt zs None) st = Some st'"
    and wf': "wf_lists st' (L(l := xs @ zs))"
    using erase_until_wf [OF wf at] by auto
  have f: "n_list (nodes st f) = Some l" using wf_list_iff [OF wf] at by simp
  show ?thesis
  proof (cases zs)
    case Nil
    then show ?thesis using run wf' f by (simp add: erase_range_def)
  next
    case (Cons x rest)
    have x: "n_list (nodes st x) = Some l" using wf_list_iff [OF wf] at Cons by simp
    have "chain (nodes st) l (last_opt xs None) (f # ys @ x # rest) None" "distinct (f # ys @ x # rest)"
      using wfD(1,4) [OF wf, of l] at Cons by auto
    then have "stays_after st (n_next (nodes st f)) (Some x) = Some True"
      using stays_after_chain [of st l "Some f" ys x rest] by auto
    then show ?thesis using run wf' f x Cons by (simp add: erase_range_def)
  qed
qed

section \<open>Refinement of sequences\<close>

text \<open>The member functions as calls, with the iterators they take and return.\<close>

datatype list_call =
    PushBack nat nat
  | PushFront nat nat
  | Insert nat "nat option" nat
  | Erase nat "nat option"
  | EraseRange nat "nat option" "nat option"
  | Remove nat nat
  | DestroyNode nat
  | Clear nat
  | Move nat nat
  | Elements nat
  | Size nat
  | IsEmpty nat
  | Front nat
  | Back nat
  | Contains nat nat

datatype list_result = Done | Iter "nat option" | Elems "nat list" | Count nat | Flag bool

definition ret :: "'o \<Rightarrow> 's option \<Rightarrow> ('s \<times> 'o) option" where
  "ret r x = map_option (\<lambda>s. (s, r)) x"

definition ret_iter :: "('s \<times> nat option) option \<Rightarrow> ('s \<times> list_result) option" where
  "ret_iter x = map_option (\<lambda>(s, i). (s, Iter i)) x"

fun list_exec :: "list_call \<Rightarrow> ilists \<Rightarrow> (ilists \<times> list_result) option" where
  "list_exec (PushBack l e) st = ret Done (push_back l e st)"
| "list_exec (PushFront l e) st = ret Done (push_front l e st)"
| "list_exec (Insert l pos e) st = ret_iter (insert_at l pos e st)"
| "list_exec (Erase l pos) st = ret_iter (erase l pos st)"
| "list_exec (EraseRange l first stop) st = ret_iter (erase_range l first stop st)"
| "list_exec (Remove l e) st = ret Done (remove_elem l e st)"
| "list_exec (DestroyNode e) st = ret Done (node_destroy e st)"
| "list_exec (Clear l) st = ret Done (clear l st)"
| "list_exec (Move this other) st = ret Done (moveFrom this other st)"
| "list_exec (Elements l) st = map_option (\<lambda>xs. (st, Elems xs)) (elements l st)"
| "list_exec (Size l) st = map_option (\<lambda>n. (st, Count n)) (size_of l st)"
| "list_exec (IsEmpty l) st = Some (st, Flag (list_empty l st))"
| "list_exec (Front l) st = map_option (\<lambda>e. (st, Iter (Some e))) (list_front l st)"
| "list_exec (Back l) st = map_option (\<lambda>e. (st, Iter (Some e))) (list_back l st)"
| "list_exec (Contains l e) st = Some (st, Flag (contains l e st))"

text \<open>The specification: pairwise disjoint sequences, one for every list object.\<close>

type_synonym sequences = "nat \<Rightarrow> nat list"

definition linked :: "nat \<Rightarrow> sequences \<Rightarrow> bool" where
  "linked e L \<longleftrightarrow> (\<exists>l. e \<in> set (L l))"

definition before :: "'a \<Rightarrow> 'a list \<Rightarrow> 'a list" where
  "before p xs = takeWhile (\<lambda>x. x \<noteq> p) xs"

definition from_elem :: "'a \<Rightarrow> 'a list \<Rightarrow> 'a list" where
  "from_elem p xs = dropWhile (\<lambda>x. x \<noteq> p) xs"

fun list_spec :: "list_call \<Rightarrow> sequences \<Rightarrow> (sequences \<times> list_result) option" where
  "list_spec (PushBack l e) L = (if linked e L then None else Some (L(l := L l @ [e]), Done))"
| "list_spec (PushFront l e) L = (if linked e L then None else Some (L(l := e # L l), Done))"
| "list_spec (Insert l None e) L = (if linked e L then None else Some (L(l := L l @ [e]), Iter (Some e)))"
| "list_spec (Insert l (Some p) e) L =
     (if linked e L \<or> p \<notin> set (L l) then None
      else Some (L(l := before p (L l) @ e # from_elem p (L l)), Iter (Some e)))"
| "list_spec (Erase l None) L = None"
| "list_spec (Erase l (Some p)) L =
     (if p \<in> set (L l)
      then Some (L(l := remove1 p (L l)), Iter (hd_opt (tl (from_elem p (L l))) None)) else None)"
| "list_spec (EraseRange l None stop) L = None"
| "list_spec (EraseRange l (Some f) None) L =
     (if f \<in> set (L l) then Some (L(l := before f (L l)), Iter None) else None)"
| "list_spec (EraseRange l (Some f) (Some x)) L =
     (if f \<in> set (L l) \<and> x \<in> set (tl (from_elem f (L l)))
      then Some (L(l := before f (L l) @ from_elem x (L l)), Iter (Some x)) else None)"
| "list_spec (Remove l e) L = (if e \<in> set (L l) then Some (L(l := remove1 e (L l)), Done) else None)"
| "list_spec (DestroyNode e) L = Some (\<lambda>l. remove1 e (L l), Done)"
| "list_spec (Clear l) L = Some (L(l := []), Done)"
| "list_spec (Move this other) L =
     Some (if other = this then L else L(this := L other, other := []), Done)"
| "list_spec (Elements l) L = Some (L, Elems (L l))"
| "list_spec (Size l) L = Some (L, Count (length (L l)))"
| "list_spec (IsEmpty l) L = Some (L, Flag (L l = []))"
| "list_spec (Front l) L = (if L l = [] then None else Some (L, Iter (Some (hd (L l)))))"
| "list_spec (Back l) L = (if L l = [] then None else Some (L, Iter (Some (last (L l)))))"
| "list_spec (Contains l e) L = Some (L, Flag (e \<in> set (L l)))"

lemma split_at:
  assumes "p \<in> set xs"
  shows "xs = before p xs @ p # tl (from_elem p xs)" "from_elem p xs = p # tl (from_elem p xs)"
proof -
  have "dropWhile (\<lambda>x. x \<noteq> p) xs \<noteq> []" using assms by (auto simp: dropWhile_eq_Nil_conv)
  then have "from_elem p xs = p # tl (from_elem p xs)"
    unfolding from_elem_def using hd_dropWhile [of "\<lambda>x. x \<noteq> p" xs] by (cases "dropWhile (\<lambda>x. x \<noteq> p) xs") auto
  then show "from_elem p xs = p # tl (from_elem p xs)" "xs = before p xs @ p # tl (from_elem p xs)"
    by (simp_all add: before_def from_elem_def)
qed

text \<open>Where the specification is undefined, so is the code: the asserts catch every misuse.\<close>

lemma push_back_linked: "wf_lists st L \<Longrightarrow> linked e L \<Longrightarrow> push_back l e st = None"
  by (simp add: push_back_def wf_asFreeNode linked_def)

lemma insert_at_bad:
  "wf_lists st L \<Longrightarrow> linked e L \<or> p \<notin> set (L l) \<Longrightarrow> insert_at l (Some p) e st = None"
  by (auto simp: insert_at_def wf_asFreeNode linked_def wf_list_iff)

lemma push_front_linked: "wf_lists st L \<Longrightarrow> linked e L \<Longrightarrow> push_front l e st = None"
  using push_back_linked insert_at_bad
  by (cases "heads st l") (auto simp: push_front_def insert_at_def [of _ None])

lemma erase_bad: "wf_lists st L \<Longrightarrow> p \<notin> set (L l) \<Longrightarrow> erase l (Some p) st = None"
  by (auto simp: erase_def wf_list_iff)

lemma stays_after_not:
  "chain (nodes st) l p xs None \<Longrightarrow> x \<notin> set xs \<Longrightarrow> stays_after st (hd_opt xs None) (Some x) = Some False"
  by (induction xs arbitrary: p) (auto simp: stays_after.simps [of st "Some _"] stays_after.simps [of st None])

lemma erase_range_bad:
  assumes wf: "wf_lists st L" and bad: "f \<notin> set (L l) \<or> x \<notin> set (tl (from_elem f (L l)))"
  shows "erase_range l (Some f) (Some x) st = None"
proof (cases "f \<in> set (L l)")
  case True
  define ys where "ys = tl (from_elem f (L l))"
  have at: "L l = before f (L l) @ f # ys" using split_at(1) [OF True] by (simp add: ys_def)
  have "chain (nodes st) l None (before f (L l) @ f # ys) None"
    using wfD(4) [OF wf, of l] at by simp
  then have "nodes st f = \<lparr>n_list = Some l, n_prev = last_opt (before f (L l)) None, n_next = hd_opt ys None\<rparr>"
    "chain (nodes st) l (Some f) ys None" by simp_all
  then show ?thesis
    using stays_after_not [of st l "Some f" ys x] bad True
    by (simp add: erase_range_def ys_def)
qed (simp add: erase_range_def wf_list_iff [OF wf])

lemma range_step:
  assumes wf: "wf_lists st L"
  shows "same_step wf_lists (list_exec (EraseRange l first stop) st) (list_spec (EraseRange l first stop) L)"
proof (cases first)
  case None
  then show ?thesis by (simp add: erase_range_def ret_iter_def same_step_def)
next
  case (Some f)
  show ?thesis
  proof (cases "f \<in> set (L l)")
    case False
    then have "n_list (nodes st f) \<noteq> Some l" using wf_list_iff [OF wf] by simp
    then show ?thesis
      using Some False by (cases stop) (simp_all add: erase_range_def ret_iter_def same_step_def)
  next
    case True
    define ys where "ys = tl (from_elem f (L l))"
    have at: "L l = before f (L l) @ f # ys" using split_at(1) [OF True] by (simp add: ys_def)
    show ?thesis
    proof (cases stop)
      case None
      then show ?thesis
        using Some True at erase_range_wf [OF wf, of l "before f (L l)" f ys "[]"]
        by (auto simp: ret_iter_def same_step_def)
    next
      case stop: (Some x)
      show ?thesis
      proof (cases "x \<in> set ys")
        case False
        then show ?thesis
          using Some stop erase_range_bad [OF wf, of f l x] by (auto simp: ret_iter_def same_step_def ys_def)
      next
        case True
        have dis: "distinct (before f (L l) @ f # ys)" using wfD(1) [OF wf, of l] at by simp
        define zs where "zs = tl (from_elem x ys)"
        have y: "ys = before x ys @ x # zs" using split_at(1) [OF True] by (simp add: zs_def)
        have "from_elem x (before f (L l) @ f # ys) = from_elem x ys"
          using dis True by (auto simp: from_elem_def dropWhile_append)
        then have "from_elem x (L l) = x # zs" using at split_at(2) [OF True] by (simp add: zs_def)
        moreover have "L l = before f (L l) @ (f # before x ys) @ x # zs" using at y by simp
        ultimately show ?thesis
          using Some stop \<open>f \<in> set (L l)\<close> True erase_range_wf [OF wf, of l "before f (L l)" f "before x ys" "x # zs"]
          by (auto simp: ret_iter_def same_step_def ys_def)
      qed
    qed
  qed
qed

lemma list_step:
  assumes wf: "wf_lists st L"
  shows "same_step wf_lists (list_exec c st) (list_spec c L)"
proof (cases c)
  case (PushBack l e)
  then show ?thesis
    using push_back_linked [OF wf, of e l] push_back_wf [OF wf, of e l]
    by (cases "linked e L") (auto simp: ret_def same_step_def linked_def)
next
  case (PushFront l e)
  then show ?thesis
    using push_front_linked [OF wf, of e l] push_front_wf [OF wf, of e l]
    by (cases "linked e L") (auto simp: ret_def same_step_def linked_def)
next
  case (Insert l pos e)
  show ?thesis
  proof (cases pos)
    case None
    have "tails st' l = Some e" if "wf_lists st' (L(l := L l @ [e]))" for st'
      using wfD(3) [OF that, of l] by simp
    then show ?thesis
      using None Insert push_back_linked [OF wf, of e l] push_back_wf [OF wf, of e l]
      by (cases "linked e L") (auto simp: insert_at_def ret_iter_def same_step_def linked_def)
  next
    case (Some p)
    then show ?thesis
      using Insert insert_at_bad [OF wf, of e p l] insert_at_wf [OF wf, of e l] split_at [of p "L l"]
      by (cases "linked e L \<or> p \<notin> set (L l)")
        (fastforce simp: ret_iter_def same_step_def linked_def)+
  qed
next
  case (Erase l pos)
  show ?thesis
  proof (cases pos)
    case (Some p)
    show ?thesis
    proof (cases "p \<in> set (L l)")
      case True
      note at = split_at(1) [OF True]
      have "remove1 p (L l) = before p (L l) @ tl (from_elem p (L l))"
        using remove1_split at wfD(1) [OF wf, of l] by metis
      then show ?thesis
        using Erase Some True erase_wf [OF wf at] by (auto simp: ret_iter_def same_step_def)
    qed (use Erase Some erase_bad [OF wf] in \<open>auto simp: ret_iter_def same_step_def\<close>)
  qed (use Erase in \<open>auto simp: erase_def ret_iter_def same_step_def\<close>)
next
  case (EraseRange l first stop)
  then show ?thesis by (simp only: range_step [OF wf])
next
  case (Remove l e)
  then show ?thesis
    using remove_elem_wf [OF wf, of e l] erase_bad [OF wf, of e l]
    by (cases "e \<in> set (L l)") (auto simp: ret_def same_step_def remove_elem_def)
next
  case (DestroyNode e)
  then show ?thesis using node_destroy_wf [OF wf, of e] by (auto simp: ret_def same_step_def)
next
  case (Clear l)
  then show ?thesis using clear_wf [OF wf, of l] by (auto simp: ret_def same_step_def)
next
  case (Move this other)
  then show ?thesis
    using moveFrom_wf [OF wf, of other this] wf
    by (cases "other = this") (auto simp: ret_def same_step_def moveFrom_def [of this this])
qed (use wf wfD(2,3) [OF wf] in
    \<open>auto simp: same_step_def elements_wf size_of_wf list_empty_def list_front_def list_back_def
       contains_def wf_list_iff hd_opt_def last_opt_def split: list.splits\<close>)

interpretation lists: simulation list_exec list_spec wf_lists
  by unfold_locales (rule list_step)

text \<open>
  C9. Whatever calls a program makes on its lists and elements, starting from fresh ones, the code gives
  exactly the results of sequences of elements: every \<open>insert\<close>, \<open>push\<close>, \<open>erase\<close>, \<open>remove\<close>, \<open>clear\<close>, move
  and destruction of an element returns (its link loops end) and has its effect on the one list concerned,
  iteration and \<open>size\<close> see the elements in order, and an assertion of the code fails exactly when the
  specification has no result, that is when an element that is in some list is inserted again, or an
  iterator of another list is used.
\<close>

theorem lists_are_sequences:
  "observe (run list_exec cs ilists_init) = observe (run list_spec cs (\<lambda>_. []))"
  by (rule lists.observe_same [OF wf_init])

end
