(* ===== verification/Base64.thy ===== *)
theory Base64
  imports Prelude
begin

text \<open>
  \<open>engine/kernel/src/utils/base64.cpp\<close>: base64 digits and the variable length quantities (VLQ) of
  source maps.  \<open>int\<close> and \<open>unsigned\<close> are 32-bit words; \<open>-val\<close> wraps for the least \<open>int\<close>.  The iterator
  that \<open>VlqDecodeNext\<close> advances is the rest of the string, which is returned also with an error.
\<close>

unbundle bit_operations_syntax

section \<open>Digits\<close>

definition Decode :: "char \<Rightarrow> int" where
  "Decode c =
     (let ch = (of_char c :: int);
          ofs0 = 90 - 65 + 1;
          ofs1 = ofs0 + 122 - 97 + 1
      in if 65 \<le> ch \<and> ch \<le> 90 then ch - 65
         else if 97 \<le> ch \<and> ch \<le> 122 then ch - 97 + ofs0
         else if 48 \<le> ch \<and> ch \<le> 57 then ch - 48 + ofs1
         else if ch = of_char (CHR ''+'') then 62
         else if ch = of_char (CHR ''/'') then 63
         else -1)"

definition table :: string where
  "table = ''ABCDEFGHIJKLMNOPQRSTUVWXYZabcdefghijklmnopqrstuvwxyz0123456789+/''"

definition Encode :: "8 word \<Rightarrow> char" where
  "Encode digit = table ! unat (digit AND 63)"

section \<open>Variable length quantities\<close>

datatype vlq_error = EndOfSequence | InvalidCharacter char

definition vlq_finish :: "u32 \<Rightarrow> u32" where
  "vlq_finish value =
     (let magnitude = drop_bit 1 value
      in if value AND 1 \<noteq> 0 then - magnitude else magnitude)"

text \<open>The loop of \<open>VlqDecodeNext\<close>, with its accumulator and shift.\<close>

fun VlqDecode_loop :: "string \<Rightarrow> u32 \<Rightarrow> nat \<Rightarrow> (vlq_error + u32) \<times> string" where
  "VlqDecode_loop [] value shift = (Inl EndOfSequence, [])"
| "VlqDecode_loop (chr # s) value shift =
     (let digit = Decode chr in
      if digit < 0 then (Inl (InvalidCharacter chr), s)
      else
        (let continuation = ((word_of_int digit :: u32) AND 32 \<noteq> 0);
             value = value OR push_bit shift (word_of_int digit AND 31);
             shift = shift + 5
         in if \<not> continuation then (Inr (vlq_finish value), s)
            else if shift \<ge> 32 then (Inr (vlq_finish value), s)
            else VlqDecode_loop s value shift))"

definition VlqDecodeNext :: "string \<Rightarrow> (vlq_error + u32) \<times> string" where
  "VlqDecodeNext s = VlqDecode_loop s 0 0"

lemma drop_5_less:
  fixes e :: u32
  assumes "drop_bit 5 e \<noteq> 0"
  shows "unat (drop_bit 5 e) < unat e"
proof -
  have "unat (drop_bit 5 e) = unat e div 32" by (simp add: drop_bit_eq_div unat_div)
  moreover have "unat e \<noteq> 0" using assms by (auto simp: unat_eq_0)
  ultimately show ?thesis by simp
qed

function vlq_digits :: "u32 \<Rightarrow> string" where
  "vlq_digits encoded =
     (let digit = encoded AND 31;
          encoded' = drop_bit 5 encoded;
          digit = (if encoded' > 0 then digit OR 32 else digit)
      in Encode (ucast digit) # (if encoded' = 0 then [] else vlq_digits encoded'))"
  by pat_completeness auto
termination
  by (relation "measure unat") (use drop_5_less in auto)

definition vlq_encoded :: "u32 \<Rightarrow> u32" where
  "vlq_encoded val = (if val <s 0 then push_bit 1 (- val) OR 1 else push_bit 1 val)"

definition VlqEncode :: "u32 list \<Rightarrow> string" where
  "VlqEncode values = concat (map (\<lambda>val. vlq_digits (vlq_encoded val)) values)"

declare vlq_digits.simps [simp del]

section \<open>Codes read from a stream\<close>

text \<open>The reading loop of a client: next value until the end of the input or an error.\<close>

fun decode_all :: "('c list \<Rightarrow> ('e + 'v) \<times> 'c list) \<Rightarrow> nat \<Rightarrow> 'c list \<Rightarrow> 'v list" where
  "decode_all dec 0 s = []"
| "decode_all dec (Suc n) s =
     (if s = [] then []
      else case dec s of (Inl _, _) \<Rightarrow> [] | (Inr v, s') \<Rightarrow> v # decode_all dec n s')"

text \<open>A code whose words the decoder recognises whatever follows them.\<close>

locale stream_code =
  fixes enc :: "'v \<Rightarrow> 'c list" and dec :: "'c list \<Rightarrow> ('e + 'v) \<times> 'c list" and norm :: "'v \<Rightarrow> 'v"
  assumes dec_enc: "dec (enc v @ rest) = (Inr (norm v), rest)"
    and enc_not_empty: "enc v \<noteq> []"
begin

lemma decode_all_enc:
  "length (concat (map enc vs)) \<le> n \<Longrightarrow> decode_all dec n (concat (map enc vs)) = map norm vs"
proof (induction vs arbitrary: n)
  case Nil
  then show ?case by (cases n) auto
next
  case (Cons v vs)
  have "length (enc v) > 0" using enc_not_empty by simp
  then have n: "n = Suc (n - 1)" "length (concat (map enc vs)) \<le> n - 1"
    using Cons.prems by (simp_all del: length_greater_0_conv)
  show ?case
    by (subst n(1)) (use Cons.IH [OF n(2)] enc_not_empty in \<open>simp add: dec_enc\<close>)
qed

end

section \<open>The code is read back\<close>

lemma Decode_table: "n < 64 \<Longrightarrow> Decode (table ! n) = int n"
proof -
  have "list_all (\<lambda>n. Decode (table ! n) = int n) [0..<64]" by code_simp
  then show "n < 64 \<Longrightarrow> Decode (table ! n) = int n" by (simp add: list_all_iff)
qed

lemma and_31: "(e :: 'a::len word) AND 31 = take_bit 5 e"
  by (simp add: take_bit_eq_mask mask_eq_exp_minus_1)

lemma and_63: "(e :: 'a::len word) AND 63 = take_bit 6 e"
  by (simp add: take_bit_eq_mask mask_eq_exp_minus_1)

lemma Decode_Encode:
  fixes d :: u32
  assumes "d < 64"
  shows "Decode (Encode (ucast d)) = uint d"
proof -
  have lt: "unat d < 64" using assms by (simp add: word_less_nat_alt)
  have "unat ((ucast d :: 8 word) AND 63) = unat d"
    using lt by (simp only: and_63 unsigned_take_bit_eq unsigned_ucast_eq) (simp add: take_bit_eq_mod)
  then show ?thesis using Decode_table [OF lt] by (simp add: Encode_def)
qed

lemma group_bits:
  "n < 32 \<Longrightarrow> (of_nat n :: u32) < 64 \<and> (of_nat n :: u32) OR 32 < 64 \<and>
     (of_nat n OR (32 :: u32)) AND 31 = of_nat n \<and> (of_nat n :: u32) AND 31 = of_nat n \<and>
     (of_nat n :: u32) AND 32 = 0 \<and> (of_nat n OR (32 :: u32)) AND 32 \<noteq> 0"
proof -
  have "list_all (\<lambda>n. (of_nat n :: u32) < 64 \<and> (of_nat n :: u32) OR 32 < 64 \<and>
     (of_nat n OR (32 :: u32)) AND 31 = of_nat n \<and> (of_nat n :: u32) AND 31 = of_nat n \<and>
     (of_nat n :: u32) AND 32 = 0 \<and> (of_nat n OR (32 :: u32)) AND 32 \<noteq> 0) [0..<32]" by code_simp
  then show "n < 32 \<Longrightarrow> ?thesis" by (simp add: list_all_iff)
qed

lemma digit_bits:
  fixes e :: u32
  defines "d \<equiv> e AND 31"
  shows "d < 64" "d OR 32 < 64" "(d OR 32) AND 31 = d" "d AND 31 = d" "d AND 32 = 0" "(d OR 32) AND 32 \<noteq> 0"
proof -
  have "unat d < 32" by (simp only: d_def and_31 unsigned_take_bit_eq) (simp add: take_bit_eq_mod)
  then show "d < 64" "d OR 32 < 64" "(d OR 32) AND 31 = d" "d AND 31 = d" "d AND 32 = 0"
    "(d OR 32) AND 32 \<noteq> 0"
    using group_bits [of "unat d"] by simp_all
qed

lemma groups_join: "push_bit s (e AND 31) OR push_bit (s + 5) (drop_bit 5 e) = push_bit s (e :: 'a::len word)"
proof (rule bit_eqI)
  fix n assume "possible_bit TYPE('a word) n"
  then show "bit (push_bit s (e AND 31) OR push_bit (s + 5) (drop_bit 5 e)) n = bit (push_bit s e) n"
    by (cases "n < s + 5") (auto simp: and_31 bit_simps)
qed

lemma drop_bit_more:
  fixes e :: u32
  assumes "drop_bit (32 - shift) e = 0"
  shows "drop_bit (32 - (shift + 5)) (drop_bit 5 e) = 0"
proof -
  have "drop_bit (32 - (shift + 5)) (drop_bit 5 e) =
      drop_bit (32 - (shift + 5) + 5 - (32 - shift)) (drop_bit (32 - shift) e)"
    by (simp add: drop_bit_drop_bit)
  then show ?thesis using assms by simp
qed

lemma decode_digits:
  "drop_bit (32 - shift) e = 0 \<Longrightarrow>
     VlqDecode_loop (vlq_digits e @ rest) acc shift = (Inr (vlq_finish (acc OR push_bit shift e)), rest)"
proof (induction e arbitrary: acc shift rule: vlq_digits.induct)
  case (1 e)
  show ?case
  proof (cases "drop_bit 5 e = 0")
    case True
    have "push_bit shift (e AND 31) = push_bit shift e"
      using groups_join [of shift e] True by simp
    then show ?thesis
      using True digit_bits [of e]
      by (subst vlq_digits.simps) (simp add: Let_def Decode_Encode)
  next
    case False
    have small: "shift + 5 < 32"
    proof (rule ccontr)
      assume "\<not> shift + 5 < 32"
      then have "32 - (shift + 5) = 0" by simp
      then show False using drop_bit_more [OF "1.prems"] False by simp
    qed
    have ih: "VlqDecode_loop (vlq_digits (drop_bit 5 e) @ rest) v (shift + 5) =
        (Inr (vlq_finish (v OR push_bit (shift + 5) (drop_bit 5 e))), rest)" for v
      by (rule "1.IH" [OF refl refl refl False drop_bit_more [OF "1.prems"]])
    show ?thesis
      using False small digit_bits [of e] groups_join [of shift e]
      by (subst vlq_digits.simps) (simp add: Let_def Decode_Encode ih word_gt_0 or.assoc)
  qed
qed

text \<open>The value that comes back: every \<open>int\<close> but the least one, whose sign group is that of minus zero.\<close>

definition int_min :: u32 where
  "int_min = 0x80000000"

definition vlq_norm :: "u32 \<Rightarrow> u32" where
  "vlq_norm v = (if v = int_min then 0 else v)"

lemma finish_pos: "\<not> bit w 31 \<Longrightarrow> vlq_finish (push_bit 1 w) = w"
proof -
  assume w: "\<not> bit w 31"
  have "drop_bit 1 (push_bit 1 w) = w"
  proof (rule bit_eqI)
    fix n assume "possible_bit TYPE(32 word) n"
    then show "bit (drop_bit 1 (push_bit 1 w)) n = bit w n"
      using w by (cases "n = 31") (auto simp: bit_simps simp del: push_bit_Suc One_nat_def)
  qed
  moreover have "push_bit 1 w AND 1 = 0"
    by (rule bit_eqI) (auto simp: bit_simps simp del: push_bit_Suc One_nat_def)
  ultimately show ?thesis by (simp add: vlq_finish_def)
qed

lemma finish_neg: "\<not> bit w 31 \<Longrightarrow> vlq_finish (push_bit 1 w OR 1) = - w"
proof -
  assume w: "\<not> bit w 31"
  have "drop_bit 1 (push_bit 1 w OR 1) = w"
  proof (rule bit_eqI)
    fix n assume "possible_bit TYPE(32 word) n"
    then show "bit (drop_bit 1 (push_bit 1 w OR 1)) n = bit w n"
      using w by (cases "n = 31") (auto simp: bit_simps simp del: push_bit_Suc One_nat_def)
  qed
  moreover have "bit ((push_bit 1 w OR 1) AND 1) 0" by (simp add: bit_simps)
  then have "(push_bit 1 w OR 1) AND 1 \<noteq> 0" by (metis bit_0_eq bot_apply bot_bool_def)
  ultimately show ?thesis by (simp add: vlq_finish_def)
qed

lemma sign_bit: "(v :: u32) <s 0 \<longleftrightarrow> bit v 31"
  by (simp add: word_sless_alt sint_uint bit_last_iff bit_uint_iff)

lemma bit_31_ge: "bit (v :: u32) 31 \<longleftrightarrow> 2 ^ 31 \<le> uint v"
proof -
  have "bit v 31 \<longleftrightarrow> bit (uint v) 31" by (simp add: bit_uint_iff)
  then have b: "bit v 31 \<longleftrightarrow> odd (uint v div 2 ^ 31)" using bit_iff_odd by metis
  have v: "0 \<le> uint v" "uint v < 2 ^ 32" using uint_lt2p [of v] by simp_all
  show ?thesis
  proof (cases "2 ^ 31 \<le> uint v")
    case True
    then have "uint v div 2 ^ 31 = 1" using v by (intro int_div_pos_eq [where r = "uint v - 2 ^ 31"]) auto
    then show ?thesis using b True by simp
  next
    case False
    then have "uint v div 2 ^ 31 = 0" using v by (intro div_pos_pos_trivial) auto
    then show ?thesis using b False by simp
  qed
qed

lemma neg_sign_bit:
  assumes "bit (v :: u32) 31" and "v \<noteq> int_min"
  shows "\<not> bit (- v) 31"
proof -
  have ge: "2 ^ 31 \<le> uint v" using assms(1) by (simp add: bit_31_ge)
  have "uint v \<noteq> uint int_min" using assms(2) by (simp only: word_uint_eq_iff [symmetric]) simp
  then have "uint v \<noteq> 2 ^ 31" by (simp add: int_min_def)
  then have "2 ^ 31 < uint v" "uint v < 2 ^ 32" using ge uint_lt2p [of v] by auto
  moreover have "uint (- v) = (- uint v) mod 2 ^ 32" by (simp add: uint_word_ariths)
  ultimately show ?thesis by (simp add: bit_31_ge zmod_zminus1_eq_if)
qed

lemma finish_encoded: "vlq_finish (vlq_encoded v) = vlq_norm v"
proof (cases "bit v 31")
  case True
  show ?thesis
  proof (cases "v = int_min")
    case True
    then show ?thesis by (simp add: vlq_norm_def int_min_def) code_simp
  next
    case False
    then show ?thesis
      using True finish_neg [OF neg_sign_bit [OF True]] by (simp add: vlq_encoded_def sign_bit vlq_norm_def)
  qed
next
  case False
  then have "v \<noteq> int_min" by (auto simp: int_min_def)
  then show ?thesis using False finish_pos by (simp add: vlq_encoded_def sign_bit vlq_norm_def)
qed

lemma vlq_digits_nonempty: "vlq_digits e \<noteq> []"
  by (subst vlq_digits.simps) (simp add: Let_def)

interpretation vlq: stream_code "\<lambda>v. vlq_digits (vlq_encoded v)" VlqDecodeNext vlq_norm
  by unfold_locales
    (simp_all add: VlqDecodeNext_def decode_digits finish_encoded vlq_digits_nonempty)

text \<open>
  Encoding a list of ints and reading it back gives the same list, except that the least \<open>int\<close>, whose
  negation overflows, comes back as \<open>0\<close>.  The encoder's and the decoder's loops end, and every digit the
  encoder writes is one the decoder knows.
\<close>

theorem Vlq_roundtrip:
  "decode_all VlqDecodeNext (length (VlqEncode vs)) (VlqEncode vs) =
     map (\<lambda>v. if v = int_min then 0 else v) vs"
  using vlq.decode_all_enc [of vs "length (VlqEncode vs)"] by (simp add: VlqEncode_def vlq_norm_def)

end
