(* ===== verification/MemBase.thy ===== *)
theory MemBase
  imports Prelude
begin

text \<open>
  \<open>engine/kernel/include/my/memory/mem_base.h\<close>: the size arithmetic of the allocators, on 64-bit words as the
  code has it, with the facts on natural numbers that its users need.
\<close>

unbundle bit_operations_syntax

definition isPowerOf2 :: "64 word \<Rightarrow> bool" where
  "isPowerOf2 value \<longleftrightarrow> value AND (value - 1) = 0"

definition alignedSize :: "64 word \<Rightarrow> 64 word \<Rightarrow> 64 word" where
  "alignedSize sz alignment = (sz + alignment - 1) AND NOT (alignment - 1)"

text \<open>The \<open>size_t\<close> arguments of the other components are natural numbers.\<close>

definition aligned_nat :: "nat \<Rightarrow> nat \<Rightarrow> nat" where
  "aligned_nat sz alignment = unat (alignedSize (of_nat sz) (of_nat alignment))"

definition round_up :: "nat \<Rightarrow> nat \<Rightarrow> nat" where
  "round_up n a = (n + a - 1) div a * a"

lemma and_not_mask: "(w :: 'a::len word) AND NOT (mask k) = push_bit k (drop_bit k w)"
  by (rule bit_eqI) (auto simp: bit_simps)

lemma unat_and_not_mask: "unat ((w :: 64 word) AND NOT (mask k)) = unat w div 2 ^ k * 2 ^ k"
proof -
  have le: "unat w div 2 ^ k * 2 ^ k \<le> unat w" by simp
  have "unat (push_bit k (drop_bit k w)) = (2 ^ k * (unat w div 2 ^ k)) mod 2 ^ 64"
    using unsigned_less [of w, where ?'a = nat] by (simp only: unsigned_push_bit_eq unsigned_drop_bit_eq)
      (simp add: take_bit_eq_mod push_bit_eq_mult drop_bit_eq_div mult.commute)
  also have "\<dots> = 2 ^ k * (unat w div 2 ^ k)"
    by (rule mod_less) (use le_less_trans [OF le unsigned_less [of w]] in \<open>simp add: mult.commute\<close>)
  finally show ?thesis by (simp add: and_not_mask mult.commute)
qed

lemma aligned_nat_round_up:
  assumes "sz + 2 ^ k \<le> 2 ^ 64"
  shows "aligned_nat sz (2 ^ k) = round_up sz (2 ^ k)"
proof -
  have m: "(2 ^ k :: 64 word) - 1 = mask k" by (simp add: mask_eq_exp_minus_1)
  have lt: "sz + 2 ^ k - 1 < 2 ^ 64" using assms by (simp add: less_eq_Suc_le Suc_diff_le)
  have "(of_nat sz + 2 ^ k - 1 :: 64 word) = of_nat (sz + 2 ^ k - 1)" 
    by (subst of_nat_diff) (use one_le_power [of 2 k] in \<open>auto intro: trans_le_add2\<close>)
  then have "unat (of_nat sz + 2 ^ k - 1 :: 64 word) = sz + 2 ^ k - 1"
    using lt by (simp add: unsigned_of_nat take_bit_eq_mod)
  then show ?thesis
    by (simp add: aligned_nat_def alignedSize_def m unat_and_not_mask round_up_def)
qed

lemma round_up_bounds:
  assumes "a > 0"
  shows "n \<le> round_up n a" "round_up n a < n + a" "a dvd round_up n a"
proof -
  have "round_up n a + (n + a - 1) mod a = n + a - 1" by (simp add: round_up_def)
  moreover have "(n + a - 1) mod a < a" using assms by simp
  ultimately show "n \<le> round_up n a" "round_up n a < n + a" using assms by linarith+
  show "a dvd round_up n a" by (simp add: round_up_def)
qed

end
