(* ===== verification/Buffer.thy ===== *)
theory Buffer
  imports MemBase "HOL-Library.Monad_Syntax"
begin

text \<open>
  \<open>engine/kernel/src/memory/buffer.cpp\<close>: byte buffers with one owner (\<open>Buffer\<close>), shared read-only ones
  (\<open>ReadOnlyBuffer\<close>) and raw handles (\<open>BufferStorage\<close>), over a heap of reference-counted blocks.  A byte is
  \<open>None\<close> as long as nobody has written it.  An operation returns \<open>None\<close> where an assertion fails, a block is
  used after it was freed, memory outside a block is touched, or a block is given back to another allocator
  than the one it came from.  The lemmas relate all variables to values: byte strings that no operation on
  another variable changes.
\<close>

section \<open>State\<close>

text \<open>\<open>BufferBase::Header\<close> with the client data behind it; \<open>origin\<close> is the allocator of the block.\<close>

record block =
  refs :: nat
  capacity :: nat
  bsize :: nat
  bytes :: "8 word option list"
  origin :: "nat option"

text \<open>The objects that hold a pointer to a header: \<open>Buffer\<close>, \<open>ReadOnlyBuffer\<close> and \<open>BufferHandle\<close>.\<close>

datatype var = B nat | R nat | H nat

text \<open>All blocks, the next unused address, and \<open>m_storage\<close> of every object.\<close>

record bufs =
  heap :: "nat \<Rightarrow> block option"
  next_addr :: nat
  storage :: "var \<Rightarrow> nat option"

definition bufs_init :: bufs where
  "bufs_init = \<lparr>heap = (\<lambda>_. None), next_addr = 1, storage = (\<lambda>_. None)\<rparr>"

definition set_storage :: "var \<Rightarrow> nat option \<Rightarrow> bufs \<Rightarrow> bufs" where
  "set_storage v a st = st\<lparr>storage := (storage st)(v := a)\<rparr>"

definition set_block :: "nat \<Rightarrow> block option \<Rightarrow> bufs \<Rightarrow> bufs" where
  "set_block a b st = st\<lparr>heap := (heap st)(a := b)\<rparr>"

section \<open>Storage\<close>

definition HeaderSize :: nat where "HeaderSize = 16"
definition AllocationGranularity :: nat where "AllocationGranularity = 128"
definition BigAllocationGranularity :: nat where "BigAllocationGranularity = 1024"
definition BigAllocationThreshold :: nat where "BigAllocationThreshold = 4096"

text \<open>\<open>BufferAllocatorHolder::getAllocator\<close>: the index of the pool, \<open>None\<close> for the default allocator.\<close>

definition bufferAllocator :: "nat \<Rightarrow> nat option" where
  "bufferAllocator storageSize =
     find_index (\<lambda>blockSize. \<not> blockSize < storageSize) [256, 512, 1024, 1280, 1536, 1792, 2048]"

text \<open>\<open>static_cast<uint32_t>\<close>\<close>

definition to_u32 :: "nat \<Rightarrow> nat" where
  "to_u32 n = n mod 2 ^ 32"

definition allocate :: "nat \<Rightarrow> bufs \<Rightarrow> nat \<times> bufs" where
  "allocate clientSize st =
     (let granuleSize = (if clientSize < BigAllocationThreshold then AllocationGranularity
                         else BigAllocationGranularity);
          storageSize = aligned_nat (HeaderSize + clientSize) granuleSize;
          cap = storageSize - HeaderSize;
          a = next_addr st
      in (a, st\<lparr>next_addr := a + 1,
                 heap := (heap st)(a \<mapsto> \<lparr>refs = 1, capacity = to_u32 cap, bsize = to_u32 clientSize,
                                       bytes = replicate cap None, origin = bufferAllocator storageSize\<rparr>)\<rparr>))"

text \<open>\<open>getBufferAllocator(*header).free(header)\<close>\<close>

definition free_block :: "nat \<Rightarrow> bufs \<Rightarrow> bufs option" where
  "free_block a st = do {
     b \<leftarrow> heap st a;
     require (capacity b > 0);
     require (origin b = bufferAllocator (HeaderSize + capacity b));
     Some (set_block a None st)
   }"

definition refsCount :: "var \<Rightarrow> bufs \<Rightarrow> nat option" where
  "refsCount v st = (case storage st v of None \<Rightarrow> Some 0 | Some a \<Rightarrow> map_option refs (heap st a))"

text \<open>\<open>clientData\<close>: the block whose data is meant, \<open>None\<close> for a null pointer.\<close>

definition clientData :: "nat option \<Rightarrow> bufs \<Rightarrow> nat option option" where
  "clientData h st =
     (case h of
        None \<Rightarrow> Some None
      | Some a \<Rightarrow> do {
          b \<leftarrow> heap st a;
          if bsize b = 0 then Some None
          else do { require (capacity b > 0); Some (Some a) }
        })"

definition size_of_handle :: "nat option \<Rightarrow> bufs \<Rightarrow> nat option" where
  "size_of_handle h st = (case h of None \<Rightarrow> Some 0 | Some a \<Rightarrow> map_option bsize (heap st a))"

text \<open>\<open>memcpy\<close> inside blocks: \<open>n\<close> bytes from \<open>src + i\<close>, and bytes to \<open>dst + i\<close>.\<close>

definition mem_read :: "nat option \<Rightarrow> nat \<Rightarrow> nat \<Rightarrow> bufs \<Rightarrow> 8 word option list option" where
  "mem_read src i n st =
     (if n = 0 then Some []
      else do {
        a \<leftarrow> src;
        b \<leftarrow> heap st a;
        require (i + n \<le> length (bytes b));
        Some (take n (drop i (bytes b)))
      })"

definition mem_write :: "nat option \<Rightarrow> nat \<Rightarrow> 8 word option list \<Rightarrow> bufs \<Rightarrow> bufs option" where
  "mem_write dst i xs st =
     (if xs = [] then Some st
      else do {
        a \<leftarrow> dst;
        b \<leftarrow> heap st a;
        require (i + length xs \<le> length (bytes b));
        Some (set_block a (Some (b\<lparr>bytes := take i (bytes b) @ xs @ drop (i + length xs) (bytes b)\<rparr>)) st)
      })"

definition reallocate :: "nat option \<Rightarrow> nat \<Rightarrow> bufs \<Rightarrow> (nat \<times> bufs) option" where
  "reallocate buffer newSize st =
     (case buffer of
        None \<Rightarrow> Some (allocate newSize st)
      | Some a \<Rightarrow> do {
          b \<leftarrow> heap st a;
          require (refs b = 1);
          require (capacity b > 0);
          if capacity b \<ge> newSize then Some (a, set_block a (Some (b\<lparr>bsize := to_u32 newSize\<rparr>)) st)
          else do {
            let (new, st) = allocate newSize st;
            dst \<leftarrow> clientData (Some new) st;
            src \<leftarrow> clientData (Some a) st;
            xs \<leftarrow> mem_read src 0 (bsize b) st;
            st \<leftarrow> mem_write dst 0 xs st;
            st \<leftarrow> free_block a st;
            Some (new, st)
          }
        })"

section \<open>Objects\<close>

text \<open>\<open>BufferBase::release\<close>, \<open>operator=(nullptr)\<close>, the destructors and \<open>BufferStorage::release\<close>.\<close>

definition release :: "var \<Rightarrow> bufs \<Rightarrow> bufs option" where
  "release v st =
     (case storage st v of
        None \<Rightarrow> Some st
      | Some a \<Rightarrow> do {
          let st = set_storage v None st;
          b \<leftarrow> heap st a;
          let st = set_block a (Some (b\<lparr>refs := refs b - 1\<rparr>)) st;
          if refs b = 1 then free_block a st else Some st
        })"

text \<open>A pointer moves from one object to another, whose own pointer is gone.\<close>

definition steal :: "var \<Rightarrow> var \<Rightarrow> bufs \<Rightarrow> bufs" where
  "steal v w st = set_storage w None (set_storage v (storage st w) st)"

text \<open>The constructors: an object that is constructed holds nothing yet.\<close>

definition fresh_var :: "var \<Rightarrow> bufs \<Rightarrow> unit option" where
  "fresh_var v st = require (storage st v = None)"

definition Buffer_new :: "var \<Rightarrow> nat \<Rightarrow> bufs \<Rightarrow> bufs option" where
  "Buffer_new v n st = do {
     fresh_var v st;
     let (a, st) = allocate n st;
     Some (set_storage v (Some a) st)
   }"

text \<open>\<open>BufferBase(header)\<close> with its check, and the move constructors built on it.\<close>

definition attach :: "var \<Rightarrow> nat option \<Rightarrow> bufs \<Rightarrow> bufs option" where
  "attach v h st = do {
     fresh_var v st;
     (case h of None \<Rightarrow> Some () | Some a \<Rightarrow> do { b \<leftarrow> heap st a; require (refs b > 0) });
     Some (set_storage v h st)
   }"

definition move_construct :: "var \<Rightarrow> var \<Rightarrow> bufs \<Rightarrow> bufs option" where
  "move_construct v other st = do {
     st \<leftarrow> attach v (storage st other) st;
     Some (set_storage other None st)
   }"

text \<open>\<open>Buffer::operator=(Buffer&&)\<close>: release, then \<open>std::exchange\<close>.\<close>

definition Buffer_move_assign :: "var \<Rightarrow> var \<Rightarrow> bufs \<Rightarrow> bufs option" where
  "Buffer_move_assign v other st = do {
     st \<leftarrow> release v st;
     let h = storage st other;
     let st = set_storage other None st;
     Some (set_storage v h st)
   }"

definition buf_size :: "var \<Rightarrow> bufs \<Rightarrow> nat option" where
  "buf_size v st = size_of_handle (storage st v) st"

definition buf_empty :: "var \<Rightarrow> bufs \<Rightarrow> bool option" where
  "buf_empty v st =
     (case storage st v of None \<Rightarrow> Some True | Some a \<Rightarrow> map_option (\<lambda>b. bsize b = 0) (heap st a))"

definition buf_is_set :: "var \<Rightarrow> bufs \<Rightarrow> bool" where
  "buf_is_set v st \<longleftrightarrow> storage st v \<noteq> None"

definition sameBufferObject :: "var \<Rightarrow> var \<Rightarrow> bufs \<Rightarrow> bool" where
  "sameBufferObject v w st \<longleftrightarrow> storage st v \<noteq> None \<and> storage st w \<noteq> None \<and> storage st v = storage st w"

definition buf_data :: "var \<Rightarrow> bufs \<Rightarrow> nat option option" where
  "buf_data v st = clientData (storage st v) st"

definition resize :: "var \<Rightarrow> nat \<Rightarrow> bufs \<Rightarrow> bufs option" where
  "resize v newSize st =
     (case storage st v of
        None \<Rightarrow> (let (a, st) = allocate newSize st in Some (set_storage v (Some a) st))
      | Some a \<Rightarrow> do {
          c \<leftarrow> refsCount v st;
          require (c = 1);
          (new, st) \<leftarrow> reallocate (Some a) newSize st;
          Some (set_storage v (Some new) st)
        })"

text \<open>The pointer that \<open>append\<close> returns, as block and offset.\<close>

definition append_buf :: "var \<Rightarrow> nat \<Rightarrow> bufs \<Rightarrow> (bufs \<times> (nat option \<times> nat)) option" where
  "append_buf v count st = do {
     offset \<leftarrow> buf_size v st;
     st \<leftarrow> resize v (offset + count) st;
     d \<leftarrow> buf_data v st;
     Some (st, (d, offset))
   }"

definition concat_buf :: "var \<Rightarrow> var \<Rightarrow> bufs \<Rightarrow> bufs option" where
  "concat_buf v other st =
     (if \<not> buf_is_set v st then Buffer_move_assign v other st
      else do {
        n \<leftarrow> buf_size other st;
        (st, (d, offset)) \<leftarrow> append_buf v n st;
        src \<leftarrow> buf_data other st;
        n \<leftarrow> buf_size other st;
        xs \<leftarrow> mem_read src 0 n st;
        st \<leftarrow> mem_write d offset xs st;
        release other st
      })"

text \<open>\<open>ReadOnlyBuffer\<close>\<close>

definition Ro_assign_swap :: "var \<Rightarrow> var \<Rightarrow> bufs \<Rightarrow> bufs option" where
  "Ro_assign_swap v other st = do {
     st \<leftarrow> release v st;
     let h = storage st v;
     let st = set_storage v (storage st other) st;
     Some (set_storage other h st)
   }"

definition Ro_from_buffer :: "var \<Rightarrow> var \<Rightarrow> bufs \<Rightarrow> bufs option" where
  "Ro_from_buffer v other st = do {
     fresh_var v st;
     c \<leftarrow> refsCount other st;
     require (storage st other = None \<or> c = 1);
     Ro_assign_swap v other st
   }"

definition add_ref :: "var \<Rightarrow> bufs \<Rightarrow> bufs option" where
  "add_ref v st =
     (case storage st v of
        None \<Rightarrow> Some st
      | Some a \<Rightarrow> do {
          b \<leftarrow> heap st a;
          require (refs b > 0);
          Some (set_block a (Some (b\<lparr>refs := refs b + 1\<rparr>)) st)
        })"

definition Ro_copy :: "var \<Rightarrow> var \<Rightarrow> bufs \<Rightarrow> bufs option" where
  "Ro_copy v other st = do {
     st \<leftarrow> attach v (storage st other) st;
     add_ref v st
   }"

definition Ro_copy_assign :: "var \<Rightarrow> var \<Rightarrow> bufs \<Rightarrow> bufs option" where
  "Ro_copy_assign v other st = do {
     st \<leftarrow> release v st;
     let st = set_storage v (storage st other) st;
     add_ref v st
   }"

text \<open>\<open>BufferUtils::copy\<close> into an object under construction.\<close>

definition copy_buf :: "var \<Rightarrow> var \<Rightarrow> nat \<Rightarrow> nat option \<Rightarrow> bufs \<Rightarrow> bufs option" where
  "copy_buf v source offset n st = do {
     fresh_var v st;
     total \<leftarrow> buf_size source st;
     require (offset \<le> total);
     require (case n of None \<Rightarrow> True | Some k \<Rightarrow> offset + k \<le> total);
     if \<not> buf_is_set source st then Some st
     else do {
       let copySize = (case n of None \<Rightarrow> total - offset | Some k \<Rightarrow> k);
       st \<leftarrow> Buffer_new v copySize st;
       src \<leftarrow> buf_data source st;
       dst \<leftarrow> buf_data v st;
       xs \<leftarrow> mem_read src offset copySize st;
       mem_write dst 0 xs st
     }
   }"

definition toBuffer :: "var \<Rightarrow> var \<Rightarrow> bufs \<Rightarrow> bufs option" where
  "toBuffer v this st =
     (if storage st this = None then do { fresh_var v st; Some st }
      else do {
        c \<leftarrow> refsCount this st;
        if c = 1 then do {
          let h = storage st this;
          let st = set_storage this None st;
          attach v h st
        }
        else do {
          st \<leftarrow> copy_buf v this 0 None st;
          release this st
        }
      })"

text \<open>\<open>BufferStorage\<close> with explicit handles.\<close>

definition takeOut :: "var \<Rightarrow> var \<Rightarrow> bufs \<Rightarrow> bufs option" where
  "takeOut v buffer st =
     (if storage st buffer = None then do { fresh_var v st; Some st }
      else do {
        c \<leftarrow> refsCount buffer st;
        require (c = 1);
        fresh_var v st;
        Some (steal v buffer st)
      })"

text \<open>\<open>bufferFromHandle\<close>: the handle is the caller's to forget, so its object is emptied.\<close>

definition bufferFromHandle :: "var \<Rightarrow> var \<Rightarrow> bufs \<Rightarrow> bufs option" where
  "bufferFromHandle v h st = do {
     require (storage st h \<noteq> None);
     st \<leftarrow> attach v (storage st h) st;
     Some (set_storage h None st)
   }"

text \<open>\<open>bufferFromClientData\<close> for the client data of a handle.\<close>

definition bufferFromClientData :: "var \<Rightarrow> var \<Rightarrow> nat option \<Rightarrow> bufs \<Rightarrow> bufs option" where
  "bufferFromClientData v h n st = do {
     ptr \<leftarrow> clientData (storage st h) st;
     require (ptr \<noteq> None);
     st \<leftarrow> bufferFromHandle v h st;
     (case n of
        None \<Rightarrow> Some st
      | Some k \<Rightarrow> do {
          a \<leftarrow> storage st v;
          b \<leftarrow> heap st a;
          require (k \<le> capacity b);
          resize v k st
        })
   }"

definition handle_allocate :: "var \<Rightarrow> nat \<Rightarrow> bufs \<Rightarrow> bufs option" where
  "handle_allocate h n st = Buffer_new h n st"

definition handle_reallocate :: "var \<Rightarrow> nat \<Rightarrow> bufs \<Rightarrow> bufs option" where
  "handle_reallocate h n st = do {
     (new, st) \<leftarrow> reallocate (storage st h) n st;
     Some (set_storage h (Some new) st)
   }"

section \<open>Client access\<close>

text \<open>
  Reading and writing through the pointer of \<open>data()\<close>; reading a byte nobody wrote has no value.
\<close>

definition read_data :: "var \<Rightarrow> nat \<Rightarrow> nat \<Rightarrow> bufs \<Rightarrow> 8 word list option" where
  "read_data v i n st = do {
     d \<leftarrow> buf_data v st;
     xs \<leftarrow> mem_read d i n st;
     those xs
   }"

definition write_data :: "var \<Rightarrow> nat \<Rightarrow> 8 word list \<Rightarrow> bufs \<Rightarrow> bufs option" where
  "write_data v i ws st = do {
     d \<leftarrow> buf_data v st;
     mem_write d i (map Some ws) st
   }"

definition asStringView :: "var \<Rightarrow> bufs \<Rightarrow> 8 word list option" where
  "asStringView v st = do {
     e \<leftarrow> buf_empty v st;
     if e then Some []
     else do { n \<leftarrow> buf_size v st; read_data v 0 n st }
   }"

definition fromStringView :: "var \<Rightarrow> 8 word list \<Rightarrow> bufs \<Rightarrow> bufs option" where
  "fromStringView v ws st = do {
     fresh_var v st;
     if ws = [] then Some st
     else do {
       (st, (d, offset)) \<leftarrow> append_buf v (length ws) st;
       mem_write d offset (map Some ws) st
     }
   }"

section \<open>Invariant\<close>

definition handles :: "bufs \<Rightarrow> nat \<Rightarrow> var set" where
  "handles st a = {v. storage st v = Some a}"

fun owning :: "var \<Rightarrow> bool" where
  "owning (R _) = False"
| "owning _ = True"

definition block_ok :: "block \<Rightarrow> bool" where
  "block_ok b \<longleftrightarrow>
     length (bytes b) = capacity b \<and> bsize b \<le> capacity b \<and> 0 < capacity b \<and>
     origin b = bufferAllocator (HeaderSize + capacity b)"

lemma block_ok_refs [simp]: "block_ok (b\<lparr>refs := n\<rparr>) = block_ok b"
  by (simp add: block_ok_def)

text \<open>
  No pointer dangles, every block has at least one handle and counts them, and a block whose handle
  may write has no other.
\<close>

definition binv :: "bufs \<Rightarrow> bool" where
  "binv st \<longleftrightarrow>
     finite {v. storage st v \<noteq> None} \<and>
     (\<forall>v a. storage st v = Some a \<longrightarrow> (\<exists>b. heap st a = Some b)) \<and>
     (\<forall>a b. heap st a = Some b \<longrightarrow>
        a < next_addr st \<and> block_ok b \<and> refs b = card (handles st a) \<and> refs b \<noteq> 0) \<and>
     (\<forall>v a. owning v \<longrightarrow> storage st v = Some a \<longrightarrow> handles st a = {v})"

lemma binvD:
  assumes "binv st"
  shows "finite {v. storage st v \<noteq> None}"
    "storage st v = Some a \<Longrightarrow> \<exists>b. heap st a = Some b"
    "heap st a = Some b \<Longrightarrow> a < next_addr st"
    "heap st a = Some b \<Longrightarrow> block_ok b"
    "heap st a = Some b \<Longrightarrow> refs b = card (handles st a)"
    "heap st a = Some b \<Longrightarrow> refs b \<noteq> 0"
    "owning v \<Longrightarrow> storage st v = Some a \<Longrightarrow> handles st a = {v}"
  using assms unfolding binv_def by blast+

lemma binvI:
  assumes "finite {v. storage st v \<noteq> None}"
    and "\<And>v a. storage st v = Some a \<Longrightarrow> \<exists>b. heap st a = Some b"
    and "\<And>a b. heap st a = Some b \<Longrightarrow> a < next_addr st"
    and "\<And>a b. heap st a = Some b \<Longrightarrow> block_ok b"
    and "\<And>a b. heap st a = Some b \<Longrightarrow> refs b = card (handles st a) \<and> refs b \<noteq> 0"
    and "\<And>v a. owning v \<Longrightarrow> storage st v = Some a \<Longrightarrow> handles st a = {v}"
  shows "binv st"
  using assms unfolding binv_def by blast

lemma finite_upd: "finite {v. f v \<noteq> None} \<Longrightarrow> finite {v. (f(w := x)) v \<noteq> None}"
  by (rule finite_subset [of _ "insert w {v. f v \<noteq> None}"]) auto

lemma finite_handles: "binv st \<Longrightarrow> finite (handles st a)"
  by (rule finite_subset [OF _ binvD(1)]) (auto simp: handles_def)

lemma binv_fresh: "binv st \<Longrightarrow> heap st (next_addr st) = None \<and> handles st (next_addr st) = {}"
  unfolding handles_def using binvD(2,3) by (metis (mono_tags, lifting) Collect_empty_eq not_Some_eq order_less_irrefl)

text \<open>The value of an object: the client bytes.\<close>

definition val :: "bufs \<Rightarrow> var \<Rightarrow> 8 word option list option" where
  "val st v = (case storage st v of None \<Rightarrow> None
     | Some a \<Rightarrow> map_option (\<lambda>b. take (bsize b) (bytes b)) (heap st a))"

lemma val_eqI:
  "storage st' v = storage st w \<Longrightarrow> (\<And>a. storage st w = Some a \<Longrightarrow> heap st' a = heap st a) \<Longrightarrow>
     val st' v = val st w"
  by (cases "storage st w") (simp_all add: val_def)

lemma val_is: "storage st v = Some a \<Longrightarrow> heap st a = Some b \<Longrightarrow> val st v = Some (take (bsize b) (bytes b))"
  by (simp add: val_def)

lemma val_null: "storage st v = None \<Longrightarrow> val st v = None"
  by (simp add: val_def)

lemma val_None: "binv st \<Longrightarrow> val st v = None \<longleftrightarrow> storage st v = None"
  using binvD(2) by (fastforce simp: val_def split: option.splits)

lemma val_Some:
  assumes "binv st" and "val st v = Some xs"
  obtains a b where "storage st v = Some a" "heap st a = Some b" "block_ok b" "xs = take (bsize b) (bytes b)"
    "length xs = bsize b"
proof -
  obtain a where a: "storage st v = Some a" using assms(2) by (auto simp: val_def split: option.splits)
  obtain b where b: "heap st a = Some b" using binvD(2) [OF assms(1) a] by blast
  have ok: "block_ok b" by (rule binvD(4) [OF assms(1) b])
  have "xs = take (bsize b) (bytes b)" using assms(2) a b by (simp add: val_def)
  moreover have "length (take (bsize b) (bytes b)) = bsize b" using ok by (simp add: block_ok_def)
  ultimately show ?thesis using that a b ok by blast
qed

subsection \<open>State changes\<close>

definition st_alloc :: "var \<Rightarrow> block \<Rightarrow> bufs \<Rightarrow> bufs" where
  "st_alloc v b st =
     st\<lparr>next_addr := next_addr st + 1, heap := (heap st)(next_addr st \<mapsto> b),
        storage := (storage st)(v \<mapsto> next_addr st)\<rparr>"

lemma binv_alloc:
  assumes inv: "binv st" and v: "storage st v = None" and b: "block_ok b" "refs b = 1"
  shows "binv (st_alloc v b st)" "val (st_alloc v b st) = (val st)(v \<mapsto> take (bsize b) (bytes b))"
proof -
  let ?n = "next_addr st"
  have new: "heap st ?n = None" "handles st ?n = {}" using binv_fresh [OF inv] by auto
  have h: "handles (st_alloc v b st) a = (if a = ?n then {v} else handles st a)" for a
    using v new(2) by (auto simp: handles_def st_alloc_def)
  have lt: "a \<noteq> ?n" if "storage st w = Some a" for w a
    using that binvD(2,3) [OF inv] by blast
  have hp: "heap (st_alloc v b st) = (heap st)(?n \<mapsto> b)" "storage (st_alloc v b st) = (storage st)(v \<mapsto> ?n)"
    "next_addr (st_alloc v b st) = Suc ?n" by (simp_all add: st_alloc_def)
  show "binv (st_alloc v b st)"
  proof (rule binvI; unfold h hp)
    show "finite {w. ((storage st)(v \<mapsto> ?n)) w \<noteq> None}" by (rule finite_upd [OF binvD(1) [OF inv]])
  next
    fix w a assume "((storage st)(v \<mapsto> ?n)) w = Some a"
    then show "\<exists>c. ((heap st)(?n \<mapsto> b)) a = Some c" using binvD(2) [OF inv, of w a] by (auto split: if_splits)
  next
    fix a c assume c: "((heap st)(?n \<mapsto> b)) a = Some c"
    show "a < Suc ?n" using c binvD(3) [OF inv, of a c] by (auto split: if_splits)
    show "block_ok c" using c b binvD(4) [OF inv, of a c] by (auto split: if_splits)
    show "refs c = card (if a = ?n then {v} else handles st a) \<and> refs c \<noteq> 0"
      using c b binvD(5) [OF inv, of a c] binvD(6) [OF inv, of a c] by (cases "a = ?n") simp_all
  next
    fix w a assume "owning w" "((storage st)(v \<mapsto> ?n)) w = Some a"
    then show "(if a = ?n then {v} else handles st a) = {w}"
      using lt [of w a] binvD(7) [OF inv, of w a] by (auto split: if_splits)
  qed
  show "val (st_alloc v b st) = (val st)(v \<mapsto> take (bsize b) (bytes b))"
    using lt by (auto simp: val_def st_alloc_def fun_eq_iff split: option.splits)
qed

definition st_move :: "var \<Rightarrow> var \<Rightarrow> bufs \<Rightarrow> bufs" where
  "st_move v w st = st\<lparr>storage := (storage st)(v := storage st w, w := None)\<rparr>"

lemma binv_move:
  assumes inv: "binv st" and v: "storage st v = None" "v \<noteq> w"
    and own: "\<And>a. owning v \<Longrightarrow> storage st w = Some a \<Longrightarrow> handles st a = {w}"
  shows "binv (st_move v w st)" "val (st_move v w st) = (val st)(v := val st w, w := None)"
proof -
  have h: "handles (st_move v w st) a =
      (if storage st w = Some a then insert v (handles st a - {w}) else handles st a)" for a
    using v by (auto simp: handles_def st_move_def)
  have c: "card (handles (st_move v w st) a) = card (handles st a)" for a
  proof (cases "storage st w = Some a")
    case True
    then have "w \<in> handles st a" "v \<notin> handles st a" using v by (auto simp: handles_def)
    then have "card (insert v (handles st a - {w})) = card (handles st a)"
      using card_Suc_Diff1 [OF finite_handles [OF inv, of a]] finite_handles [OF inv, of a] by simp
    then show ?thesis using True by (simp add: h)
  qed (simp add: h)
  have hp: "heap (st_move v w st) = heap st" "next_addr (st_move v w st) = next_addr st"
    "storage (st_move v w st) = (storage st)(v := storage st w, w := None)" by (simp_all add: st_move_def)
  show "binv (st_move v w st)"
  proof (rule binvI; (unfold c hp)?)
    show "finite {u. ((storage st)(v := storage st w, w := None)) u \<noteq> None}"
      by (intro finite_upd binvD(1) [OF inv])
  next
    fix u a assume "((storage st)(v := storage st w, w := None)) u = Some a"
    then show "\<exists>b. heap st a = Some b"
      using binvD(2) [OF inv, of u a] binvD(2) [OF inv, of w a] by (auto split: if_splits)
  next
    fix a b assume b: "heap st a = Some b"
    show "a < next_addr st" "block_ok b" "refs b = card (handles st a) \<and> refs b \<noteq> 0"
      using binvD(3-6) [OF inv b] by simp_all
  next
    fix u a assume o: "owning u" and u: "((storage st)(v := storage st w, w := None)) u = Some a"
    show "handles (st_move v w st) a = {u}"
    proof (cases "u = v")
      case True
      then show ?thesis using o u v own [of a] by (simp add: h split: if_splits)
    next
      case False
      then have su: "storage st u = Some a" "u \<noteq> w" using u by (simp_all split: if_splits)
      have hu: "handles st a = {u}" by (rule binvD(7) [OF inv o su(1)])
      have "w \<in> handles st a \<longleftrightarrow> storage st w = Some a" by (simp add: handles_def)
      then have "storage st w \<noteq> Some a" using hu su(2) by simp
      then show ?thesis by (simp add: h hu)
    qed
  qed
  show "val (st_move v w st) = (val st)(v := val st w, w := None)"
  proof (rule ext)
    fix u show "val (st_move v w st) u = ((val st)(v := val st w, w := None)) u"
      using v by (cases "u = w"; cases "u = v") (auto simp: hp val_null intro!: val_eqI)
  qed
qed

definition st_share :: "var \<Rightarrow> nat \<Rightarrow> bufs \<Rightarrow> bufs" where
  "st_share v a st =
     st\<lparr>heap := (heap st)(a := map_option (\<lambda>b. b\<lparr>refs := refs b + 1\<rparr>) (heap st a)),
        storage := (storage st)(v \<mapsto> a)\<rparr>"

lemma binv_share:
  assumes inv: "binv st" and v: "storage st v = None" "\<not> owning v"
    and w: "storage st w = Some a" "\<not> owning w"
  shows "binv (st_share v a st)" "val (st_share v a st) = (val st)(v := val st w)"
proof -
  obtain b where b: "heap st a = Some b" using binvD(2) [OF inv w(1)] by blast
  have h: "handles (st_share v a st) c = (if c = a then insert v (handles st a) else handles st c)" for c
    using v by (auto simp: handles_def st_share_def)
  have nv: "v \<notin> handles st a" using v by (simp add: handles_def)
  have shared: "handles st a \<noteq> {u}" if "owning u" for u
    using that w by (auto simp: handles_def)
  let ?b = "b\<lparr>refs := refs b + 1\<rparr>"
  have hp: "heap (st_share v a st) = (heap st)(a \<mapsto> ?b)" "next_addr (st_share v a st) = next_addr st"
    "storage (st_share v a st) = (storage st)(v \<mapsto> a)" using b by (simp_all add: st_share_def)
  show "binv (st_share v a st)"
  proof (rule binvI; unfold h hp)
    show "finite {u. ((storage st)(v \<mapsto> a)) u \<noteq> None}" by (rule finite_upd [OF binvD(1) [OF inv]])
  next
    fix u c assume "((storage st)(v \<mapsto> a)) u = Some c"
    then show "\<exists>d. ((heap st)(a \<mapsto> ?b)) c = Some d" using binvD(2) [OF inv, of u c] by (auto split: if_splits)
  next
    fix c d assume d: "((heap st)(a \<mapsto> ?b)) c = Some d"
    show "c < next_addr st" "block_ok d"
      using d b binvD(3,4) [OF inv, of c] binvD(3,4) [OF inv b] by (auto split: if_splits)
    have "card (insert v (handles st a)) = Suc (refs b)"
      using nv binvD(5) [OF inv b] finite_handles [OF inv] by simp
    then show "refs d = card (if c = a then insert v (handles st a) else handles st c) \<and> refs d \<noteq> 0"
      using d binvD(5) [OF inv, of c d] binvD(6) [OF inv, of c d] by (cases "c = a") auto
  next
    fix u c assume o: "owning u" and u: "((storage st)(v \<mapsto> a)) u = Some c"
    then have "storage st u = Some c" using v by (auto split: if_splits)
    then have "handles st c = {u}" by (rule binvD(7) [OF inv o])
    then show "(if c = a then insert v (handles st a) else handles st c) = {u}"
      using shared [OF o] by auto
  qed
  show "val (st_share v a st) = (val st)(v := val st w)"
    using b w(1) by (auto simp: val_def st_share_def fun_eq_iff split: option.splits)
qed

lemma binv_upd:
  assumes inv: "binv st" and b: "heap st a = Some b" and b': "block_ok b'" "refs b' = refs b"
    and v: "storage st v = Some a" "owning v"
  shows "binv (set_block a (Some b') st)"
    "val (set_block a (Some b') st) = (val st)(v \<mapsto> take (bsize b') (bytes b'))"
proof -
  have h: "handles (set_block a (Some b') st) = handles st"
    by (simp add: handles_def set_block_def fun_eq_iff)
  show "binv (set_block a (Some b') st)"
  proof (rule binvI; (unfold h)?)
    show "finite {u. storage (set_block a (Some b') st) u \<noteq> None}"
      using binvD(1) [OF inv] by (simp add: set_block_def)
  next
    fix u c assume "storage (set_block a (Some b') st) u = Some c"
    then show "\<exists>d. heap (set_block a (Some b') st) c = Some d"
      using binvD(2) [OF inv, of u c] by (auto simp: set_block_def)
  next
    fix c d assume d: "heap (set_block a (Some b') st) c = Some d"
    show "c < next_addr (set_block a (Some b') st)" "block_ok d"
      using d b' binvD(3,4) [OF inv, of c] binvD(3) [OF inv b] by (auto simp: set_block_def split: if_splits)
    show "refs d = card (handles st c) \<and> refs d \<noteq> 0"
      using d b' binvD(5,6) [OF inv b] binvD(5,6) [OF inv, of c d]
      by (cases "c = a") (simp_all add: set_block_def)
  next
    fix u c assume "owning u" "storage (set_block a (Some b') st) u = Some c"
    then show "handles st c = {u}" using binvD(7) [OF inv, of u c] by (simp add: set_block_def)
  qed
  have "handles st a = {v}" by (rule binvD(7) [OF inv v(2,1)])
  then have only: "storage st u \<noteq> Some a" if "u \<noteq> v" for u using that by (auto simp: handles_def)
  show "val (set_block a (Some b') st) = (val st)(v \<mapsto> take (bsize b') (bytes b'))"
  proof (rule ext)
    fix u show "val (set_block a (Some b') st) u = ((val st)(v \<mapsto> take (bsize b') (bytes b'))) u"
    proof (cases "u = v")
      case True
      then show ?thesis using v(1) val_is [of "set_block a (Some b') st" v a b'] by (simp add: set_block_def)
    next
      case False
      then have "val (set_block a (Some b') st) u = val st u"
        using only [of u] by (intro val_eqI) (auto simp: set_block_def)
      then show ?thesis using False by simp
    qed
  qed
qed

lemma release_ok:
  assumes inv: "binv st"
  obtains st' where "release v st = Some st'" "binv st'" "val st' = (val st)(v := None)"
    "storage st' = (storage st)(v := None)" "\<And>u. u \<noteq> v \<Longrightarrow> owning u \<Longrightarrow> storage st u = Some a \<Longrightarrow> handles st' a = {u}"
proof (cases "storage st v")
  case None
  then have "val st = (val st)(v := None)" "storage st = (storage st)(v := None)" by (auto simp: val_def)
  then show ?thesis using that [of st] None inv binvD(7) [OF inv] by (simp add: release_def)
next
  case (Some c)
  obtain b where b: "heap st c = Some b" using binvD(2) [OF inv Some] by blast
  have ok: "0 < capacity b" "origin b = bufferAllocator (HeaderSize + capacity b)"
    using binvD(4) [OF inv b] by (auto simp: block_ok_def)
  let ?st = "set_block c (if refs b = 1 then None else Some (b\<lparr>refs := refs b - 1\<rparr>)) (set_storage v None st)"
  have eq: "release v st = Some ?st"
    using Some b ok
    by (cases "refs b = 1") (simp_all add: release_def free_block_def set_block_def set_storage_def Let_def)
  have h: "handles ?st d = handles st d - {v}" for d
    by (auto simp: handles_def set_block_def set_storage_def)
  have v: "v \<in> handles st c" using Some by (simp add: handles_def)
  have cd: "card (handles st c - {v}) = refs b - 1"
    using v binvD(5) [OF inv b] finite_handles [OF inv] by (simp add: card_Diff_singleton)
  have one: "handles st c = {v}" if "refs b = 1"
    using that v binvD(5) [OF inv b] by (metis card_1_singletonE singletonD)
  have other: "v \<notin> handles st d" if "d \<noteq> c" for d using that Some by (auto simp: handles_def)
  have keep: "storage st u = Some c \<Longrightarrow> u = v" if "refs b = 1" for u
    using one [OF that] by (auto simp: handles_def)
  have inv': "binv ?st"
    unfolding binv_def h
  proof (intro conjI allI impI)
    show "finite {u. storage ?st u \<noteq> None}"
      by (rule finite_subset [OF _ binvD(1) [OF inv]]) (auto simp: set_block_def set_storage_def)
  next
    fix d e assume e: "heap ?st d = Some e"
    show "refs e = card (handles st d - {v})"
      using e cd other [of d] binvD(5) [OF inv] by (auto simp: set_block_def set_storage_def split: if_splits)
    show "block_ok e"
      using e b binvD(4) [OF inv] by (fastforce simp: set_block_def set_storage_def split: if_splits)
    show "d < next_addr ?st" "refs e \<noteq> 0"
      using e b binvD(3,6) [OF inv] by (fastforce simp: set_block_def set_storage_def split: if_splits)+
  next
    fix u d assume u: "storage ?st u = Some d"
    then have su: "storage st u = Some d" "u \<noteq> v" by (auto simp: set_block_def set_storage_def split: if_splits)
    then obtain e where e: "heap st d = Some e" using binvD(2) [OF inv] by blast
    then show "\<exists>e. heap ?st d = Some e"
      using su keep [of u] b by (auto simp: set_block_def set_storage_def)
  next
    fix u d assume o: "owning u" and u: "storage ?st u = Some d"
    then have su: "storage st u = Some d" "u \<noteq> v" by (auto simp: set_block_def set_storage_def split: if_splits)
    then show "handles st d - {v} = {u}" using binvD(7) [OF inv o] by auto
  qed
  have val': "val ?st = (val st)(v := None)"
  proof (rule ext)
    fix u show "val ?st u = ((val st)(v := None)) u"
    proof (cases "u = v")
      case True
      then show ?thesis by (simp add: val_null set_block_def set_storage_def)
    next
      case False
      show ?thesis
      proof (cases "storage st u = Some c")
        case True
        then have "refs b \<noteq> 1" using keep [of u] False by blast
        then have "val ?st u = Some (take (bsize b) (bytes b))"
          using True False by (simp add: val_def set_block_def set_storage_def)
        then show ?thesis using False val_is [OF True b] by simp
      next
        case other: False
        then have "val ?st u = val st u"
          using False by (intro val_eqI) (auto simp: set_block_def set_storage_def)
        then show ?thesis using False by simp
      qed
    qed
  qed
  have sto: "storage ?st = (storage st)(v := None)" by (simp add: set_block_def set_storage_def)
  have own': "handles ?st a = {u}" if "u \<noteq> v" "owning u" "storage st u = Some a" for u
    unfolding h binvD(7) [OF inv that(2,3)] using that(1) by auto
  show ?thesis by (rule that [OF eq inv' val' sto own'])
qed

section \<open>Operations on values\<close>

text \<open>Requests up to this size are rounded up without leaving the 32 bits of the header.\<close>

definition max_buffer :: nat where
  "max_buffer = 2 ^ 32 - 2048"

lemma allocate_ok:
  assumes "n \<le> max_buffer"
  obtains b where "allocate n st = (next_addr st, st\<lparr>next_addr := next_addr st + 1, heap := (heap st)(next_addr st \<mapsto> b)\<rparr>)"
    "block_ok b" "refs b = 1" "bsize b = n" "bytes b = replicate (capacity b) None" "n \<le> capacity b"
proof -
  define k :: nat where "k = (if n < 4096 then 7 else 10)"
  have g: "(if n < BigAllocationThreshold then AllocationGranularity else BigAllocationGranularity) = 2 ^ k"
    by (simp add: k_def BigAllocationThreshold_def AllocationGranularity_def BigAllocationGranularity_def)
  have k: "(2::nat) ^ k \<le> 1024" by (simp add: k_def)
  define s where "s = round_up (16 + n) (2 ^ k)"
  have bounds: "16 + n \<le> s" "s < 16 + n + 2 ^ k" using round_up_bounds [of "2 ^ k" "16 + n"] by (auto simp: s_def)
  have pos: "s \<noteq> 16"
  proof
    assume "s = 16"
    moreover have "(2::nat) ^ k dvd s" using round_up_bounds(3) [of "2 ^ k"] by (simp add: s_def)
    moreover have "(32::nat) dvd 2 ^ k" by (auto simp: k_def)
    ultimately have "(32::nat) dvd 16" using dvd_trans by metis
    then show False by simp
  qed
  have al: "aligned_nat (HeaderSize + n) (2 ^ k) = s"
    unfolding s_def HeaderSize_def
    by (rule aligned_nat_round_up) (use assms k in \<open>simp add: max_buffer_def\<close>)
  have u: "to_u32 n = n" "to_u32 (s - 16) = s - 16"
    using assms bounds k by (simp_all add: to_u32_def max_buffer_def)
  define b where "b = \<lparr>refs = 1, capacity = s - 16, bsize = n, bytes = replicate (s - 16) None,
      origin = bufferAllocator s\<rparr>"
  have "allocate n st = (next_addr st, st\<lparr>next_addr := next_addr st + 1, heap := (heap st)(next_addr st \<mapsto> b)\<rparr>)"
    unfolding allocate_def Let_def g al b_def using u by (simp add: HeaderSize_def)
  then show ?thesis
    using bounds pos by (intro that [of b]) (auto simp: b_def block_ok_def HeaderSize_def)
qed

definition resizes :: "'a list \<Rightarrow> nat \<Rightarrow> 'a list \<Rightarrow> bool" where
  "resizes xs n ys \<longleftrightarrow> length ys = n \<and> take (length xs) ys = take n xs"

lemma Buffer_new_ok:
  assumes inv: "binv st" and v: "val st v = None" and n: "n \<le> max_buffer"
  obtains st' where "Buffer_new v n st = Some st'" "binv st'" "val st' = (val st)(v \<mapsto> replicate n None)"
proof -
  obtain b where b: "allocate n st = (next_addr st, st\<lparr>next_addr := next_addr st + 1, heap := (heap st)(next_addr st \<mapsto> b)\<rparr>)"
    "block_ok b" "refs b = 1" "bsize b = n" "bytes b = replicate (capacity b) None" "n \<le> capacity b"
    by (rule allocate_ok [OF n])
  have sv: "storage st v = None" using v val_None [OF inv] by simp
  have "Buffer_new v n st = Some (st_alloc v b st)"
    using sv b(1) by (simp add: Buffer_new_def fresh_var_def st_alloc_def set_storage_def)
  then show ?thesis
    using that binv_alloc [OF inv sv b(2,3)] b(4-6) by simp
qed

lemma reallocate_ok:
  assumes inv: "binv st" and own: "owning v" and v: "storage st v = Some a" and x: "val st v = Some xs"
    and n: "n \<le> max_buffer"
  obtains new st1 ys where "reallocate (Some a) n st = Some (new, st1)" "binv (set_storage v (Some new) st1)"
    "val (set_storage v (Some new) st1) = (val st)(v \<mapsto> ys)" "resizes xs n ys"
proof -
  obtain b where b: "heap st a = Some b" "block_ok b" "xs = take (bsize b) (bytes b)" "length xs = bsize b"
    using val_Some [OF inv x] v by (metis option.inject)
  have one: "handles st a = {v}" by (rule binvD(7) [OF inv own v])
  have r: "refs b = 1" using binvD(5) [OF inv b(1)] one by simp
  have cap: "length (bytes b) = capacity b" "bsize b \<le> capacity b" "0 < capacity b"
    "origin b = bufferAllocator (HeaderSize + capacity b)" using b(2) by (auto simp: block_ok_def)
  have u: "to_u32 n = n" using n by (simp add: to_u32_def max_buffer_def)
  show ?thesis
  proof (cases "n \<le> capacity b")
    case True
    let ?b = "b\<lparr>bsize := n\<rparr>"
    have ok: "block_ok ?b" using cap True by (simp add: block_ok_def)
    have "reallocate (Some a) n st = Some (a, set_block a (Some ?b) st)"
      using b(1) r cap True u by (simp add: reallocate_def)
    moreover have "set_storage v (Some a) (set_block a (Some ?b) st) = set_block a (Some ?b) st"
      using v by (simp add: set_storage_def set_block_def fun_upd_idem)
    moreover have "resizes xs n (take n (bytes b))"
      using True cap b(3) by (simp add: resizes_def min.commute)
    ultimately show ?thesis
      using that [of a "set_block a (Some ?b) st" "take n (bytes b)"] binv_upd [OF inv b(1) ok _ v own] by simp
  next
    case False
    obtain nb where nb: "allocate n st = (next_addr st, st\<lparr>next_addr := next_addr st + 1, heap := (heap st)(next_addr st \<mapsto> nb)\<rparr>)"
      "block_ok nb" "refs nb = 1" "bsize nb = n" "bytes nb = replicate (capacity nb) None" "n \<le> capacity nb"
      by (rule allocate_ok [OF n])
    let ?n = "next_addr st"
    have ne: "?n \<noteq> a" using binvD(3) [OF inv b(1)] by simp
    define nb' where "nb' = nb\<lparr>bytes := xs @ drop (length xs) (bytes nb)\<rparr>"
    define st0 where "st0 = st\<lparr>next_addr := ?n + 1, heap := (heap st)(?n \<mapsto> nb)\<rparr>"
    define st1 where "st1 = set_block a None (set_block ?n (Some nb') st0)"
    have al: "allocate n st = (?n, st0)" using nb(1) by (simp add: st0_def)
    have lnb: "length (bytes nb) = capacity nb" using nb(2) by (simp add: block_ok_def)
    then have len: "length xs \<le> length (bytes nb)" using b(4) cap False nb(6) by simp
    have ok: "block_ok nb'" using nb(2) len by (simp add: nb'_def block_ok_def)
    have h0: "heap st0 a = Some b" "heap st0 ?n = Some nb" using ne b(1) by (simp_all add: st0_def)
    have dst: "clientData (Some ?n) st0 = Some (Some ?n)"
      using h0 nb False by (simp add: clientData_def)
    have src: "clientData (Some a) st0 = Some (if bsize b = 0 then None else Some a)"
      using h0 cap by (simp add: clientData_def)
    have rd: "mem_read (if bsize b = 0 then None else Some a) 0 (bsize b) st0 = Some xs"
      using h0 cap b(3) by (simp add: mem_read_def)
    have wr: "mem_write (Some ?n) 0 xs st0 = Some (set_block ?n (Some nb') st0)"
      using h0 len by (auto simp: mem_write_def nb'_def set_block_def st0_def)
    have fr: "free_block a (set_block ?n (Some nb') st0) = Some st1"
      using h0 ne cap by (simp add: free_block_def st1_def set_block_def)
    have re: "reallocate (Some a) n st = Some (?n, st1)"
      using b(1) r cap(3) False al dst src rd wr fr by (simp add: reallocate_def)
    obtain st2 where rel: "release v st = Some st2" "binv st2" "val st2 = (val st)(v := None)"
      "storage st2 = (storage st)(v := None)"
      using release_ok [OF inv] by metis
    have "st2 = set_block a None (set_storage v None st)"
      using rel(1) v b(1) r cap by (simp add: release_def free_block_def set_storage_def set_block_def)
    then have "set_storage v (Some ?n) st1 = st_alloc v nb' st2"
      using ne by (simp add: st1_def st0_def st_alloc_def set_block_def set_storage_def fun_upd_twist)
    moreover have "resizes xs n (take n (bytes nb'))"
      using b(4) cap False nb(6) lnb by (auto simp: nb'_def resizes_def)
    moreover have "storage st2 v = None" by (simp add: rel(4))
    ultimately show ?thesis
      using that [OF re, of "take n (bytes nb')"] binv_alloc [OF rel(2) _ ok, of v] nb(3,4) rel(3)
      by (simp add: nb'_def)
  qed
qed

lemma refsCount_owning:
  assumes "binv st" and "owning v" and "storage st v = Some a"
  shows "refsCount v st = Some 1"
  using binvD(2) [OF assms(1,3)] binvD(5) [OF assms(1)] binvD(7) [OF assms] assms(3)
  by (auto simp: refsCount_def)

lemma resize_ok:
  assumes inv: "binv st" and own: "owning v" and n: "n \<le> max_buffer"
  obtains st' ys where "resize v n st = Some st'" "binv st'" "val st' = (val st)(v \<mapsto> ys)"
    "case val st v of None \<Rightarrow> ys = replicate n None | Some xs \<Rightarrow> resizes xs n ys"
proof (cases "val st v")
  case None
  then have "storage st v = None" using val_None [OF inv] by simp
  then have "resize v n st = Buffer_new v n st"
    by (simp add: resize_def Buffer_new_def fresh_var_def)
  moreover obtain st' where "Buffer_new v n st = Some st'" "binv st'" "val st' = (val st)(v \<mapsto> replicate n None)"
    by (rule Buffer_new_ok [OF inv None n])
  ultimately show ?thesis using that None by simp
next
  case (Some xs)
  then obtain a where a: "storage st v = Some a" using val_None [OF inv, of v] by (metis not_Some_eq)
  obtain new st1 ys where "reallocate (Some a) n st = Some (new, st1)" "binv (set_storage v (Some new) st1)"
    "val (set_storage v (Some new) st1) = (val st)(v \<mapsto> ys)" "resizes xs n ys"
    by (rule reallocate_ok [OF inv own a Some n])
  then show ?thesis
    using that a refsCount_owning [OF inv own a] Some by (simp add: resize_def)
qed

lemma size_ok: "binv st \<Longrightarrow> buf_size v st = Some (case val st v of None \<Rightarrow> 0 | Some xs \<Rightarrow> length xs)"
proof (cases "val st v")
  case None
  assume "binv st"
  then have "storage st v = None" using val_None None by simp
  then show ?thesis using None by (simp add: buf_size_def size_of_handle_def)
next
  case (Some xs)
  assume "binv st"
  then obtain a b where "storage st v = Some a" "heap st a = Some b" "length xs = bsize b"
    using val_Some [OF _ Some] by metis
  then show ?thesis using Some by (simp add: buf_size_def size_of_handle_def)
qed

lemma read_ok:
  assumes inv: "binv st" and x: "val st v = Some xs" and n: "i + n \<le> length xs"
  obtains d where "buf_data v st = Some d" "mem_read d i n st = Some (take n (drop i xs))"
proof -
  obtain a b where b: "storage st v = Some a" "heap st a = Some b" "block_ok b" "xs = take (bsize b) (bytes b)"
    "length xs = bsize b" by (rule val_Some [OF inv x])
  have d: "buf_data v st = Some (if bsize b = 0 then None else Some a)"
    using b(1,2,3) by (simp add: buf_data_def clientData_def block_ok_def)
  have "take n (drop i (bytes b)) = take n (drop i xs)"
    using n b(4,5) by (simp add: drop_take min_def)
  then have "mem_read (if bsize b = 0 then None else Some a) i n st = Some (take n (drop i xs))"
    using n b by (auto simp: mem_read_def block_ok_def)
  then show ?thesis using that d by blast
qed

lemma write_ok:
  assumes inv: "binv st" and own: "owning v" and x: "val st v = Some xs" and n: "i + length ws \<le> length xs"
  obtains d st' where "buf_data v st = Some d" "mem_write d i ws st = Some st'" "binv st'"
    "val st' = (val st)(v \<mapsto> take i xs @ ws @ drop (i + length ws) xs)"
proof -
  obtain a b where b: "storage st v = Some a" "heap st a = Some b" "block_ok b" "xs = take (bsize b) (bytes b)"
    "length xs = bsize b" by (rule val_Some [OF inv x])
  have d: "buf_data v st = Some (if bsize b = 0 then None else Some a)"
    using b(1,2,3) by (simp add: buf_data_def clientData_def block_ok_def)
  show ?thesis
  proof (cases "ws = []")
    case True
    then show ?thesis using that [OF d, of st] inv x by (simp add: mem_write_def fun_upd_idem)
  next
    case False
    then have "0 < length ws" by simp
    then have nz: "bsize b \<noteq> 0" using n b(5) by linarith
    let ?b = "b\<lparr>bytes := take i (bytes b) @ ws @ drop (i + length ws) (bytes b)\<rparr>"
    have le: "i + length ws \<le> length (bytes b)" using n b(3,5) by (simp add: block_ok_def)
    have ok: "block_ok ?b" using b(3) le by (simp add: block_ok_def)
    have wr: "mem_write (Some a) i ws st = Some (set_block a (Some ?b) st)"
      using False b(2) le by (simp add: mem_write_def)
    have "take (bsize b) (bytes ?b) = take i xs @ ws @ drop (i + length ws) xs"
    proof -
      have "bytes b = xs @ drop (bsize b) (bytes b)" using b(4) by simp
      then obtain rest where "bytes b = xs @ rest" by blast
      then show ?thesis using n b(5) by simp
    qed
    then show ?thesis
      using that [OF d, of "set_block a (Some ?b) st"] wr nz binv_upd [OF inv b(2) ok _ b(1) own] by simp
  qed
qed

subsection \<open>Whole operations\<close>

lemma st_move_null: "storage st v = None \<Longrightarrow> st_move v v st = st"
  by (simp add: st_move_def fun_upd_idem)

lemma attach_ok:
  assumes inv: "binv st" and v: "storage st v = None" and w: "storage st w = h"
  shows "attach v h st = Some (set_storage v h st)"
proof (cases h)
  case (Some a)
  then obtain b where b: "heap st a = Some b" using binvD(2) [OF inv] w by blast
  then show ?thesis using Some v binvD(6) [OF inv b] by (simp add: attach_def fresh_var_def)
qed (use v in \<open>simp add: attach_def fresh_var_def\<close>)

lemma move_ok:
  assumes inv: "binv st" and v: "storage st v = None"
    and own: "\<And>a. owning v \<Longrightarrow> storage st w = Some a \<Longrightarrow> handles st a = {w}"
  shows "binv (st_move v w st)" "val (st_move v w st) = (val st)(v := val st w, w := None)"
proof -
  have "val st v = None" using v by (rule val_null)
  then have "binv (st_move v w st) \<and> val (st_move v w st) = (val st)(v := val st w, w := None)"
  proof (cases "v = w")
    case True
    then show ?thesis using st_move_null [OF v] inv \<open>val st v = None\<close> by (simp add: fun_upd_idem)
  qed (use binv_move [OF inv v _ own] in blast)
  then show "binv (st_move v w st)" "val (st_move v w st) = (val st)(v := val st w, w := None)" by auto
qed

lemma move_construct_ok:
  assumes inv: "binv st" and v: "storage st v = None"
  shows "move_construct v w st = Some (st_move v w st)"
  using attach_ok [OF inv v refl, of w] by (simp add: move_construct_def st_move_def set_storage_def)

lemma move_assign_ok:
  assumes inv: "binv st" and own: "owning v" "owning w"
  obtains st' where "Buffer_move_assign v w st = Some st'" "binv st'"
    "val st' = (if v = w then (val st)(v := None) else (val st)(v := val st w, w := None))"
proof -
  obtain st1 where st1: "release v st = Some st1" "binv st1" "val st1 = (val st)(v := None)"
    "storage st1 = (storage st)(v := None)"
    using release_ok [OF inv] by metis
  have n: "storage st1 v = None" by (simp add: st1(4))
  have "set_storage v (storage st1 w) (set_storage w None st1) = st_move v w st1"
    using n by (cases "v = w") (auto simp: set_storage_def st_move_def fun_upd_twist)
  then have "Buffer_move_assign v w st = Some (st_move v w st1)"
    using st1(1) by (simp add: Buffer_move_assign_def Let_def)
  moreover have "binv (st_move v w st1)" "val (st_move v w st1) = (val st1)(v := val st1 w, w := None)"
    using move_ok [OF st1(2) n, of w] binvD(7) [OF st1(2) own(2)] by blast+
  ultimately show ?thesis using that st1(3) by (cases "v = w") auto
qed

lemma assign_swap_ok:
  assumes inv: "binv st" and own: "\<not> owning v"
  obtains st' where "Ro_assign_swap v w st = Some st'" "binv st'"
    "val st' = (if v = w then (val st)(v := None) else (val st)(v := val st w, w := None))"
proof -
  obtain st1 where st1: "release v st = Some st1" "binv st1" "val st1 = (val st)(v := None)"
    "storage st1 = (storage st)(v := None)"
    using release_ok [OF inv] by metis
  have n: "storage st1 v = None" by (simp add: st1(4))
  have "Ro_assign_swap v w st = Some (st_move v w st1)"
    using st1(1) n by (simp add: Ro_assign_swap_def Let_def st_move_def set_storage_def)
  moreover have "binv (st_move v w st1)" "val (st_move v w st1) = (val st1)(v := val st1 w, w := None)"
    using move_ok [OF st1(2) n, of w] own by blast+
  ultimately show ?thesis using that st1(3) by (cases "v = w") auto
qed

lemma share_ok:
  assumes inv: "binv st" and v: "storage st v = None" "\<not> owning v" and w: "\<not> owning w"
  obtains st' where "add_ref v (set_storage v (storage st w) st) = Some st'" "binv st'"
    "val st' = (val st)(v := val st w)"
proof (cases "storage st w")
  case None
  then have "set_storage v None st = st" "val st w = None" "val st v = None"
    using v by (simp_all add: set_storage_def fun_upd_idem val_null)
  then show ?thesis using that [of st] None v inv by (simp add: add_ref_def fun_upd_idem)
next
  case (Some a)
  then obtain b where b: "heap st a = Some b" using binvD(2) [OF inv] by blast
  have "add_ref v (set_storage v (Some a) st) = Some (st_share v a st)"
    using b binvD(6) [OF inv b] by (simp add: add_ref_def set_storage_def st_share_def set_block_def)
  then show ?thesis using that binv_share [OF inv v Some w] Some by simp
qed

definition content :: "'a list option \<Rightarrow> 'a list" where
  "content x = (case x of None \<Rightarrow> [] | Some xs \<Rightarrow> xs)"

lemma content_simps [simp]: "content None = []" "content (Some xs) = xs"
  by (simp_all add: content_def)

lemma append_ok:
  assumes inv: "binv st" and own: "owning v" and n: "length (content (val st v)) + n \<le> max_buffer"
  obtains st' d ys where "append_buf v n st = Some (st', (d, length (content (val st v))))" "binv st'"
    "val st' = (val st)(v \<mapsto> ys)" "buf_data v st' = Some d"
    "length ys = length (content (val st v)) + n" "take (length (content (val st v))) ys = content (val st v)"
proof -
  let ?m = "length (content (val st v))"
  have sz: "buf_size v st = Some ?m" using size_ok [OF inv, of v] by (simp add: content_def split: option.splits)
  obtain st' ys where st': "resize v (?m + n) st = Some st'" "binv st'" "val st' = (val st)(v \<mapsto> ys)"
    "case val st v of None \<Rightarrow> ys = replicate (?m + n) None | Some xs \<Rightarrow> resizes xs (?m + n) ys"
    by (rule resize_ok [OF inv own n])
  have ys: "length ys = ?m + n" "take ?m ys = content (val st v)"
    using st'(4) by (auto simp: resizes_def content_def split: option.splits)
  have "val st' v = Some ys" by (simp add: st'(3))
  then obtain d where d: "buf_data v st' = Some d"
    using read_ok [OF st'(2), of v ys 0 0] by auto
  show ?thesis
    using that [OF _ st'(2,3) d ys] sz st'(1) d by (simp add: append_buf_def)
qed

lemma concat_ok:
  assumes inv: "binv st" and own: "owning v" "owning w" and ne: "v \<noteq> w"
    and n: "length (content (val st v)) + length (content (val st w)) \<le> max_buffer"
  obtains st' where "concat_buf v w st = Some st'" "binv st'"
    "val st' = (if val st v = None then (val st)(v := val st w, w := None)
                else (val st)(v \<mapsto> content (val st v) @ content (val st w), w := None))"
proof (cases "val st v")
  case None
  then have "\<not> buf_is_set v st" using val_None [OF inv] by (simp add: buf_is_set_def)
  moreover obtain st' where "Buffer_move_assign v w st = Some st'" "binv st'"
    "val st' = (if v = w then (val st)(v := None) else (val st)(v := val st w, w := None))"
    by (rule move_assign_ok [OF inv own])
  ultimately show ?thesis using that None ne by (simp add: concat_buf_def)
next
  case (Some xs)
  let ?ws = "content (val st w)"
  have set: "buf_is_set v st" using val_None [OF inv, of v] Some by (simp add: buf_is_set_def)
  obtain st1 d ys where st1: "append_buf v (length ?ws) st = Some (st1, (d, length xs))" "binv st1"
    "val st1 = (val st)(v \<mapsto> ys)" "buf_data v st1 = Some d"
    "length ys = length xs + length ?ws" "take (length xs) ys = xs"
    using append_ok [OF inv own(1) n] Some by auto
  have sz: "buf_size w st = Some (length ?ws)" "buf_size w st1 = Some (length ?ws)"
    using size_ok [OF inv, of w] size_ok [OF st1(2), of w] st1(3) ne
    by (simp_all add: content_def split: option.splits)
  obtain e where e: "buf_data w st1 = Some e" "mem_read e 0 (length ?ws) st1 = Some ?ws"
  proof (cases "val st w")
    case None
    then have "storage st1 w = None" using val_None [OF st1(2), of w] st1(3) ne by simp
    then show ?thesis using that None by (simp add: buf_data_def clientData_def mem_read_def)
  next
    case w: (Some zs)
    then have "val st1 w = Some zs" using st1(3) ne by simp
    then show ?thesis using read_ok [OF st1(2), of w zs 0 "length zs"] that w by auto
  qed
  obtain st2 where st2: "mem_write d (length xs) ?ws st1 = Some st2" "binv st2"
    "val st2 = (val st1)(v \<mapsto> xs @ ?ws)"
    using write_ok [OF st1(2) own(1), of ys "length xs" ?ws] st1 by auto
  obtain st3 where "release w st2 = Some st3" "binv st3" "val st3 = (val st2)(w := None)"
    using release_ok [OF st2(2)] by metis
  then show ?thesis
    using that Some set sz st1(1,3) e st2 ne by (simp add: concat_buf_def)
qed

lemma copy_ok:
  assumes inv: "binv st" and own: "owning v" and v: "val st v = None" and x: "val st w = Some xs"
    and n: "case k of None \<Rightarrow> i \<le> length xs | Some n \<Rightarrow> i + n \<le> length xs"
    and m: "m = (case k of None \<Rightarrow> length xs - i | Some n \<Rightarrow> n)" "m \<le> max_buffer"
  obtains st' where "copy_buf v w i k st = Some st'" "binv st'" "val st' = (val st)(v \<mapsto> take m (drop i xs))"
proof -
  have le: "i + m \<le> length xs" "i \<le> length xs" using n m by (auto split: option.splits)
  have ne: "v \<noteq> w" using v x by auto
  have fr: "fresh_var v st = Some ()" using v val_None [OF inv] by (simp add: fresh_var_def require_def)
  have set: "buf_is_set w st" using x val_None [OF inv, of w] by (simp add: buf_is_set_def)
  have sz: "buf_size w st = Some (length xs)" using size_ok [OF inv, of w] x by simp
  obtain st1 where st1: "Buffer_new v m st = Some st1" "binv st1" "val st1 = (val st)(v \<mapsto> replicate m None)"
    by (rule Buffer_new_ok [OF inv v m(2)])
  have x1: "val st1 w = Some xs" "val st1 v = Some (replicate m None)" using st1(3) ne x by simp_all
  obtain src where src: "buf_data w st1 = Some src" "mem_read src i m st1 = Some (take m (drop i xs))"
    by (rule read_ok [OF st1(2) x1(1) le(1)])
  have len: "length (take m (drop i xs)) = m" using le by simp
  obtain dst st2 where st2: "buf_data v st1 = Some dst" "mem_write dst 0 (take m (drop i xs)) st1 = Some st2"
    "binv st2" "val st2 = (val st1)(v \<mapsto> take m (drop i xs))"
    using write_ok [OF st1(2) own x1(2), of 0 "take m (drop i xs)"] len by auto
  have "copy_buf v w i k st = Some st2"
    using fr set sz le n st1(1) src st2(1,2) m(1)
    by (cases k) (simp_all add: copy_buf_def)
  then show ?thesis using that st2(3,4) st1(3) by simp
qed

lemma toBuffer_ok:
  assumes inv: "binv st" and own: "owning v" "\<not> owning w" and v: "val st v = None"
    and n: "length (content (val st w)) \<le> max_buffer"
  obtains st' where "toBuffer v w st = Some st'" "binv st'" "val st' = (val st)(v := val st w, w := None)"
proof (cases "storage st w")
  case None
  then have "val st w = None" by (rule val_null)
  moreover have "fresh_var v st = Some ()" using v val_None [OF inv] by (simp add: fresh_var_def require_def)
  ultimately show ?thesis using that [of st] None inv v by (simp add: toBuffer_def fun_upd_idem)
next
  case (Some a)
  have ne: "v \<noteq> w" using own by auto
  have sv: "storage st v = None" using v val_None [OF inv] by simp
  obtain b where b: "heap st a = Some b" using binvD(2) [OF inv Some] by blast
  obtain xs where x: "val st w = Some xs" using val_is [OF Some b] by blast
  have rc: "refsCount w st = Some (refs b)" using Some b by (simp add: refsCount_def)
  show ?thesis
  proof (cases "refs b = 1")
    case True
    have "w \<in> handles st a" using Some by (simp add: handles_def)
    then have "handles st a = {w}" using binvD(5) [OF inv b] True by (metis card_1_singletonE singletonD)
    then have "handles st c = {w}" if "storage st w = Some c" for c using that Some by simp
    then have mv: "binv (st_move v w st)" "val (st_move v w st) = (val st)(v := val st w, w := None)"
      using move_ok [OF inv sv, of w] by blast+
    have "attach v (Some a) (set_storage w None st) = Some (set_storage v (Some a) (set_storage w None st))"
      using sv b ne binvD(6) [OF inv b] by (simp add: attach_def fresh_var_def set_storage_def)
    moreover have "set_storage v (Some a) (set_storage w None st) = st_move v w st"
      using ne Some by (simp add: set_storage_def st_move_def fun_upd_twist)
    ultimately show ?thesis using that [of "st_move v w st"] mv Some rc True by (simp add: toBuffer_def Let_def)
  next
    case False
    obtain st1 where st1: "copy_buf v w 0 None st = Some st1" "binv st1" "val st1 = (val st)(v \<mapsto> xs)"
      using copy_ok [OF inv own(1) v x, where k = None and i = 0 and m = "length xs"] n x by auto
    obtain st2 where "release w st1 = Some st2" "binv st2" "val st2 = (val st1)(w := None)"
      using release_ok [OF st1(2)] by metis
    then show ?thesis using that Some rc False st1 x ne by (simp add: toBuffer_def)
  qed
qed

section \<open>Calls and their specification\<close>

datatype buf_call =
    NewBuffer nat nat
  | MoveBuffer nat nat
  | AssignBuffer nat nat
  | Resize nat nat
  | Append nat nat
  | Concat nat nat
  | WriteBuffer nat nat "8 word list"
  | FromString nat "8 word list"
  | ReadData var nat nat
  | AsString var
  | SizeOf var
  | EmptyOf var
  | IsSet var
  | Release var
  | ToReadOnly nat nat
  | RoAssignBuffer nat nat
  | RoCopy nat nat
  | RoMove nat nat
  | RoCopyAssign nat nat
  | RoMoveAssign nat nat
  | ToBuffer nat nat
  | CopyOf nat var nat "nat option"
  | TakeOut nat nat
  | FromHandle nat nat
  | FromClientData nat nat "nat option"
  | HandleAlloc nat nat
  | HandleRealloc nat nat

datatype buf_result = Returned | Size nat | Holds bool | Data "8 word list"

definition did :: "'s option \<Rightarrow> ('s \<times> buf_result) option" where
  "did x = map_option (\<lambda>s. (s, Returned)) x"

definition gives :: "'s \<Rightarrow> ('r \<Rightarrow> buf_result) \<Rightarrow> 'r option \<Rightarrow> ('s \<times> buf_result) option" where
  "gives s f x = map_option (\<lambda>r. (s, f r)) x"

fun buf_exec :: "buf_call \<Rightarrow> bufs \<Rightarrow> (bufs \<times> buf_result) option" where
  "buf_exec (NewBuffer b n) st = did (Buffer_new (B b) n st)"
| "buf_exec (MoveBuffer b c) st = did (move_construct (B b) (B c) st)"
| "buf_exec (AssignBuffer b c) st = did (Buffer_move_assign (B b) (B c) st)"
| "buf_exec (Resize b n) st = did (resize (B b) n st)"
| "buf_exec (Append b n) st = map_option (\<lambda>(s, (_, offset)). (s, Size offset)) (append_buf (B b) n st)"
| "buf_exec (Concat b c) st = did (concat_buf (B b) (B c) st)"
| "buf_exec (WriteBuffer b i ws) st = did (write_data (B b) i ws st)"
| "buf_exec (FromString b ws) st = did (fromStringView (B b) ws st)"
| "buf_exec (ReadData v i n) st = gives st Data (read_data v i n st)"
| "buf_exec (AsString v) st = gives st Data (asStringView v st)"
| "buf_exec (SizeOf v) st = gives st Size (buf_size v st)"
| "buf_exec (EmptyOf v) st = gives st Holds (buf_empty v st)"
| "buf_exec (IsSet v) st = Some (st, Holds (buf_is_set v st))"
| "buf_exec (Release v) st = did (release v st)"
| "buf_exec (ToReadOnly r b) st = did (Ro_from_buffer (R r) (B b) st)"
| "buf_exec (RoAssignBuffer r b) st = did (Ro_assign_swap (R r) (B b) st)"
| "buf_exec (RoCopy r q) st = did (Ro_copy (R r) (R q) st)"
| "buf_exec (RoMove r q) st = did (move_construct (R r) (R q) st)"
| "buf_exec (RoCopyAssign r q) st = did (Ro_copy_assign (R r) (R q) st)"
| "buf_exec (RoMoveAssign r q) st = did (Ro_assign_swap (R r) (R q) st)"
| "buf_exec (ToBuffer b r) st = did (toBuffer (B b) (R r) st)"
| "buf_exec (CopyOf b v i n) st = did (copy_buf (B b) v i n st)"
| "buf_exec (TakeOut h b) st = did (takeOut (H h) (B b) st)"
| "buf_exec (FromHandle b h) st = did (bufferFromHandle (B b) (H h) st)"
| "buf_exec (FromClientData b h n) st = did (bufferFromClientData (B b) (H h) n st)"
| "buf_exec (HandleAlloc h n) st = did (handle_allocate (H h) n st)"
| "buf_exec (HandleRealloc h n) st = did (handle_reallocate (H h) n st)"

text \<open>
  The specification: every object has a value of its own, a byte string or nothing.  A constructor
  wants an object without a value, sizes stay below \<open>max_buffer\<close>, and bytes are read after they were
  written.  Assigning an object to itself loses its value.
\<close>

type_synonym buf_values = "var \<Rightarrow> 8 word option list option"

definition resized :: "8 word option list option \<Rightarrow> nat \<Rightarrow> 8 word option list" where
  "resized x n = take n (content x) @ replicate (n - length (content x)) None"

definition moved :: "var \<Rightarrow> var \<Rightarrow> buf_values \<Rightarrow> buf_values" where
  "moved v w A = (if v = w then A(v := None) else A(v := A w, w := None))"

definition guarded :: "bool \<Rightarrow> 'a \<Rightarrow> ('a \<times> buf_result) option" where
  "guarded p a = (if p then Some (a, Returned) else None)"

fun buf_spec :: "buf_call \<Rightarrow> buf_values \<Rightarrow> (buf_values \<times> buf_result) option" where
  "buf_spec (NewBuffer b n) A =
     guarded (A (B b) = None \<and> n \<le> max_buffer) (A(B b \<mapsto> replicate n None))"
| "buf_spec (MoveBuffer b c) A = guarded (A (B b) = None) (moved (B b) (B c) A)"
| "buf_spec (AssignBuffer b c) A = guarded True (moved (B b) (B c) A)"
| "buf_spec (Resize b n) A = guarded (n \<le> max_buffer) (A(B b \<mapsto> resized (A (B b)) n))"
| "buf_spec (Append b n) A =
     (let m = length (content (A (B b))) in
      if m + n \<le> max_buffer then Some (A(B b \<mapsto> resized (A (B b)) (m + n)), Size m) else None)"
| "buf_spec (Concat b c) A =
     guarded (b \<noteq> c \<and> length (content (A (B b))) + length (content (A (B c))) \<le> max_buffer)
       (if A (B b) = None then moved (B b) (B c) A
        else A(B b \<mapsto> content (A (B b)) @ content (A (B c)), B c := None))"
| "buf_spec (WriteBuffer b i ws) A =
     (case A (B b) of
        None \<Rightarrow> None
      | Some xs \<Rightarrow> guarded (i + length ws \<le> length xs)
          (A(B b \<mapsto> take i xs @ map Some ws @ drop (i + length ws) xs)))"
| "buf_spec (FromString b ws) A =
     guarded (A (B b) = None \<and> length ws \<le> max_buffer) (if ws = [] then A else A(B b \<mapsto> map Some ws))"
| "buf_spec (ReadData v i n) A =
     (case A v of
        None \<Rightarrow> None
      | Some xs \<Rightarrow> if i + n \<le> length xs then gives A Data (those (take n (drop i xs))) else None)"
| "buf_spec (AsString v) A = gives A Data (those (content (A v)))"
| "buf_spec (SizeOf v) A = Some (A, Size (length (content (A v))))"
| "buf_spec (EmptyOf v) A = Some (A, Holds (content (A v) = []))"
| "buf_spec (IsSet v) A = Some (A, Holds (A v \<noteq> None))"
| "buf_spec (Release v) A = guarded True (A(v := None))"
| "buf_spec (ToReadOnly r b) A = guarded (A (R r) = None) (moved (R r) (B b) A)"
| "buf_spec (RoAssignBuffer r b) A = guarded True (moved (R r) (B b) A)"
| "buf_spec (RoCopy r q) A = guarded (A (R r) = None) (A(R r := A (R q)))"
| "buf_spec (RoMove r q) A = guarded (A (R r) = None) (moved (R r) (R q) A)"
| "buf_spec (RoCopyAssign r q) A = guarded True (A(R r := if r = q then None else A (R q)))"
| "buf_spec (RoMoveAssign r q) A = guarded True (moved (R r) (R q) A)"
| "buf_spec (ToBuffer b r) A =
     guarded (A (B b) = None \<and> length (content (A (R r))) \<le> max_buffer) (moved (B b) (R r) A)"
| "buf_spec (CopyOf b v i n) A =
     (let k = (case n of None \<Rightarrow> length (content (A v)) - i | Some k \<Rightarrow> k) in
      guarded (A (B b) = None \<and> i \<le> length (content (A v)) \<and> i + k \<le> length (content (A v)) \<and>
               k \<le> max_buffer)
        (if A v = None then A else A(B b \<mapsto> take k (drop i (content (A v))))))"
| "buf_spec (TakeOut h b) A = guarded (A (H h) = None) (moved (H h) (B b) A)"
| "buf_spec (FromHandle b h) A = guarded (A (B b) = None \<and> A (H h) \<noteq> None) (moved (B b) (H h) A)"
| "buf_spec (FromClientData b h n) A =
     guarded (A (B b) = None \<and> content (A (H h)) \<noteq> [] \<and> length (content (A (H h))) \<le> max_buffer \<and>
              (case n of None \<Rightarrow> True | Some k \<Rightarrow> k \<le> length (content (A (H h)))))
       (A(B b := map_option (\<lambda>xs. case n of None \<Rightarrow> xs | Some k \<Rightarrow> take k xs) (A (H h)), H h := None))"
| "buf_spec (HandleAlloc h n) A =
     guarded (A (H h) = None \<and> n \<le> max_buffer) (A(H h \<mapsto> replicate n None))"
| "buf_spec (HandleRealloc h n) A = guarded (n \<le> max_buffer) (A(H h \<mapsto> resized (A (H h)) n))"

text \<open>An unwritten byte of the specification may be any byte of the memory.\<close>

definition byte_le :: "8 word option \<Rightarrow> 8 word option \<Rightarrow> bool" where
  "byte_le x y \<longleftrightarrow> x = None \<or> x = y"

abbreviation bytes_le :: "8 word option list \<Rightarrow> 8 word option list \<Rightarrow> bool" where
  "bytes_le \<equiv> list_all2 byte_le"

definition buf_rel :: "bufs \<Rightarrow> buf_values \<Rightarrow> bool" where
  "buf_rel st A \<longleftrightarrow> binv st \<and> (\<forall>v. rel_option bytes_le (A v) (val st v))"

lemma bytes_le_refl [simp]: "bytes_le xs xs"
  by (rule list_all2_refl) (simp add: byte_le_def)

lemma bytes_le_None: "length ys = n \<Longrightarrow> bytes_le (replicate n None) ys"
  by (auto simp: list_all2_conv_all_nth byte_le_def)

lemma those_Some: "those xs = Some ws \<longleftrightarrow> xs = map Some ws"
proof (induction xs arbitrary: ws)
  case (Cons x xs)
  then show ?case by (cases x; cases ws) (auto split: option.splits)
qed auto

lemma bytes_le_written: "bytes_le (map Some ws) ys \<Longrightarrow> ys = map Some ws"
  by (auto simp: list_all2_conv_all_nth byte_le_def intro: nth_equalityI)

lemma bytes_le_resized:
  assumes le: "rel_option bytes_le x y"
    and ys: "case y of None \<Rightarrow> ys = replicate n None | Some xs \<Rightarrow> resizes xs n ys"
  shows "bytes_le (resized x n) ys"
proof (cases y)
  case None
  then show ?thesis using le ys by (simp add: resized_def)
next
  case (Some xs)
  then obtain zs where zs: "x = Some zs" "bytes_le zs xs" using le by (auto simp: option_rel_Some2)
  have len: "length zs = length xs" by (rule list_all2_lengthD [OF zs(2)])
  have r: "length ys = n" "take (length xs) ys = take n xs" using ys Some by (auto simp: resizes_def)
  have "byte_le (resized x n ! i) (ys ! i)" if i: "i < n" for i
  proof (cases "i < length xs")
    case True
    have "ys ! i = take (length xs) ys ! i" using True by simp
    also have "\<dots> = xs ! i" using r i by simp
    finally show ?thesis
      using True i len list_all2_nthD [OF zs(2), of i] by (simp add: resized_def zs(1) nth_append)
  next
    case False
    then show ?thesis using i len by (simp add: resized_def zs(1) nth_append byte_le_def)
  qed
  then show ?thesis using r by (auto simp: list_all2_conv_all_nth resized_def zs(1))
qed

lemma buf_relD:
  assumes "buf_rel st A"
  shows "binv st" "rel_option bytes_le (A v) (val st v)" "A v = None \<longleftrightarrow> val st v = None"
    "length (content (A v)) = length (content (val st v))"
    "bytes_le (content (A v)) (content (val st v))"
proof -
  show r: "binv st" "rel_option bytes_le (A v) (val st v)" using assms by (auto simp: buf_rel_def)
  show "A v = None \<longleftrightarrow> val st v = None" using r(2) by (cases "A v"; cases "val st v") auto
  show le: "bytes_le (content (A v)) (content (val st v))" using r(2) by (cases "A v"; cases "val st v") auto
  show "length (content (A v)) = length (content (val st v))" by (rule list_all2_lengthD [OF le])
qed

lemma buf_rel_upd:
  "buf_rel st A \<Longrightarrow> binv st' \<Longrightarrow> val st' = (val st)(v := y) \<Longrightarrow> rel_option bytes_le x y \<Longrightarrow>
     buf_rel st' (A(v := x))"
  by (simp add: buf_rel_def)

lemma buf_rel_moved:
  "buf_rel st A \<Longrightarrow> binv st' \<Longrightarrow>
     val st' = (if v = w then (val st)(v := None) else (val st)(v := val st w, w := None)) \<Longrightarrow>
     buf_rel st' (moved v w A)"
  by (auto simp: buf_rel_def moved_def)

definition answers :: "('s \<times> buf_result) option \<Rightarrow> ('s \<Rightarrow> bool) \<Rightarrow> buf_result \<Rightarrow> bool" where
  "answers x P r \<longleftrightarrow> (\<exists>st'. x = Some (st', r) \<and> P st')"

lemma answers_did: "x = Some st' \<Longrightarrow> P st' \<Longrightarrow> answers (did x) P Returned"
  by (simp add: answers_def did_def)

lemma guarded_Some [simp]: "guarded p a = Some (a', r) \<longleftrightarrow> p \<and> a' = a \<and> r = Returned"
  by (auto simp: guarded_def)

lemma gives_Some [simp]: "gives s f x = Some (s', r) \<longleftrightarrow> s' = s \<and> (\<exists>y. x = Some y \<and> r = f y)"
  by (auto simp: gives_def)

lemma null_storage: "buf_rel st A \<Longrightarrow> A v = None \<Longrightarrow> storage st v = None"
  using buf_relD(1,3) val_None by blast

lemma fresh_var_ok: "buf_rel st A \<Longrightarrow> A v = None \<Longrightarrow> fresh_var v st = Some ()"
  by (simp add: fresh_var_def require_def null_storage)

lemma new_step:
  assumes "buf_rel st A" and "A v = None" and "n \<le> max_buffer"
  shows "answers (did (Buffer_new v n st)) (\<lambda>st'. buf_rel st' (A(v \<mapsto> replicate n None))) Returned"
proof -
  note rel = buf_relD [OF assms(1)]
  obtain st' where "Buffer_new v n st = Some st'" "binv st'" "val st' = (val st)(v \<mapsto> replicate n None)"
    using Buffer_new_ok [OF rel(1) _ assms(3)] rel(3) assms(2) by metis
  then show ?thesis by (auto intro!: answers_did buf_rel_upd [OF assms(1)])
qed

lemma resize_step:
  assumes "buf_rel st A" and "owning v" and "n \<le> max_buffer"
  shows "answers (did (resize v n st)) (\<lambda>st'. buf_rel st' (A(v \<mapsto> resized (A v) n))) Returned"
proof -
  note rel = buf_relD [OF assms(1)]
  obtain st' ys where "resize v n st = Some st'" "binv st'" "val st' = (val st)(v \<mapsto> ys)"
    "case val st v of None \<Rightarrow> ys = replicate n None | Some xs \<Rightarrow> resizes xs n ys"
    by (rule resize_ok [OF rel(1) assms(2,3)])
  then show ?thesis by (auto intro!: answers_did buf_rel_upd [OF assms(1)] bytes_le_resized [OF rel(2)])
qed

lemma move_step:
  assumes rel: "buf_rel st A" and null: "A v = None" and own: "owning v \<Longrightarrow> owning w"
  shows "answers (did (move_construct v w st)) (\<lambda>st'. buf_rel st' (moved v w A)) Returned"
proof -
  note inv = buf_relD(1) [OF rel] and sv = null_storage [OF rel null]
  have o: "handles st a = {w}" if "owning v" "storage st w = Some a" for a
    using that binvD(7) [OF inv own] by blast
  show ?thesis
    using move_construct_ok [OF inv sv] move_ok [OF inv sv o]
    by (intro answers_did buf_rel_moved [OF rel]) (auto simp: fun_eq_iff)
qed

lemma release_step:
  assumes rel: "buf_rel st A"
  shows "answers (did (release v st)) (\<lambda>st'. buf_rel st' (A(v := None))) Returned"
proof -
  obtain st' where "release v st = Some st'" "binv st'" "val st' = (val st)(v := None)"
    using release_ok [OF buf_relD(1) [OF rel]] by metis
  then show ?thesis by (auto intro!: answers_did buf_rel_upd [OF rel])
qed

lemma assign_step:
  assumes rel: "buf_rel st A" and own: "owning v" "owning w"
  shows "answers (did (Buffer_move_assign v w st)) (\<lambda>st'. buf_rel st' (moved v w A)) Returned"
proof -
  obtain st' where "Buffer_move_assign v w st = Some st'" "binv st'"
    "val st' = (if v = w then (val st)(v := None) else (val st)(v := val st w, w := None))"
    by (rule move_assign_ok [OF buf_relD(1) [OF rel] own])
  then show ?thesis by (intro answers_did buf_rel_moved [OF rel])
qed

lemma swap_step:
  assumes rel: "buf_rel st A" and own: "\<not> owning v"
  shows "answers (did (Ro_assign_swap v w st)) (\<lambda>st'. buf_rel st' (moved v w A)) Returned"
proof -
  obtain st' where "Ro_assign_swap v w st = Some st'" "binv st'"
    "val st' = (if v = w then (val st)(v := None) else (val st)(v := val st w, w := None))"
    by (rule assign_swap_ok [OF buf_relD(1) [OF rel] own])
  then show ?thesis by (intro answers_did buf_rel_moved [OF rel])
qed

lemma to_read_only_step:
  assumes rel: "buf_rel st A" and null: "A v = None" and own: "\<not> owning v" "owning w"
  shows "answers (did (Ro_from_buffer v w st)) (\<lambda>st'. buf_rel st' (moved v w A)) Returned"
proof -
  have "Ro_from_buffer v w st = Ro_assign_swap v w st"
  proof (cases "storage st w")
    case None
    then show ?thesis using fresh_var_ok [OF rel null] by (simp add: Ro_from_buffer_def refsCount_def)
  next
    case (Some a)
    then show ?thesis
      using fresh_var_ok [OF rel null] refsCount_owning [OF buf_relD(1) [OF rel] own(2) Some]
      by (simp add: Ro_from_buffer_def)
  qed
  then show ?thesis using swap_step [OF rel own(1)] by simp
qed

lemma append_step:
  assumes rel: "buf_rel st A" and own: "owning v" and n: "length (content (A v)) + n \<le> max_buffer"
  shows "answers (map_option (\<lambda>(s, (_, offset)). (s, Size offset)) (append_buf v n st))
    (\<lambda>st'. buf_rel st' (A(v \<mapsto> resized (A v) (length (content (A v)) + n)))) (Size (length (content (A v))))"
proof -
  note r = buf_relD [OF rel]
  obtain st' d ys where st': "append_buf v n st = Some (st', (d, length (content (val st v))))" "binv st'"
    "val st' = (val st)(v \<mapsto> ys)" "length ys = length (content (val st v)) + n"
    "take (length (content (val st v))) ys = content (val st v)"
    using append_ok [OF r(1) own] n r(4) by metis
  have "bytes_le (resized (A v) (length (content (A v)) + n)) ys"
  proof (cases "val st v")
    case None
    then have "A v = None" using r(3) by simp
    then show ?thesis using st'(4) None by (simp add: resized_def bytes_le_None)
  next
    case (Some xs)
    then show ?thesis using st'(4,5) r(4) by (intro bytes_le_resized [OF r(2)]) (simp add: resizes_def)
  qed
  then have "buf_rel st' (A(v \<mapsto> resized (A v) (length (content (A v)) + n)))"
    by (intro buf_rel_upd [OF rel st'(2,3)]) simp
  then show ?thesis using st'(1) r(4) by (simp add: answers_def)
qed

lemma concat_step:
  assumes rel: "buf_rel st A" and own: "owning v" "owning w" and ne: "v \<noteq> w"
    and n: "length (content (A v)) + length (content (A w)) \<le> max_buffer"
  shows "answers (did (concat_buf v w st)) (\<lambda>st'. buf_rel st'
    (if A v = None then moved v w A else A(v \<mapsto> content (A v) @ content (A w), w := None))) Returned"
proof -
  note r = buf_relD [OF rel]
  obtain st' where st': "concat_buf v w st = Some st'" "binv st'"
    "val st' = (if val st v = None then (val st)(v := val st w, w := None)
                else (val st)(v \<mapsto> content (val st v) @ content (val st w), w := None))"
    using concat_ok [OF r(1) own ne] n r(4) by metis
  have "buf_rel st' (if A v = None then moved v w A else A(v \<mapsto> content (A v) @ content (A w), w := None))"
  proof (cases "A v = None")
    case True
    then show ?thesis using st' r(3) ne by (auto intro!: buf_rel_moved [OF rel])
  next
    case False
    then have "val st v \<noteq> None" using r(3) [of v] by simp
    then have "val st' = (val st)(v \<mapsto> content (val st v) @ content (val st w), w := None)"
      unfolding st'(3) by (rule if_not_P)
    then have "buf_rel st' (A(v \<mapsto> content (A v) @ content (A w), w := None))"
      using r(2,5) st'(2) by (simp add: buf_rel_def list_all2_appendI)
    then show ?thesis unfolding if_not_P [OF False] .
  qed
  then show ?thesis using st'(1) by (intro answers_did)
qed

lemma write_step:
  assumes rel: "buf_rel st A" and own: "owning v" and x: "A v = Some xs" and n: "i + length ws \<le> length xs"
  shows "answers (did (write_data v i ws st)) (\<lambda>st'. buf_rel st'
    (A(v \<mapsto> take i xs @ map Some ws @ drop (i + length ws) xs))) Returned"
proof -
  note r = buf_relD [OF rel]
  obtain ys where ys: "val st v = Some ys" "bytes_le xs ys" using r(2) [of v] x by (auto simp: option_rel_Some1)
  have len: "length xs = length ys" by (rule list_all2_lengthD [OF ys(2)])
  obtain d st' where st': "buf_data v st = Some d" "mem_write d i (map Some ws) st = Some st'" "binv st'"
    "val st' = (val st)(v \<mapsto> take i ys @ map Some ws @ drop (i + length ws) ys)"
    using write_ok [OF r(1) own ys(1), of i "map Some ws"] n len by auto
  have "bytes_le (take i xs @ map Some ws @ drop (i + length ws) xs) (take i ys @ map Some ws @ drop (i + length ws) ys)"
    using ys(2) by (intro list_all2_appendI list_all2_takeI list_all2_dropI) simp_all
  then show ?thesis
    using st' by (auto simp: write_data_def intro!: answers_did buf_rel_upd [OF rel])
qed

lemma read_step:
  assumes rel: "buf_rel st A" and x: "A v = Some xs" and n: "i + n \<le> length xs"
    and ws: "those (take n (drop i xs)) = Some ws"
  shows "read_data v i n st = Some ws"
proof -
  note r = buf_relD [OF rel]
  obtain ys where ys: "val st v = Some ys" "bytes_le xs ys" using r(2) [of v] x by (auto simp: option_rel_Some1)
  have len: "length xs = length ys" by (rule list_all2_lengthD [OF ys(2)])
  have "bytes_le (take n (drop i xs)) (take n (drop i ys))"
    using ys(2) by (intro list_all2_takeI list_all2_dropI)
  then have "take n (drop i ys) = map Some ws" using ws by (auto simp: those_Some intro: bytes_le_written)
  moreover obtain d where "buf_data v st = Some d" "mem_read d i n st = Some (take n (drop i ys))"
    using read_ok [OF r(1) ys(1)] n len by metis
  ultimately show ?thesis by (simp add: read_data_def those_Some)
qed

lemma empty_ok: "binv st \<Longrightarrow> buf_empty v st = Some (content (val st v) = [])"
proof (cases "val st v")
  case None
  assume "binv st"
  then have "storage st v = None" using val_None None by simp
  then show ?thesis using None by (simp add: buf_empty_def)
next
  case (Some xs)
  assume "binv st"
  then obtain a b where "storage st v = Some a" "heap st a = Some b" "length xs = bsize b"
    using val_Some [OF _ Some] by metis
  then show ?thesis using Some by (simp add: buf_empty_def flip: length_0_conv)
qed

lemma content_size: "binv st \<Longrightarrow> buf_size v st = Some (length (content (val st v)))"
  using size_ok [of st v] by (simp add: content_def split: option.splits)

lemma string_step:
  assumes rel: "buf_rel st A" and ws: "those (content (A v)) = Some ws"
  shows "asStringView v st = Some ws"
proof (cases "content (A v) = []")
  case True
  then have "content (val st v) = []" using buf_relD(4) [OF rel, of v] by simp
  then show ?thesis using empty_ok [OF buf_relD(1) [OF rel], of v] True ws by (simp add: asStringView_def)
next
  case False
  then obtain xs where x: "A v = Some xs" by (cases "A v") auto
  have "content (val st v) \<noteq> []" using buf_relD(4) [OF rel, of v] False by auto
  then show ?thesis
    using empty_ok [OF buf_relD(1) [OF rel], of v] content_size [OF buf_relD(1) [OF rel], of v]
      read_step [OF rel x, of 0 "length xs" ws] ws x buf_relD(4) [OF rel, of v]
    by (simp add: asStringView_def)
qed

lemma from_string_step:
  assumes rel: "buf_rel st A" and null: "A v = None" and own: "owning v" and n: "length ws \<le> max_buffer"
  shows "answers (did (fromStringView v ws st))
    (\<lambda>st'. buf_rel st' (if ws = [] then A else A(v \<mapsto> map Some ws))) Returned"
proof (cases "ws = []")
  case True
  then show ?thesis
    using fresh_var_ok [OF rel null] rel by (auto simp: fromStringView_def intro!: answers_did)
next
  case False
  note r = buf_relD [OF rel]
  have v: "val st v = None" using r(3) null by simp
  obtain st1 d ys where st1: "append_buf v (length ws) st = Some (st1, (d, 0))" "binv st1"
    "val st1 = (val st)(v \<mapsto> ys)" "buf_data v st1 = Some d" "length ys = length ws"
    using append_ok [OF r(1) own, of "length ws"] n v by auto
  obtain st2 where "mem_write d 0 (map Some ws) st1 = Some st2" "binv st2" "val st2 = (val st1)(v \<mapsto> map Some ws)"
    using write_ok [OF st1(2) own, of ys 0 "map Some ws"] st1(3-5) by auto
  then show ?thesis
    using st1(1,3) fresh_var_ok [OF rel null] False
    by (auto simp: fromStringView_def intro!: answers_did buf_rel_upd [OF rel])
qed

lemma ro_copy_step:
  assumes rel: "buf_rel st A" and null: "A v = None" and own: "\<not> owning v" "\<not> owning w"
  shows "answers (did (Ro_copy v w st)) (\<lambda>st'. buf_rel st' (A(v := A w))) Returned"
proof -
  note inv = buf_relD(1) [OF rel] and sv = null_storage [OF rel null]
  obtain st' where "add_ref v (set_storage v (storage st w) st) = Some st'" "binv st'"
    "val st' = (val st)(v := val st w)"
    by (rule share_ok [OF inv sv own])
  then show ?thesis
    using attach_ok [OF inv sv refl, of w] buf_relD(2) [OF rel]
    by (auto simp: Ro_copy_def intro!: answers_did buf_rel_upd [OF rel])
qed

lemma ro_copy_assign_step:
  assumes rel: "buf_rel st A" and own: "\<not> owning v" "\<not> owning w"
  shows "answers (did (Ro_copy_assign v w st)) (\<lambda>st'. buf_rel st' (A(v := if v = w then None else A w))) Returned"
proof -
  obtain st1 where st1: "release v st = Some st1" "binv st1" "val st1 = (val st)(v := None)"
    "storage st1 = (storage st)(v := None)"
    using release_ok [OF buf_relD(1) [OF rel]] by metis
  have sv: "storage st1 v = None" by (simp add: st1(4))
  obtain st2 where "add_ref v (set_storage v (storage st1 w) st1) = Some st2" "binv st2"
    "val st2 = (val st1)(v := val st1 w)"
    by (rule share_ok [OF st1(2) sv own])
  then show ?thesis
    using st1(1,3) buf_relD(2) [OF rel]
    by (auto simp: Ro_copy_assign_def Let_def intro!: answers_did buf_rel_upd [OF rel])
qed

lemma to_buffer_step:
  assumes rel: "buf_rel st A" and null: "A v = None" and own: "owning v" "\<not> owning w"
    and n: "length (content (A w)) \<le> max_buffer"
  shows "answers (did (toBuffer v w st)) (\<lambda>st'. buf_rel st' (moved v w A)) Returned"
proof -
  note r = buf_relD [OF rel]
  obtain st' where "toBuffer v w st = Some st'" "binv st'" "val st' = (val st)(v := val st w, w := None)"
    using toBuffer_ok [OF r(1) own] r(3,4) null n by metis
  then show ?thesis using own by (auto intro!: answers_did buf_rel_moved [OF rel])
qed

lemma copy_step:
  assumes rel: "buf_rel st A" and null: "A v = None" and own: "owning v"
    and k: "k = (case n of None \<Rightarrow> length (content (A w)) - i | Some k \<Rightarrow> k)"
    and bounds: "i \<le> length (content (A w))" "i + k \<le> length (content (A w))" "k \<le> max_buffer"
  shows "answers (did (copy_buf v w i n st))
    (\<lambda>st'. buf_rel st' (if A w = None then A else A(v \<mapsto> take k (drop i (content (A w)))))) Returned"
proof (cases "A w")
  case None
  note r = buf_relD [OF rel]
  have "storage st w = None" by (rule null_storage [OF rel None])
  then show ?thesis
    using None bounds k rel fresh_var_ok [OF rel null] content_size [OF r(1), of w] r(4) [of w]
    by (cases n) (auto simp: copy_buf_def buf_is_set_def intro!: answers_did)
next
  case (Some xs)
  note r = buf_relD [OF rel]
  obtain ys where ys: "val st w = Some ys" "bytes_le xs ys" using r(2) [of w] Some by (auto simp: option_rel_Some1)
  have len: "length xs = length ys" by (rule list_all2_lengthD [OF ys(2)])
  have v: "val st v = None" using r(3) null by simp
  have b: "case n of None \<Rightarrow> i \<le> length ys | Some n \<Rightarrow> i + n \<le> length ys"
    "k = (case n of None \<Rightarrow> length ys - i | Some n \<Rightarrow> n)"
    using k bounds Some len by (auto split: option.splits)
  obtain st' where "copy_buf v w i n st = Some st'" "binv st'" "val st' = (val st)(v \<mapsto> take k (drop i ys))"
    by (rule copy_ok [OF r(1) own v ys(1) b bounds(3)])
  moreover have "bytes_le (take k (drop i xs)) (take k (drop i ys))"
    using ys(2) by (intro list_all2_takeI list_all2_dropI)
  ultimately show ?thesis using Some by (auto intro!: answers_did buf_rel_upd [OF rel])
qed

lemma take_out_step:
  assumes rel: "buf_rel st A" and null: "A v = None" and own: "owning w"
  shows "answers (did (takeOut v w st)) (\<lambda>st'. buf_rel st' (moved v w A)) Returned"
proof -
  note inv = buf_relD(1) [OF rel] and sv = null_storage [OF rel null]
  have o: "handles st a = {w}" if "owning v" "storage st w = Some a" for a
    using that binvD(7) [OF inv own] by blast
  have "takeOut v w st = Some (st_move v w st)"
  proof (cases "storage st w")
    case None
    have "st_move v w st = st" using None sv by (simp add: st_move_def fun_upd_idem)
    then show ?thesis using None fresh_var_ok [OF rel null] by (simp add: takeOut_def)
  next
    case (Some a)
    then show ?thesis
      using refsCount_owning [OF inv own Some] fresh_var_ok [OF rel null]
      by (simp add: takeOut_def steal_def st_move_def set_storage_def)
  qed
  then show ?thesis
    using move_ok [OF inv sv o] by (intro answers_did buf_rel_moved [OF rel]) (auto simp: fun_eq_iff)
qed

lemma from_handle_ok:
  assumes rel: "buf_rel st A" and null: "A v = None" and h: "A w \<noteq> None" and own: "owning v" "owning w"
  shows "bufferFromHandle v w st = Some (st_move v w st)" "binv (st_move v w st)"
    "val (st_move v w st) = (val st)(v := val st w, w := None)"
proof -
  note inv = buf_relD(1) [OF rel] and sv = null_storage [OF rel null]
  have "storage st w \<noteq> None" using h buf_relD(3) [OF rel, of w] val_None [OF inv, of w] by simp
  then show "bufferFromHandle v w st = Some (st_move v w st)"
    using attach_ok [OF inv sv refl, of w] by (simp add: bufferFromHandle_def st_move_def set_storage_def)
  have o: "handles st a = {w}" if "owning v" "storage st w = Some a" for a
    using that binvD(7) [OF inv own(2)] by blast
  show "binv (st_move v w st)" "val (st_move v w st) = (val st)(v := val st w, w := None)"
    using move_ok [OF inv sv o] by blast+
qed

lemma from_client_data_step:
  assumes rel: "buf_rel st A" and null: "A v = None" and own: "owning v" "owning w"
    and x: "content (A w) \<noteq> []" "length (content (A w)) \<le> max_buffer"
    and n: "case n of None \<Rightarrow> True | Some k \<Rightarrow> k \<le> length (content (A w))"
  shows "answers (did (bufferFromClientData v w n st)) (\<lambda>st'. buf_rel st'
    (A(v := map_option (\<lambda>xs. case n of None \<Rightarrow> xs | Some k \<Rightarrow> take k xs) (A w), w := None))) Returned"
proof -
  note r = buf_relD [OF rel]
  obtain xs where A: "A w = Some xs" using x(1) by (cases "A w") auto
  then have h: "A w \<noteq> None" and ne: "v \<noteq> w" using null by auto
  then obtain ys where ys: "val st w = Some ys" "bytes_le xs ys" using r(2) [of w] A by (auto simp: option_rel_Some1)
  have len: "length xs = length ys" by (rule list_all2_lengthD [OF ys(2)])
  note mv = from_handle_ok [OF rel null h own]
  let ?st = "st_move v w st"
  obtain a b where b: "storage st w = Some a" "heap st a = Some b" "block_ok b" "length ys = bsize b"
    by (rule val_Some [OF r(1) ys(1)])
  have nz: "bsize b \<noteq> 0" using x(1) A len b(4) by (cases xs) auto
  have cd: "clientData (storage st w) st = Some (Some a)"
    using b nz by (simp add: clientData_def block_ok_def)
  have sv: "storage ?st v = Some a" "heap ?st a = Some b"
    using b ne by (simp_all add: st_move_def)
  show ?thesis
  proof (cases n)
    case None
    then have "bufferFromClientData v w n st = Some ?st" using cd mv(1) by (simp add: bufferFromClientData_def)
    then show ?thesis
      using mv(2,3) None A ys ne r(2) by (auto intro!: answers_did simp: buf_rel_def)
  next
    case (Some k)
    then have k: "k \<le> length xs" using n A by simp
    obtain st2 zs where st2: "resize v k ?st = Some st2" "binv st2" "val st2 = (val ?st)(v \<mapsto> zs)"
      "case val ?st v of None \<Rightarrow> zs = replicate k None | Some ys \<Rightarrow> resizes ys k zs"
      by (rule resize_ok [OF mv(2) own(1), of k]) (use k x(2) A in auto)
    have "val ?st v = Some ys" using mv(3) ys(1) ne by simp
    then have z: "resizes ys k zs" using st2(4) by simp
    have cap: "k \<le> capacity b" using k len b(3,4) by (simp add: block_ok_def)
    have "bufferFromClientData v w n st = Some st2"
      using Some cd mv(1) sv cap st2(1) by (simp add: bufferFromClientData_def)
    moreover have "zs = take k ys" using z k len by (metis resizes_def take_all)
    then have "bytes_le (take k xs) zs" using ys(2) by (simp add: list_all2_takeI)
    ultimately show ?thesis
      using st2(2,3) mv(3) Some A r(2) ne by (auto intro!: answers_did simp: buf_rel_def)
  qed
qed

lemma handle_reallocate_step:
  assumes rel: "buf_rel st A" and own: "owning v" and n: "n \<le> max_buffer"
  shows "answers (did (handle_reallocate v n st)) (\<lambda>st'. buf_rel st' (A(v \<mapsto> resized (A v) n))) Returned"
proof -
  note inv = buf_relD(1) [OF rel]
  have "handle_reallocate v n st = resize v n st"
  proof (cases "storage st v")
    case None
    then show ?thesis by (simp add: handle_reallocate_def resize_def reallocate_def)
  next
    case (Some a)
    then show ?thesis using refsCount_owning [OF inv own Some] by (simp add: handle_reallocate_def resize_def)
  qed
  then show ?thesis using resize_step [OF rel own n] by simp
qed

lemmas buf_steps = new_step resize_step move_step release_step assign_step swap_step to_read_only_step
  append_step concat_step write_step from_string_step ro_copy_step ro_copy_assign_step to_buffer_step
  copy_step take_out_step from_client_data_step handle_reallocate_step

lemma from_handle_step:
  assumes rel: "buf_rel st A" and null: "A v = None" and h: "A w \<noteq> None" and own: "owning v" "owning w"
  shows "answers (did (bufferFromHandle v w st)) (\<lambda>st'. buf_rel st' (moved v w A)) Returned"
  using from_handle_ok [OF assms] null h by (auto intro!: answers_did buf_rel_moved [OF rel])

lemma buf_step:
  assumes rel: "buf_rel st A" and spec: "buf_spec c A = Some (A', r)"
  shows "answers (buf_exec c st) (\<lambda>st'. buf_rel st' A') r"
proof (cases c)
  case (WriteBuffer b i ws)
  then show ?thesis using spec buf_steps(10) [OF rel] by (auto split: option.splits)
next
  case (ReadData v i n)
  then show ?thesis
    using spec read_step [OF rel] rel by (auto simp: answers_def gives_def split: option.splits if_splits)
next
  case (AsString v)
  then show ?thesis using spec string_step [OF rel] rel by (auto simp: answers_def gives_def)
next
  case (Append b n)
  then show ?thesis using spec append_step [OF rel, of "B b" n] by (auto simp: Let_def split: if_splits)
next
  case (SizeOf v)
  then show ?thesis
    using spec rel content_size [OF buf_relD(1) [OF rel]] buf_relD(4) [OF rel] by (simp add: answers_def gives_def)
next
  case (EmptyOf v)
  then show ?thesis
    using spec rel empty_ok [OF buf_relD(1) [OF rel]] buf_relD(4) [OF rel, of v]
    by (auto simp: answers_def gives_def simp flip: length_0_conv)
next
  case (IsSet v)
  then show ?thesis
    using spec rel buf_relD(3) [OF rel, of v] val_None [OF buf_relD(1) [OF rel], of v]
    by (simp add: answers_def buf_is_set_def)
next
  case (HandleAlloc h n)
  then show ?thesis using spec new_step [OF rel, of "H h" n] by (auto simp: handle_allocate_def)
next
  case (CopyOf b v i n)
  then show ?thesis using spec copy_step [OF rel, where v = "B b" and w = v and i = i and n = n] by (auto simp: Let_def)
next
  case (FromHandle b h)
  then show ?thesis using spec from_handle_step [OF rel, of "B b" "H h"] by auto
next
  case (RoMove v w)
  then show ?thesis using spec move_step [OF rel, of "R v" "R w"] by auto
next
  case (RoCopyAssign v w)
  then show ?thesis using spec ro_copy_assign_step [OF rel, of "R v" "R w"] by auto
qed (use spec buf_steps [OF rel] in \<open>auto\<close>)

lemma buf_rel_init: "buf_rel bufs_init (\<lambda>_. None)"
  by (simp add: buf_rel_def binv_def bufs_init_def val_def)

interpretation buffers: implements buf_exec buf_spec buf_rel
proof
  fix st A c A' r
  assume "buf_rel st A" "buf_spec c A = Some (A', r)"
  then show "\<exists>st'. buf_exec c st = Some (st', r) \<and> buf_rel st' A'"
    using buf_step by (auto simp: answers_def)
qed


definition buffer_example :: "buf_call list" where
  "buffer_example = [FromString 0 [1, 2, 3], ToReadOnly 0 0, RoCopy 1 0, ToBuffer 1 0, WriteBuffer 1 0 [9],
     Concat 1 2, AsString (B 1), AsString (R 1), RoCopyAssign 1 1, IsSet (R 1)]"


text \<open>
  C32. Reference counts: after any such program every block of the heap is reachable, its count is the
  number of its handles, a block of a \<open>Buffer\<close> or a handle has no other, and the client size stays within the
  capacity; in particular nothing leaks when all objects are gone.
\<close>

theorem blocks_are_counted:
  assumes "run buf_spec cs (\<lambda>_. None) = Some (A, rs)"
  shows "\<exists>st. run buf_exec cs bufs_init = Some (st, rs) \<and>
    (\<forall>a b. heap st a = Some b \<longrightarrow>
       refs b = card {v. storage st v = Some a} \<and> refs b > 0 \<and> bsize b \<le> capacity b \<and>
       (\<forall>v. owning v \<and> storage st v = Some a \<longrightarrow> {w. storage st w = Some a} = {v})) \<and>
    ((\<forall>v. A v = None) \<longrightarrow> heap st = (\<lambda>_. None))"
proof -
  obtain st where st: "run buf_exec cs bufs_init = Some (st, rs)" "buf_rel st A"
    using buffers.run_exec [OF buf_rel_init assms] by blast
  note inv = buf_relD(1) [OF st(2)]
  have "heap st = (\<lambda>_. None)" if "\<forall>v. A v = None"
  proof (rule ext)
    fix a show "heap st a = None"
    proof (rule ccontr)
      assume "heap st a \<noteq> None"
      then obtain b where b: "heap st a = Some b" by blast
      have "storage st v = None" for v using that null_storage [OF st(2)] by blast
      then have "handles st a = {}" by (simp add: handles_def)
      then show False using binvD(5,6) [OF inv b] by simp
    qed
  qed
  then show ?thesis
    using st(1) inv unfolding binv_def block_ok_def handles_def by blast
qed

theorem blocks_are_counted_witness:
  "\<exists>st. run buf_exec [NewBuffer 0 5, ToReadOnly 0 0, RoCopy 1 0] bufs_init = Some (st, [Returned, Returned, Returned]) \<and>
    (\<forall>a b. heap st a = Some b \<longrightarrow> refs b = card {v. storage st v = Some a})"
proof -
  have "run buf_spec [NewBuffer 0 5, ToReadOnly 0 0, RoCopy 1 0] (\<lambda>_. None) =
      Some ((\<lambda>_. None)(R 0 \<mapsto> replicate 5 None, B 0 := None, R 1 \<mapsto> replicate 5 None), [Returned, Returned, Returned])"
    by (simp add: guarded_def moved_def max_buffer_def fun_eq_iff)
  from blocks_are_counted [OF this] show ?thesis by blast
qed

end
