(* ===== verification/MemoryStream.thy ===== *)
theory MemoryStream
  imports Buffer
begin

text \<open>
  \<open>engine/kernel/src/io/memory_stream.cpp\<close>: a stream over a growing \<open>Buffer\<close> and one over a span of bytes.
  Offsets and positions are \<open>int64_t\<close>; their sums wrap.  The lemmas show that a stream is a byte string with a
  position inside it; what reading promises is the contract \<open>reader\<close>, which both streams fulfil.
\<close>

section \<open>The stream over a buffer\<close>

text \<open>\<open>MemoryStreamImpl\<close>: the memory, and \<open>m_pos\<close>; its \<open>m_buffer\<close> is the buffer object \<open>v\<close>.\<close>

record mstream =
  mem :: bufs
  m_pos :: nat

datatype origin = Begin | Current | End

definition to_s64 :: "int \<Rightarrow> int" where
  "to_s64 x = (x + 2 ^ 63) mod 2 ^ 64 - 2 ^ 63"

definition ms_construct :: "var \<Rightarrow> var \<Rightarrow> bufs \<Rightarrow> mstream option" where
  "ms_construct v buffer st = do {
     st \<leftarrow> move_construct v buffer st;
     n \<leftarrow> buf_size v st;
     Some \<lparr>mem = st, m_pos = n\<rparr>
   }"

definition ms_read :: "var \<Rightarrow> nat \<Rightarrow> mstream \<Rightarrow> (mstream \<times> 8 word list) option" where
  "ms_read v count s = do {
     n \<leftarrow> buf_size v (mem s);
     require (m_pos s \<le> n);
     let availableSize = n - m_pos s;
     let actualReadCount = min availableSize count;
     if actualReadCount = 0 then Some (s, [])
     else do {
       ws \<leftarrow> read_data v (m_pos s) actualReadCount (mem s);
       Some (s\<lparr>m_pos := m_pos s + actualReadCount\<rparr>, ws)
     }
   }"

definition ms_write :: "var \<Rightarrow> 8 word list \<Rightarrow> mstream \<Rightarrow> (mstream \<times> nat) option" where
  "ms_write v ws s = do {
     n \<leftarrow> buf_size v (mem s);
     require (m_pos s \<le> n);
     let availableSize = n - m_pos s;
     st \<leftarrow> (if availableSize < length ws
            then map_option fst (append_buf v (length ws - availableSize) (mem s)) else Some (mem s));
     st \<leftarrow> write_data v (m_pos s) ws st;
     Some (\<lparr>mem = st, m_pos = m_pos s + length ws\<rparr>, length ws)
   }"

text \<open>Both streams compute the new position the same way.\<close>

definition seek_position :: "nat \<Rightarrow> nat \<Rightarrow> origin \<Rightarrow> int \<Rightarrow> nat option" where
  "seek_position pos n orig offset =
     (let currentSize = to_s64 (int n);
          newPos = (case orig of
              Begin \<Rightarrow> offset
            | Current \<Rightarrow> to_s64 (to_s64 (int pos) + offset)
            | End \<Rightarrow> to_s64 (currentSize + offset));
          newPos = (if newPos < 0 then 0 else if currentSize < newPos then currentSize else newPos)
      in if newPos \<ge> 0 \<and> newPos \<le> currentSize then Some (nat newPos) else None)"

definition ms_setPosition :: "var \<Rightarrow> origin \<Rightarrow> int \<Rightarrow> mstream \<Rightarrow> (mstream \<times> nat) option" where
  "ms_setPosition v orig offset s = do {
     n \<leftarrow> buf_size v (mem s);
     p \<leftarrow> seek_position (m_pos s) n orig offset;
     Some (s\<lparr>m_pos := p\<rparr>, p)
   }"

definition ms_getBufferAsSpan :: "var \<Rightarrow> nat \<Rightarrow> nat option \<Rightarrow> mstream \<Rightarrow> 8 word list option" where
  "ms_getBufferAsSpan v offset n s = do {
     total \<leftarrow> buf_size v (mem s);
     require (offset \<le> total);
     require (case n of None \<Rightarrow> True | Some k \<Rightarrow> offset + k \<le> total);
     let actualOffset = min offset total;
     let actualSize = (case n of None \<Rightarrow> total - actualOffset | Some k \<Rightarrow> k);
     read_data v actualOffset actualSize (mem s)
   }"

text \<open>\<open>releaseBuffer\<close> into a new buffer object.\<close>

definition ms_releaseBuffer :: "var \<Rightarrow> var \<Rightarrow> mstream \<Rightarrow> mstream option" where
  "ms_releaseBuffer v result s = do {
     st \<leftarrow> move_construct result v (mem s);
     Some \<lparr>mem = st, m_pos = 0\<rparr>
   }"

section \<open>The stream over a span\<close>

text \<open>\<open>ReadOnlyMemoryStream\<close>: \<open>m_buffer\<close> and \<open>m_pos\<close>.  \<open>write\<close> fails.\<close>

record rstream =
  r_bytes :: "8 word list"
  r_pos :: nat

definition rs_construct :: "8 word list \<Rightarrow> rstream" where
  "rs_construct ws = \<lparr>r_bytes = ws, r_pos = 0\<rparr>"

definition rs_read :: "nat \<Rightarrow> rstream \<Rightarrow> (rstream \<times> 8 word list) option" where
  "rs_read count s = do {
     require (r_pos s \<le> length (r_bytes s));
     let actualReadCount = min (length (r_bytes s) - r_pos s) count;
     if actualReadCount = 0 then Some (s, [])
     else Some (s\<lparr>r_pos := r_pos s + actualReadCount\<rparr>, take actualReadCount (drop (r_pos s) (r_bytes s)))
   }"

definition rs_write :: "8 word list \<Rightarrow> rstream \<Rightarrow> (rstream \<times> nat) option" where
  "rs_write ws s = None"

definition rs_setPosition :: "origin \<Rightarrow> int \<Rightarrow> rstream \<Rightarrow> (rstream \<times> nat) option" where
  "rs_setPosition orig offset s = do {
     p \<leftarrow> seek_position (r_pos s) (length (r_bytes s)) orig offset;
     Some (s\<lparr>r_pos := p\<rparr>, p)
   }"

definition rs_getBufferAsSpan :: "nat \<Rightarrow> nat option \<Rightarrow> rstream \<Rightarrow> 8 word list option" where
  "rs_getBufferAsSpan offset n s = do {
     let total = length (r_bytes s);
     require (offset \<le> total);
     require (case n of None \<Rightarrow> True | Some k \<Rightarrow> offset + k \<le> total);
     let actualOffset = min offset total;
     let actualSize = (case n of None \<Rightarrow> total - actualOffset | Some k \<Rightarrow> k);
     Some (take actualSize (drop actualOffset (r_bytes s)))
   }"

section \<open>Positions\<close>

lemma to_s64_id: "- (2 ^ 63) \<le> x \<Longrightarrow> x < 2 ^ 63 \<Longrightarrow> to_s64 x = x"
  by (simp add: to_s64_def)

definition seek_base :: "origin \<Rightarrow> nat \<Rightarrow> nat \<Rightarrow> int" where
  "seek_base orig pos n = (case orig of Begin \<Rightarrow> 0 | Current \<Rightarrow> int pos | End \<Rightarrow> int n)"

lemma seek_position_ok:
  assumes n: "n < 2 ^ 63" and pos: "pos \<le> n"
    and range: "- (2 ^ 63) \<le> seek_base orig pos n + offset" "seek_base orig pos n + offset < 2 ^ 63"
  shows "seek_position pos n orig offset = Some (nat (max 0 (min (int n) (seek_base orig pos n + offset))))"
proof -
  have s: "to_s64 (int n) = int n" "to_s64 (int pos) = int pos"
    using n pos by (simp_all add: to_s64_id)
  have t: "to_s64 (seek_base orig pos n + offset) = seek_base orig pos n + offset"
    by (rule to_s64_id [OF range])
  show ?thesis
    using t s by (cases orig) (auto simp: seek_position_def Let_def seek_base_def max_def min_def)
qed

section \<open>Reading\<close>

text \<open>What every reader promises: \<open>read n\<close> gives the next \<open>n\<close> bytes, or all that are left.\<close>

fun reads :: "(nat \<Rightarrow> 's \<Rightarrow> ('s \<times> 'b list) option) \<Rightarrow> nat list \<Rightarrow> 's \<Rightarrow> ('s \<times> 'b list list) option" where
  "reads rd [] s = Some (s, [])"
| "reads rd (n # ns) s =
     (case rd n s of
        None \<Rightarrow> None
      | Some (s', xs) \<Rightarrow> map_option (\<lambda>(s'', xss). (s'', xs # xss)) (reads rd ns s'))"

locale reader =
  fixes rd :: "nat \<Rightarrow> 's \<Rightarrow> ('s \<times> 'b list) option" and rest :: "'s \<Rightarrow> 'b list" and ok :: "'s \<Rightarrow> bool"
  assumes read: "ok s \<Longrightarrow> \<exists>s'. rd n s = Some (s', take n (rest s)) \<and> ok s' \<and> rest s' = drop n (rest s)"
begin

lemma reads_concat:
  "ok s \<Longrightarrow> \<exists>s' xss. reads rd ns s = Some (s', xss) \<and> concat xss = take (sum_list ns) (rest s) \<and>
     ok s' \<and> rest s' = drop (sum_list ns) (rest s)"
proof (induction ns arbitrary: s)
  case (Cons n ns)
  obtain s1 where s1: "rd n s = Some (s1, take n (rest s))" "ok s1" "rest s1 = drop n (rest s)"
    using read [OF Cons.prems] by blast
  obtain s2 xss where s2: "reads rd ns s1 = Some (s2, xss)" "concat xss = take (sum_list ns) (rest s1)"
    "ok s2" "rest s2 = drop (sum_list ns) (rest s1)"
    using Cons.IH [OF s1(2)] by blast
  then show ?case using s1 by (simp add: take_add add.commute)
qed simp

lemma reads_all:
  "ok s \<Longrightarrow> length (rest s) \<le> sum_list ns \<Longrightarrow>
     \<exists>s' xss. reads rd ns s = Some (s', xss) \<and> concat xss = rest s \<and> rest s' = []"
  using reads_concat [of s ns] by auto

end

definition rs_rest :: "rstream \<Rightarrow> 8 word list" where
  "rs_rest s = drop (r_pos s) (r_bytes s)"

definition rs_ok :: "rstream \<Rightarrow> bool" where
  "rs_ok s \<longleftrightarrow> r_pos s \<le> length (r_bytes s)"

interpretation span_reader: reader rs_read rs_rest rs_ok
proof
  fix s n assume ok: "rs_ok s"
  then show "\<exists>s'. rs_read n s = Some (s', take n (rs_rest s)) \<and> rs_ok s' \<and> rs_rest s' = drop n (rs_rest s)"
    by (cases "n \<le> length (r_bytes s) - r_pos s")
      (auto simp: rs_read_def rs_ok_def rs_rest_def Let_def min_def add.commute)
qed

text \<open>The stream over a buffer object holds the bytes \<open>ws\<close>.\<close>

definition ms_holds :: "var \<Rightarrow> mstream \<Rightarrow> 8 word list \<Rightarrow> bool" where
  "ms_holds v s ws \<longleftrightarrow> binv (mem s) \<and> content (val (mem s) v) = map Some ws \<and> m_pos s \<le> length ws"

definition ms_rest :: "var \<Rightarrow> mstream \<Rightarrow> 8 word list" where
  "ms_rest v s = (case those (content (val (mem s) v)) of None \<Rightarrow> [] | Some ws \<Rightarrow> drop (m_pos s) ws)"

lemma ms_rest_holds: "ms_holds v s ws \<Longrightarrow> ms_rest v s = drop (m_pos s) ws"
proof -
  assume "ms_holds v s ws"
  then have "those (content (val (mem s) v)) = Some ws" by (simp add: ms_holds_def those_Some)
  then show ?thesis by (simp add: ms_rest_def)
qed

lemma read_data_holds:
  assumes "ms_holds v s ws" and "i + n \<le> length ws"
  shows "read_data v i n (mem s) = Some (take n (drop i ws))"
proof (cases "val (mem s) v")
  case None
  then have "storage (mem s) v = None" "ws = []"
    using assms(1) val_None by (auto simp: ms_holds_def)
  then show ?thesis using assms(2) by (simp add: read_data_def buf_data_def clientData_def mem_read_def)
next
  case (Some xs)
  then have "xs = map Some ws" using assms(1) by (simp add: ms_holds_def)
  moreover have "i + n \<le> length xs" using assms(2) calculation by simp
  moreover obtain d where "buf_data v (mem s) = Some d" "mem_read d i n (mem s) = Some (take n (drop i xs))"
    using read_ok [OF _ Some calculation(2)] assms(1) by (auto simp: ms_holds_def)
  ultimately show ?thesis by (simp add: read_data_def those_Some take_map drop_map)
qed

lemma ms_read_holds:
  assumes h: "ms_holds v s ws"
  shows "ms_read v n s = Some (s\<lparr>m_pos := m_pos s + min n (length ws - m_pos s)\<rparr>, take n (drop (m_pos s) ws))"
proof -
  have sz: "buf_size v (mem s) = Some (length ws)"
    using h content_size [of "mem s" v] by (simp add: ms_holds_def)
  have le: "m_pos s \<le> length ws" using h by (simp add: ms_holds_def)
  have rd: "read_data v (m_pos s) (min (length ws - m_pos s) n) (mem s) = Some (take n (drop (m_pos s) ws))"
    using read_data_holds [OF h, of "m_pos s" "min (length ws - m_pos s) n"] le
    by (cases "n \<le> length ws - m_pos s") (simp_all add: min_absorb1 min_absorb2)
  show ?thesis
  proof (cases "min (length ws - m_pos s) n = 0")
    case True
    then have "take n (drop (m_pos s) ws) = []" by (auto simp: min_def split: if_splits)
    then show ?thesis using True sz le by (simp add: ms_read_def Let_def min.commute)
  next
    case False
    then show ?thesis using sz le rd by (simp add: ms_read_def Let_def min.commute)
  qed
qed

interpretation buffer_reader: reader "ms_read v" "ms_rest v" "\<lambda>s. \<exists>ws. ms_holds v s ws"
proof
  fix s n assume "\<exists>ws. ms_holds v s ws"
  then obtain ws where h: "ms_holds v s ws" by blast
  let ?s = "s\<lparr>m_pos := m_pos s + min n (length ws - m_pos s)\<rparr>"
  have h': "ms_holds v ?s ws" using h by (auto simp: ms_holds_def min_def)
  have "drop (m_pos ?s) ws = drop n (drop (m_pos s) ws)"
    by (cases "n \<le> length ws - m_pos s") (simp_all add: min_def add.commute)
  then show "\<exists>s'. ms_read v n s = Some (s', take n (ms_rest v s)) \<and> (\<exists>ws. ms_holds v s' ws) \<and>
      ms_rest v s' = drop n (ms_rest v s)"
    using ms_read_holds [OF h, of n] h' by (auto simp: ms_rest_holds [OF h] ms_rest_holds [OF h'])
qed

section \<open>Writing and seeking\<close>

definition overwrite :: "nat \<Rightarrow> 'a list \<Rightarrow> 'a list \<Rightarrow> 'a list" where
  "overwrite i ws xs = take i xs @ ws @ drop (i + length ws) xs"

lemma ms_write_holds:
  assumes h: "ms_holds v s xs" and own: "owning v" and n: "m_pos s + length ws \<le> max_buffer"
  obtains s' where "ms_write v ws s = Some (s', length ws)" "ms_holds v s' (overwrite (m_pos s) ws xs)"
    "m_pos s' = m_pos s + length ws" "\<And>u. u \<noteq> v \<Longrightarrow> val (mem s') u = val (mem s) u"
proof -
  let ?p = "m_pos s"
  have inv: "binv (mem s)" and c: "content (val (mem s) v) = map Some xs" and le: "?p \<le> length xs"
    using h by (auto simp: ms_holds_def)
  have sz: "buf_size v (mem s) = Some (length xs)" using content_size [OF inv, of v] c by simp
  show ?thesis
  proof (cases "ws = []")
    case True
    obtain d where d: "buf_data v (mem s) = Some d"
    proof (cases "val (mem s) v")
      case None
      then have "storage (mem s) v = None" using val_None [OF inv] by simp
      then show ?thesis using that by (simp add: buf_data_def clientData_def)
    next
      case (Some ys)
      then show ?thesis using that read_ok [OF inv Some, of 0 0] by auto
    qed
    then have "ms_write v ws s = Some (s, 0)"
      using True sz le by (simp add: ms_write_def Let_def write_data_def mem_write_def)
    then show ?thesis using that [of s] True h by (simp add: overwrite_def)
  next
    case False
    obtain st1 ys where st1:
      "(if length xs - ?p < length ws then map_option fst (append_buf v (length ws - (length xs - ?p)) (mem s))
        else Some (mem s)) = Some st1" "binv st1" "val st1 = (val (mem s))(v \<mapsto> ys)"
      "length ys = max (length xs) (?p + length ws)" "take (length xs) ys = map Some xs"
    proof (cases "length xs - ?p < length ws")
      case True
      have "length (content (val (mem s) v)) + (length ws - (length xs - ?p)) \<le> max_buffer"
        using c n le True by simp
      from append_ok [OF inv own this] obtain st1 d ys where st1:
        "append_buf v (length ws - (length xs - ?p)) (mem s) = Some (st1, (d, length (content (val (mem s) v))))"
        "binv st1" "val st1 = (val (mem s))(v \<mapsto> ys)"
        "length ys = length (content (val (mem s) v)) + (length ws - (length xs - ?p))"
        "take (length (content (val (mem s) v))) ys = content (val (mem s) v)"
        by metis
      then have "length ys = max (length xs) (?p + length ws)" "take (length xs) ys = map Some xs"
        using c True le by simp_all
      then show ?thesis using that [of st1 ys] st1(1-3) True by simp
    next
      case False
      moreover have "length xs > 0" using False le \<open>ws \<noteq> []\<close> by (cases ws) auto
      then have "val (mem s) v = Some (map Some xs)" using c by (cases "val (mem s) v") auto
      then have "val (mem s) = (val (mem s))(v \<mapsto> map Some xs)" by (simp add: fun_upd_idem)
      ultimately show ?thesis using that [of "mem s" "map Some xs"] inv le by simp
    qed
    have "val st1 v = Some ys" by (simp add: st1(3))
    from write_ok [OF st1(2) own this, of ?p "map Some ws"] st1(4)
    obtain d st2 where st2: "buf_data v st1 = Some d" "mem_write d ?p (map Some ws) st1 = Some st2" "binv st2"
      "val st2 = (val st1)(v \<mapsto> take ?p ys @ map Some ws @ drop (?p + length ws) ys)"
      by auto
    have "take ?p ys = take ?p (take (length xs) ys)" using le by (simp add: min_def)
    then have tk: "take ?p ys = map Some (take ?p xs)" using st1(5) by (simp add: take_map)
    have dr: "drop (?p + length ws) ys = map Some (drop (?p + length ws) xs)"
    proof (cases "?p + length ws \<le> length xs")
      case True
      then have "ys = map Some xs" using st1(4,5) by simp
      then show ?thesis by (simp add: drop_map)
    next
      case False
      then show ?thesis using st1(4) by simp
    qed
    let ?s = "\<lparr>mem = st2, m_pos = ?p + length ws\<rparr>"
    have "ms_write v ws s = Some (?s, length ws)"
      using sz le st1(1) st2(1,2) by (simp add: ms_write_def Let_def write_data_def)
    moreover have "ms_holds v ?s (overwrite ?p ws xs)"
      using st2(3,4) tk dr le by (simp add: ms_holds_def overwrite_def)
    ultimately show ?thesis using that [of ?s] st2(4) st1(3) by simp
  qed
qed

section \<open>Streams as byte strings with a position\<close>

datatype stream_call =
    Read nat
  | Write "8 word list"
  | SetPosition origin int
  | GetPosition
  | Span nat "nat option"

datatype stream_result = Bytes "8 word list" | Position nat

fun ms_exec :: "var \<Rightarrow> stream_call \<Rightarrow> mstream \<Rightarrow> (mstream \<times> stream_result) option" where
  "ms_exec v (Read n) s = map_option (\<lambda>(s, ws). (s, Bytes ws)) (ms_read v n s)"
| "ms_exec v (Write ws) s = map_option (\<lambda>(s, n). (s, Position n)) (ms_write v ws s)"
| "ms_exec v (SetPosition orig offset) s = map_option (\<lambda>(s, n). (s, Position n)) (ms_setPosition v orig offset s)"
| "ms_exec v GetPosition s = Some (s, Position (m_pos s))"
| "ms_exec v (Span offset n) s = map_option (\<lambda>ws. (s, Bytes ws)) (ms_getBufferAsSpan v offset n s)"

text \<open>
  The specification.  A position outside the data is moved to its nearest end; offsets whose sum leaves
  64 bits are not specified.
\<close>

fun stream_spec :: "stream_call \<Rightarrow> 8 word list \<times> nat \<Rightarrow> ((8 word list \<times> nat) \<times> stream_result) option" where
  "stream_spec (Read n) (ws, p) =
     Some ((ws, min (p + n) (length ws)), Bytes (take n (drop p ws)))"
| "stream_spec (Write us) (ws, p) =
     (if p + length us \<le> max_buffer then Some ((overwrite p us ws, p + length us), Position (length us)) else None)"
| "stream_spec (SetPosition orig offset) (ws, p) =
     (let new = seek_base orig p (length ws) + offset;
          q = nat (max 0 (min (int (length ws)) new))
      in if - (2 ^ 63) \<le> new \<and> new < 2 ^ 63 \<and> length ws < 2 ^ 63 then Some ((ws, q), Position q) else None)"
| "stream_spec GetPosition (ws, p) = Some ((ws, p), Position p)"
| "stream_spec (Span offset n) (ws, p) =
     (let k = (case n of None \<Rightarrow> length ws - offset | Some k \<Rightarrow> k) in
      if offset \<le> length ws \<and> offset + k \<le> length ws then Some ((ws, p), Bytes (take k (drop offset ws))) else None)"

definition stream_rel :: "var \<Rightarrow> mstream \<Rightarrow> 8 word list \<times> nat \<Rightarrow> bool" where
  "stream_rel v s a \<longleftrightarrow> ms_holds v s (fst a) \<and> m_pos s = snd a"

lemma stream_size: "ms_holds v s ws \<Longrightarrow> buf_size v (mem s) = Some (length ws)"
  using content_size [of "mem s" v] by (simp add: ms_holds_def)

lemma ms_step:
  assumes own: "owning v" and h: "ms_holds v s ws" and spec: "stream_spec c (ws, m_pos s) = Some (a', r)"
  shows "\<exists>s'. ms_exec v c s = Some (s', r) \<and> stream_rel v s' a'"
proof (cases c)
  case (Read n)
  let ?s = "s\<lparr>m_pos := m_pos s + min n (length ws - m_pos s)\<rparr>"
  have le: "m_pos s \<le> length ws" using h by (simp add: ms_holds_def)
  have "ms_holds v ?s ws" using h by (auto simp: ms_holds_def min_def)
  moreover have "m_pos ?s = min (m_pos s + n) (length ws)" using le by (auto simp: min_def)
  ultimately show ?thesis
    using Read spec ms_read_holds [OF h, of n] by (auto simp: stream_rel_def)
next
  case (Write us)
  then have n: "m_pos s + length us \<le> max_buffer" using spec by (simp split: if_splits)
  obtain s' where "ms_write v us s = Some (s', length us)" "ms_holds v s' (overwrite (m_pos s) us ws)"
    "m_pos s' = m_pos s + length us" by (rule ms_write_holds [OF h own n])
  then show ?thesis using Write spec n by (auto simp: stream_rel_def)
next
  case (SetPosition orig offset)
  let ?new = "seek_base orig (m_pos s) (length ws) + offset"
  let ?q = "nat (max 0 (min (int (length ws)) ?new))"
  have b: "- (2 ^ 63) \<le> ?new" "?new < 2 ^ 63" "length ws < 2 ^ 63" "a' = (ws, ?q)" "r = Position ?q"
    using spec SetPosition by (auto simp: Let_def split: if_splits)
  have le: "m_pos s \<le> length ws" using h by (simp add: ms_holds_def)
  have "seek_position (m_pos s) (length ws) orig offset = Some ?q"
    by (rule seek_position_ok [OF b(3) le b(1,2)])
  moreover have "ms_holds v (s\<lparr>m_pos := ?q\<rparr>) ws" using h by (auto simp: ms_holds_def)
  ultimately show ?thesis
    using SetPosition b(4,5) stream_size [OF h] by (simp add: ms_setPosition_def stream_rel_def)
next
  case GetPosition
  then show ?thesis using spec h by (auto simp: stream_rel_def)
next
  case (Span offset n)
  let ?k = "case n of None \<Rightarrow> length ws - offset | Some k \<Rightarrow> k"
  have b: "offset \<le> length ws" "offset + ?k \<le> length ws" "a' = (ws, m_pos s)" "r = Bytes (take ?k (drop offset ws))"
    using spec Span by (auto simp: Let_def split: if_splits)
  have "ms_getBufferAsSpan v offset n s = Some (take ?k (drop offset ws))"
    using b stream_size [OF h] read_data_holds [OF h b(2)]
    by (cases n) (simp_all add: ms_getBufferAsSpan_def Let_def)
  then show ?thesis using Span b h by (simp add: stream_rel_def)
qed

interpretation stream: implements "ms_exec (B b)" stream_spec "stream_rel (B b)"
proof
  fix s a c a' r
  assume rel: "stream_rel (B b) s a" and spec: "stream_spec c a = Some (a', r)"
  obtain ws where "a = (ws, m_pos s)" "ms_holds (B b) s ws" using rel by (cases a) (auto simp: stream_rel_def)
  then show "\<exists>s'. ms_exec (B b) c s = Some (s', r) \<and> stream_rel (B b) s' a'"
    using ms_step [of "B b" s ws c a' r] spec by simp
qed

definition ms_init :: mstream where
  "ms_init = \<lparr>mem = bufs_init, m_pos = 0\<rparr>"

lemma ms_init_rel: "stream_rel v ms_init ([], 0)"
  using buf_relD(1) [OF buf_rel_init]
  by (simp add: stream_rel_def ms_holds_def ms_init_def) (simp add: bufs_init_def val_def)

text \<open>
  C38. A memory stream is a byte string with a position: every sequence of reads, writes, seeks and spans on
  a new stream gives the results of the string, where a write replaces the bytes from the position on and
  lengthens the string, a read stops at the end and a seek outside the data goes to its nearest end.
\<close>

theorem memory_stream_is_string:
  assumes "observe (run stream_spec cs ([], 0)) = Some rs"
  shows "observe (run (ms_exec (B b)) cs ms_init) = Some rs"
  by (rule stream.observe_exec [OF ms_init_rel assms])

theorem memory_stream_is_string_witness:
  "observe (run (ms_exec (B 0)) [Write [1, 2, 3], SetPosition End (- 2), Read 9, SetPosition Begin 1, Write [7, 8, 9],
     Span 0 None, SetPosition Current 100, GetPosition] ms_init) =
   Some [Position 3, Position 1, Bytes [2, 3], Position 1, Position 3, Bytes [1, 7, 8, 9], Position 4, Position 4]"
proof (rule memory_stream_is_string)
  show "observe (run stream_spec [Write [1, 2, 3], SetPosition End (- 2), Read 9, SetPosition Begin 1,
      Write [7, 8, 9], Span 0 None, SetPosition Current 100, GetPosition] ([], 0)) =
    Some [Position 3, Position 1, Bytes [2, 3], Position 1, Position 3, Bytes [1, 7, 8, 9], Position 4, Position 4]"
    by (simp add: observe_def overwrite_def max_buffer_def seek_base_def)
qed

text \<open>
  Both streams read in pieces what they hold: after writing bytes to a new memory stream and seeking to
  the begin, and on a new read-only stream over them, reads of any sizes that cover the data return
  exactly the data, in order, and then nothing is left.
\<close>

theorem written_is_read:
  assumes "length ws \<le> max_buffer" and "length ws \<le> sum_list ns"
  shows "(\<exists>s1 s2 s' xss. ms_write (B b) ws ms_init = Some (s1, length ws) \<and>
      ms_setPosition (B b) Begin 0 s1 = Some (s2, 0) \<and> reads (ms_read (B b)) ns s2 = Some (s', xss) \<and> concat xss = ws) \<and>
    (\<exists>s' xss. reads rs_read ns (rs_construct ws) = Some (s', xss) \<and> concat xss = ws \<and> rs_rest s' = [])"
proof
  have h: "ms_holds (B b) ms_init []" using ms_init_rel [of "B b"] by (simp add: stream_rel_def)
  have p: "m_pos ms_init = 0" by (simp add: ms_init_def)
  obtain s1 where s1: "ms_write (B b) ws ms_init = Some (s1, length ws)" "ms_holds (B b) s1 ws"
    using ms_write_holds [OF h, of ws] assms(1) p by (auto simp: overwrite_def)
  let ?s2 = "s1\<lparr>m_pos := 0\<rparr>"
  have "length ws < 2 ^ 63" using assms(1) by (simp add: max_buffer_def)
  then have "ms_setPosition (B b) Begin 0 s1 = Some (?s2, 0)"
    using stream_size [OF s1(2)] seek_position_ok [of "length ws" "m_pos s1" Begin 0] s1(2)
    by (simp add: ms_setPosition_def seek_base_def ms_holds_def)
  moreover have h2: "ms_holds (B b) ?s2 ws" using s1(2) by (simp add: ms_holds_def)
  moreover have "ms_rest (B b) ?s2 = ws" using ms_rest_holds [OF h2] by simp
  ultimately show "\<exists>s1 s2 s' xss. ms_write (B b) ws ms_init = Some (s1, length ws) \<and>
      ms_setPosition (B b) Begin 0 s1 = Some (s2, 0) \<and> reads (ms_read (B b)) ns s2 = Some (s', xss) \<and> concat xss = ws"
    using s1(1) buffer_reader.reads_all [of "B b" ?s2 ns] assms(2) by blast
  show "\<exists>s' xss. reads rs_read ns (rs_construct ws) = Some (s', xss) \<and> concat xss = ws \<and> rs_rest s' = []"
    using span_reader.reads_all [of "rs_construct ws" ns] assms(2)
    by (simp add: rs_ok_def rs_rest_def rs_construct_def)
qed

theorem written_is_read_witness:
  "\<exists>s' xss. reads rs_read [2, 0, 5] (rs_construct [1, 2, 3]) = Some (s', xss) \<and> concat xss = [1, 2, 3]"
proof -
  have "length [1, 2, 3 :: 8 word] \<le> max_buffer" "length [1, 2, 3 :: 8 word] \<le> sum_list [2, 0, 5]"
    by (simp_all add: max_buffer_def)
  from written_is_read [OF this] show ?thesis by blast
qed

end
