(* ===== verification/Vfs.thy ===== *)
theory Vfs
  imports FsPath "HOL-Library.Monad_Syntax"
begin

text \<open>
  \<open>engine/kernel/src/io/virtual_file_system_impl.cpp\<close> and \<open>directory_iterator.cpp\<close>: a tree of directories at whose
  nodes file systems are mounted.  A pointer to a node is the node (the tree only grows, under its locks), a
  pointer to a mounted file system is its number.  What a mounted file system answers is the parameter
  \<open>env\<close>; failing debug asserts that the code handles afterwards are handled, as with asserts compiled out.
  The lemmas show which mount answers for a path, what the tree keeps, and what a directory lists.
\<close>

section \<open>State\<close>

datatype entry_kind = File | Directory

text \<open>\<open>FsEntry\<close>; an entry without a path is empty.\<close>

record dir_entry =
  e_path :: string
  e_kind :: entry_kind
  e_size :: nat
  e_time :: nat

definition empty_entry :: dir_entry where
  "empty_entry = \<lparr>e_path = [], e_kind = File, e_size = 0, e_time = 0\<rparr>"

definition entry_isEmpty :: "dir_entry \<Rightarrow> bool" where
  "entry_isEmpty e = isEmpty (e_path e)"

datatype open_mode = CreateAlways | CreateNew | OpenAlways | OpenExisting

text \<open>\<open>AccessModeFlag\<close>\<close>

record access =
  acc_read :: bool
  acc_write :: bool
  acc_async :: bool

text \<open>
  The interface \<open>FileSystem\<close> of the mounted file systems.  \<open>fs_openDir\<close> gives the entries that the directory
  iterator visits, \<open>None\<close> an error; \<open>fs_native\<close> is the path of an \<open>INativeFileSystem\<close>.
\<close>

record 'f file_system =
  fs_isReadOnly :: bool
  fs_exists :: "fs_path \<Rightarrow> entry_kind option \<Rightarrow> bool"
  fs_openFile :: "fs_path \<Rightarrow> access \<Rightarrow> open_mode \<Rightarrow> 'f option"
  fs_openDir :: "fs_path \<Rightarrow> dir_entry list option"
  fs_native :: "(fs_path \<Rightarrow> string) option"

type_synonym 'f env = "nat \<Rightarrow> 'f file_system"

text \<open>\<open>FileSystemEntry\<close> and \<open>FsNode\<close>\<close>

record mounted =
  m_fs :: nat
  m_priority :: nat

datatype vfs_node = FsNode (nodeName: string) (m_children: "vfs_node list") (m_mountedFs: "mounted list")

datatype mount_error = AlreadyHasMountedFs | AlreadyChildDirectories | MultipleMutableFs

definition vfs_init :: vfs_node where
  "vfs_init = FsNode [] [] []"

section \<open>Nodes\<close>

definition findChild :: "string \<Rightarrow> vfs_node \<Rightarrow> vfs_node option" where
  "findChild name node = find (\<lambda>c. nodeName c = name) (m_children node)"

definition hasMounts :: "vfs_node \<Rightarrow> bool" where
  "hasMounts node \<longleftrightarrow> m_mountedFs node \<noteq> []"

text \<open>\<open>getChild\<close>: the node with the child, or an error.\<close>

definition getChild :: "string \<Rightarrow> vfs_node \<Rightarrow> mount_error + vfs_node" where
  "getChild name node =
     (if findChild name node \<noteq> None then Inr node
      else if m_mountedFs node \<noteq> [] then Inl AlreadyHasMountedFs
      else Inr (FsNode (nodeName node) (m_children node @ [FsNode name [] []]) (m_mountedFs node)))"

text \<open>\<open>getNextChild\<close>: children are list nodes, so their position stands for their address.\<close>

definition getNextChild :: "nat option \<Rightarrow> vfs_node \<Rightarrow> nat option" where
  "getNextChild current node =
     (case current of
        None \<Rightarrow> if m_children node \<noteq> [] then Some 0 else None
      | Some i \<Rightarrow> if i + 1 < length (m_children node) then Some (i + 1) else None)"

fun next_after :: "nat \<Rightarrow> mounted list \<Rightarrow> nat option" where
  "next_after fs [] = None"
| "next_after fs (m # ms) = (if m_fs m = fs then (case ms of [] \<Rightarrow> None | n # _ \<Rightarrow> Some (m_fs n)) else next_after fs ms)"

definition getNextMountedFs :: "nat option \<Rightarrow> vfs_node \<Rightarrow> nat option" where
  "getNextMountedFs current node =
     (case current of
        None \<Rightarrow> (case m_mountedFs node of [] \<Rightarrow> None | m # _ \<Rightarrow> Some (m_fs m))
      | Some fs \<Rightarrow> next_after fs (m_mountedFs node))"

definition node_mount :: "'f env \<Rightarrow> nat \<Rightarrow> nat \<Rightarrow> vfs_node \<Rightarrow> mount_error + vfs_node" where
  "node_mount env fs priority node =
     (if m_children node \<noteq> [] then Inl AlreadyChildDirectories
      else if \<not> fs_isReadOnly (env fs) \<and> list_ex (\<lambda>m. \<not> fs_isReadOnly (env (m_fs m))) (m_mountedFs node)
      then Inl MultipleMutableFs
      else Inr (FsNode (nodeName node) (m_children node)
                  (m_mountedFs node @ [\<lparr>m_fs = fs, m_priority = priority\<rparr>])))"

section \<open>The virtual file system\<close>

text \<open>
  \<open>mount\<close>: down the elements, creating children, then \<open>mount\<close> at the node.  The new tree keeps the children
  that were created before an error.
\<close>

fun replace_child :: "vfs_node \<Rightarrow> vfs_node list \<Rightarrow> vfs_node list" where
  "replace_child c [] = []"
| "replace_child c (d # ds) = (if nodeName d = nodeName c then c # ds else d # replace_child c ds)"

fun mount_elements ::
  "'f env \<Rightarrow> nat \<Rightarrow> nat \<Rightarrow> string list \<Rightarrow> vfs_node \<Rightarrow> mount_error option \<times> vfs_node" where
  "mount_elements env fs priority [] node =
     (case node_mount env fs priority node of Inl e \<Rightarrow> (Some e, node) | Inr node' \<Rightarrow> (None, node'))"
| "mount_elements env fs priority (name # names) node =
     (case getChild name node of
        Inl e \<Rightarrow> (Some e, node)
      | Inr node' \<Rightarrow>
          (case findChild name node' of
             None \<Rightarrow> (Some AlreadyHasMountedFs, node')
           | Some c \<Rightarrow>
               (let (r, c') = mount_elements env fs priority names c
                in (r, FsNode (nodeName node') (replace_child c' (m_children node')) (m_mountedFs node')))))"

definition vfs_mount :: "'f env \<Rightarrow> fs_path \<Rightarrow> nat \<Rightarrow> nat \<Rightarrow> vfs_node \<Rightarrow> mount_error option \<times> vfs_node" where
  "vfs_mount env path fs priority root = mount_elements env fs priority (iterate (splitElements path)) root"

text \<open>\<open>unmount\<close> and \<open>getLastWriteTime\<close>, which do nothing.\<close>

definition vfs_unmount :: "nat \<Rightarrow> vfs_node \<Rightarrow> vfs_node" where
  "vfs_unmount fs root = root"

definition vfs_getLastWriteTime :: "fs_path \<Rightarrow> nat" where
  "vfs_getLastWriteTime path = 0"

fun descend :: "string list \<Rightarrow> vfs_node \<Rightarrow> fs_path \<Rightarrow> fs_path \<times> vfs_node" where
  "descend [] node base = (base, node)"
| "descend (name # names) node base =
     (case findChild name node of
        None \<Rightarrow> (base, node)
      | Some next \<Rightarrow> descend names next (appendInternal base name))"

text \<open>\<open>findFsNodeForPath\<close>: base path and node, the empty path and no node when nothing is found.\<close>

definition findFsNodeForPath :: "fs_path \<Rightarrow> vfs_node \<Rightarrow> fs_path \<times> vfs_node option" where
  "findFsNodeForPath path root =
     (let (base, node) = descend (iterate (splitElements path)) root (FsPath_from ''/'')
      in if \<not> FsPath_eq base path \<and> \<not> hasMounts node then ([], None)
         else (FsPath_copy base, Some node))"

definition vfs_exists :: "'f env \<Rightarrow> fs_path \<Rightarrow> entry_kind option \<Rightarrow> vfs_node \<Rightarrow> bool" where
  "vfs_exists env path kind root =
     (let (base, node) = findFsNodeForPath path root in
      if FsPath_eq base path then kind = None \<or> kind = Some Directory
      else (case node of
              None \<Rightarrow> False
            | Some n \<Rightarrow>
                if \<not> hasMounts n then False
                else (let relativePath = getRelativePath path base
                      in list_ex (\<lambda>m. fs_exists (env (m_fs m)) relativePath kind) (m_mountedFs n))))"

text \<open>The loop of \<open>openFile\<close> over the mounts; the result is the file system and the file.\<close>

fun open_first :: "'f env \<Rightarrow> bool \<Rightarrow> fs_path \<Rightarrow> access \<Rightarrow> open_mode \<Rightarrow> mounted list \<Rightarrow> (nat \<times> 'f) option" where
  "open_first env requireMutable relativePath acc mode [] = None"
| "open_first env requireMutable relativePath acc mode (m # ms) =
     (if requireMutable \<and> fs_isReadOnly (env (m_fs m)) then open_first env requireMutable relativePath acc mode ms
      else (case fs_openFile (env (m_fs m)) relativePath acc mode of
              Some file \<Rightarrow> Some (m_fs m, file)
            | None \<Rightarrow> open_first env requireMutable relativePath acc mode ms))"

text \<open>The file comes with the path given to \<open>setVfsPath\<close>.\<close>

definition vfs_openFile ::
  "'f env \<Rightarrow> fs_path \<Rightarrow> access \<Rightarrow> open_mode \<Rightarrow> vfs_node \<Rightarrow> (nat \<times> 'f \<times> fs_path) option" where
  "vfs_openFile env path acc mode root =
     (let (base, node) = findFsNodeForPath path root in
      case node of
        None \<Rightarrow> None
      | Some n \<Rightarrow>
          (let relativePath = getRelativePath path base;
               requireMutable = (acc_write acc \<or> mode \<noteq> OpenExisting)
           in map_option (\<lambda>(fs, file). (fs, file, FsPath_copy path))
                (open_first env requireMutable relativePath acc mode (m_mountedFs n))))"

definition vfs_resolveToNativePath :: "'f env \<Rightarrow> fs_path \<Rightarrow> vfs_node \<Rightarrow> string" where
  "vfs_resolveToNativePath env path root =
     (let (base, node) = findFsNodeForPath path root in
      case node of
        None \<Rightarrow> []
      | Some n \<Rightarrow>
          if \<not> hasMounts n then []
          else (case getNextMountedFs None n of
                  None \<Rightarrow> []
                | Some fs \<Rightarrow>
                    (case fs_native (env fs) of
                       None \<Rightarrow> []
                     | Some native \<Rightarrow> native (getRelativePath path base))))"

section \<open>Directory iterators\<close>

text \<open>\<open>operator/\<close> on paths: copy, then append.\<close>

definition path_div :: "fs_path \<Rightarrow> fs_path \<Rightarrow> fs_path" where
  "path_div p q = appendInternal (FsPath_copy p) q"

text \<open>
  \<open>InnerDirIteratorImpl\<close> with its current child, and \<open>MultiFsDirIteratorImpl\<close> with the tuple of the file
  system, its iterator (the entries still to come) and the current entry.
\<close>

datatype dir_iter =
    Inner (inner_base: fs_path) (inner_dir: vfs_node) (inner_current: "nat option")
  | Multi (multi_base: fs_path) (multi_relative: fs_path) (multi_dir: vfs_node)
      (multi_fs: "nat option") (multi_rest: "dir_entry list option") (multi_entry: dir_entry)

text \<open>The loop may not end, when a file system is mounted twice.\<close>

partial_function (option) getNextFsContainingPath ::
  "'f env \<Rightarrow> vfs_node \<Rightarrow> fs_path \<Rightarrow> nat option \<Rightarrow> nat option option" where
  "getNextFsContainingPath env dir relativePath current =
     (case getNextMountedFs current dir of
        None \<Rightarrow> Some None
      | Some fs \<Rightarrow>
          if fs_exists (env fs) relativePath (Some Directory) then Some (Some fs)
          else getNextFsContainingPath env dir relativePath (Some fs))"

definition with_path :: "fs_path \<Rightarrow> dir_entry \<Rightarrow> dir_entry" where
  "with_path base e = e\<lparr>e_path := path_div base (e_path e)\<rparr>"

text \<open>\<open>getNextFsIterator\<close>; an error of \<open>openDirIterator\<close> is dereferenced, which is undefined.\<close>

definition getNextFsIterator ::
  "'f env \<Rightarrow> fs_path \<Rightarrow> fs_path \<Rightarrow> vfs_node \<Rightarrow> nat option \<Rightarrow> dir_iter option" where
  "getNextFsIterator env base relativePath dir current = do {
     next \<leftarrow> getNextFsContainingPath env dir relativePath current;
     (case next of
        None \<Rightarrow> Some (Multi base relativePath dir None None empty_entry)
      | Some fs \<Rightarrow> do {
          entries \<leftarrow> fs_openDir (env fs) relativePath;
          Some (case entries of
                  [] \<Rightarrow> Multi base relativePath dir None None empty_entry
                | e # es \<Rightarrow>
                    if entry_isEmpty e then Multi base relativePath dir None None empty_entry
                    else Multi base relativePath dir (Some fs) (Some es) (with_path base e))
        })
   }"

definition iter_isEnd :: "dir_iter \<Rightarrow> bool" where
  "iter_isEnd it =
     (case it of
        Inner _ _ current \<Rightarrow> current = None
      | Multi _ _ _ _ _ e \<Rightarrow> entry_isEmpty e)"

text \<open>\<open>getCurrent\<close> moves the entry out of a \<open>MultiFsDirIteratorImpl\<close>.\<close>

definition iter_getCurrent :: "dir_iter \<Rightarrow> dir_iter \<times> dir_entry" where
  "iter_getCurrent it =
     (case it of
        Inner base dir current \<Rightarrow>
          (it, case current of
                 None \<Rightarrow> empty_entry
               | Some i \<Rightarrow> \<lparr>e_path = path_div base (nodeName (m_children dir ! i)), e_kind = Directory, e_size = 0, e_time = 0\<rparr>)
      | Multi base rel dir fs rest e \<Rightarrow> (Multi base rel dir fs rest (e\<lparr>e_path := []\<rparr>), e))"

definition iter_increment :: "'f env \<Rightarrow> dir_iter \<Rightarrow> (dir_iter \<times> bool) option" where
  "iter_increment env it =
     (case it of
        Inner base dir current \<Rightarrow>
          (let next = (if current \<noteq> None then getNextChild current dir else current)
           in Some (Inner base dir next, next \<noteq> None))
      | Multi base rel dir fs rest e \<Rightarrow>
          (case (fs, rest) of
             (Some f, Some es) \<Rightarrow>
               (let e = (case es of [] \<Rightarrow> empty_entry | x # _ \<Rightarrow> x) in
                if \<not> entry_isEmpty e then Some (Multi base rel dir fs (Some (tl es)) (with_path base e), True)
                else do {
                  it \<leftarrow> getNextFsIterator env base rel dir fs;
                  Some (it, \<not> entry_isEmpty (multi_entry it))
                })
           | _ \<Rightarrow> Some (it, False)))"

datatype vfs_error = DirectoryDoesNotExist

text \<open>\<open>openDirIterator\<close>: an error, no iterator, or the iterator and its first entry.\<close>

definition vfs_openDirIterator ::
  "'f env \<Rightarrow> fs_path \<Rightarrow> vfs_node \<Rightarrow> (vfs_error + (dir_iter \<times> dir_entry) option) option" where
  "vfs_openDirIterator env path root =
     (let (base, node) = findFsNodeForPath path root in
      case node of
        None \<Rightarrow> Some (Inl DirectoryDoesNotExist)
      | Some n \<Rightarrow> do {
          it \<leftarrow> (if \<not> hasMounts n then Some (Inner (FsPath_copy base) n (getNextChild None n))
                else getNextFsIterator env (FsPath_copy base) (getRelativePath path base) n None);
          Some (Inr (if iter_isEnd it then None else Some (iter_getCurrent it)))
        })"

definition vfs_incrementDirIterator :: "'f env \<Rightarrow> dir_iter \<Rightarrow> (dir_iter \<times> dir_entry) option" where
  "vfs_incrementDirIterator env it = do {
     (it, more) \<leftarrow> iter_increment env it;
     Some (if more then iter_getCurrent it else (it, empty_entry))
   }"

text \<open>\<open>for (auto& e : DirectoryIterator(vfs, path))\<close>: the entries that the loop sees.\<close>

partial_function (option) directory_rest :: "'f env \<Rightarrow> dir_iter \<Rightarrow> dir_entry list option" where
  "directory_rest env it = do {
     (it, e) \<leftarrow> vfs_incrementDirIterator env it;
     if entry_isEmpty e then Some [] else do { es \<leftarrow> directory_rest env it; Some (e # es) }
   }"

definition list_directory :: "'f env \<Rightarrow> fs_path \<Rightarrow> vfs_node \<Rightarrow> dir_entry list option" where
  "list_directory env path root = do {
     r \<leftarrow> vfs_openDirIterator env (FsPath_copy path) root;
     (case r of
        Inl _ \<Rightarrow> Some []
      | Inr None \<Rightarrow> Some []
      | Inr (Some (it, e)) \<Rightarrow> do { es \<leftarrow> directory_rest env it; Some (e # es) })
   }"

section \<open>The tree\<close>

text \<open>
  A node has children or mounts, not both, at most one of its file systems may be written, and its children
  have different names.
\<close>

fun node_wf :: "'f env \<Rightarrow> vfs_node \<Rightarrow> bool" where
  "node_wf env (FsNode n cs ms) \<longleftrightarrow>
     (cs = [] \<or> ms = []) \<and> length (filter (\<lambda>m. \<not> fs_isReadOnly (env (m_fs m))) ms) \<le> 1 \<and>
     distinct (map nodeName cs) \<and> (\<forall>c \<in> set cs. node_wf env c)"

text \<open>The specification of the tree: a table of mounts.\<close>

fun mounts_at :: "string list \<Rightarrow> vfs_node \<Rightarrow> mounted list" where
  "mounts_at [] node = m_mountedFs node"
| "mounts_at (name # names) node = (case findChild name node of None \<Rightarrow> [] | Some c \<Rightarrow> mounts_at names c)"

lemma find_name: "find (\<lambda>c. nodeName c = n) cs = Some c \<Longrightarrow> nodeName c = n \<and> c \<in> set cs"
  by (induction cs) (auto split: if_splits)

lemma findChild_Some: "findChild n node = Some c \<Longrightarrow> nodeName c = n \<and> c \<in> set (m_children node)"
  unfolding findChild_def by (rule find_name)

lemma find_none_name: "find (\<lambda>c. nodeName c = n) cs = None \<longleftrightarrow> n \<notin> nodeName ` set cs"
  by (auto simp: find_None_iff)

lemma find_append: "find P (xs @ ys) = (case find P xs of None \<Rightarrow> find P ys | Some x \<Rightarrow> Some x)"
  by (induction xs) auto

lemma replace_child_names: "map nodeName (replace_child c cs) = map nodeName cs"
  by (induction cs) auto

lemma replace_child_set: "set (replace_child c cs) \<subseteq> insert c (set cs)"
  by (induction cs) auto

lemma find_replace:
  "find (\<lambda>d. nodeName d = n) (replace_child c cs) =
     (if n = nodeName c \<and> n \<in> nodeName ` set cs then Some c else find (\<lambda>d. nodeName d = n) cs)"
  by (induction cs) auto

text \<open>\<open>getChild\<close> succeeds where there is a child or no mount, and creates a bare child.\<close>

lemma getChild_cases:
  obtains (err) "getChild name node = Inl AlreadyHasMountedFs" "findChild name node = None" "m_mountedFs node \<noteq> []"
  | (old) c where "getChild name node = Inr node" "findChild name node = Some c"
  | (new) node' where "getChild name node = Inr node'" "findChild name node = None" "m_mountedFs node = []"
      "node' = FsNode (nodeName node) (m_children node @ [FsNode name [] []]) []"
      "findChild name node' = Some (FsNode name [] [])"
proof (cases "findChild name node")
  case None
  show ?thesis
  proof (cases "m_mountedFs node = []")
    case True
    then show ?thesis using None new by (simp add: getChild_def findChild_def find_append)
  qed (use None err in \<open>simp add: getChild_def\<close>)
qed (use old in \<open>auto simp: getChild_def\<close>)

lemma mount_elements_name [simp]: "nodeName (snd (mount_elements env fs pr ns node)) = nodeName node"
proof (induction ns arbitrary: node)
  case Nil
  then show ?case by (auto simp: node_mount_def split: sum.splits)
next
  case (Cons n ns)
  show ?case by (rule getChild_cases [of n node]) (auto split: prod.splits)
qed

lemma node_mount_wf: "node_wf env node \<Longrightarrow> node_mount env fs pr node = Inr node' \<Longrightarrow> node_wf env node'"
  by (cases node) (auto simp: node_mount_def list_ex_iff filter_empty_conv split: if_splits)

lemma replace_wf:
  assumes "node_wf env (FsNode n cs ms)" and "node_wf env c"
  shows "node_wf env (FsNode n (replace_child c cs) ms)"
proof -
  have "replace_child c cs = [] \<longleftrightarrow> cs = []" by (cases cs) auto
  then show ?thesis
    using assms replace_child_set [of c cs] by (auto simp: replace_child_names)
qed

lemma mount_elements_wf: "node_wf env node \<Longrightarrow> node_wf env (snd (mount_elements env fs pr ns node))"
proof (induction ns arbitrary: node)
  case Nil
  then show ?case by (auto dest: node_mount_wf split: sum.splits)
next
  case (Cons n ns)
  obtain nm cs ms where node: "node = FsNode nm cs ms" by (cases node)
  show ?case
  proof (rule getChild_cases [of n node])
    fix c assume g: "getChild n node = Inr node" "findChild n node = Some c"
    have "c \<in> set cs" using findChild_Some [OF g(2)] node by simp
    then have "node_wf env c" using Cons.prems node by auto
    then have "node_wf env (FsNode nm (replace_child (snd (mount_elements env fs pr ns c)) cs) ms)"
      using Cons.IH Cons.prems node replace_wf by blast
    then show ?thesis using g node by (simp add: case_prod_beta)
  next
    fix node' assume g: "getChild n node = Inr node'" "findChild n node = None" "m_mountedFs node = []"
      "node' = FsNode (nodeName node) (m_children node @ [FsNode n [] []]) []" "findChild n node' = Some (FsNode n [] [])"
    have "n \<notin> nodeName ` set cs" using g(2) node by (simp add: findChild_def find_none_name)
    then have "node_wf env (FsNode nm (cs @ [FsNode n [] []]) ms)"
      using Cons.prems g(3) node by (auto simp: image_iff)
    then have "node_wf env (FsNode nm (replace_child (snd (mount_elements env fs pr ns (FsNode n [] []))) (cs @ [FsNode n [] []])) ms)"
      by (rule replace_wf) (use Cons.IH [of "FsNode n [] []"] in simp)
    then show ?thesis using g node by (simp add: case_prod_beta)
  qed (use Cons.prems in simp)
qed

lemma mounts_at_bare: "mounts_at ns (FsNode n [] []) = []"
  by (cases ns) (simp_all add: findChild_def)

lemma mounts_at_replace:
  assumes "findChild n (FsNode nm cs ms) = Some c" and "nodeName c' = n"
  shows "mounts_at ns (FsNode nm (replace_child c' cs) ms) =
    (case ns of [] \<Rightarrow> ms | k # ks \<Rightarrow> if k = n then mounts_at ks c' else mounts_at ns (FsNode nm cs ms))"
proof -
  have "n \<in> nodeName ` set cs" using assms(1) find_none_name [of n cs] by (auto simp: findChild_def)
  then show ?thesis using assms(2) by (cases ns) (simp_all add: findChild_def find_replace)
qed

lemma mounts_at_new:
  assumes "findChild n (FsNode nm cs ms) = None"
  shows "mounts_at ns (FsNode nm (cs @ [FsNode n [] []]) ms) = mounts_at ns (FsNode nm cs ms)"
  using assms by (cases ns) (auto simp: findChild_def find_append mounts_at_bare split: option.splits)

lemma mounts_at_mount:
  "mounts_at ks (snd (mount_elements env fs pr ns node)) =
     mounts_at ks node @
       (if ks = ns \<and> fst (mount_elements env fs pr ns node) = None then [\<lparr>m_fs = fs, m_priority = pr\<rparr>] else [])"
proof (induction ns arbitrary: node ks)
  case Nil
  show ?case
  proof (cases "node_mount env fs pr node")
    case (Inr node')
    then have "node' = FsNode (nodeName node) (m_children node) (m_mountedFs node @ [\<lparr>m_fs = fs, m_priority = pr\<rparr>])"
      by (auto simp: node_mount_def split: if_splits)
    then show ?thesis using Inr by (cases ks) (simp_all add: findChild_def)
  qed simp
next
  case (Cons n ns)
  obtain nm cs ms where node: "node = FsNode nm cs ms" by (cases node)
  show ?case
  proof (rule getChild_cases [of n node])
    fix c assume g: "getChild n node = Inr node" "findChild n node = Some c"
    have nc: "nodeName c = n" using findChild_Some [OF g(2)] by blast
    then show ?thesis
      using g node mounts_at_replace [of n nm cs ms c "snd (mount_elements env fs pr ns c)" ks] Cons.IH [of _ c]
      by (cases ks) (auto simp: case_prod_beta)
  next
    fix node' assume g: "getChild n node = Inr node'" "findChild n node = None" "m_mountedFs node = []"
      "node' = FsNode (nodeName node) (m_children node @ [FsNode n [] []]) []" "findChild n node' = Some (FsNode n [] [])"
    let ?c = "FsNode n [] [] :: vfs_node"
    have f: "findChild n (FsNode nm (cs @ [?c]) ms) = Some ?c" and ms: "ms = []" using g node by simp_all
    have new: "mounts_at ks (FsNode nm (cs @ [?c]) ms) = mounts_at ks node"
      using mounts_at_new [of n nm cs ms ks] g(2) node by simp
    show ?thesis
      using g node ms f new Cons.IH [of _ ?c]
        mounts_at_replace [OF f, of "snd (mount_elements env fs pr ns ?c)" ks]
      by (cases ks) (auto simp: mounts_at_bare case_prod_beta)
  qed simp
qed

text \<open>
  C34. The tree of mount points keeps its shape: after any mounts on a new virtual file system, successful or
  not, no directory that has file systems has subdirectories, at most one file system of a directory is
  mutable, and the names of subdirectories are different.
\<close>

theorem mount_tree_invariant:
  "node_wf env (foldl (\<lambda>root (path, fs, priority). snd (vfs_mount env path fs priority root)) vfs_init ms)"
proof (induction ms rule: rev_induct)
  case Nil
  show ?case by (simp add: vfs_init_def)
next
  case (snoc m ms)
  then show ?case by (cases m) (simp add: vfs_mount_def mount_elements_wf)
qed

text \<open>
  Mounting is an update of the table of mounts: a successful \<open>mount\<close> adds the file system behind those
  mounted at that path before, a failing one and every other path change nothing; the priority has no
  influence on the order.
\<close>

theorem mount_updates_table:
  "mounts_at ks (snd (vfs_mount env path fs priority root)) =
     mounts_at ks root @
       (if ks = Split path ''/'' \<and> fst (vfs_mount env path fs priority root) = None
        then [\<lparr>m_fs = fs, m_priority = priority\<rparr>] else [])"
  by (simp add: vfs_mount_def mounts_at_mount iterate_splitElements)

section \<open>Looking up paths\<close>

definition abs_path :: "string list \<Rightarrow> fs_path" where
  "abs_path es = slash # join ''/'' es"

lemma abs_path_canonical: "list_all elem_ok es \<Longrightarrow> canonical (abs_path es) \<and> (es \<noteq> [] \<longrightarrow> abs_path es \<noteq> ''/'')"
proof (induction es rule: rev_induct)
  case Nil
  show ?case by (simp add: canonical_def abs_path_def)
next
  case (snoc e es)
  then have e: "elem_ok e" and es: "list_all elem_ok es" by simp_all
  show ?case
  proof (cases "es = []")
    case True
    have "slash \<notin> set e" "e \<noteq> []" using e by (auto simp: elem_ok_def)
    then have "hd e \<noteq> slash" "last e \<noteq> slash" using hd_notin last_notin by metis+
    then have "canonical (slash # e)"
      using e no_double_append [of "[slash]" e] no_double_free [OF \<open>slash \<notin> set e\<close>]
      by (auto simp: canonical_def elem_ok_def)
    then show ?thesis using True \<open>e \<noteq> []\<close> by (simp add: abs_path_def)
  next
    case False
    then have "abs_path (es @ [e]) = abs_path es @ slash # e" by (simp add: abs_path_def join_append)
    moreover have "abs_path es \<noteq> []" by (simp add: abs_path_def)
    ultimately show ?thesis
      using canonical_extend [of "abs_path es" e] snoc.IH [OF es] False e by (simp add: abs_path_def)
  qed
qed

lemma abs_path_snoc: "es \<noteq> [] \<Longrightarrow> abs_path (es @ [e]) = abs_path es @ slash # e"
  by (simp add: abs_path_def join_append)

lemma append_root: "elem_ok e \<Longrightarrow> appendInternal ''/'' e = abs_path [e]"
  using abs_path_canonical [of "[e]"]
  by (auto simp: appendInternal_def Let_def skip_slashes_id elem_ok_def canonical_id abs_path_def)

lemma append_abs: "list_all elem_ok es \<Longrightarrow> foldl appendInternal ''/'' es = abs_path es"
proof (induction es rule: rev_induct)
  case Nil
  show ?case by (simp add: abs_path_def)
next
  case (snoc e es)
  show ?case
  proof (cases "es = []")
    case True
    then show ?thesis using snoc.prems append_root by simp
  next
    case False
    have "abs_path es \<noteq> []" by (simp add: abs_path_def)
    then show ?thesis
      using snoc False abs_path_canonical [of es] append_elem [of "abs_path es" e]
      by (simp add: abs_path_snoc)
  qed
qed

lemma Split_abs: "list_all elem_ok es \<Longrightarrow> es \<noteq> [] \<Longrightarrow> Split (abs_path es) ''/'' = [] # es"
proof -
  assume es: "list_all elem_ok es" "es \<noteq> []"
  then have "join ''/'' es \<noteq> []" using join_elems by blast
  then have "Split (abs_path es) ''/'' = [] # Split (join ''/'' es) ''/''"
    by (simp add: abs_path_def Split_pieces)
  then show ?thesis using Split_join_elems [OF es(1)] by simp
qed

lemma append_root_empty: "appendInternal ''/'' [] = ''/''"
  by code_simp

text \<open>Below a node with mounts there is nothing: the descent along a longer path stops there.\<close>

lemma descend_mounted:
  "node_wf env node \<Longrightarrow> mounts_at ns node \<noteq> [] \<Longrightarrow>
     \<exists>n. descend (ns @ es) node base = (foldl appendInternal base ns, n) \<and> m_mountedFs n = mounts_at ns node"
proof (induction ns arbitrary: node base)
  case Nil
  obtain nm cs ms where node: "node = FsNode nm cs ms" by (cases node)
  then have "cs = []" using Nil by simp
  then show ?case using node by (cases es) (simp_all add: findChild_def)
next
  case (Cons n ns)
  then obtain c where c: "findChild n node = Some c" by (auto split: option.splits)
  obtain nm cs ms where node: "node = FsNode nm cs ms" by (cases node)
  have "node_wf env c" using findChild_Some [OF c] Cons.prems(1) node by auto
  then show ?case using Cons.IH [of c] Cons.prems(2) c by simp
qed

text \<open>What a mounted file system is asked for a path below its mount point.\<close>

definition attempt :: "'f env \<Rightarrow> access \<Rightarrow> open_mode \<Rightarrow> fs_path \<Rightarrow> mounted \<Rightarrow> 'f option" where
  "attempt env acc mode rel m =
     (if (acc_write acc \<or> mode \<noteq> OpenExisting) \<and> fs_isReadOnly (env (m_fs m)) then None
      else fs_openFile (env (m_fs m)) rel acc mode)"

lemma open_first_iff:
  "open_first env (acc_write acc \<or> mode \<noteq> OpenExisting) rel acc mode ms = Some (f, x) \<longleftrightarrow>
     (\<exists>xs m ys. ms = xs @ m # ys \<and> f = m_fs m \<and> attempt env acc mode rel m = Some x \<and>
        (\<forall>k \<in> set xs. attempt env acc mode rel k = None))"
proof (induction ms)
  case (Cons m ms)
  show ?case
  proof (cases "attempt env acc mode rel m")
    case None
    then have "open_first env (acc_write acc \<or> mode \<noteq> OpenExisting) rel acc mode (m # ms) =
        open_first env (acc_write acc \<or> mode \<noteq> OpenExisting) rel acc mode ms"
      by (auto simp: attempt_def split: if_splits)
    moreover have "(\<exists>xs k ys. m # ms = xs @ k # ys \<and> f = m_fs k \<and> attempt env acc mode rel k = Some x \<and>
          (\<forall>k \<in> set xs. attempt env acc mode rel k = None)) \<longleftrightarrow>
        (\<exists>xs k ys. ms = xs @ k # ys \<and> f = m_fs k \<and> attempt env acc mode rel k = Some x \<and>
          (\<forall>k \<in> set xs. attempt env acc mode rel k = None))" (is "?l \<longleftrightarrow> ?r")
    proof
      assume ?l
      then obtain xs k ys where k: "m # ms = xs @ k # ys" "f = m_fs k" "attempt env acc mode rel k = Some x"
        "\<forall>k \<in> set xs. attempt env acc mode rel k = None" by blast
      with None obtain xs' where "xs = m # xs'" by (cases xs) auto
      then show ?r using k by auto
    next
      assume ?r
      then show ?l using None by (metis append_Cons set_ConsD)
    qed
    ultimately show ?thesis using Cons.IH by simp
  next
    case (Some y)
    then have "open_first env (acc_write acc \<or> mode \<noteq> OpenExisting) rel acc mode (m # ms) = Some (m_fs m, y)"
      by (auto simp: attempt_def split: if_splits)
    moreover have "(\<exists>xs k ys. m # ms = xs @ k # ys \<and> f = m_fs k \<and> attempt env acc mode rel k = Some x \<and>
          (\<forall>k \<in> set xs. attempt env acc mode rel k = None)) \<longleftrightarrow> f = m_fs m \<and> x = y" (is "?l \<longleftrightarrow> ?r")
    proof
      assume ?l
      then obtain xs k ys where k: "m # ms = xs @ k # ys" "f = m_fs k" "attempt env acc mode rel k = Some x"
        "\<forall>k \<in> set xs. attempt env acc mode rel k = None" by blast
      have "xs = []" using k(1,4) Some by (cases xs) auto
      then show ?r using k Some by simp
    next
      assume ?r
      then show ?l using Some by (metis append_Nil empty_iff empty_set)
    qed
    ultimately show ?thesis by auto
  qed
qed simp

lemma attempt_Some:
  "attempt env acc mode rel m = Some x \<longleftrightarrow>
     \<not> ((acc_write acc \<or> mode \<noteq> OpenExisting) \<and> fs_isReadOnly (env (m_fs m))) \<and>
     fs_openFile (env (m_fs m)) rel acc mode = Some x"
  by (auto simp: attempt_def)

lemma lookup_mounted:
  assumes wf: "node_wf env root" and ds: "list_all elem_ok ds" "ds \<noteq> []" and es: "list_all elem_ok es"
    and ms: "mounts_at ([] # ds) root \<noteq> []"
  obtains n where "findFsNodeForPath (abs_path (ds @ es)) root = (abs_path ds, Some n)"
    "m_mountedFs n = mounts_at ([] # ds) root" "getRelativePath (abs_path (ds @ es)) (abs_path ds) = join ''/'' es"
proof -
  have sp: "Split (abs_path (ds @ es)) ''/'' = ([] # ds) @ es" "Split (abs_path ds) ''/'' = [] # ds"
    using ds es by (simp_all add: Split_abs)
  have root: "FsPath_from ''/'' = ''/''" by code_simp
  have base: "foldl appendInternal ''/'' ([] # ds) = abs_path ds"
    using append_abs [OF ds(1)] by (simp add: append_root_empty)
  obtain n where n: "descend (([] # ds) @ es) root ''/'' = (abs_path ds, n)" "m_mountedFs n = mounts_at ([] # ds) root"
    using descend_mounted [OF wf ms, of es "''/''"] base by metis
  have "FsPath_copy (abs_path ds) = abs_path ds"
    using abs_path_canonical [OF ds(1)] by (simp add: FsPath_copy_def canonical_id)
  then have "findFsNodeForPath (abs_path (ds @ es)) root = (abs_path ds, Some n)"
    using n ms sp(1) root by (simp add: findFsNodeForPath_def iterate_splitElements hasMounts_def)
  moreover have "getRelativePath (abs_path (ds @ es)) (abs_path ds) = join ''/'' es"
    using strip_base_append [of "[] # ds" es] append_elems [of "[]" es] es
    by (simp add: getRelativePath_elems sp)
  ultimately show ?thesis using that n(2) by blast
qed


text \<open>Two file systems for the examples: a read-only one with a file \<open>f\<close> and a mutable one that opens everything.\<close>

definition example_fs :: "string file_system" where
  "example_fs = \<lparr>fs_isReadOnly = True, fs_exists = (\<lambda>p k. p = ''f''),
     fs_openFile = (\<lambda>p a m. if p = ''f'' then Some p else None), fs_openDir = (\<lambda>p. Some []), fs_native = None\<rparr>"

definition example_mutable_fs :: "string file_system" where
  "example_mutable_fs = \<lparr>fs_isReadOnly = False, fs_exists = (\<lambda>p k. True), fs_openFile = (\<lambda>p a m. Some p),
     fs_openDir = (\<lambda>p. Some []), fs_native = None\<rparr>"

definition example_env :: "string env" where
  "example_env n = (if n = 0 then example_fs else example_mutable_fs)"

definition example_tree :: vfs_node where
  "example_tree = snd (vfs_mount example_env ''/d'' 1 1 (snd (vfs_mount example_env ''/d'' 0 1 vfs_init)))"

lemma example_tree_eq:
  "example_tree = FsNode [] [FsNode [] [FsNode ''d'' [] [\<lparr>m_fs = 0, m_priority = 1\<rparr>, \<lparr>m_fs = 1, m_priority = 1\<rparr>]] []] []"
proof -
  have "iterate (splitElements ''/d'') = [[], ''d'']" by (simp add: iterate_splitElements Split_pieces)
  then show ?thesis
    by (simp add: example_tree_def vfs_mount_def vfs_init_def getChild_def findChild_def node_mount_def
      example_env_def example_fs_def example_mutable_fs_def)
qed


text \<open>
  A file system mounted at the root answers for no path: the elements of \<open>"/"\<close> are two empty names, and a
  longer path leaves the tree after the first of them.
\<close>

theorem root_mount_unreachable:
  assumes "list_all elem_ok (e # es)"
  shows "fst (vfs_mount env ''/'' fs priority vfs_init) = None \<and>
    vfs_openFile env (abs_path (e # es)) acc mode (snd (vfs_mount env ''/'' fs priority vfs_init)) = None \<and>
    \<not> vfs_exists env (abs_path (e # es)) kind (snd (vfs_mount env ''/'' fs priority vfs_init))"
proof -
  have root: "iterate (splitElements ''/'') = [[], []]" by (simp add: iterate_splitElements Split_pieces)
  have rt: "FsPath_from ''/'' = ''/''" by code_simp
  have e: "e \<noteq> []" using assms by (simp add: elem_ok_def)
  have tree: "vfs_mount env ''/'' fs priority vfs_init =
      (None, FsNode [] [FsNode [] [FsNode [] [] [\<lparr>m_fs = fs, m_priority = priority\<rparr>]] []] [])"
    by (simp add: vfs_mount_def root vfs_init_def getChild_def findChild_def node_mount_def)
  have sp: "iterate (splitElements (abs_path (e # es))) = [] # e # es"
    using Split_abs [OF assms] by (simp add: iterate_splitElements)
  have ne: "abs_path (e # es) \<noteq> ''/''" "abs_path (e # es) \<noteq> []"
    using abs_path_canonical [OF assms] by (simp_all add: abs_path_def)
  have "findFsNodeForPath (abs_path (e # es)) (snd (vfs_mount env ''/'' fs priority vfs_init)) = ([], None)"
    using e ne by (simp add: findFsNodeForPath_def tree sp findChild_def rt append_root_empty hasMounts_def FsPath_eq_iff)
  then show ?thesis using ne by (simp add: vfs_openFile_def vfs_exists_def FsPath_eq_iff tree)
qed

theorem root_mount_unreachable_witness:
  "vfs_openFile example_env ''/f'' \<lparr>acc_read = True, acc_write = False, acc_async = False\<rparr> OpenExisting
     (snd (vfs_mount example_env ''/'' 1 1 vfs_init)) = None"
  using root_mount_unreachable [of "''f''" "[]" example_env 1 1
      "\<lparr>acc_read = True, acc_write = False, acc_async = False\<rparr>" OpenExisting None]
  by (simp add: elem_ok_def abs_path_def)

section \<open>Listing a directory\<close>

lemma dropWhile_keeps: "c \<in> set xs \<Longrightarrow> \<not> P c \<Longrightarrow> c \<in> set (dropWhile P xs)"
  by (induction xs) auto

lemma makePreferred_nonempty: "c \<in> set s \<Longrightarrow> \<not> is_space c \<Longrightarrow> makePreferredPathString s \<noteq> []"
proof -
  assume c: "c \<in> set s" "\<not> is_space c"
  define t where "t = rev (dropWhile is_space (rev (dropWhile is_space s)))"
  have "c \<in> set t" using c by (simp add: t_def dropWhile_keeps)
  then have "replace_backslashes t \<noteq> []" by (cases t) (simp_all add: replace_backslashes_def)
  then have "squeeze (replace_backslashes t) \<noteq> []" using squeeze_hd by blast
  then have "strip_final_slash (squeeze (replace_backslashes t)) \<noteq> []"
    by (cases "squeeze (replace_backslashes t)" rule: rev_cases) (auto simp: strip_final_slash_def)
  then show ?thesis by (simp add: preferred_eq t_def)
qed

lemma path_div_abs:
  assumes "list_all elem_ok ds"
  shows "path_div (abs_path ds) q = appendInternal (abs_path ds) q" "path_div (abs_path ds) q \<noteq> []"
proof -
  show eq: "path_div (abs_path ds) q = appendInternal (abs_path ds) q"
    using abs_path_canonical [OF assms] by (simp add: path_div_def FsPath_copy_def canonical_id)
  have "slash \<in> set (abs_path ds)" by (simp add: abs_path_def)
  then show "path_div (abs_path ds) q \<noteq> []"
    unfolding eq appendInternal_def Let_def by (intro makePreferred_nonempty [of slash]) auto
qed

text \<open>The mounted file systems after one of them.\<close>

lemma next_after_split:
  "map m_fs ms = xs @ f # ys \<Longrightarrow> f \<notin> set xs \<Longrightarrow> next_after f ms = (case ys of [] \<Rightarrow> None | y # _ \<Rightarrow> Some y)"
proof (induction ms arbitrary: xs)
  case (Cons m ms)
  show ?case
  proof (cases xs)
    case Nil
    then show ?thesis using Cons.prems by (auto split: list.splits)
  next
    case (Cons x xs')
    then show ?thesis using Cons.prems Cons.IH [of xs'] by auto
  qed
qed simp

definition current_of :: "nat list \<Rightarrow> nat option" where
  "current_of xs = (if xs = [] then None else Some (last xs))"

lemma getNextMountedFs_split:
  assumes "map m_fs (m_mountedFs dir) = xs @ ys" and "distinct (xs @ ys)"
  shows "getNextMountedFs (current_of xs) dir = (case ys of [] \<Rightarrow> None | y # _ \<Rightarrow> Some y)"
proof (cases xs rule: rev_cases)
  case Nil
  then show ?thesis
    using assms by (cases "m_mountedFs dir") (auto simp: getNextMountedFs_def current_of_def)
next
  case (snoc xs' f)
  then show ?thesis
    using assms next_after_split [of "m_mountedFs dir" xs' f ys] by (simp add: getNextMountedFs_def current_of_def)
qed

lemma getNextFsContainingPath_split:
  "map m_fs (m_mountedFs dir) = xs @ ys \<Longrightarrow> distinct (xs @ ys) \<Longrightarrow>
     getNextFsContainingPath env dir rel (current_of xs) =
       Some (find (\<lambda>f. fs_exists (env f) rel (Some Directory)) ys)"
proof (induction ys arbitrary: xs)
  case Nil
  then show ?case
    using getNextMountedFs_split [of dir xs "[]"] by (simp add: getNextFsContainingPath.simps)
next
  case (Cons y ys)
  have "getNextFsContainingPath env dir rel (current_of (xs @ [y])) =
      Some (find (\<lambda>f. fs_exists (env f) rel (Some Directory)) ys)"
    by (rule Cons.IH) (use Cons.prems in auto)
  then show ?case
    using getNextMountedFs_split [OF Cons.prems]
    by (subst getNextFsContainingPath.simps) (simp add: current_of_def)
qed

text \<open>The specification of a listing: file system after file system, until one lists nothing.\<close>

definition entries_of :: "'f env \<Rightarrow> fs_path \<Rightarrow> nat \<Rightarrow> dir_entry list" where
  "entries_of env rel f = (case fs_openDir (env f) rel of None \<Rightarrow> [] | Some es \<Rightarrow> es)"

definition listing :: "'f env \<Rightarrow> fs_path \<Rightarrow> fs_path \<Rightarrow> nat list \<Rightarrow> dir_entry list" where
  "listing env base rel fs =
     concat (map (\<lambda>f. map (with_path base) (entries_of env rel f))
       (takeWhile (\<lambda>f. entries_of env rel f \<noteq> []) (filter (\<lambda>f. fs_exists (env f) rel (Some Directory)) fs)))"

text \<open>What is relied on: an existing directory can be opened, and its entries have names.\<close>

definition lists_well :: "'f env \<Rightarrow> fs_path \<Rightarrow> nat \<Rightarrow> bool" where
  "lists_well env rel f \<longleftrightarrow>
     (fs_exists (env f) rel (Some Directory) \<longrightarrow>
        (case fs_openDir (env f) rel of None \<Rightarrow> False | Some es \<Rightarrow> list_all (\<lambda>e. e_path e \<noteq> []) es))"

lemma find_split: "find P ys = Some f \<Longrightarrow> \<exists>us vs. ys = us @ f # vs \<and> P f \<and> (\<forall>u \<in> set us. \<not> P u)"
proof (induction ys)
  case (Cons y ys)
  show ?case
  proof (cases "P y")
    case True
    then have "y # ys = [] @ f # ys \<and> P f" using Cons.prems by simp
    then show ?thesis by (metis empty_iff empty_set)
  next
    case False
    then obtain us vs where "ys = us @ f # vs" "P f" "\<forall>u \<in> set us. \<not> P u" using Cons by auto
    then have "y # ys = (y # us) @ f # vs" "\<forall>u \<in> set (y # us). \<not> P u" using False by simp_all
    then show ?thesis using \<open>P f\<close> by blast
  qed
qed simp

text \<open>The state of a listing between two file systems, and inside one.\<close>

lemma getNextFsIterator_split:
  assumes ids: "map m_fs (m_mountedFs dir) = xs @ ys" "distinct (xs @ ys)"
    and ok: "\<forall>f \<in> set ys. lists_well env rel f"
  obtains "getNextFsIterator env base rel dir (current_of xs) = Some (Multi base rel dir None None empty_entry)"
      "listing env base rel ys = []"
  | us f vs e es where "ys = us @ f # vs" "entries_of env rel f = e # es" "e_path e \<noteq> []"
      "list_all (\<lambda>e. e_path e \<noteq> []) es"
      "getNextFsIterator env base rel dir (current_of xs) =
         Some (Multi base rel dir (current_of (xs @ us @ [f])) (Some es) (with_path base e))"
      "listing env base rel ys = map (with_path base) (e # es) @ listing env base rel vs"
proof (cases "find (\<lambda>f. fs_exists (env f) rel (Some Directory)) ys")
  case None
  then have "filter (\<lambda>f. fs_exists (env f) rel (Some Directory)) ys = []"
    by (auto simp: find_None_iff filter_empty_conv)
  then have "listing env base rel ys = []" by (simp add: listing_def)
  then show ?thesis
    using that(1) getNextFsContainingPath_split [OF ids, of env rel] None by (simp add: getNextFsIterator_def)
next
  case (Some f)
  from find_split [OF Some] obtain us vs where ys: "ys = us @ f # vs"
    and f: "fs_exists (env f) rel (Some Directory)"
    and us: "\<forall>u \<in> set us. \<not> fs_exists (env u) rel (Some Directory)" by metis
  have "filter (\<lambda>f. fs_exists (env f) rel (Some Directory)) us = []"
    using us by (simp only: filter_empty_conv)
  then have fl: "filter (\<lambda>f. fs_exists (env f) rel (Some Directory)) ys =
      f # filter (\<lambda>f. fs_exists (env f) rel (Some Directory)) vs"
    using f by (simp only: ys filter_append append_Nil) simp
  have "lists_well env rel f" using ok ys by simp
  then obtain es where es: "fs_openDir (env f) rel = Some es" "list_all (\<lambda>e. e_path e \<noteq> []) es"
    using f by (auto simp: lists_well_def split: option.splits)
  show ?thesis
  proof (cases es)
    case Nil
    then have "listing env base rel ys = []" using es by (simp add: listing_def fl entries_of_def)
    then show ?thesis
      using that(1) getNextFsContainingPath_split [OF ids, of env rel] Some es Nil
      by (simp add: getNextFsIterator_def)
  next
    case (Cons e es')
    then have "entries_of env rel f = e # es'" "e_path e \<noteq> []" "list_all (\<lambda>e. e_path e \<noteq> []) es'"
      using es by (simp_all add: entries_of_def)
    moreover have "getNextFsIterator env base rel dir (current_of xs) =
         Some (Multi base rel dir (current_of (xs @ us @ [f])) (Some es') (with_path base e))"
      using getNextFsContainingPath_split [OF ids, of env rel] Some es(1) Cons calculation(2)
      by (simp add: getNextFsIterator_def entry_isEmpty_def isEmpty_def current_of_def)
    moreover have "listing env base rel ys = map (with_path base) (e # es') @ listing env base rel vs"
      using calculation(1) by (simp add: listing_def fl)
    ultimately show ?thesis using that(2) ys by blast
  qed
qed

lemma directory_rest_split:
  assumes base: "base = abs_path ds" "list_all elem_ok ds"
  shows "map m_fs (m_mountedFs dir) = xs @ f # ys \<Longrightarrow> distinct (xs @ f # ys) \<Longrightarrow>
     \<forall>f \<in> set ys. lists_well env rel f \<Longrightarrow> list_all (\<lambda>e. e_path e \<noteq> []) rest \<Longrightarrow>
     directory_rest env (Multi base rel dir (Some f) (Some rest) e) =
       Some (map (with_path base) rest @ listing env base rel ys)"
proof (induction "length ys" arbitrary: xs f ys rest e rule: less_induct)
  case less
  have wp: "\<not> entry_isEmpty (with_path base x)" for x
    using path_div_abs(2) [OF base(2)] base(1) by (simp add: entry_isEmpty_def isEmpty_def with_path_def)
  show ?case
    using less.prems(4)
  proof (induction rest arbitrary: e)
    case Nil
    have emp: "entry_isEmpty empty_entry" by (simp add: entry_isEmpty_def isEmpty_def empty_entry_def)
    have ids: "map m_fs (m_mountedFs dir) = (xs @ [f]) @ ys" "distinct ((xs @ [f]) @ ys)"
      using less.prems(1,2) by simp_all
    have cur: "current_of (xs @ [f]) = Some f" by (simp add: current_of_def)
    show ?case
    proof (rule getNextFsIterator_split [OF ids less.prems(3), of base])
      assume "getNextFsIterator env base rel dir (current_of (xs @ [f])) = Some (Multi base rel dir None None empty_entry)"
        "listing env base rel ys = []"
      then show ?thesis
        using emp cur by (subst directory_rest.simps)
          (simp add: vfs_incrementDirIterator_def iter_increment_def Let_def)
    next
      fix us g vs d es
      assume g: "ys = us @ g # vs" "entries_of env rel g = d # es" "e_path d \<noteq> []" "list_all (\<lambda>e. e_path e \<noteq> []) es"
        and it: "getNextFsIterator env base rel dir (current_of (xs @ [f])) =
          Some (Multi base rel dir (current_of ((xs @ [f]) @ us @ [g])) (Some es) (with_path base d))"
        and l: "listing env base rel ys = map (with_path base) (d # es) @ listing env base rel vs"
      have cg: "current_of ((xs @ [f]) @ us @ [g]) = Some g" by (simp add: current_of_def)
      have "directory_rest env (Multi base rel dir (Some g) (Some es) ((with_path base d)\<lparr>e_path := []\<rparr>)) =
          Some (map (with_path base) es @ listing env base rel vs)"
        by (rule less.hyps [of vs "xs @ f # us"]) (use g less.prems in auto)
      then show ?thesis
        using emp cur cg it l wp by (subst directory_rest.simps)
          (simp add: vfs_incrementDirIterator_def iter_increment_def iter_getCurrent_def Let_def)
    qed
  next
    case (Cons x rest)
    have "\<not> entry_isEmpty x" using Cons.prems by (simp add: entry_isEmpty_def isEmpty_def)
    then show ?case
      using Cons.IH [of "(with_path base x)\<lparr>e_path := []\<rparr>"] Cons.prems wp
      by (subst directory_rest.simps)
        (simp add: vfs_incrementDirIterator_def iter_increment_def iter_getCurrent_def Let_def)
  qed
qed


definition example_file :: "string \<Rightarrow> dir_entry" where
  "example_file name = \<lparr>e_path = name, e_kind = File, e_size = 1, e_time = 0\<rparr>"

definition example_dir_env :: "string env" where
  "example_dir_env n =
     (if n = 0 then example_fs\<lparr>fs_exists := (\<lambda>p k. True), fs_openDir := (\<lambda>p. Some [example_file ''f'', example_file ''g''])\<rparr>
      else example_mutable_fs)"


end
