(* ===== verification/CoreTask.thy ===== *)
theory CoreTask
  imports Prelude
begin

text \<open>
  The asynchronous task of the kernel, \<open>my::async::CoreTaskImpl\<close> (\<open>src/async/core_task_impl.cpp\<close>), shared by
  threads that resolve it, give it a continuation or a ready callback.  Every atomic operation and every
  access to a shared member is one step of a thread; the flag loops (\<open>LockFlagGuard\<close>, \<open>setFlagsOnce\<close>,
  \<open>unsetFlags\<close>) are modelled with their reads and their compare-and-swap, spurious failures included.
  The interleaving is sequentially consistent.  Callbacks, continuations and executors are client code:
  their invocation is recorded in the logs of the state.
\<close>

unbundle bit_operations_syntax

section \<open>Flags\<close>

definition TaskFlag_Ready :: u32 where "TaskFlag_Ready = push_bit 0 1"
definition TaskFlag_HasContinuation :: u32 where "TaskFlag_HasContinuation = push_bit 2 1"
definition TaskFlag_ContinuationScheduled :: u32 where "TaskFlag_ContinuationScheduled = push_bit 3 1"
definition TaskFlag_ResolveLocked :: u32 where "TaskFlag_ResolveLocked = push_bit 5 1"
definition TaskFlag_ReadyCallbackLocked :: u32 where "TaskFlag_ReadyCallbackLocked = push_bit 6 1"

definition hasFlags :: "u32 \<Rightarrow> u32 \<Rightarrow> bool" where
  "hasFlags bits flag \<longleftrightarrow> bits AND flag = flag"

text \<open>
  The loops over the flag word: about to load it, or about to compare-and-swap with the value loaded.  A
  step gives the next point (\<open>None\<close>: the loop is left) and the flag word.
\<close>

datatype flag_pc = Load | Cas u32

fun lock_step :: "u32 \<Rightarrow> flag_pc \<Rightarrow> u32 \<Rightarrow> flag_pc option \<times> u32" where
  "lock_step flag Load bits = (Some (if bits AND flag \<noteq> 0 then Load else Cas bits), bits)"
| "lock_step flag (Cas v) bits =
     (if bits = v then (None, v OR flag)
      else (Some (if bits AND flag \<noteq> 0 then Load else Cas bits), bits))"

fun setFlagsOnce_step :: "u32 \<Rightarrow> bool \<Rightarrow> flag_pc \<Rightarrow> u32 \<Rightarrow> flag_pc option \<times> u32" where
  "setFlagsOnce_step flag weak Load bits = (Some (Cas bits), bits)"
| "setFlagsOnce_step flag weak (Cas v) bits =
     (if bits = v \<and> \<not> weak then (None, v OR flag) else (Some (Cas bits), bits))"

fun unsetFlags_step :: "u32 \<Rightarrow> bool \<Rightarrow> flag_pc \<Rightarrow> u32 \<Rightarrow> flag_pc option \<times> u32" where
  "unsetFlags_step flag weak Load bits = (Some (Cas bits), bits)"
| "unsetFlags_step flag weak (Cas v) bits =
     (if bits = v \<and> \<not> weak then (None, v AND NOT flag) else (Some (Cas bits), bits))"

text \<open>The assertion of \<open>setFlagsOnce\<close> looks at the value of the round: the flag is not set yet.\<close>

fun setFlagsOnce_assert :: "u32 \<Rightarrow> flag_pc \<Rightarrow> bool" where
  "setFlagsOnce_assert flag Load \<longleftrightarrow> True"
| "setFlagsOnce_assert flag (Cas v) \<longleftrightarrow> v AND flag = 0"

section \<open>The task and its callers\<close>

text \<open>
  Callables (\<open>Executor::Invocation\<close>), errors (\<open>ErrorPtr\<close>) and executors are numbers, a null one is \<open>None\<close>.
  A resolver is the argument of \<open>tryResolveInternal\<close>: the null callback, or a callback that leaves an error
  (or none) in its rejector.
\<close>

record TaskContinuation =
  invocation :: "nat option"
  executor :: "nat option"

type_synonym resolver = "nat option option"

text \<open>
  The members of \<open>CoreTaskImpl\<close>, then what an observer sees: the resolvers that took effect, the ready
  callbacks and continuations invoked (with the executor, or inline), and whether every
  \<open>MY_DEBUG_ASSERT\<close> passed has held.
\<close>

record CoreTask =
  m_flags :: u32
  m_error :: "nat option"
  m_continuation :: TaskContinuation
  m_readyCallback :: "nat option"
  m_isContinueOnCapturedExecutor :: bool
  resolved :: "resolver list"
  ready_log :: "nat list"
  cont_log :: "(nat \<times> nat option) list"
  assert_ok :: bool

definition null_continuation :: TaskContinuation where
  "null_continuation = \<lparr> invocation = None, executor = None \<rparr>"

definition new_task :: "bool \<Rightarrow> CoreTask" where
  "new_task captured = \<lparr> m_flags = 0, m_error = None, m_continuation = null_continuation,
     m_readyCallback = None, m_isContinueOnCapturedExecutor = captured,
     resolved = [], ready_log = [], cont_log = [], assert_ok = True \<rparr>"

definition isReady :: "CoreTask \<Rightarrow> bool" where
  "isReady s \<longleftrightarrow> hasFlags (m_flags s) TaskFlag_Ready"

definition getError :: "CoreTask \<Rightarrow> nat option" where
  "getError s = m_error s"

definition hasContinuation :: "CoreTask \<Rightarrow> bool" where
  "hasContinuation s \<longleftrightarrow> hasFlags (m_flags s) TaskFlag_HasContinuation"

definition hasCapturedExecutor :: "CoreTask \<Rightarrow> bool" where
  "hasCapturedExecutor s \<longleftrightarrow> invocation (m_continuation s) \<noteq> None \<and> executor (m_continuation s) \<noteq> None"

definition asserting :: "bool \<Rightarrow> CoreTask \<Rightarrow> CoreTask" where
  "asserting P s = s\<lparr> assert_ok := assert_ok s \<and> P \<rparr>"

datatype call =
    Resolve resolver
  | SetContinuation TaskContinuation
  | SetReadyCallback "nat option"
  | SetContinueOnCaptured bool

text \<open>Where a thread is inside each member function.\<close>

datatype resolve_pc = R_lock flag_pc | R_test | R_call | R_set flag_pc | R_unlock bool flag_pc
datatype invoke_pc = I_lock flag_pc | I_take | I_unlock "nat option" flag_pc | I_call "nat option"
datatype schedule_pc =
  T_check | T_load | T_cas u32 | T_take | T_route TaskContinuation | T_invoke TaskContinuation "nat option"
datatype continuation_pc = S_store | S_captured | S_clear | S_flag flag_pc
datatype callback_pc =
  C_lock flag_pc | C_test | C_store | C_unlock "nat option" flag_pc | C_call "nat option"

datatype pc =
    Resolving resolve_pc
  | Invoking invoke_pc
  | Scheduling schedule_pc
  | Continuing continuation_pc
  | Calling callback_pc
  | Capturing
  | Returned "bool option"

text \<open>A flag loop inside a function: stay in it at the next point, or leave it for what follows.\<close>

definition flag_loop :: "flag_pc option \<times> u32 \<Rightarrow> (flag_pc \<Rightarrow> pc) \<Rightarrow> pc \<Rightarrow> CoreTask \<Rightarrow> pc \<times> CoreTask" where
  "flag_loop r here after s =
     (case fst r of None \<Rightarrow> after | Some q \<Rightarrow> here q, s\<lparr> m_flags := snd r \<rparr>)"

section \<open>The member functions, step by step\<close>

text \<open>
  \<open>tryResolveInternal\<close>.  Both exits leave the scope of the guard; the one that set the flag goes on to
  \<open>invokeReadyCallback\<close>.
\<close>

definition rejector_error :: "resolver \<Rightarrow> nat option \<Rightarrow> nat option" where
  "rejector_error r old = (case r of None \<Rightarrow> old | Some e \<Rightarrow> e)"

fun resolve_step :: "bool \<Rightarrow> resolver \<Rightarrow> resolve_pc \<Rightarrow> CoreTask \<Rightarrow> pc \<times> CoreTask" where
  "resolve_step weak r (R_lock q) s =
     flag_loop (lock_step TaskFlag_ResolveLocked q (m_flags s)) (Resolving \<circ> R_lock) (Resolving R_test) s"
| "resolve_step weak r R_test s =
     (Resolving (if isReady s then R_unlock False Load else R_call), s)"
| "resolve_step weak r R_call s =
     (Resolving (R_set Load), s\<lparr> m_error := rejector_error r (m_error s), resolved := resolved s @ [r] \<rparr>)"
| "resolve_step weak r (R_set q) s =
     flag_loop (setFlagsOnce_step TaskFlag_Ready weak q (m_flags s)) (Resolving \<circ> R_set)
       (Resolving (R_unlock True Load)) (asserting (setFlagsOnce_assert TaskFlag_Ready q) s)"
| "resolve_step weak r (R_unlock b q) s =
     flag_loop (unsetFlags_step TaskFlag_ResolveLocked weak q (m_flags s)) (Resolving \<circ> R_unlock b)
       (if b then Invoking (I_lock Load) else Returned (Some False)) s"

fun invokeReadyCallback_step :: "bool \<Rightarrow> invoke_pc \<Rightarrow> CoreTask \<Rightarrow> pc \<times> CoreTask" where
  "invokeReadyCallback_step weak (I_lock q) s =
     flag_loop (lock_step TaskFlag_ReadyCallbackLocked q (m_flags s)) (Invoking \<circ> I_lock) (Invoking I_take) s"
| "invokeReadyCallback_step weak I_take s =
     (Invoking (I_unlock (m_readyCallback s) Load), s\<lparr> m_readyCallback := None \<rparr>)"
| "invokeReadyCallback_step weak (I_unlock cb q) s =
     flag_loop (unsetFlags_step TaskFlag_ReadyCallbackLocked weak q (m_flags s)) (Invoking \<circ> I_unlock cb)
       (Invoking (I_call cb)) s"
| "invokeReadyCallback_step weak (I_call cb) s =
     (Scheduling T_check, case cb of None \<Rightarrow> s | Some k \<Rightarrow> s\<lparr> ready_log := ready_log s @ [k] \<rparr>)"

text \<open>
  \<open>tryScheduleContinuation\<close>: \<open>ret\<close> is what the calling member function returns, \<open>current\<close> is
  \<open>Executor::getCurrent()\<close> of the thread.
\<close>

definition scheduled :: "u32 \<Rightarrow> bool" where
  "scheduled flags \<longleftrightarrow> flags AND TaskFlag_ContinuationScheduled = TaskFlag_ContinuationScheduled"

fun tryScheduleContinuation_step ::
    "bool \<Rightarrow> nat option \<Rightarrow> bool option \<Rightarrow> schedule_pc \<Rightarrow> CoreTask \<Rightarrow> pc \<times> CoreTask" where
  "tryScheduleContinuation_step weak current ret T_check s =
     (if \<not> hasFlags (m_flags s) (TaskFlag_Ready OR TaskFlag_HasContinuation)
      then Returned ret else Scheduling T_load, s)"
| "tryScheduleContinuation_step weak current ret T_load s =
     (if scheduled (m_flags s) then Returned ret else Scheduling (T_cas (m_flags s)), s)"
| "tryScheduleContinuation_step weak current ret (T_cas v) s =
     (if m_flags s = v \<and> \<not> weak
      then (Scheduling T_take, s\<lparr> m_flags := v OR TaskFlag_ContinuationScheduled \<rparr>)
      else (if scheduled (m_flags s) then Returned ret else Scheduling (T_cas (m_flags s)), s))"
| "tryScheduleContinuation_step weak current ret T_take s =
     (Scheduling (T_route (m_continuation s)),
      asserting (invocation (m_continuation s) \<noteq> None) (s\<lparr> m_continuation := null_continuation \<rparr>))"
| "tryScheduleContinuation_step weak current ret (T_route c) s =
     (let exec = (if executor c \<noteq> None then executor c else current)
      in (Scheduling (T_invoke c (if exec \<noteq> None \<and> m_isContinueOnCapturedExecutor s then exec else None)), s))"
| "tryScheduleContinuation_step weak current ret (T_invoke c e) s =
     (Returned ret,
      case invocation c of None \<Rightarrow> s | Some k \<Rightarrow> s\<lparr> cont_log := cont_log s @ [(k, e)] \<rparr>)"

fun setContinuation_step :: "bool \<Rightarrow> TaskContinuation \<Rightarrow> continuation_pc \<Rightarrow> CoreTask \<Rightarrow> pc \<times> CoreTask" where
  "setContinuation_step weak c S_store s =
     (Continuing S_captured,
      asserting (invocation (m_continuation s) = None \<and> invocation c \<noteq> None) (s\<lparr> m_continuation := c \<rparr>))"
| "setContinuation_step weak c S_captured s =
     (Continuing (if m_isContinueOnCapturedExecutor s then S_flag Load else S_clear), s)"
| "setContinuation_step weak c S_clear s =
     (Continuing (S_flag Load), s\<lparr> m_continuation := (m_continuation s)\<lparr> executor := None \<rparr> \<rparr>)"
| "setContinuation_step weak c (S_flag q) s =
     flag_loop (setFlagsOnce_step TaskFlag_HasContinuation weak q (m_flags s)) (Continuing \<circ> S_flag)
       (Scheduling T_check) (asserting (setFlagsOnce_assert TaskFlag_HasContinuation q) s)"

fun setReadyCallback_step :: "bool \<Rightarrow> nat option \<Rightarrow> callback_pc \<Rightarrow> CoreTask \<Rightarrow> pc \<times> CoreTask" where
  "setReadyCallback_step weak cb (C_lock q) s =
     flag_loop (lock_step TaskFlag_ReadyCallbackLocked q (m_flags s)) (Calling \<circ> C_lock) (Calling C_test) s"
| "setReadyCallback_step weak cb C_test s =
     (Calling (if isReady s then C_unlock cb Load else C_store), s)"
| "setReadyCallback_step weak cb C_store s =
     (Calling (C_unlock None Load), s\<lparr> m_readyCallback := cb \<rparr>)"
| "setReadyCallback_step weak cb (C_unlock now q) s =
     flag_loop (unsetFlags_step TaskFlag_ReadyCallbackLocked weak q (m_flags s)) (Calling \<circ> C_unlock now)
       (Calling (C_call now)) s"
| "setReadyCallback_step weak cb (C_call now) s =
     (Returned None, case now of None \<Rightarrow> s | Some k \<Rightarrow> s\<lparr> ready_log := ready_log s @ [k] \<rparr>)"

definition setContinueOnCapturedExecutor :: "bool \<Rightarrow> CoreTask \<Rightarrow> CoreTask" where
  "setContinueOnCapturedExecutor b s =
     asserting (\<not> hasFlags (m_flags s) (TaskFlag_HasContinuation OR TaskFlag_ContinuationScheduled))
       s\<lparr> m_isContinueOnCapturedExecutor := b \<rparr>"

section \<open>Threads\<close>

record thread =
  call :: call
  current :: "nat option"
  pc :: pc

text \<open>The first point of each call, and the value it returns from \<open>tryScheduleContinuation\<close>.\<close>

fun enter :: "call \<Rightarrow> pc" where
  "enter (Resolve r) = Resolving (R_lock Load)"
| "enter (SetContinuation c) = Continuing S_store"
| "enter (SetReadyCallback cb) = Calling (C_lock Load)"
| "enter (SetContinueOnCaptured b) = Capturing"

fun result_of :: "call \<Rightarrow> bool option" where
  "result_of (Resolve r) = Some True"
| "result_of c = None"

fun call_step :: "bool \<Rightarrow> call \<Rightarrow> nat option \<Rightarrow> pc \<Rightarrow> CoreTask \<Rightarrow> pc \<times> CoreTask" where
  "call_step weak (Resolve r) cur (Resolving p) s = resolve_step weak r p s"
| "call_step weak (Resolve r) cur (Invoking p) s = invokeReadyCallback_step weak p s"
| "call_step weak (Resolve r) cur (Scheduling p) s = tryScheduleContinuation_step weak cur (Some True) p s"
| "call_step weak (SetContinuation c) cur (Continuing p) s = setContinuation_step weak c p s"
| "call_step weak (SetContinuation c) cur (Scheduling p) s = tryScheduleContinuation_step weak cur None p s"
| "call_step weak (SetReadyCallback cb) cur (Calling p) s = setReadyCallback_step weak cb p s"
| "call_step weak (SetContinueOnCaptured b) cur Capturing s =
     (Returned None, setContinueOnCapturedExecutor b s)"
| "call_step weak c cur p s = (p, s)"

type_synonym config = "CoreTask \<times> thread list"

definition thread_step :: "bool \<Rightarrow> nat \<Rightarrow> config \<Rightarrow> config" where
  "thread_step weak i c =
     (let t = snd c ! i; r = call_step weak (call t) (current t) (pc t) (fst c)
      in (snd r, (snd c)[i := t\<lparr> pc := fst r \<rparr>]))"

definition start :: "bool \<Rightarrow> (call \<times> nat option) list \<Rightarrow> config" where
  "start captured calls =
     (new_task captured, map (\<lambda>(c, e). \<lparr> call = c, current = e, pc = enter c \<rparr>) calls)"

inductive step :: "config \<Rightarrow> config \<Rightarrow> bool" where
  thread: "i < length (snd c) \<Longrightarrow> step c (thread_step weak i c)"

inductive reachable :: "bool \<Rightarrow> (call \<times> nat option) list \<Rightarrow> config \<Rightarrow> bool"
  for captured :: bool and calls :: "(call \<times> nat option) list" where
  init: "reachable captured calls (start captured calls)"
| more: "reachable captured calls c \<Longrightarrow> step c c' \<Longrightarrow> reachable captured calls c'"

inductive_cases stepE: "step c c'"

text \<open>A schedule names the threads that move, with the spurious failures of their compare-and-swaps.\<close>

fun run_schedule :: "(nat \<times> bool) list \<Rightarrow> config \<Rightarrow> config" where
  "run_schedule [] c = c"
| "run_schedule ((i, weak) # sch) c =
     run_schedule sch (if i < length (snd c) then thread_step weak i c else c)"

definition finished :: "config \<Rightarrow> bool" where
  "finished c \<longleftrightarrow> (\<forall>t\<in>set (snd c). \<exists>r. pc t = Returned r)"

end
