(* ===== verification/CoreTaskSafety.thy ===== *)
theory CoreTaskSafety
  imports CoreTask
begin

text \<open>
  The invariant of the task under every interleaving and its consequences.  The invariant counts the threads
  in each region of the code and ties the counts to the flag word and the members; a step moves one thread,
  so that every count changes by the difference of that thread.
\<close>

named_theorems flag_simps \<open>the flag word, bit by bit\<close>
named_theorems region_simps \<open>the regions of the code a thread is counted in\<close>

section \<open>The flag word\<close>

lemma bit_flag:
  "bit TaskFlag_Ready n \<longleftrightarrow> n = 0" "bit TaskFlag_HasContinuation n \<longleftrightarrow> n = 2"
  "bit TaskFlag_ContinuationScheduled n \<longleftrightarrow> n = 3" "bit TaskFlag_ResolveLocked n \<longleftrightarrow> n = 5"
  "bit TaskFlag_ReadyCallbackLocked n \<longleftrightarrow> n = 6"
  unfolding TaskFlag_Ready_def TaskFlag_HasContinuation_def TaskFlag_ContinuationScheduled_def
    TaskFlag_ResolveLocked_def TaskFlag_ReadyCallbackLocked_def
  by (auto simp: bit_push_bit_iff bit_1_iff simp del: push_bit_of_1 push_bit_numeral)

lemma word_and_eq: "(v :: u32) AND f = f \<longleftrightarrow> (\<forall>n. bit f n \<longrightarrow> bit v n)"
  unfolding bit_eq_iff bit_and_iff by (meson bit_imp_possible_bit)

lemma word_and_zero: "(v :: u32) AND f = 0 \<longleftrightarrow> (\<forall>n. bit f n \<longrightarrow> \<not> bit v n)"
proof -
  have "\<And>n. \<not> bit (0 :: u32) n" by simp
  then have "v AND f = 0 \<longleftrightarrow> (\<forall>n. \<not> bit (v AND f) n)" by (metis bit_eqI)
  then show ?thesis by (auto simp: bit_and_iff)
qed

lemma bit_set [flag_simps]:
  "bit (v OR TaskFlag_Ready) n \<longleftrightarrow> bit v n \<or> n = 0"
  "bit (v OR TaskFlag_HasContinuation) n \<longleftrightarrow> bit v n \<or> n = 2"
  "bit (v OR TaskFlag_ContinuationScheduled) n \<longleftrightarrow> bit v n \<or> n = 3"
  "bit (v OR TaskFlag_ResolveLocked) n \<longleftrightarrow> bit v n \<or> n = 5"
  "bit (v OR TaskFlag_ReadyCallbackLocked) n \<longleftrightarrow> bit v n \<or> n = 6"
  by (simp_all add: bit_or_iff bit_flag)

lemma bit_clear [flag_simps]:
  "bit (v AND NOT TaskFlag_ResolveLocked) n \<longleftrightarrow> bit v n \<and> n \<noteq> 5"
  "bit (v AND NOT TaskFlag_ReadyCallbackLocked) n \<longleftrightarrow> bit v n \<and> n \<noteq> 6"
  by (auto simp: bit_and_iff bit_not_iff bit_flag dest: bit_imp_le_length)

lemma clear_flag [flag_simps]:
  "v AND TaskFlag_Ready = 0 \<longleftrightarrow> \<not> bit v 0"
  "v AND TaskFlag_HasContinuation = 0 \<longleftrightarrow> \<not> bit v 2"
  "v AND TaskFlag_ResolveLocked = 0 \<longleftrightarrow> \<not> bit v 5"
  "v AND TaskFlag_ReadyCallbackLocked = 0 \<longleftrightarrow> \<not> bit v 6"
  by (simp_all add: word_and_zero bit_flag)

lemma scheduled_bit [flag_simps]: "scheduled v \<longleftrightarrow> bit v 3"
  by (simp add: scheduled_def word_and_eq bit_flag)

lemma isReady_bit [flag_simps]: "isReady s \<longleftrightarrow> bit (m_flags s) 0"
  by (simp add: isReady_def hasFlags_def word_and_eq bit_flag)

lemma hasContinuation_bit [flag_simps]: "hasContinuation s \<longleftrightarrow> bit (m_flags s) 2"
  by (simp add: hasContinuation_def hasFlags_def word_and_eq bit_flag)

lemma hasFlags_both [flag_simps]:
  "hasFlags v (TaskFlag_Ready OR TaskFlag_HasContinuation) \<longleftrightarrow> bit v 0 \<and> bit v 2"
  "hasFlags v (TaskFlag_HasContinuation OR TaskFlag_ContinuationScheduled) \<longleftrightarrow> bit v 2 \<and> bit v 3"
  by (auto simp: hasFlags_def word_and_eq bit_or_iff bit_flag)

text \<open>The loops over the flag word, as the two things a step can do.\<close>

lemma lock_step_cases:
  "(\<exists>q'. lock_step f q bits = (Some q', bits) \<and> (q' = Load \<or> q' = Cas bits \<and> bits AND f = 0)) \<or>
   q = Cas bits \<and> lock_step f q bits = (None, bits OR f)"
  by (cases q) auto

lemma setFlagsOnce_step_cases:
  "setFlagsOnce_step f weak q bits = (Some (Cas bits), bits) \<or>
   q = Cas bits \<and> setFlagsOnce_step f weak q bits = (None, bits OR f)"
  by (cases q) auto

lemma unsetFlags_step_cases:
  "unsetFlags_step f weak q bits = (Some (Cas bits), bits) \<or>
   q = Cas bits \<and> unsetFlags_step f weak q bits = (None, bits AND NOT f)"
  by (cases q) auto

section \<open>Counting threads\<close>

definition cnt :: "(call \<Rightarrow> pc \<Rightarrow> bool) \<Rightarrow> thread list \<Rightarrow> nat" where
  "cnt P ts = length (filter (\<lambda>t. P (call t) (pc t)) ts)"

lemma cnt_move:
  assumes "i < length ts"
  shows "cnt P (ts[i := (ts ! i)\<lparr> pc := p \<rparr>]) + of_bool (P (call (ts ! i)) (pc (ts ! i))) =
    cnt P ts + of_bool (P (call (ts ! i)) p)"
  using assms
proof (induction ts arbitrary: i)
  case (Cons t ts)
  then show ?case by (cases i) (auto simp: cnt_def)
qed simp

lemma cnt_pos: "i < length ts \<Longrightarrow> P (call (ts ! i)) (pc (ts ! i)) \<Longrightarrow> 0 < cnt P ts"
  unfolding cnt_def by (auto simp: filter_empty_conv intro!: nth_mem)

lemma cnt_zero: "cnt P ts = 0 \<longleftrightarrow> (\<forall>t\<in>set ts. \<not> P (call t) (pc t))"
  by (simp add: cnt_def filter_empty_conv)

lemma cnt_le: "(\<And>c p. P c p \<Longrightarrow> Q c p) \<Longrightarrow> cnt P ts \<le> cnt Q ts"
  unfolding cnt_def by (induction ts) auto

lemma cnt_le_on: "(\<And>t. t \<in> set ts \<Longrightarrow> P (call t) (pc t) \<Longrightarrow> Q (call t) (pc t)) \<Longrightarrow> cnt P ts \<le> cnt Q ts"
  unfolding cnt_def by (induction ts) auto

lemma cnt_add_le:
  "(\<And>c p. P c p \<Longrightarrow> R c p) \<Longrightarrow> (\<And>c p. Q c p \<Longrightarrow> R c p \<and> \<not> P c p) \<Longrightarrow> cnt P ts + cnt Q ts \<le> cnt R ts"
  unfolding cnt_def by (induction ts) auto

lemma cnt_cong: "(\<And>t. t \<in> set ts \<Longrightarrow> P (call t) (pc t) = Q (call t) (pc t)) \<Longrightarrow> cnt P ts = cnt Q ts"
  unfolding cnt_def by (metis (mono_tags, lifting) filter_cong)

section \<open>Regions\<close>

definition is_resolver :: "call \<Rightarrow> pc \<Rightarrow> bool" where
  "is_resolver c p \<longleftrightarrow> (case c of Resolve r \<Rightarrow> True | _ \<Rightarrow> False)"

definition is_setter :: "call \<Rightarrow> pc \<Rightarrow> bool" where
  "is_setter c p \<longleftrightarrow> (case c of SetContinuation k \<Rightarrow> True | _ \<Rightarrow> False)"

definition is_callback :: "nat \<Rightarrow> call \<Rightarrow> pc \<Rightarrow> bool" where
  "is_callback k c p \<longleftrightarrow> c = SetReadyCallback (Some k)"

definition holds_resolve :: "call \<Rightarrow> pc \<Rightarrow> bool" where
  "holds_resolve c p \<longleftrightarrow> (case p of Resolving (R_lock q) \<Rightarrow> False | Resolving _ \<Rightarrow> True | _ \<Rightarrow> False)"

definition holds_ready :: "call \<Rightarrow> pc \<Rightarrow> bool" where
  "holds_ready c p \<longleftrightarrow>
     (case p of Invoking I_take \<Rightarrow> True | Invoking (I_unlock cb q) \<Rightarrow> True
      | Calling C_test \<Rightarrow> True | Calling C_store \<Rightarrow> True | Calling (C_unlock cb q) \<Rightarrow> True | _ \<Rightarrow> False)"

text \<open>About to run the resolver, about to set the flag, and past setting it (with result true).\<close>

definition at_call :: "call \<Rightarrow> pc \<Rightarrow> bool" where
  "at_call c p \<longleftrightarrow> p = Resolving R_call"

definition at_set :: "call \<Rightarrow> pc \<Rightarrow> bool" where
  "at_set c p \<longleftrightarrow> (case p of Resolving (R_set q) \<Rightarrow> True | _ \<Rightarrow> False)"

definition winner :: "call \<Rightarrow> pc \<Rightarrow> bool" where
  "winner c p \<longleftrightarrow>
     (case p of Resolving (R_unlock b q) \<Rightarrow> b | Invoking _ \<Rightarrow> True | Scheduling _ \<Rightarrow> is_resolver c p
      | Returned r \<Rightarrow> r = Some True | _ \<Rightarrow> False)"

definition beaten :: "call \<Rightarrow> pc \<Rightarrow> bool" where
  "beaten c p \<longleftrightarrow> (case p of Resolving (R_unlock b q) \<Rightarrow> \<not> b | Returned r \<Rightarrow> r = Some False | _ \<Rightarrow> False)"

text \<open>The continuation is stored, its flag is set, and the regions of \<open>tryScheduleContinuation\<close>.\<close>

definition flagged :: "call \<Rightarrow> pc \<Rightarrow> bool" where
  "flagged c p \<longleftrightarrow> is_setter c p \<and> (case p of Scheduling _ \<Rightarrow> True | Returned _ \<Rightarrow> True | _ \<Rightarrow> False)"

definition stored :: "call \<Rightarrow> pc \<Rightarrow> bool" where
  "stored c p \<longleftrightarrow> is_setter c p \<and> p \<noteq> Continuing S_store"

definition checked :: "call \<Rightarrow> pc \<Rightarrow> bool" where
  "checked c p \<longleftrightarrow> (case p of Scheduling T_load \<Rightarrow> True | Scheduling (T_cas v) \<Rightarrow> True | _ \<Rightarrow> False)"

definition at_take :: "call \<Rightarrow> pc \<Rightarrow> bool" where
  "at_take c p \<longleftrightarrow> p = Scheduling T_take"

definition taken :: "call \<Rightarrow> pc \<Rightarrow> bool" where
  "taken c p \<longleftrightarrow> (case p of Scheduling (T_route k) \<Rightarrow> True | Scheduling (T_invoke k e) \<Rightarrow> True | _ \<Rightarrow> False)"

text \<open>Threads that will still look at the flags to schedule the continuation.\<close>

definition pending :: "call \<Rightarrow> pc \<Rightarrow> bool" where
  "pending c p \<longleftrightarrow>
     (case p of Resolving (R_unlock b q) \<Rightarrow> b | Invoking _ \<Rightarrow> True
      | Scheduling T_check \<Rightarrow> True | Scheduling T_load \<Rightarrow> True | Scheduling (T_cas v) \<Rightarrow> True | _ \<Rightarrow> False)"

text \<open>The ready callback: its owner has yet to store it, a thread has it in hand, the winner will take it.\<close>

definition offering :: "nat \<Rightarrow> call \<Rightarrow> pc \<Rightarrow> bool" where
  "offering k c p \<longleftrightarrow> c = SetReadyCallback (Some k) \<and>
     (case p of Calling (C_lock q) \<Rightarrow> True | Calling C_test \<Rightarrow> True | Calling C_store \<Rightarrow> True | _ \<Rightarrow> False)"

definition at_store :: "call \<Rightarrow> pc \<Rightarrow> bool" where
  "at_store c p \<longleftrightarrow> p = Calling C_store"

definition in_hand :: "nat \<Rightarrow> call \<Rightarrow> pc \<Rightarrow> bool" where
  "in_hand k c p \<longleftrightarrow>
     (case p of Invoking (I_unlock cb q) \<Rightarrow> cb = Some k | Invoking (I_call cb) \<Rightarrow> cb = Some k
      | Calling (C_unlock cb q) \<Rightarrow> cb = Some k | Calling (C_call cb) \<Rightarrow> cb = Some k | _ \<Rightarrow> False)"

definition will_take :: "call \<Rightarrow> pc \<Rightarrow> bool" where
  "will_take c p \<longleftrightarrow>
     (case p of Resolving (R_unlock b q) \<Rightarrow> b | Invoking (I_lock q) \<Rightarrow> True | Invoking I_take \<Rightarrow> True | _ \<Rightarrow> False)"

lemmas region_defs = is_resolver_def is_setter_def is_callback_def holds_resolve_def holds_ready_def
  at_call_def at_set_def winner_def flagged_def stored_def checked_def at_take_def taken_def pending_def
  offering_def at_store_def in_hand_def will_take_def beaten_def

text \<open>Each call is at a point of its own code, and a pending compare-and-swap never carries its flag.\<close>

fun without :: "flag_pc \<Rightarrow> nat \<Rightarrow> bool" where
  "without Load n \<longleftrightarrow> True"
| "without (Cas v) n \<longleftrightarrow> \<not> bit v n"

fun wf :: "call \<Rightarrow> pc \<Rightarrow> bool" where
  "wf (Resolve r) (Resolving p) \<longleftrightarrow>
     (case p of R_lock q \<Rightarrow> without q 5 | R_set q \<Rightarrow> without q 0 | _ \<Rightarrow> True)"
| "wf (Resolve r) (Invoking p) \<longleftrightarrow> (case p of I_lock q \<Rightarrow> without q 6 | _ \<Rightarrow> True)"
| "wf (Resolve r) (Scheduling p) \<longleftrightarrow> (case p of T_cas v \<Rightarrow> \<not> bit v 3 | _ \<Rightarrow> True)"
| "wf (Resolve r) (Returned b) \<longleftrightarrow> b \<noteq> None"
| "wf (SetContinuation c) (Continuing p) \<longleftrightarrow> (case p of S_flag q \<Rightarrow> without q 2 | _ \<Rightarrow> True)"
| "wf (SetContinuation c) (Scheduling p) \<longleftrightarrow> (case p of T_cas v \<Rightarrow> \<not> bit v 3 | _ \<Rightarrow> True)"
| "wf (SetContinuation c) (Returned b) \<longleftrightarrow> b = None"
| "wf (SetReadyCallback cb) (Calling p) \<longleftrightarrow> (case p of C_lock q \<Rightarrow> without q 6 | _ \<Rightarrow> True)"
| "wf (SetReadyCallback cb) (Returned b) \<longleftrightarrow> b = None"
| "wf (SetContinueOnCaptured b) Capturing \<longleftrightarrow> True"
| "wf (SetContinueOnCaptured b) (Returned r) \<longleftrightarrow> r = None"
| "wf c p \<longleftrightarrow> False"

section \<open>What a step does\<close>

text \<open>
  The steps of one thread with the flag loops summarised: a round that does not leave its loop changes
  nothing but the value the thread carries (\<open>erase\<close> forgets it).
\<close>

fun erase :: "pc \<Rightarrow> pc" where
  "erase (Resolving (R_lock q)) = Resolving (R_lock Load)"
| "erase (Resolving (R_set q)) = Resolving (R_set Load)"
| "erase (Resolving (R_unlock b q)) = Resolving (R_unlock b Load)"
| "erase (Invoking (I_lock q)) = Invoking (I_lock Load)"
| "erase (Invoking (I_unlock cb q)) = Invoking (I_unlock cb Load)"
| "erase (Scheduling (T_cas v)) = Scheduling T_load"
| "erase (Continuing (S_flag q)) = Continuing (S_flag Load)"
| "erase (Calling (C_lock q)) = Calling (C_lock Load)"
| "erase (Calling (C_unlock cb q)) = Calling (C_unlock cb Load)"
| "erase p = p"

inductive move :: "call \<Rightarrow> nat option \<Rightarrow> pc \<Rightarrow> CoreTask \<Rightarrow> pc \<Rightarrow> CoreTask \<Rightarrow> bool" where
  stay: "erase p' = erase p \<Longrightarrow> move c e p s p' s"
| resolve_lock: "\<not> bit (m_flags s) 5 \<Longrightarrow>
    move (Resolve r) e (Resolving (R_lock q)) s (Resolving R_test)
      (s\<lparr> m_flags := m_flags s OR TaskFlag_ResolveLocked \<rparr>)"
| resolve_late: "bit (m_flags s) 0 \<Longrightarrow>
    move (Resolve r) e (Resolving R_test) s (Resolving (R_unlock False Load)) s"
| resolve_first: "\<not> bit (m_flags s) 0 \<Longrightarrow> move (Resolve r) e (Resolving R_test) s (Resolving R_call) s"
| resolve_call: "move (Resolve r) e (Resolving R_call) s (Resolving (R_set Load))
      (s\<lparr> m_error := rejector_error r (m_error s), resolved := resolved s @ [r] \<rparr>)"
| resolve_set: "move (Resolve r) e (Resolving (R_set q)) s (Resolving (R_unlock True Load))
      (s\<lparr> m_flags := m_flags s OR TaskFlag_Ready \<rparr>)"
| resolve_unlock: "move (Resolve r) e (Resolving (R_unlock b q)) s
      (if b then Invoking (I_lock Load) else Returned (Some False))
      (s\<lparr> m_flags := m_flags s AND NOT TaskFlag_ResolveLocked \<rparr>)"
| invoke_lock: "\<not> bit (m_flags s) 6 \<Longrightarrow>
    move (Resolve r) e (Invoking (I_lock q)) s (Invoking I_take)
      (s\<lparr> m_flags := m_flags s OR TaskFlag_ReadyCallbackLocked \<rparr>)"
| invoke_take: "move (Resolve r) e (Invoking I_take) s (Invoking (I_unlock (m_readyCallback s) Load))
      (s\<lparr> m_readyCallback := None \<rparr>)"
| invoke_unlock: "move (Resolve r) e (Invoking (I_unlock cb q)) s (Invoking (I_call cb))
      (s\<lparr> m_flags := m_flags s AND NOT TaskFlag_ReadyCallbackLocked \<rparr>)"
| invoke_none: "move (Resolve r) e (Invoking (I_call None)) s (Scheduling T_check) s"
| invoke_call: "move (Resolve r) e (Invoking (I_call (Some k))) s (Scheduling T_check)
      (s\<lparr> ready_log := ready_log s @ [k] \<rparr>)"
| check_not: "is_resolver c p \<or> is_setter c p \<Longrightarrow> \<not> (bit (m_flags s) 0 \<and> bit (m_flags s) 2) \<Longrightarrow>
    move c e (Scheduling T_check) s (Returned (result_of c)) s"
| check: "is_resolver c p \<or> is_setter c p \<Longrightarrow> bit (m_flags s) 0 \<Longrightarrow> bit (m_flags s) 2 \<Longrightarrow>
    move c e (Scheduling T_check) s (Scheduling T_load) s"
| late: "is_resolver c p \<or> is_setter c p \<Longrightarrow> bit (m_flags s) 3 \<Longrightarrow>
    p' = Scheduling T_load \<or> p' = Scheduling (T_cas v) \<Longrightarrow> move c e p' s (Returned (result_of c)) s"
| first: "is_resolver c p \<or> is_setter c p \<Longrightarrow> \<not> bit (m_flags s) 3 \<Longrightarrow>
    move c e (Scheduling (T_cas v)) s (Scheduling T_take)
      (s\<lparr> m_flags := m_flags s OR TaskFlag_ContinuationScheduled \<rparr>)"
| take: "is_resolver c p \<or> is_setter c p \<Longrightarrow>
    move c e (Scheduling T_take) s (Scheduling (T_route (m_continuation s)))
      (asserting (invocation (m_continuation s) \<noteq> None) (s\<lparr> m_continuation := null_continuation \<rparr>))"
| route: "is_resolver c p \<or> is_setter c p \<Longrightarrow>
    move c e (Scheduling (T_route k)) s (Scheduling (T_invoke k
      (if m_isContinueOnCapturedExecutor s then (if executor k \<noteq> None then executor k else e) else None))) s"
| invoke: "is_resolver c p \<or> is_setter c p \<Longrightarrow>
    move c e (Scheduling (T_invoke k x)) s (Returned (result_of c))
      (case invocation k of None \<Rightarrow> s | Some n \<Rightarrow> s\<lparr> cont_log := cont_log s @ [(n, x)] \<rparr>)"
| store: "move (SetContinuation k) e (Continuing S_store) s (Continuing S_captured)
      (asserting (invocation (m_continuation s) = None \<and> invocation k \<noteq> None) (s\<lparr> m_continuation := k \<rparr>))"
| captured: "m_isContinueOnCapturedExecutor s \<Longrightarrow>
    move (SetContinuation k) e (Continuing S_captured) s (Continuing (S_flag Load)) s"
| released: "\<not> m_isContinueOnCapturedExecutor s \<Longrightarrow>
    move (SetContinuation k) e (Continuing S_captured) s (Continuing S_clear) s"
| clear: "move (SetContinuation k) e (Continuing S_clear) s (Continuing (S_flag Load))
      (s\<lparr> m_continuation := (m_continuation s)\<lparr> executor := None \<rparr> \<rparr>)"
| flag: "move (SetContinuation k) e (Continuing (S_flag q)) s (Scheduling T_check)
      (s\<lparr> m_flags := m_flags s OR TaskFlag_HasContinuation \<rparr>)"
| callback_lock: "\<not> bit (m_flags s) 6 \<Longrightarrow>
    move (SetReadyCallback cb) e (Calling (C_lock q)) s (Calling C_test)
      (s\<lparr> m_flags := m_flags s OR TaskFlag_ReadyCallbackLocked \<rparr>)"
| callback_now: "bit (m_flags s) 0 \<Longrightarrow>
    move (SetReadyCallback cb) e (Calling C_test) s (Calling (C_unlock cb Load)) s"
| callback_later: "\<not> bit (m_flags s) 0 \<Longrightarrow>
    move (SetReadyCallback cb) e (Calling C_test) s (Calling C_store) s"
| callback_store: "move (SetReadyCallback cb) e (Calling C_store) s (Calling (C_unlock None Load))
      (s\<lparr> m_readyCallback := cb \<rparr>)"
| callback_unlock: "move (SetReadyCallback cb) e (Calling (C_unlock k q)) s (Calling (C_call k))
      (s\<lparr> m_flags := m_flags s AND NOT TaskFlag_ReadyCallbackLocked \<rparr>)"
| callback_none: "move (SetReadyCallback cb) e (Calling (C_call None)) s (Returned None) s"
| callback_call: "move (SetReadyCallback cb) e (Calling (C_call (Some k))) s (Returned None)
      (s\<lparr> ready_log := ready_log s @ [k] \<rparr>)"
| capture: "move (SetContinueOnCaptured b) e Capturing s (Returned None) (setContinueOnCapturedExecutor b s)"

lemma same_flags [simp]: "s\<lparr> m_flags := m_flags s \<rparr> = s"
  by (cases s) simp

lemma asserting_True [simp]: "asserting True s = s"
  by (cases s) (simp add: asserting_def)

lemma without_set: "without q 0 \<Longrightarrow> setFlagsOnce_assert TaskFlag_Ready q"
  and without_continuation: "without q 2 \<Longrightarrow> setFlagsOnce_assert TaskFlag_HasContinuation q"
  by (cases q; simp add: flag_simps)+

lemma resolve_move:
  assumes "wf (Resolve r) (Resolving p)"
  shows "move (Resolve r) e (Resolving p) s (fst (resolve_step weak r p s)) (snd (resolve_step weak r p s))"
proof (cases p)
  case (R_lock q)
  then show ?thesis using assms lock_step_cases [of TaskFlag_ResolveLocked q "m_flags s"]
    by (auto simp: flag_loop_def intro!: move.stay move.resolve_lock)
next
  case R_test
  then show ?thesis by (auto simp: flag_simps intro!: move.resolve_late move.resolve_first)
next
  case R_call
  then show ?thesis by (auto intro!: move.resolve_call)
next
  case (R_set q)
  then show ?thesis using assms setFlagsOnce_step_cases [of TaskFlag_Ready weak q "m_flags s"]
    by (auto simp: flag_loop_def without_set intro!: move.stay move.resolve_set)
next
  case (R_unlock b q)
  then show ?thesis using unsetFlags_step_cases [of TaskFlag_ResolveLocked weak q "m_flags s"]
      move.resolve_unlock [of r e b q s]
    by (auto simp: flag_loop_def intro!: move.stay)
qed

lemma invoke_move:
  assumes "wf (Resolve r) (Invoking p)"
  shows "move (Resolve r) e (Invoking p) s
    (fst (invokeReadyCallback_step weak p s)) (snd (invokeReadyCallback_step weak p s))"
proof (cases p)
  case (I_lock q)
  then show ?thesis using assms lock_step_cases [of TaskFlag_ReadyCallbackLocked q "m_flags s"]
    by (auto simp: flag_loop_def intro!: move.stay move.invoke_lock)
next
  case I_take
  then show ?thesis by (auto intro!: move.invoke_take)
next
  case (I_unlock cb q)
  then show ?thesis using unsetFlags_step_cases [of TaskFlag_ReadyCallbackLocked weak q "m_flags s"]
    by (auto simp: flag_loop_def intro!: move.stay move.invoke_unlock)
next
  case (I_call cb)
  then show ?thesis by (cases cb) (auto intro!: move.invoke_none move.invoke_call)
qed

lemma schedule_move:
  assumes "wf c (Scheduling p)"
  shows "move c e (Scheduling p) s
    (fst (tryScheduleContinuation_step weak e (result_of c) p s))
    (snd (tryScheduleContinuation_step weak e (result_of c) p s))"
proof -
  have c: "is_resolver c (Scheduling p) \<or> is_setter c (Scheduling p)"
    using assms by (cases c) (auto simp: is_resolver_def is_setter_def)
  have v: "\<not> bit v 3" if "p = T_cas v" for v
    using assms that by (cases c) auto
  show ?thesis
  proof (cases p)
    case T_check
    then show ?thesis by (auto simp: flag_simps intro!: move.check_not [OF c] move.check [OF c])
  next
    case T_load
    then show ?thesis
      by (cases "bit (m_flags s) 3") (auto simp: flag_simps intro: move.late [OF c] move.stay)
  next
    case (T_cas v)
    then show ?thesis using v [OF T_cas]
      by (cases "bit (m_flags s) 3")
        (auto simp: flag_simps move.stay intro: move.late [OF c] move.first [OF c])
  next
    case T_take
    then show ?thesis using move.take [OF c, of e s] by simp
  next
    case (T_route k)
    then show ?thesis using move.route [OF c, of e k s]
      by (cases "m_isContinueOnCapturedExecutor s") (auto simp: Let_def)
  next
    case (T_invoke k x)
    then show ?thesis using move.invoke [OF c, of e k x s] by auto
  qed
qed

lemma continuation_move:
  assumes "wf (SetContinuation k) (Continuing p)"
  shows "move (SetContinuation k) e (Continuing p) s
    (fst (setContinuation_step weak k p s)) (snd (setContinuation_step weak k p s))"
proof (cases p)
  case (S_flag q)
  then show ?thesis using assms setFlagsOnce_step_cases [of TaskFlag_HasContinuation weak q "m_flags s"]
    by (auto simp: flag_loop_def without_continuation intro!: move.stay move.flag)
next
  case S_store
  then show ?thesis using move.store [of k e s] by simp
qed (auto intro!: move.captured move.released move.clear)

lemma callback_move:
  assumes "wf (SetReadyCallback cb) (Calling p)"
  shows "move (SetReadyCallback cb) e (Calling p) s
    (fst (setReadyCallback_step weak cb p s)) (snd (setReadyCallback_step weak cb p s))"
proof (cases p)
  case (C_lock q)
  then show ?thesis using assms lock_step_cases [of TaskFlag_ReadyCallbackLocked q "m_flags s"]
    by (auto simp: flag_loop_def intro!: move.stay move.callback_lock)
next
  case C_test
  then show ?thesis by (auto simp: flag_simps intro!: move.callback_now move.callback_later)
next
  case C_store
  then show ?thesis by (auto intro!: move.callback_store)
next
  case (C_unlock k q)
  then show ?thesis using unsetFlags_step_cases [of TaskFlag_ReadyCallbackLocked weak q "m_flags s"]
    by (auto simp: flag_loop_def intro!: move.stay move.callback_unlock)
next
  case (C_call k)
  then show ?thesis by (cases k) (auto intro!: move.callback_none move.callback_call)
qed

lemma call_move:
  assumes "wf c p"
  shows "move c e p s (fst (call_step weak c e p s)) (snd (call_step weak c e p s))"
  using assms
proof (cases "(weak, c, e, p, s)" rule: call_step.cases)
  case (3 weak r cur p s)
  then show ?thesis using assms schedule_move [of c p cur s weak] by simp
next
  case (5 weak k cur p s)
  then show ?thesis using assms schedule_move [of c p cur s weak] by simp
qed (use assms in \<open>auto intro!: move.stay resolve_move invoke_move continuation_move callback_move move.capture\<close>)

section \<open>The invariant\<close>

definition outcome :: "resolver list \<Rightarrow> nat option" where
  "outcome rs = (case rs of [] \<Rightarrow> None | r # _ \<Rightarrow> rejector_error r None)"

definition inv_locks :: "config \<Rightarrow> bool" where
  "inv_locks c \<longleftrightarrow>
     cnt holds_resolve (snd c) = of_bool (bit (m_flags (fst c)) 5) \<and>
     cnt holds_ready (snd c) = of_bool (bit (m_flags (fst c)) 6)"

definition inv_ready :: "config \<Rightarrow> bool" where
  "inv_ready c \<longleftrightarrow>
     cnt winner (snd c) = of_bool (bit (m_flags (fst c)) 0) \<and>
     (bit (m_flags (fst c)) 0 \<longrightarrow> cnt at_call (snd c) + cnt at_set (snd c) = 0) \<and>
     (0 < cnt beaten (snd c) \<longrightarrow> bit (m_flags (fst c)) 0) \<and>
     length (resolved (fst c)) = cnt at_set (snd c) + cnt winner (snd c) \<and>
     m_error (fst c) = outcome (resolved (fst c))"

definition inv_scheduled :: "config \<Rightarrow> bool" where
  "inv_scheduled c \<longleftrightarrow>
     cnt flagged (snd c) = of_bool (bit (m_flags (fst c)) 2) \<and>
     cnt at_take (snd c) + cnt taken (snd c) + length (cont_log (fst c)) = of_bool (bit (m_flags (fst c)) 3) \<and>
     of_bool (invocation (m_continuation (fst c)) \<noteq> None) + cnt taken (snd c) + length (cont_log (fst c)) =
       cnt stored (snd c) \<and>
     (bit (m_flags (fst c)) 3 \<longrightarrow> bit (m_flags (fst c)) 0 \<and> bit (m_flags (fst c)) 2) \<and>
     (0 < cnt checked (snd c) \<longrightarrow> bit (m_flags (fst c)) 0 \<and> bit (m_flags (fst c)) 2) \<and>
     (bit (m_flags (fst c)) 0 \<and> bit (m_flags (fst c)) 2 \<and> \<not> bit (m_flags (fst c)) 3 \<longrightarrow>
       0 < cnt pending (snd c))"

definition inv_callback :: "config \<Rightarrow> bool" where
  "inv_callback c \<longleftrightarrow>
     (bit (m_flags (fst c)) 0 \<and> (0 < cnt at_store (snd c) \<or> m_readyCallback (fst c) \<noteq> None) \<longrightarrow>
       0 < cnt will_take (snd c))"

text \<open>Where the callback \<open>k\<close> is: with its owner, in the task, in the hand of a thread, or called.\<close>

definition tokens :: "nat \<Rightarrow> config \<Rightarrow> nat" where
  "tokens k c = cnt (offering k) (snd c) + of_bool (m_readyCallback (fst c) = Some k) +
     cnt (in_hand k) (snd c) + count_list (ready_log (fst c)) k"

lemma region_erase:
  "holds_resolve c (erase p) = holds_resolve c p" "holds_ready c (erase p) = holds_ready c p"
  "at_call c (erase p) = at_call c p" "at_set c (erase p) = at_set c p" "winner c (erase p) = winner c p"
  "flagged c (erase p) = flagged c p" "stored c (erase p) = stored c p" "checked c (erase p) = checked c p"
  "at_take c (erase p) = at_take c p" "taken c (erase p) = taken c p" "pending c (erase p) = pending c p"
  "offering k c (erase p) = offering k c p" "at_store c (erase p) = at_store c p"
  "in_hand k c (erase p) = in_hand k c p" "will_take c (erase p) = will_take c p"
  "beaten c (erase p) = beaten c p"
  by (cases p rule: erase.cases; simp add: region_defs)+

lemma region_stay:
  assumes "erase p' = erase p"
  shows "holds_resolve c p' = holds_resolve c p" "holds_ready c p' = holds_ready c p"
  "at_call c p' = at_call c p" "at_set c p' = at_set c p" "winner c p' = winner c p"
  "flagged c p' = flagged c p" "stored c p' = stored c p" "checked c p' = checked c p"
  "at_take c p' = at_take c p" "taken c p' = taken c p" "pending c p' = pending c p"
  "offering k c p' = offering k c p" "at_store c p' = at_store c p"
  "in_hand k c p' = in_hand k c p" "will_take c p' = will_take c p" "beaten c p' = beaten c p"
  using assms by (metis region_erase)+

text \<open>One thread moves from \<open>p\<close> to \<open>p'\<close>; the counts before and after.\<close>

definition moved :: "call \<Rightarrow> pc \<Rightarrow> pc \<Rightarrow> thread list \<Rightarrow> thread list \<Rightarrow> bool" where
  "moved c p p' ts ts' \<longleftrightarrow>
     (\<exists>i<length ts. c = call (ts ! i) \<and> p = pc (ts ! i) \<and> ts' = ts[i := (ts ! i)\<lparr> pc := p' \<rparr>])"

lemma movedD: "moved c p p' ts ts' \<Longrightarrow> cnt P ts' + of_bool (P c p) = cnt P ts + of_bool (P c p')"
  unfolding moved_def using cnt_move by blast

lemma moved_here: "moved c p p' ts ts' \<Longrightarrow> P c p \<Longrightarrow> 0 < cnt P ts"
  by (auto simp: moved_def intro: cnt_pos)

text \<open>A thread outside a region, but inside a larger one that holds at most one thread.\<close>

lemma moved_alone:
  assumes "moved c p p' ts ts'" "\<And>c p. P c p \<Longrightarrow> Q c p" "cnt Q ts \<le> 1" "Q c p" "\<not> P c p"
  shows "cnt P ts = 0"
proof -
  have "0 < cnt (\<lambda>c p. Q c p \<and> \<not> P c p) ts" using moved_here [OF assms(1)] assms(4,5) by simp
  moreover have "cnt P ts + cnt (\<lambda>c p. Q c p \<and> \<not> P c p) ts \<le> cnt Q ts"
    by (rule cnt_add_le) (auto simp: assms(2))
  ultimately show ?thesis using assms(3) by simp
qed

lemma locks_step:
  assumes "move c e p s p' s'" "moved c p p' ts ts'" "inv_locks (s, ts)"
  shows "inv_locks (s', ts')"
  using assms(1,3) movedD [OF assms(2), of holds_resolve] movedD [OF assms(2), of holds_ready]
proof (cases rule: move.cases)
  case stay
  then show ?thesis using assms(3) movedD [OF assms(2), of holds_resolve] movedD [OF assms(2), of holds_ready]
    by (simp add: inv_locks_def region_stay [OF stay(2)])
qed (auto simp: inv_locks_def flag_simps region_defs asserting_def setContinueOnCapturedExecutor_def of_bool_def
      split: if_splits option.splits)

lemma ready_step:
  assumes "move c e p s p' s'" "moved c p p' ts ts'" "inv_ready (s, ts)"
    and one: "cnt at_call ts + cnt at_set ts \<le> 1"
  shows "inv_ready (s', ts')"
  using assms(1,3) movedD [OF assms(2), of winner]
    movedD [OF assms(2), of at_call] movedD [OF assms(2), of at_set] movedD [OF assms(2), of beaten]
proof (cases rule: move.cases)
  case stay
  then show ?thesis using assms(3) movedD [OF assms(2), of winner]
      movedD [OF assms(2), of at_call] movedD [OF assms(2), of at_set] movedD [OF assms(2), of beaten]
    by (simp add: inv_ready_def region_stay [OF stay(2)])
next
  case (resolve_call r)
  have "0 < cnt at_call ts" using moved_here [OF assms(2), of at_call] resolve_call by (simp add: at_call_def)
  then have "\<not> bit (m_flags s) 0" "cnt at_set ts = 0" "cnt winner ts = 0"
    using assms(3) one by (auto simp: inv_ready_def)
  then show ?thesis using assms(3) resolve_call movedD [OF assms(2), of winner]
      movedD [OF assms(2), of at_call] movedD [OF assms(2), of at_set] movedD [OF assms(2), of beaten]
    by (simp add: inv_ready_def region_defs outcome_def)
next
  case (resolve_set r q)
  have "0 < cnt at_set ts" using moved_here [OF assms(2), of at_set] resolve_set by (simp add: at_set_def)
  then have "\<not> bit (m_flags s) 0" "cnt at_call ts = 0" "cnt at_set ts = 1"
    using assms(3) one by (auto simp: inv_ready_def)
  then show ?thesis using assms(3) resolve_set movedD [OF assms(2), of winner]
      movedD [OF assms(2), of at_call] movedD [OF assms(2), of at_set] movedD [OF assms(2), of beaten]
    by (simp add: inv_ready_def region_defs flag_simps)
qed (auto simp: inv_ready_def flag_simps region_defs asserting_def setContinueOnCapturedExecutor_def
      split: if_splits option.splits call.splits)

lemma callback_step:
  assumes "move c e p s p' s'" "moved c p p' ts ts'" "inv_callback (s, ts)"
    and one: "inv_locks (s, ts)"
  shows "inv_callback (s', ts')"
  using assms(1,3) movedD [OF assms(2), of at_store] movedD [OF assms(2), of will_take]
proof (cases rule: move.cases)
  case stay
  then show ?thesis using assms(3) movedD [OF assms(2), of at_store] movedD [OF assms(2), of will_take]
    by (simp add: inv_callback_def region_stay [OF stay(2)])
next
  case (invoke_take r)
  have "cnt at_store ts = 0"
  proof (rule moved_alone [OF assms(2), of _ holds_ready])
    show "cnt holds_ready ts \<le> 1" using one by (simp add: inv_locks_def)
  qed (use invoke_take in \<open>auto simp: region_defs\<close>)
  then show ?thesis using invoke_take movedD [OF assms(2), of at_store]
    by (simp add: inv_callback_def region_defs)
next
  case (callback_store cb)
  have "0 < cnt at_store ts" using moved_here [OF assms(2), of at_store] callback_store by (simp add: at_store_def)
  then show ?thesis using assms(3) callback_store movedD [OF assms(2), of will_take]
    by (simp add: inv_callback_def region_defs)
qed (auto simp: inv_callback_def flag_simps region_defs asserting_def setContinueOnCapturedExecutor_def
      split: if_splits option.splits)

lemma scheduled_step:
  assumes "move c e p s p' s'" "moved c p p' ts ts'" "inv_scheduled (s, ts)"
    and one: "cnt is_setter ts \<le> 1"
    and val: "\<And>k. (p = Scheduling (T_route k) \<or> (\<exists>x. p = Scheduling (T_invoke k x))) \<Longrightarrow> invocation k \<noteq> None"
      "\<And>k. c = SetContinuation k \<Longrightarrow> invocation k \<noteq> None"
  shows "inv_scheduled (s', ts')"
proof -
  note counts = movedD [OF assms(2), of flagged] movedD [OF assms(2), of stored] movedD [OF assms(2), of checked]
    movedD [OF assms(2), of at_take] movedD [OF assms(2), of taken] movedD [OF assms(2), of pending]
  note inv = assms(3) [unfolded inv_scheduled_def fst_conv snd_conv]
  have le: "cnt flagged ts \<le> cnt stored ts" by (rule cnt_le) (auto simp: region_defs)
  have "cnt stored ts \<le> cnt is_setter ts" by (rule cnt_le) (auto simp: region_defs)
  note le = le this one
  show ?thesis
    using assms(1)
  proof (cases rule: move.cases)
    case stay
    then show ?thesis using inv counts by (simp add: inv_scheduled_def region_stay [OF stay(2)])
  next
    case (take q)
    have "0 < cnt at_take ts" using moved_here [OF assms(2), of at_take] take by (simp add: at_take_def)
    then have "bit (m_flags s) 3" "cnt at_take ts + cnt taken ts + length (cont_log s) = 1"
      using inv by (auto simp: of_bool_def split: if_splits)
    moreover from this have "cnt taken ts = 0" "length (cont_log s) = 0" "cnt at_take ts = 1"
      using \<open>0 < cnt at_take ts\<close> by linarith+
    moreover have "cnt stored ts = 1" using inv le calculation by auto
    ultimately show ?thesis using inv counts take
      by (simp add: inv_scheduled_def region_defs asserting_def null_continuation_def split: if_splits)
  next
    case (store k)
    have "cnt stored ts = 0"
      by (rule moved_alone [OF assms(2), of _ is_setter]) (use store one in \<open>auto simp: region_defs\<close>)
    then show ?thesis using inv counts store val(2) by (auto simp: inv_scheduled_def region_defs asserting_def)
  next
    case (flag k q)
    have "cnt flagged ts = 0"
      by (rule moved_alone [OF assms(2), of _ is_setter]) (use flag one in \<open>auto simp: region_defs\<close>)
    then show ?thesis using inv counts flag
      by (auto simp: inv_scheduled_def region_defs flag_simps split: if_splits)
  next
    case (resolve_set r q)
    then show ?thesis using inv counts
      by (auto simp: inv_scheduled_def region_defs flag_simps split: if_splits)
  next
    case (first q v)
    have "0 < cnt checked ts" using moved_here [OF assms(2), of checked] first by (simp add: checked_def)
    then show ?thesis using inv counts first
      by (auto simp: inv_scheduled_def region_defs flag_simps split: if_splits call.splits)
  next
    case (invoke q k x)
    have "0 < cnt taken ts" using moved_here [OF assms(2), of taken] invoke by (simp add: taken_def)
    then have "bit (m_flags s) 3" "cnt at_take ts + cnt taken ts + length (cont_log s) = 1"
      using inv by (auto simp: of_bool_def split: if_splits)
    moreover from this have "cnt at_take ts = 0" "length (cont_log s) = 0" "cnt taken ts = 1"
      using \<open>0 < cnt taken ts\<close> by linarith+
    ultimately show ?thesis using inv counts invoke val(1) [of k]
      by (auto simp: inv_scheduled_def region_defs split: if_splits call.splits)
  qed (use inv counts in \<open>auto simp: inv_scheduled_def flag_simps region_defs asserting_def
      setContinueOnCapturedExecutor_def split: if_splits option.splits call.splits\<close>)
qed

lemma tokens_step:
  assumes "move c e p s p' s'" "moved c p p' ts ts'"
  shows "tokens k (s', ts') + of_bool (p = Calling C_store \<and> m_readyCallback s = Some k \<and> p' \<noteq> p) = tokens k (s, ts)"
proof -
  note counts = movedD [OF assms(2), of "offering k"] movedD [OF assms(2), of "in_hand k"]
  show ?thesis
    using assms(1)
  proof (cases rule: move.cases)
    case stay
    have "p = Calling C_store \<Longrightarrow> p' = p" using stay by (cases p' rule: erase.cases) auto
    then show ?thesis using stay counts by (auto simp: tokens_def region_stay [OF stay(2)])
  next
    case (callback_store cb)
    then show ?thesis using counts by (cases "cb = Some k"; cases "m_readyCallback s = Some k") (auto simp: tokens_def region_defs)
  qed (use counts in \<open>auto simp: tokens_def region_defs asserting_def
      setContinueOnCapturedExecutor_def of_bool_def split: if_splits option.splits\<close>)
qed

text \<open>Static facts of a thread: it is at a point of its own call, and carries the one continuation.\<close>

lemma without_lock: "lock_step f q b = (Some q', b') \<Longrightarrow> (\<And>v. v AND f = 0 \<Longrightarrow> \<not> bit v n) \<Longrightarrow> without q' n"
  by (cases q) (auto split: if_splits)

lemma without_setFlags: "setFlagsOnce_step f w q b = (Some q', b') \<Longrightarrow> \<not> bit b n \<Longrightarrow> without q' n"
  by (cases q) (auto split: if_splits)

lemma resolve_wf:
  assumes "wf (Resolve r) (Resolving p)" "\<And>q. p = R_set q \<Longrightarrow> \<not> bit (m_flags s) 0"
  shows "wf (Resolve r) (fst (resolve_step weak r p s))"
proof (cases p)
  case (R_lock q)
  then show ?thesis
    by (cases "lock_step TaskFlag_ResolveLocked q (m_flags s)")
      (auto simp: flag_loop_def flag_simps split: option.splits intro: without_lock)
next
  case (R_set q)
  then show ?thesis using assms(2)
    by (cases "setFlagsOnce_step TaskFlag_Ready weak q (m_flags s)")
      (auto simp: flag_loop_def split: option.splits intro: without_setFlags)
qed (auto simp: flag_loop_def split: option.splits)

lemma invoke_wf: "wf (Resolve r) (fst (invokeReadyCallback_step weak p s))"
proof (cases p)
  case (I_lock q)
  then show ?thesis
    by (cases "lock_step TaskFlag_ReadyCallbackLocked q (m_flags s)")
      (auto simp: flag_loop_def flag_simps split: option.splits intro: without_lock)
qed (auto simp: flag_loop_def split: option.splits)

lemma schedule_wf: "wf c (Scheduling p) \<Longrightarrow> wf c (fst (tryScheduleContinuation_step weak e (result_of c) p s))"
  by (cases c; cases p) (auto simp: flag_simps Let_def)

lemma continuation_wf:
  assumes "\<And>q. p = S_flag q \<Longrightarrow> \<not> bit (m_flags s) 2"
  shows "wf (SetContinuation k) (fst (setContinuation_step weak k p s))"
proof (cases p)
  case (S_flag q)
  then show ?thesis using assms
    by (cases "setFlagsOnce_step TaskFlag_HasContinuation weak q (m_flags s)")
      (auto simp: flag_loop_def split: option.splits intro: without_setFlags)
qed auto

lemma callback_wf: "wf (SetReadyCallback cb) (fst (setReadyCallback_step weak cb p s))"
proof (cases p)
  case (C_lock q)
  then show ?thesis
    by (cases "lock_step TaskFlag_ReadyCallbackLocked q (m_flags s)")
      (auto simp: flag_loop_def flag_simps split: option.splits intro: without_lock)
qed (auto simp: flag_loop_def split: option.splits)

lemma call_wf:
  assumes "wf c p" "at_set c p \<Longrightarrow> \<not> bit (m_flags s) 0" "\<And>q. p = Continuing (S_flag q) \<Longrightarrow> \<not> bit (m_flags s) 2"
  shows "wf c (fst (call_step weak c e p s))"
proof (cases "(weak, c, e, p, s)" rule: call_step.cases)
  case (1 weak r cur p s)
  then show ?thesis using assms resolve_wf [of r p s weak] by (simp add: at_set_def)
next
  case (3 weak r cur p s)
  then show ?thesis using assms schedule_wf [of c p weak cur s] by simp
next
  case (5 weak k cur p s)
  then show ?thesis using assms schedule_wf [of c p weak cur s] by simp
qed (use assms in \<open>auto intro!: invoke_wf continuation_wf callback_wf\<close>)

definition carries :: "TaskContinuation \<Rightarrow> call \<Rightarrow> pc \<Rightarrow> bool" where
  "carries c0 c p \<longleftrightarrow>
     (case c of SetContinuation k \<Rightarrow> k = c0 | _ \<Rightarrow> True) \<and>
     (case p of Scheduling (T_route k) \<Rightarrow> invocation k = invocation c0
      | Scheduling (T_invoke k x) \<Rightarrow> invocation k = invocation c0 | _ \<Rightarrow> True)"

definition inv_values :: "TaskContinuation \<Rightarrow> config \<Rightarrow> bool" where
  "inv_values c0 c \<longleftrightarrow>
     cnt (\<lambda>c p. \<not> carries c0 c p) (snd c) = 0 \<and>
     (invocation (m_continuation (fst c)) = None \<or> invocation (m_continuation (fst c)) = invocation c0) \<and>
     (\<forall>x\<in>set (cont_log (fst c)). Some (fst x) = invocation c0)"

lemma values_step:
  assumes "move c e p s p' s'" "moved c p p' ts ts'" "inv_values c0 (s, ts)"
    and take: "p = Scheduling T_take \<Longrightarrow> invocation (m_continuation s) \<noteq> None"
  shows "inv_values c0 (s', ts')"
proof -
  have c: "carries c0 c p" using moved_here [OF assms(2), of "\<lambda>c p. \<not> carries c0 c p"] assms(3)
    by (auto simp: inv_values_def)
  have "carries c0 c p'" using assms(1)
  proof (cases rule: move.cases)
    case stay
    then show ?thesis using c by (cases p' rule: erase.cases; cases p rule: erase.cases) (auto simp: carries_def)
  qed (use c take assms(3) in \<open>auto simp: carries_def inv_values_def split: call.splits if_splits\<close>)
  then have "cnt (\<lambda>c p. \<not> carries c0 c p) ts' = 0"
    using movedD [OF assms(2), of "\<lambda>c p. \<not> carries c0 c p"] c assms(3) by (simp add: inv_values_def)
  moreover have m: "invocation (m_continuation s) = None \<or> invocation (m_continuation s) = invocation c0"
    "\<forall>x\<in>set (cont_log s). Some (fst x) = invocation c0" using assms(3) by (simp_all add: inv_values_def)
  have "(invocation (m_continuation s') = None \<or> invocation (m_continuation s') = invocation c0) \<and>
    (\<forall>x\<in>set (cont_log s'). Some (fst x) = invocation c0)" using assms(1)
    by (cases rule: move.cases) (use c m in \<open>auto simp: carries_def asserting_def null_continuation_def
        setContinueOnCapturedExecutor_def split: option.splits\<close>)
  ultimately show ?thesis by (simp add: inv_values_def)
qed

lemma assert_step:
  assumes "move c e p s p' s'" "moved c p p' ts ts'" "inv_scheduled (s, ts)" "assert_ok s"
    and one: "cnt is_setter ts \<le> 1"
    and val: "\<And>k. c = SetContinuation k \<Longrightarrow> invocation k \<noteq> None" "\<And>b. c \<noteq> SetContinueOnCaptured b"
    and take: "p = Scheduling T_take \<Longrightarrow> invocation (m_continuation s) \<noteq> None"
  shows "assert_ok s'"
  using assms(1)
proof (cases rule: move.cases)
  case (store k)
  have "cnt stored ts = 0"
    by (rule moved_alone [OF assms(2), of _ is_setter]) (use store one in \<open>auto simp: region_defs\<close>)
  then show ?thesis using store assms(3,4) val(1) by (auto simp: inv_scheduled_def asserting_def)
qed (use assms(4) val take in \<open>auto simp: asserting_def split: option.splits\<close>)

text \<open>The executor a continuation is handed to, while no thread changes the captured-executor option.\<close>

definition routed :: "bool \<Rightarrow> TaskContinuation \<Rightarrow> nat option \<Rightarrow> bool" where
  "routed captured c0 x \<longleftrightarrow> (if captured then executor c0 \<noteq> None \<longrightarrow> x = executor c0 else x = None)"

definition routes :: "bool \<Rightarrow> TaskContinuation \<Rightarrow> call \<Rightarrow> pc \<Rightarrow> bool" where
  "routes captured c0 c p \<longleftrightarrow>
     (case c of SetContinuation k \<Rightarrow> k = c0 | SetContinueOnCaptured b \<Rightarrow> False | _ \<Rightarrow> True) \<and>
     (case p of Scheduling (T_route k) \<Rightarrow> captured \<longrightarrow> executor k = executor c0
      | Scheduling (T_invoke k x) \<Rightarrow> routed captured c0 x | Continuing S_clear \<Rightarrow> \<not> captured | _ \<Rightarrow> True)"

definition inv_routes :: "bool \<Rightarrow> TaskContinuation \<Rightarrow> config \<Rightarrow> bool" where
  "inv_routes captured c0 c \<longleftrightarrow>
     cnt (\<lambda>c p. \<not> routes captured c0 c p) (snd c) = 0 \<and>
     m_isContinueOnCapturedExecutor (fst c) = captured \<and>
     (captured \<and> invocation (m_continuation (fst c)) \<noteq> None \<longrightarrow>
       executor (m_continuation (fst c)) = executor c0) \<and>
     (\<forall>x\<in>set (cont_log (fst c)). routed captured c0 (snd x))"

lemma routes_step:
  assumes "move c e p s p' s'" "moved c p p' ts ts'" "inv_routes captured c0 (s, ts)"
    and take: "p = Scheduling T_take \<Longrightarrow> invocation (m_continuation s) \<noteq> None"
  shows "inv_routes captured c0 (s', ts')"
proof -
  have c: "routes captured c0 c p" using moved_here [OF assms(2), of "\<lambda>c p. \<not> routes captured c0 c p"] assms(3)
    by (auto simp: inv_routes_def)
  have "routes captured c0 c p'" using assms(1)
  proof (cases rule: move.cases)
    case stay
    then show ?thesis using c by (cases p' rule: erase.cases; cases p rule: erase.cases) (auto simp: routes_def)
  qed (use c take assms(3) in \<open>auto simp: routes_def routed_def inv_routes_def split: call.splits if_splits\<close>)
  then have "cnt (\<lambda>c p. \<not> routes captured c0 c p) ts' = 0"
    using movedD [OF assms(2), of "\<lambda>c p. \<not> routes captured c0 c p"] c assms(3) by (simp add: inv_routes_def)
  moreover have m: "m_isContinueOnCapturedExecutor s = captured"
    "captured \<and> invocation (m_continuation s) \<noteq> None \<longrightarrow> executor (m_continuation s) = executor c0"
    "\<forall>x\<in>set (cont_log s). routed captured c0 (snd x)" using assms(3) by (simp_all add: inv_routes_def)
  have "m_isContinueOnCapturedExecutor s' = captured \<and>
    (captured \<and> invocation (m_continuation s') \<noteq> None \<longrightarrow> executor (m_continuation s') = executor c0) \<and>
    (\<forall>x\<in>set (cont_log s'). routed captured c0 (snd x))" using assms(1)
    by (cases rule: move.cases) (use c m in \<open>auto simp: routes_def asserting_def null_continuation_def
        split: option.splits\<close>)
  ultimately show ?thesis by (simp add: inv_routes_def)
qed

section \<open>Every reachable configuration\<close>

text \<open>
  The clients' side of the contract: at most one thread sets a continuation, and it is callable.
\<close>

definition continuations :: "(call \<times> nat option) list \<Rightarrow> TaskContinuation list" where
  "continuations calls =
     List.map_filter (\<lambda>(c, e). case c of SetContinuation k \<Rightarrow> Some k | _ \<Rightarrow> None) calls"

definition client_ok :: "(call \<times> nat option) list \<Rightarrow> bool" where
  "client_ok calls \<longleftrightarrow>
     length (continuations calls) \<le> 1 \<and> (\<forall>k\<in>set (continuations calls). invocation k \<noteq> None)"

definition the_continuation :: "(call \<times> nat option) list \<Rightarrow> TaskContinuation" where
  "the_continuation calls =
     (case continuations calls of [] \<Rightarrow> \<lparr> invocation = Some 0, executor = None \<rparr> | k # _ \<Rightarrow> k)"

definition inv :: "(call \<times> nat option) list \<Rightarrow> config \<Rightarrow> bool" where
  "inv calls c \<longleftrightarrow>
     map call (snd c) = map fst calls \<and> cnt (\<lambda>c p. \<not> wf c p) (snd c) = 0 \<and>
     inv_locks c \<and> inv_ready c \<and> inv_scheduled c \<and> inv_callback c \<and>
     inv_values (the_continuation calls) c \<and> (\<forall>r\<in>set (resolved (fst c)). Resolve r \<in> fst ` set calls)"

lemma cnt_calls:
  assumes "map call ts = map fst calls" "\<And>c p. P c p = Q c"
  shows "cnt P ts = length (filter Q (map fst calls))"
proof -
  have "cnt P ts = length (filter Q (map call ts))" unfolding cnt_def by (induction ts) (auto simp: assms(2))
  then show ?thesis by (simp add: assms(1))
qed

lemma setters_continuations:
  "length (filter (\<lambda>c. case c of SetContinuation k \<Rightarrow> True | _ \<Rightarrow> False) (map fst calls)) =
    length (continuations calls)"
  unfolding continuations_def by (induction calls) (auto simp: map_filter_simps split: call.splits)

lemma the_continuation: "client_ok calls \<Longrightarrow> invocation (the_continuation calls) \<noteq> None"
  by (auto simp: client_ok_def the_continuation_def split: list.splits)

lemma continuation_in: "(SetContinuation k, e) \<in> set calls \<Longrightarrow> k \<in> set (continuations calls)"
  unfolding continuations_def by (induction calls) (auto simp: map_filter_simps split: call.splits)

lemma one_continuation:
  assumes "client_ok calls" "SetContinuation k \<in> fst ` set calls"
  shows "k = the_continuation calls"
proof -
  have "k \<in> set (continuations calls)" using assms(2) by (auto dest: continuation_in)
  then show ?thesis using assms(1)
    by (cases "continuations calls") (auto simp: client_ok_def the_continuation_def)
qed

lemma start_cnt: "(\<And>c. \<not> P c (enter c)) \<Longrightarrow> cnt P (snd (start captured calls)) = 0"
  by (auto simp: cnt_zero start_def split_def)

lemma start_calls: "map call (snd (start captured calls)) = map fst calls"
  by (simp add: start_def split_def)

lemma enter_regions:
  "\<not> holds_resolve c (enter c)" "\<not> holds_ready c (enter c)" "\<not> at_call c (enter c)" "\<not> at_set c (enter c)"
  "\<not> winner c (enter c)" "\<not> flagged c (enter c)" "\<not> stored c (enter c)" "\<not> checked c (enter c)"
  "\<not> at_take c (enter c)" "\<not> taken c (enter c)" "\<not> pending c (enter c)" "\<not> at_store c (enter c)"
  "\<not> will_take c (enter c)" "\<not> beaten c (enter c)" "\<not> in_hand k c (enter c)" "wf c (enter c)"
  by (cases c; simp add: region_defs)+

lemma inv_start:
  assumes "client_ok calls"
  shows "inv calls (start captured calls)"
proof -
  have s: "fst (start captured calls) = new_task captured" by (simp add: start_def)
  have z: "cnt (\<lambda>c p. \<not> wf c p) (snd (start captured calls)) = 0" by (rule start_cnt) (simp add: enter_regions)
  have "call t = SetContinuation k \<Longrightarrow> t \<in> set (snd (start captured calls)) \<Longrightarrow> k = the_continuation calls" for t k
    using one_continuation [OF assms] start_calls [of captured calls] by (metis image_eqI image_set)
  then have "carries (the_continuation calls) (call t) (pc t)" if "t \<in> set (snd (start captured calls))" for t
    using that by (fastforce simp: carries_def start_def split: call.splits)
  then have v: "cnt (\<lambda>c p. \<not> carries (the_continuation calls) c p) (snd (start captured calls)) = 0"
    by (simp add: cnt_zero)
  show ?thesis unfolding inv_def inv_locks_def inv_ready_def inv_scheduled_def inv_callback_def inv_values_def s
    using z v by (simp add: start_calls start_cnt enter_regions new_task_def outcome_def null_continuation_def)
qed

lemma inv_step:
  fixes weak :: bool
  assumes ok: "client_ok calls" and inv: "inv calls c" and i: "i < length (snd c)"
  defines "t \<equiv> snd c ! i"
  defines "r \<equiv> call_step weak (call t) (current t) (pc t) (fst c)"
  shows "move (call t) (current t) (pc t) (fst c) (fst r) (snd r)"
    and "moved (call t) (pc t) (fst r) (snd c) ((snd c)[i := t\<lparr> pc := fst r \<rparr>])"
    and "inv calls (thread_step weak i c)"
    and "pc t = Scheduling T_take \<Longrightarrow> invocation (m_continuation (fst c)) \<noteq> None"
    and "cnt is_setter (snd c) \<le> 1"
proof -
  obtain s ts where c: "c = (s, ts)" by (cases c)
  note inv' = inv [unfolded inv_def c fst_conv snd_conv]
  have wf: "wf (call t) (pc t)" using inv' i by (auto simp: cnt_zero t_def c)
  show mv: "move (call t) (current t) (pc t) (fst c) (fst r) (snd r)"
    unfolding r_def by (rule call_move [OF wf])
  show md: "moved (call t) (pc t) (fst r) (snd c) ((snd c)[i := t\<lparr> pc := fst r \<rparr>])"
    using i by (auto simp: moved_def t_def)
  have one: "cnt is_setter ts \<le> 1"
    using cnt_calls [of ts calls is_setter] inv' ok setters_continuations [of calls]
    by (simp add: is_setter_def client_ok_def)
  then show "cnt is_setter (snd c) \<le> 1" by (simp add: c)
  note here = moved_here [OF md [unfolded c snd_conv]]
  have le: "cnt at_call ts + cnt at_set ts \<le> 1"
  proof -
    have "cnt at_call ts + cnt at_set ts \<le> cnt holds_resolve ts" by (rule cnt_add_le) (auto simp: region_defs split: pc.splits resolve_pc.splits)
    also have "\<dots> \<le> 1" using inv' by (simp add: inv_locks_def)
    finally show ?thesis .
  qed
  show take: "invocation (m_continuation (fst c)) \<noteq> None" if "pc t = Scheduling T_take"
  proof -
    have "0 < cnt at_take ts" using here [of at_take] that by (simp add: at_take_def)
    then have "bit (m_flags s) 3" "cnt at_take ts + cnt taken ts + length (cont_log s) = 1"
      using inv' by (auto simp: inv_scheduled_def of_bool_def split: if_splits)
    moreover from this have "cnt taken ts + length (cont_log s) = 0" using \<open>0 < cnt at_take ts\<close> by linarith
    moreover have "cnt flagged ts \<le> cnt stored ts" by (rule cnt_le) (auto simp: region_defs)
    ultimately show ?thesis using inv' by (auto simp: inv_scheduled_def c of_bool_def split: if_splits)
  qed
  have k: "k = the_continuation calls" if "call t = SetContinuation k" for k
  proof (rule one_continuation [OF ok])
    show "SetContinuation k \<in> fst ` set calls" using that i inv' unfolding t_def c
      by (metis image_eqI image_set nth_mem snd_conv)
  qed
  have vals: "invocation k \<noteq> None" if "pc t = Scheduling (T_route k) \<or> (\<exists>x. pc t = Scheduling (T_invoke k x))" for k
  proof -
    have "carries (the_continuation calls) (call t) (pc t)"
      using here [of "\<lambda>c p. \<not> carries (the_continuation calls) c p"] inv' by (auto simp: inv_values_def)
    then show ?thesis using that the_continuation [OF ok] by (auto simp: carries_def)
  qed
  have nset: "at_set (call t) (pc t) \<Longrightarrow> \<not> bit (m_flags s) 0"
    using here [of at_set] inv' by (auto simp: inv_ready_def)
  have nflag: "\<not> bit (m_flags s) 2" if "pc t = Continuing (S_flag q)" for q
  proof -
    have "is_setter (call t) (pc t)" using wf that by (cases "call t") (auto simp: is_setter_def)
    then have "cnt flagged ts = 0"
      by (intro moved_alone [OF md [unfolded c snd_conv], of _ is_setter])
        (use one that in \<open>auto simp: region_defs\<close>)
    then show ?thesis using inv' by (auto simp: inv_scheduled_def)
  qed
  have wf': "cnt (\<lambda>c p. \<not> wf c p) ((snd c)[i := t\<lparr> pc := fst r \<rparr>]) = 0"
  proof -
    have "wf (call t) (fst r)" unfolding r_def by (rule call_wf [OF wf]) (use nset nflag in \<open>auto simp: c\<close>)
    then show ?thesis using movedD [OF md, of "\<lambda>c p. \<not> wf c p"] wf inv' by (simp add: c)
  qed
  have calls: "map call ((snd c)[i := t\<lparr> pc := fst r \<rparr>]) = map fst calls"
    using inv' i by (simp add: map_update t_def c) (metis list_update_id map_update)
  have res: "\<forall>q\<in>set (resolved (snd r)). Resolve q \<in> fst ` set calls"
  proof -
    have t: "call t \<in> fst ` set calls" using i inv' unfolding t_def c by (metis image_eqI image_set nth_mem snd_conv)
    have old: "\<forall>r\<in>set (resolved s). Resolve r \<in> fst ` set calls" using inv' by simp
    show ?thesis using mv t old unfolding c fst_conv
      by (cases rule: move.cases)
        (auto simp: asserting_def setContinueOnCapturedExecutor_def split: option.splits)
  qed
  have step: "thread_step weak i c = (snd r, (snd c)[i := t\<lparr> pc := fst r \<rparr>])"
    by (simp add: thread_step_def Let_def t_def r_def)
  note mv' = mv [unfolded c fst_conv] and md' = md [unfolded c snd_conv]
  show "inv calls (thread_step weak i c)"
    unfolding step unfolding inv_def fst_conv snd_conv
    using calls wf' res locks_step [OF mv' md'] ready_step [OF mv' md' _ le] scheduled_step [OF mv' md' _ one vals]
      callback_step [OF mv' md'] values_step [OF mv' md' _ take [unfolded c fst_conv]] inv' k the_continuation [OF ok]
    by (auto simp: c)
qed

lemma reachable_inv: "reachable captured calls c \<Longrightarrow> client_ok calls \<Longrightarrow> inv calls c"
proof (induction rule: reachable.induct)
  case init
  then show ?case by (rule inv_start)
next
  case (more c c')
  from more.hyps(2) more.IH [OF more.prems] more.prems show ?case
    by (cases rule: step.cases) (auto intro: inv_step(3))
qed

text \<open>The facts the properties rest on, one per invariant.\<close>

lemma reachable_facts:
  assumes "reachable captured calls c" "client_ok calls"
  shows "map call (snd c) = map fst calls" "inv_locks c" "inv_ready c" "inv_scheduled c" "inv_callback c"
    "inv_values (the_continuation calls) c" "\<forall>r\<in>set (resolved (fst c)). Resolve r \<in> fst ` set calls"
    "\<And>t. t \<in> set (snd c) \<Longrightarrow> wf (call t) (pc t)"
  using reachable_inv [OF assms] by (auto simp: inv_def cnt_zero)

lemma finished_cnt:
  assumes "finished c" "\<And>q r. \<not> P q (Returned r)"
  shows "cnt P (snd c) = 0"
  using assms by (fastforce simp: cnt_zero finished_def)

lemma thread_of_call:
  assumes "reachable captured calls c" "client_ok calls" "q \<in> fst ` set calls"
  shows "\<exists>t\<in>set (snd c). call t = q"
proof -
  have "q \<in> set (map call (snd c))" using assms(3) reachable_facts(1) [OF assms(1,2)] by simp
  then show ?thesis by auto
qed

lemma finished_ready:
  assumes "reachable captured calls c" "client_ok calls" "finished c" "Resolve r \<in> fst ` set calls"
  shows "bit (m_flags (fst c)) 0"
proof -
  obtain t b where t: "t \<in> set (snd c)" "call t = Resolve r" "pc t = Returned b"
    using thread_of_call [OF assms(1,2,4)] assms(3) by (auto simp: finished_def)
  then have "b \<noteq> None" using reachable_facts(8) [OF assms(1,2) t(1)] by simp
  then consider "b = Some True" | "b = Some False" by (cases b) auto
  then have "winner (call t) (pc t) \<or> beaten (call t) (pc t)" using t by cases (auto simp: region_defs)
  then have "0 < cnt winner (snd c) \<or> 0 < cnt beaten (snd c)" using t(1) by (auto simp: cnt_def filter_empty_conv)
  then show ?thesis using reachable_facts(3) [OF assms(1,2)] by (auto simp: inv_ready_def split: if_splits)
qed

lemma finished_flagged:
  assumes "reachable captured calls c" "client_ok calls" "finished c" "continuations calls = [k]"
  shows "bit (m_flags (fst c)) 2"
proof -
  have "SetContinuation k \<in> fst ` set calls"
  proof -
    have "k \<in> set (continuations calls)" using assms(4) by simp
    then show ?thesis unfolding continuations_def
      by (induction calls) (auto simp: map_filter_simps split: call.splits)
  qed
  then obtain t where t: "t \<in> set (snd c)" "call t = SetContinuation k"
    using thread_of_call [OF assms(1,2)] by blast
  obtain b where "pc t = Returned b" using t(1) assms(3) by (auto simp: finished_def)
  then have "0 < cnt flagged (snd c)" using t
    by (auto simp: cnt_def filter_empty_conv flagged_def is_setter_def intro!: bexI [of _ t])
  then show ?thesis using reachable_facts(4) [OF assms(1,2)] by (auto simp: inv_scheduled_def split: if_splits)
qed

section \<open>Properties\<close>

definition returned_true :: "config \<Rightarrow> nat" where
  "returned_true c = length (filter (\<lambda>t. pc t = Returned (Some True)) (snd c))"

lemma returned_winner: "returned_true c \<le> cnt winner (snd c)"
proof -
  have "returned_true c = cnt (\<lambda>q p. p = Returned (Some True)) (snd c)" by (simp add: returned_true_def cnt_def)
  also have "\<dots> \<le> cnt winner (snd c)" by (rule cnt_le) (simp add: winner_def)
  finally show ?thesis .
qed

lemma returned_finished: "finished c \<Longrightarrow> returned_true c = cnt winner (snd c)"
  unfolding returned_true_def cnt_def finished_def winner_def
  by (rule arg_cong [where f = length], rule filter_cong) auto

text \<open>
  C15. Whatever the interleaving, at most one \<open>tryResolve\<close>/\<open>tryRejectWithError\<close> takes effect and at most
  one returns true; once the task is ready its error is the one of that resolver, and stays; and when all
  calls have returned and one of them resolves, the task is ready and exactly one call returned true.
\<close>

theorem resolved_once:
  assumes "reachable captured calls c" "client_ok calls"
  shows "length (resolved (fst c)) \<le> 1 \<and> returned_true c \<le> 1 \<and>
    (isReady (fst c) \<longrightarrow> (\<exists>r. resolved (fst c) = [r] \<and> Resolve r \<in> fst ` set calls \<and>
       getError (fst c) = rejector_error r None)) \<and>
    (finished c \<and> (\<exists>r. Resolve r \<in> fst ` set calls) \<longrightarrow> isReady (fst c) \<and> returned_true c = 1)"
proof -
  note f = reachable_facts [OF assms]
  have "cnt at_set (snd c) \<le> cnt holds_resolve (snd c)" by (rule cnt_le) (auto simp: region_defs split: pc.splits resolve_pc.splits)
  then have set: "cnt at_set (snd c) \<le> 1" using f(2)
    by (cases "bit (m_flags (fst c)) 5") (auto simp: inv_locks_def)
  have 1: "length (resolved (fst c)) \<le> 1" using f(3) set
    by (cases "bit (m_flags (fst c)) 0") (auto simp: inv_ready_def)
  have 2: "returned_true c \<le> 1" using returned_winner [of c] f(3)
    by (cases "bit (m_flags (fst c)) 0") (auto simp: inv_ready_def)
  have 3: "\<exists>r. resolved (fst c) = [r] \<and> Resolve r \<in> fst ` set calls \<and> getError (fst c) = rejector_error r None"
    if "isReady (fst c)"
  proof -
    have "length (resolved (fst c)) = 1" using f(3) that by (auto simp: inv_ready_def flag_simps)
    then obtain r where r: "resolved (fst c) = [r]" by (auto simp: length_Suc_conv)
    then show ?thesis using f(3,7) by (auto simp: inv_ready_def getError_def outcome_def)
  qed
  have 4: "isReady (fst c) \<and> returned_true c = 1" if "finished c \<and> (\<exists>r. Resolve r \<in> fst ` set calls)"
    using that finished_ready [OF assms] returned_finished [of c] f(3) by (auto simp: inv_ready_def flag_simps)
  show ?thesis using 1 2 3 4 by blast
qed

text \<open>
  C1. Whatever the interleaving of the resolvers with \<open>setContinuation\<close>, the continuation is invoked at
  most once, never before the task is ready, and exactly once when all calls have returned and the task
  was resolved: the wake-up is not lost.
\<close>

theorem continuation_once:
  assumes "reachable captured calls c" "client_ok calls"
  shows "length (cont_log (fst c)) \<le> 1 \<and>
    (cont_log (fst c) \<noteq> [] \<longrightarrow> isReady (fst c) \<and> hasContinuation (fst c)) \<and>
    (\<forall>x\<in>set (cont_log (fst c)). Some (fst x) = invocation (the_continuation calls)) \<and>
    (finished c \<and> (\<exists>r. Resolve r \<in> fst ` set calls) \<and> continuations calls \<noteq> [] \<longrightarrow>
       length (cont_log (fst c)) = 1)"
proof -
  note f = reachable_facts [OF assms]
  have n: "cnt at_take (snd c) + cnt taken (snd c) + length (cont_log (fst c)) = of_bool (bit (m_flags (fst c)) 3)"
    using f(4) by (simp add: inv_scheduled_def)
  have le: "length (cont_log (fst c)) \<le> of_bool (bit (m_flags (fst c)) 3)" using n by linarith
  have 4: "length (cont_log (fst c)) = 1"
    if fin: "finished c" and r: "Resolve r \<in> fst ` set calls" and k: "continuations calls \<noteq> []" for r
  proof -
    obtain k where k: "continuations calls = [k]" using k assms(2)
      by (cases "continuations calls") (auto simp: client_ok_def)
    have "cnt pending (snd c) = 0" "cnt at_take (snd c) = 0" "cnt taken (snd c) = 0"
      by (rule finished_cnt [OF fin]; simp add: region_defs)+
    then show ?thesis using n f(4) finished_ready [OF assms fin r] finished_flagged [OF assms fin k]
      by (auto simp: inv_scheduled_def)
  qed
  show ?thesis using le f(4,6) 4
    by (cases "bit (m_flags (fst c)) 3") (auto simp: inv_scheduled_def inv_values_def flag_simps)
qed

lemma tokens_start: "tokens k (start captured calls) = length (filter (\<lambda>x. fst x = SetReadyCallback (Some k)) calls)"
proof -
  have "cnt (offering k) (snd (start captured calls)) = length (filter (\<lambda>x. fst x = SetReadyCallback (Some k)) calls)"
    unfolding cnt_def start_def by (induction calls) (auto simp: offering_def split: call.splits)
  then show ?thesis using start_cnt [of "in_hand k" captured calls]
    by (simp add: tokens_def enter_regions) (simp add: start_def new_task_def)
qed

lemma tokens_reachable:
  assumes "reachable captured calls c" "client_ok calls"
  shows "tokens k c \<le> length (filter (\<lambda>x. fst x = SetReadyCallback (Some k)) calls)"
    and "length (filter (\<lambda>x. fst x = SetReadyCallback (Some k)) calls) = 1 \<Longrightarrow>
      (\<forall>x\<in>set calls. \<forall>cb. fst x = SetReadyCallback cb \<longrightarrow> cb = Some k) \<Longrightarrow> tokens k c = 1"
  using assms
proof (induction rule: reachable.induct)
  case init
  { case 1 then show ?case by (simp add: tokens_start) }
  { case 2 then show ?case by (simp add: tokens_start) }
next
  case (more c c')
  obtain i weak where i: "i < length (snd c)" "c' = thread_step weak i c"
    using more.hyps(2) by (auto elim: step.cases)
  let ?t = "snd c ! i"
  let ?r = "call_step weak (call ?t) (current ?t) (pc ?t) (fst c)"
  have c': "c' = (snd ?r, (snd c)[i := ?t\<lparr> pc := fst ?r \<rparr>])" by (simp add: i thread_step_def Let_def)
  { case 1
    note inv = reachable_inv [OF more.hyps(1) 1]
    show ?case using tokens_step [OF inv_step(1,2) [OF 1 inv i(1), of weak], of k] more.IH(1) [OF 1]
      by (simp add: c') }
  { case 2
    note inv = reachable_inv [OF more.hyps(1) 2(3)]
    note eq = tokens_step [OF inv_step(1,2) [OF 2(3) inv i(1), of weak], of k]
    have old: "tokens k c = 1" using more.IH(2) 2 by blast
    have "m_readyCallback (fst c) \<noteq> Some k" if p: "pc ?t = Calling C_store"
    proof -
      have t: "?t \<in> set (snd c)" using i(1) by simp
      then have "wf (call ?t) (Calling C_store)" using reachable_facts(8) [OF more.hyps(1) 2(3), of ?t] p by simp
      then obtain cb where cb: "call ?t = SetReadyCallback cb" by (cases "call ?t") auto
      have "call ?t \<in> fst ` set calls"
        using t reachable_facts(1) [OF more.hyps(1) 2(3)] by (metis image_eqI image_set)
      then have "cb = Some k" using 2(2) cb by fastforce
      then have "0 < cnt (offering k) (snd c)" using t cb p by (auto simp: cnt_def filter_empty_conv offering_def)
      then show ?thesis using old by (auto simp: tokens_def)
    qed
    then show ?case using eq old by (cases "pc ?t = Calling C_store") (simp_all add: c') }
qed

text \<open>
  A ready callback is called at most as often as it was set; a single callback is called exactly once
  when all calls have returned and the task was resolved, whether it was set before, during or after the
  resolution.
\<close>

theorem ready_callback_once:
  assumes "reachable captured calls c" "client_ok calls"
  shows "count_list (ready_log (fst c)) k \<le> length (filter (\<lambda>x. fst x = SetReadyCallback (Some k)) calls) \<and>
    (finished c \<and> (\<exists>r. Resolve r \<in> fst ` set calls) \<and>
     length (filter (\<lambda>x. fst x = SetReadyCallback (Some k)) calls) = 1 \<and>
     (\<forall>x\<in>set calls. \<forall>cb. fst x = SetReadyCallback cb \<longrightarrow> cb = Some k) \<longrightarrow>
     count_list (ready_log (fst c)) k = 1)"
proof -
  note f = reachable_facts [OF assms]
  have "count_list (ready_log (fst c)) k = 1"
    if fin: "finished c" and r: "Resolve r \<in> fst ` set calls"
      and one: "length (filter (\<lambda>x. fst x = SetReadyCallback (Some k)) calls) = 1"
        "\<forall>x\<in>set calls. \<forall>cb. fst x = SetReadyCallback cb \<longrightarrow> cb = Some k" for r
  proof -
    have "cnt will_take (snd c) = 0" "cnt (offering k) (snd c) = 0" "cnt (in_hand k) (snd c) = 0"
      by (rule finished_cnt [OF fin]; simp add: region_defs)+
    moreover have "m_readyCallback (fst c) = None"
      using f(5) finished_ready [OF assms fin r] calculation(1) by (auto simp: inv_callback_def)
    ultimately show ?thesis using tokens_reachable(2) [OF assms one] by (simp add: tokens_def)
  qed
  moreover have "count_list (ready_log (fst c)) k \<le> tokens k c" by (simp add: tokens_def)
  ultimately show ?thesis using tokens_reachable(1) [OF assms, of k] by (meson le_trans)
qed

text \<open>
  C17. The two spin locks of the flag word exclude: at most one thread is between taking and releasing
  \<open>TaskFlag_ResolveLocked\<close>, and at most one for \<open>TaskFlag_ReadyCallbackLocked\<close>; a lock bit is set exactly
  while a thread is inside.
\<close>

theorem locks_exclude:
  assumes "reachable captured calls c" "client_ok calls"
  shows "cnt holds_resolve (snd c) = of_bool (bit (m_flags (fst c)) 5) \<and>
    cnt holds_ready (snd c) = of_bool (bit (m_flags (fst c)) 6)"
  using reachable_facts(2) [OF assms] by (simp add: inv_locks_def)

text \<open>Threads that leave the captured-executor option alone.\<close>

definition option_untouched :: "(call \<times> nat option) list \<Rightarrow> bool" where
  "option_untouched calls \<longleftrightarrow> (\<forall>b. SetContinueOnCaptured b \<notin> fst ` set calls)"

lemma reachable_untouched:
  assumes "reachable captured calls c" "client_ok calls" "option_untouched calls"
  shows "assert_ok (fst c) \<and> inv_routes captured (the_continuation calls) c"
  using assms
proof (induction rule: reachable.induct)
  case init
  have "routes captured (the_continuation calls) (call t) (pc t)" if t: "t \<in> set (snd (start captured calls))" for t
  proof -
    have "call t \<in> fst ` set calls" using t start_calls [of captured calls] by (metis image_eqI image_set)
    then have "case call t of SetContinuation k \<Rightarrow> k = the_continuation calls | SetContinueOnCaptured b \<Rightarrow> False | _ \<Rightarrow> True"
      using init one_continuation [of calls] by (cases "call t") (auto simp del: image_iff simp: option_untouched_def)
    then show ?thesis using t by (auto simp: routes_def start_def split: call.splits)
  qed
  then show ?case
    by (auto simp: inv_routes_def cnt_zero) (auto simp: start_def new_task_def null_continuation_def)
next
  case (more c c')
  obtain i weak where i: "i < length (snd c)" "c' = thread_step weak i c"
    using more.hyps(2) by (auto elim: step.cases)
  let ?t = "snd c ! i"
  let ?r = "call_step weak (call ?t) (current ?t) (pc ?t) (fst c)"
  have c': "c' = (snd ?r, (snd c)[i := ?t\<lparr> pc := fst ?r \<rparr>])" by (simp add: i thread_step_def Let_def)
  note ok = more.prems(1)
  note inv = reachable_inv [OF more.hyps(1) ok]
  note st = inv_step(1,2) [OF ok inv i(1), of weak] inv_step(4,5) [OF ok inv i(1)]
  have old: "assert_ok (fst c)" "inv_routes captured (the_continuation calls) (fst c, snd c)"
    using more.IH more.prems by auto
  have call: "call ?t \<in> fst ` set calls"
    using reachable_facts(1) [OF more.hyps(1) ok] i(1) by (metis image_eqI image_set nth_mem)
  have "assert_ok (snd ?r)"
  proof (rule assert_step [OF st(1,2) _ old(1) st(4)])
    show "inv_scheduled (fst c, snd c)" using reachable_facts(4) [OF more.hyps(1) ok] by simp
    show "invocation k \<noteq> None" if "call ?t = SetContinuation k" for k
      using one_continuation [OF ok, of k] the_continuation [OF ok] call that by simp
    show "call ?t \<noteq> SetContinueOnCaptured b" for b using call more.prems(2)
      by (metis option_untouched_def)
    show "invocation (m_continuation (fst c)) \<noteq> None" if "pc ?t = Scheduling T_take" using st(3) that .
  qed
  moreover have "inv_routes captured (the_continuation calls) (snd ?r, (snd c)[i := ?t\<lparr> pc := fst ?r \<rparr>])"
    by (rule routes_step [OF st(1,2) old(2)]) (use st(3) in auto)
  ultimately show ?case by (simp add: c')
qed

text \<open>
  While no thread changes the option, the continuation runs where its owner asked: on the executor it
  captured when the task continues on the captured executor, inline in the scheduling thread when it does
  not.
\<close>

theorem continuation_routed:
  assumes "reachable captured calls c" "client_ok calls" "option_untouched calls"
    and "(n, x) \<in> set (cont_log (fst c))"
  shows "if captured then executor (the_continuation calls) \<noteq> None \<longrightarrow> x = executor (the_continuation calls)
    else x = None"
  using reachable_untouched [OF assms(1-3)] assms(4) by (fastforce simp: inv_routes_def routed_def)

text \<open>
  C16. No assertion of the task fails under any interleaving: the ready and continuation flags are set once,
  the continuation is stored into an empty slot and is there when it is taken.
\<close>

theorem assertions_hold:
  assumes "reachable captured calls c" "client_ok calls" "option_untouched calls"
  shows "assert_ok (fst c)"
  using reachable_untouched [OF assms] by simp

section \<open>Concrete runs\<close>

text \<open>Two resolvers, a continuation and a ready callback, run one after the other.\<close>

definition demo_calls :: "(call \<times> nat option) list" where
  "demo_calls =
     [(Resolve (Some (Some 7)), None), (SetContinuation \<lparr> invocation = Some 3, executor = Some 1 \<rparr>, None),
      (SetReadyCallback (Some 4), None), (Resolve None, Some 2)]"

definition demo :: config where
  "demo = run_schedule
     (replicate 9 (2, False) @ replicate 20 (0, False) @ replicate 12 (1, False) @ replicate 6 (3, False))
     (start True demo_calls)"

lemma reachable_schedule:
  "reachable captured calls c \<Longrightarrow> reachable captured calls (run_schedule sch c)"
proof (induction sch c rule: run_schedule.induct)
  case (2 i weak sch c)
  then show ?case using reachable.more step.thread by auto
qed simp

lemma demo_reachable: "reachable True demo_calls demo"
  unfolding demo_def by (intro reachable_schedule reachable.init)

lemma demo_client: "client_ok demo_calls" "option_untouched demo_calls"
  by (auto simp: client_ok_def demo_calls_def continuations_def map_filter_simps option_untouched_def)

lemma demo_finished: "finished demo"
  by code_simp

lemma demo_logs: "resolved (fst demo) = [Some (Some 7)]" "ready_log (fst demo) = [4]"
  "cont_log (fst demo) = [(3, Some 1)]"
  by code_simp+

lemma resolved_once_witness:
  "finished demo \<and> isReady (fst demo) \<and> returned_true demo = 1 \<and> getError (fst demo) = Some 7"
  using resolved_once [OF demo_reachable demo_client(1)] demo_finished demo_logs(1)
  by (auto simp: demo_calls_def rejector_error_def)

lemma continuation_once_witness: "finished demo \<and> length (cont_log (fst demo)) = 1"
  using continuation_once [OF demo_reachable demo_client(1)] demo_finished
  by (auto simp: demo_calls_def continuations_def map_filter_simps)

lemma ready_callback_once_witness: "finished demo \<and> count_list (ready_log (fst demo)) 4 = 1"
  using ready_callback_once [OF demo_reachable demo_client(1), of 4] demo_finished
  by (auto simp: demo_calls_def)

lemma locks_exclude_witness: "cnt holds_resolve (snd demo) = of_bool (bit (m_flags (fst demo)) 5)"
  using locks_exclude [OF demo_reachable demo_client(1)] by simp

lemma continuation_routed_witness: "(3, Some 1) \<in> set (cont_log (fst demo)) \<and> Some 1 = executor (the_continuation demo_calls)"
  using continuation_routed [OF demo_reachable demo_client, of 3 "Some 1"] demo_logs(3)
  by (simp add: the_continuation_def demo_calls_def continuations_def map_filter_simps)

lemma assertions_hold_witness: "assert_ok (fst demo)"
  by (rule assertions_hold [OF demo_reachable demo_client])

definition race_calls :: "(call \<times> nat option) list" where
  "race_calls =
     [(Resolve None, None), (SetContinuation \<lparr> invocation = Some 3, executor = Some 1 \<rparr>, None)]"

definition race :: config where
  "race = run_schedule (replicate 4 (1, False) @ replicate 25 (0, False)) (start True race_calls)"

lemma race_reachable: "reachable True race_calls race"
  unfolding race_def by (intro reachable_schedule reachable.init)

lemma race_client: "client_ok race_calls"
  by (simp add: client_ok_def race_calls_def continuations_def map_filter_simps)

lemma race_state:
  "cont_log (fst race) = [(3, Some 1)]" "pc (snd race ! 0) = Returned (Some True)"
  "pc (snd race ! 1) = Scheduling T_check"
  by code_simp+

text \<open>
  The continuation resumes the awaiting coroutine, which may release the last reference to the task
  (the comment in \<open>tryScheduleContinuation\<close>).  The code does not keep the task alive over
  \<open>setContinuation\<close>: in a correct program with one resolver, the continuation can have been invoked and
  the resolver can have returned while the thread inside \<open>setContinuation\<close> has yet to read the flag word of
  the task.
\<close>

theorem setContinuation_outlives_resume:
  "\<exists>c. reachable True race_calls c \<and> client_ok race_calls \<and> cont_log (fst c) \<noteq> [] \<and>
    pc (snd c ! 0) = Returned (Some True) \<and> pc (snd c ! 1) = Scheduling T_check"
  using race_reachable race_client race_state by (intro exI [of _ race]) simp

end
