(* ===== verification/CoreTaskLiveness.thy ===== *)
theory CoreTaskLiveness
  imports CoreTaskSafety
begin

text \<open>
  The task never deadlocks: the rank of a thread is the distance to its return, a thread that is not waiting
  for a taken lock lowers it by itself, and a lock holder never waits for the other lock.
\<close>

section \<open>No deadlock\<close>

fun rank :: "pc \<Rightarrow> nat" where
  "rank (Resolving p) =
     (case p of R_lock q \<Rightarrow> 20 | R_test \<Rightarrow> 19 | R_call \<Rightarrow> 18 | R_set q \<Rightarrow> 17 | R_unlock b q \<Rightarrow> 16)"
| "rank (Invoking p) = (case p of I_lock q \<Rightarrow> 15 | I_take \<Rightarrow> 14 | I_unlock cb q \<Rightarrow> 13 | I_call cb \<Rightarrow> 12)"
| "rank (Scheduling p) =
     (case p of T_check \<Rightarrow> 11 | T_load \<Rightarrow> 10 | T_cas v \<Rightarrow> 10 | T_take \<Rightarrow> 9 | T_route k \<Rightarrow> 8 | T_invoke k x \<Rightarrow> 7)"
| "rank (Continuing p) = (case p of S_store \<Rightarrow> 25 | S_captured \<Rightarrow> 24 | S_clear \<Rightarrow> 23 | S_flag q \<Rightarrow> 22)"
| "rank (Calling p) =
     (case p of C_lock q \<Rightarrow> 10 | C_test \<Rightarrow> 9 | C_store \<Rightarrow> 8 | C_unlock k q \<Rightarrow> 7 | C_call k \<Rightarrow> 6)"
| "rank Capturing = 1"
| "rank (Returned r) = 0"

text \<open>A thread that waits for a lock that is taken.\<close>

definition blocked :: "u32 \<Rightarrow> pc \<Rightarrow> bool" where
  "blocked bits p \<longleftrightarrow>
     (case p of Resolving (R_lock q) \<Rightarrow> bit bits 5 | Invoking (I_lock q) \<Rightarrow> bit bits 6
      | Calling (C_lock q) \<Rightarrow> bit bits 6 | _ \<Rightarrow> False)"

text \<open>A thread that is not blocked gets further in at most two steps of its own.\<close>

definition advances :: "call \<Rightarrow> nat option \<Rightarrow> pc \<Rightarrow> CoreTask \<Rightarrow> bool" where
  "advances c e p s \<longleftrightarrow>
     (let r = call_step False c e p s; r' = call_step False c e (fst r) (snd r)
      in rank (fst r) < rank p \<or> rank (fst r') < rank p)"

lemma lock_twice:
  "bits AND f = 0 \<Longrightarrow> fst (lock_step f q bits) = None \<or> lock_step f q bits = (Some (Cas bits), bits)"
  by (cases q) auto

lemma set_twice:
  "fst (setFlagsOnce_step f False q bits) = None \<or> setFlagsOnce_step f False q bits = (Some (Cas bits), bits)"
  by (cases q) auto

lemma unset_twice:
  "fst (unsetFlags_step f False q bits) = None \<or> unsetFlags_step f False q bits = (Some (Cas bits), bits)"
  by (cases q) auto

lemma m_flags_asserting [simp]: "m_flags (asserting P s) = m_flags s"
  by (simp add: asserting_def)

lemma resolve_advances: "\<not> blocked (m_flags s) (Resolving p) \<Longrightarrow> advances (Resolve r) e (Resolving p) s"
proof (cases p)
  case (R_lock q)
  assume "\<not> blocked (m_flags s) (Resolving p)"
  then show ?thesis using R_lock lock_twice [of "m_flags s" TaskFlag_ResolveLocked q]
    by (auto simp: advances_def Let_def flag_loop_def blocked_def flag_simps split: option.splits)
next
  case (R_set q)
  then show ?thesis using set_twice [of TaskFlag_Ready q "m_flags s"]
    by (auto simp: advances_def Let_def flag_loop_def split: option.splits)
next
  case (R_unlock b q)
  then show ?thesis using unset_twice [of TaskFlag_ResolveLocked q "m_flags s"]
    by (auto simp: advances_def Let_def flag_loop_def split: option.splits)
qed (auto simp: advances_def Let_def)

lemma invoke_advances: "\<not> blocked (m_flags s) (Invoking p) \<Longrightarrow> advances (Resolve r) e (Invoking p) s"
proof (cases p)
  case (I_lock q)
  assume "\<not> blocked (m_flags s) (Invoking p)"
  then show ?thesis using I_lock lock_twice [of "m_flags s" TaskFlag_ReadyCallbackLocked q]
    by (auto simp: advances_def Let_def flag_loop_def blocked_def flag_simps split: option.splits)
next
  case (I_unlock cb q)
  then show ?thesis using unset_twice [of TaskFlag_ReadyCallbackLocked q "m_flags s"]
    by (auto simp: advances_def Let_def flag_loop_def split: option.splits)
qed (auto simp: advances_def Let_def)

lemma schedule_advances: "wf c (Scheduling p) \<Longrightarrow> advances c e (Scheduling p) s"
  by (cases c; cases p) (auto simp: advances_def Let_def)

lemma continuation_advances: "advances (SetContinuation k) e (Continuing p) s"
proof (cases p)
  case (S_flag q)
  then show ?thesis using set_twice [of TaskFlag_HasContinuation q "m_flags s"]
    by (auto simp: advances_def Let_def flag_loop_def split: option.splits)
qed (auto simp: advances_def Let_def)

lemma callback_advances: "\<not> blocked (m_flags s) (Calling p) \<Longrightarrow> advances (SetReadyCallback cb) e (Calling p) s"
proof (cases p)
  case (C_lock q)
  assume "\<not> blocked (m_flags s) (Calling p)"
  then show ?thesis using C_lock lock_twice [of "m_flags s" TaskFlag_ReadyCallbackLocked q]
    by (auto simp: advances_def Let_def flag_loop_def blocked_def flag_simps split: option.splits)
next
  case (C_unlock k q)
  then show ?thesis using unset_twice [of TaskFlag_ReadyCallbackLocked q "m_flags s"]
    by (auto simp: advances_def Let_def flag_loop_def split: option.splits)
qed (auto simp: advances_def Let_def)

lemma call_advances:
  assumes "wf c p" "\<not> blocked (m_flags s) p" "\<And>r. p \<noteq> Returned r"
  shows "advances c e p s"
proof (cases "(False, c, e, p, s)" rule: call_step.cases)
  case (3 weak r cur p s)
  then show ?thesis using assms schedule_advances [of c p cur s] by simp
next
  case (5 weak k cur p s)
  then show ?thesis using assms schedule_advances [of c p cur s] by simp
next
  case (7 weak b cur s)
  then show ?thesis by (simp add: advances_def Let_def)
qed (use assms in \<open>auto intro!: resolve_advances invoke_advances continuation_advances callback_advances\<close>)

definition total_rank :: "config \<Rightarrow> nat" where
  "total_rank c = sum_list (map (\<lambda>t. rank (pc t)) (snd c))"

lemma total_rank_upd:
  assumes "i < length ts" "rank p < rank (pc (ts ! i))"
  shows "total_rank (s', ts[i := t\<lparr> pc := p \<rparr>]) < total_rank (s, ts)"
  using assms
proof (induction ts arbitrary: i)
  case (Cons u us)
  then show ?case by (cases i) (auto simp: total_rank_def)
qed simp

lemma run_schedule_append: "run_schedule (xs @ ys) c = run_schedule ys (run_schedule xs c)"
  by (induction xs c rule: run_schedule.induct) auto

lemma unblocked_thread:
  assumes "reachable captured calls c" "client_ok calls" "\<not> finished c"
  shows "\<exists>i<length (snd c). \<not> blocked (m_flags (fst c)) (pc (snd c ! i)) \<and> (\<forall>r. pc (snd c ! i) \<noteq> Returned r)"
proof (cases "cnt holds_resolve (snd c) + cnt holds_ready (snd c) = 0")
  case True
  then have "\<not> bit (m_flags (fst c)) 5" "\<not> bit (m_flags (fst c)) 6"
    using reachable_facts(2) [OF assms(1,2)] by (auto simp: inv_locks_def split: if_splits)
  moreover obtain i where "i < length (snd c)" "\<forall>r. pc (snd c ! i) \<noteq> Returned r"
    using assms(3) by (auto simp: finished_def in_set_conv_nth)
  ultimately show ?thesis
    by (auto simp: blocked_def intro!: exI [of _ i] split: pc.splits resolve_pc.splits invoke_pc.splits callback_pc.splits)
next
  case False
  then obtain t where t: "t \<in> set (snd c)" "holds_resolve (call t) (pc t) \<or> holds_ready (call t) (pc t)"
    by (auto simp: cnt_def filter_empty_conv)
  obtain i where "i < length (snd c)" "t = snd c ! i" using t(1) by (auto simp: in_set_conv_nth)
  moreover have "\<not> blocked b (pc t) \<and> (\<forall>r. pc t \<noteq> Returned r)" for b
    using t(2) by (auto simp: region_defs blocked_def split: pc.splits resolve_pc.splits invoke_pc.splits callback_pc.splits)
  ultimately show ?thesis by auto
qed

text \<open>
  C18. No deadlock and no lost lock: from every reachable configuration the threads can run to the end of
  all their calls.
\<close>

theorem can_finish:
  assumes "reachable captured calls c" "client_ok calls"
  shows "\<exists>sch. finished (run_schedule sch c)"
  using assms
proof (induction "total_rank c" arbitrary: c rule: less_induct)
  case less
  show ?case
  proof (cases "finished c")
    case True
    then show ?thesis by (intro exI [of _ "[]"]) simp
  next
    case False
    obtain i where i: "i < length (snd c)" "\<not> blocked (m_flags (fst c)) (pc (snd c ! i))"
      "\<forall>r. pc (snd c ! i) \<noteq> Returned r" using unblocked_thread [OF less.prems False] by blast
    let ?t = "snd c ! i"
    have "wf (call ?t) (pc ?t)" using reachable_facts(8) [OF less.prems] i(1) by simp
    then have adv: "advances (call ?t) (current ?t) (pc ?t) (fst c)" using call_advances i(2,3) by blast
    have "\<exists>sch. total_rank (run_schedule sch c) < total_rank c"
    proof (cases "rank (fst (call_step False (call ?t) (current ?t) (pc ?t) (fst c))) < rank (pc ?t)")
      case True
      then show ?thesis using i(1) total_rank_upd [OF i(1) True]
        by (intro exI [of _ "[(i, False)]"]) (cases c, simp add: thread_step_def Let_def)
    next
      case no: False
      then show ?thesis using i(1) adv
          total_rank_upd [OF i(1), of "fst (call_step False (call ?t) (current ?t)
            (fst (call_step False (call ?t) (current ?t) (pc ?t) (fst c)))
            (snd (call_step False (call ?t) (current ?t) (pc ?t) (fst c))))"]
        by (intro exI [of _ "[(i, False), (i, False)]"])
          (cases c, simp add: thread_step_def Let_def advances_def)
    qed
    then obtain sch where sch: "total_rank (run_schedule sch c) < total_rank c" ..
    obtain sch' where "finished (run_schedule sch' (run_schedule sch c))"
      using less.hyps [OF sch reachable_schedule [OF less.prems(1)] less.prems(2)] by blast
    then show ?thesis by (metis run_schedule_append)
  qed
qed


lemma can_finish_witness: "\<exists>sch. finished (run_schedule sch race)"
  by (rule can_finish [OF race_reachable race_client])

end
