(* ===== verification/TaskList.thy ===== *)
theory TaskList
  imports Prelude
begin

text \<open>
  The list of tasks that \<open>whenAll\<close> and \<open>whenAny\<close> wait for, \<open>CoreTaskLinkedList\<close> (\<open>src/async/task.cpp\<close>,
  \<open>async/core/core_task_linked_list.h\<close>): a singly linked list through the tasks themselves, each of which
  the list keeps a reference to.  Tasks are numbers (their addresses); of a task only what the list touches is
  kept: the link, the references the lists hold, the flag \<open>Ready\<close> and whether a ready callback is set.
\<close>

section \<open>Tasks and lists\<close>

record tasks =
  m_next :: "nat \<Rightarrow> nat option"
  m_refs :: "nat \<Rightarrow> nat"
  flag_ready :: "nat \<Rightarrow> bool"
  m_readyCallback :: "nat \<Rightarrow> bool"

definition getNext :: "nat \<Rightarrow> 'a tasks_scheme \<Rightarrow> nat option" where
  "getNext t T = m_next T t"

definition setNext :: "nat \<Rightarrow> nat option \<Rightarrow> 'a tasks_scheme \<Rightarrow> 'a tasks_scheme option" where
  "setNext t nextTask T =
     do { require (nextTask = None \<or> m_next T t = None);
          Some (T\<lparr>m_next := (m_next T)(t := nextTask)\<rparr>) }"

definition addRef :: "nat \<Rightarrow> 'a tasks_scheme \<Rightarrow> 'a tasks_scheme" where
  "addRef t T = T\<lparr>m_refs := (m_refs T)(t := Suc (m_refs T t))\<rparr>"

definition releaseRef :: "nat \<Rightarrow> 'a tasks_scheme \<Rightarrow> 'a tasks_scheme option" where
  "releaseRef t T =
     do { require (0 < m_refs T t); Some (T\<lparr>m_refs := (m_refs T)(t := m_refs T t - 1)\<rparr>) }"

text \<open>\<open>setReadyCallback(nullptr, nullptr)\<close> stores the null callback, unless the task is ready already.\<close>

definition clearReadyCallback :: "nat \<Rightarrow> 'a tasks_scheme \<Rightarrow> 'a tasks_scheme" where
  "clearReadyCallback t T =
     (if flag_ready T t then T else T\<lparr>m_readyCallback := (m_readyCallback T)(t := False)\<rparr>)"

record task_list =
  m_head :: "nat option"
  m_size :: nat

definition empty_list :: task_list where
  "empty_list = \<lparr>m_head = None, m_size = 0\<rparr>"

text \<open>
  The constructor takes tasks from an iterator until it yields a null pointer: the iterator of a container ends
  at its end or at an empty task of the container.
\<close>

primrec link_tasks ::
  "nat option list \<Rightarrow> nat option \<Rightarrow> task_list \<Rightarrow> 'a tasks_scheme \<Rightarrow> (task_list \<times> 'a tasks_scheme) option" where
  "link_tasks [] prev l T = Some (l, T)"
| "link_tasks (current # rest) prev l T =
     (case current of
        None \<Rightarrow> Some (l, T)
      | Some t \<Rightarrow>
          do { let T = addRef t T;
               let l = (if m_head l = None then l\<lparr>m_head := Some t\<rparr> else l);
               T \<leftarrow> (case prev of
                       None \<Rightarrow> Some T
                     | Some p \<Rightarrow> do { require (getNext p T = None); setNext p (Some t) T });
               link_tasks rest (Some t) (l\<lparr>m_size := Suc (m_size l)\<rparr>) T })"

definition fromContainer :: "nat option list \<Rightarrow> 'a tasks_scheme \<Rightarrow> (task_list \<times> 'a tasks_scheme) option" where
  "fromContainer ts T = link_tasks ts None empty_list T"

definition fromTasks :: "nat list \<Rightarrow> 'a tasks_scheme \<Rightarrow> (task_list \<times> 'a tasks_scheme) option" where
  "fromTasks ts T = fromContainer (map Some ts) T"

definition list_empty :: "task_list \<Rightarrow> bool" where
  "list_empty l \<longleftrightarrow> m_head l = None"

text \<open>The destructor, the move constructor (the new list and what is left) and move assignment.\<close>

definition destroy_list :: "task_list \<Rightarrow> unit option" where
  "destroy_list l = require (m_head l = None)"

definition move_construct :: "task_list \<Rightarrow> task_list \<times> task_list" where
  "move_construct other = (other, empty_list)"

definition move_assign :: "task_list \<Rightarrow> task_list \<Rightarrow> (task_list \<times> task_list) option" where
  "move_assign l other = do { require (m_head l = None); require (m_size l = 0); Some (other, l) }"

definition append :: "nat \<Rightarrow> task_list \<Rightarrow> 'a tasks_scheme \<Rightarrow> (task_list \<times> 'a tasks_scheme) option" where
  "append t l T =
     do { let T = addRef t T;
          T \<leftarrow> (case m_head l of None \<Rightarrow> Some T | Some h \<Rightarrow> setNext t (Some h) T);
          Some (l\<lparr>m_head := Some t, m_size := Suc (m_size l)\<rparr>, T) }"

text \<open>
  The counting loop of \<open>size\<close>, an iteration from \<open>begin\<close> to \<open>end\<close> and the loop of \<open>reset\<close> follow the links: on
  a cycle they do not end, which is the value \<open>None\<close>.
\<close>

partial_function (option) count_tasks :: "'a tasks_scheme \<Rightarrow> nat option \<Rightarrow> nat \<Rightarrow> nat option" where
  "count_tasks T pos counter =
     (case pos of None \<Rightarrow> Some counter | Some t \<Rightarrow> count_tasks T (getNext t T) (Suc counter))"

definition list_size :: "task_list \<Rightarrow> 'a tasks_scheme \<Rightarrow> nat option" where
  "list_size l T = do { counter \<leftarrow> count_tasks T (m_head l) 0; require (m_size l = counter); Some (m_size l) }"

partial_function (option) iterate :: "'a tasks_scheme \<Rightarrow> nat option \<Rightarrow> nat list option" where
  "iterate T pos =
     (case pos of None \<Rightarrow> Some []
      | Some t \<Rightarrow> do { rest \<leftarrow> iterate T (getNext t T); Some (t # rest) })"

partial_function (option) reset_tasks :: "nat option \<Rightarrow> 'a tasks_scheme \<Rightarrow> 'a tasks_scheme option" where
  "reset_tasks pos T =
     (case pos of None \<Rightarrow> Some T
      | Some current \<Rightarrow>
          Option.bind (setNext current None T) (\<lambda>T1.
            Option.bind (releaseRef current (clearReadyCallback current T1))
              (reset_tasks (getNext current T))))"

definition list_reset :: "task_list \<Rightarrow> 'a tasks_scheme \<Rightarrow> (task_list \<times> 'a tasks_scheme) option" where
  "list_reset l T = do { T \<leftarrow> reset_tasks (m_head l) T; Some (l\<lparr>m_head := None\<rparr>, T) }"

lemmas task_defs =
  getNext_def setNext_def addRef_def releaseRef_def clearReadyCallback_def

section \<open>Chains of tasks\<close>

primrec chain :: "('b \<Rightarrow> 'b option) \<Rightarrow> 'b option \<Rightarrow> 'b list \<Rightarrow> bool" where
  "chain nxt h [] \<longleftrightarrow> h = None"
| "chain nxt h (x # xs) \<longleftrightarrow> h = Some x \<and> chain nxt (nxt x) xs"

lemma links_cong: "(\<And>x. x \<in> set xs \<Longrightarrow> f x = g x) \<Longrightarrow> chain f h xs = chain g h xs"
  by (induction xs arbitrary: h) auto

lemma links_upd [simp]: "x \<notin> set xs \<Longrightarrow> chain (f(x := y)) h xs = chain f h xs"
  by (rule links_cong) auto

lemma chain_count: "chain (m_next T) h xs \<Longrightarrow> count_tasks T h c = Some (c + length xs)"
proof (induction xs arbitrary: h c)
  case (Cons x xs)
  then show ?case by (subst count_tasks.simps) (simp add: getNext_def)
qed (simp add: count_tasks.simps)

lemma chain_iterate: "chain (m_next T) h xs \<Longrightarrow> iterate T h = Some xs"
proof (induction xs arbitrary: h)
  case (Cons x xs)
  then show ?case by (subst iterate.simps) (simp add: getNext_def)
qed (simp add: iterate.simps)

text \<open>The life of a list: the tasks of the container up to the first empty one are linked, and unlinked by \<open>reset\<close>.\<close>

definition given :: "nat option list \<Rightarrow> nat list" where
  "given cs = map the (takeWhile (\<lambda>c. c \<noteq> None) cs)"

lemma given_simps [simp]: "given [] = []" "given (None # cs) = []" "given (Some t # cs) = t # given cs"
  by (simp_all add: given_def)

lemma given_tasks [simp]: "given (map Some ts) = ts"
  by (induction ts) auto

definition linked :: "nat list \<Rightarrow> nat \<Rightarrow> nat option" where
  "linked ts t = map_of (zip ts (tl ts)) t"

lemma linked_Cons:
  "linked (p # t # ts) = (linked (t # ts))(p \<mapsto> t)"
  by (auto simp: linked_def)

lemma linked_outside: "t \<notin> set ts \<Longrightarrow> linked ts t = None"
  by (auto simp: linked_def map_of_eq_None_iff dest: set_zip_leftD)

lemma linked_behind: "p \<noteq> t \<Longrightarrow> linked (p # ts) t = linked ts t"
  by (cases ts) (auto simp: linked_def)

lemma linked_chain: "distinct ts \<Longrightarrow> chain (linked ts) (case ts of [] \<Rightarrow> None | t # _ \<Rightarrow> Some t) ts"
proof (induction ts)
  case (Cons p ts)
  have "chain (linked (p # ts)) h ts = chain (linked ts) h ts" for h
    using Cons.prems by (intro links_cong linked_behind) auto
  moreover have "linked (p # ts) p = (case ts of [] \<Rightarrow> None | t # _ \<Rightarrow> Some t)"
    by (cases ts) (simp_all add: linked_def)
  ultimately show ?case
    using Cons by simp
qed simp

definition taken :: "nat list \<Rightarrow> 'a tasks_scheme \<Rightarrow> 'a tasks_scheme" where
  "taken ts T =
     T\<lparr>m_next := (\<lambda>x. if x \<in> set ts then linked ts x else m_next T x),
       m_refs := (\<lambda>x. m_refs T x + of_bool (x \<in> set ts))\<rparr>"

definition left :: "nat list \<Rightarrow> 'a tasks_scheme \<Rightarrow> 'a tasks_scheme" where
  "left ts T =
     T\<lparr>m_next := (\<lambda>x. if x \<in> set ts then None else m_next T x),
       m_refs := (\<lambda>x. m_refs T x - of_bool (x \<in> set ts)),
       m_readyCallback := (\<lambda>x. m_readyCallback T x \<and> (x \<in> set ts \<longrightarrow> flag_ready T x))\<rparr>"

lemma link_tasks_taken:
  assumes "distinct (p # given cs)" "\<forall>t\<in>set (p # given cs). m_next T t = None" "m_head l \<noteq> None"
  shows "link_tasks cs (Some p) l T =
    Some (l\<lparr>m_size := m_size l + length (given cs)\<rparr>,
          T\<lparr>m_next := (\<lambda>x. if x \<in> set (p # given cs) then linked (p # given cs) x else m_next T x),
            m_refs := (\<lambda>x. m_refs T x + of_bool (x \<in> set (given cs)))\<rparr>)"
  using assms
proof (induction cs arbitrary: p l T)
  case Nil
  then show ?case by (auto simp: linked_def fun_eq_iff)
next
  case (Cons c cs)
  show ?case
  proof (cases c)
    case None
    with Cons.prems show ?thesis by (auto simp: linked_def fun_eq_iff)
  next
    case (Some t)
    let ?T = "T\<lparr>m_refs := (m_refs T)(t := Suc (m_refs T t)), m_next := (m_next T)(p \<mapsto> t)\<rparr>"
    have IH: "link_tasks cs (Some t) (l\<lparr>m_size := Suc (m_size l)\<rparr>) ?T =
      Some (l\<lparr>m_size := Suc (m_size l) + length (given cs)\<rparr>,
          ?T\<lparr>m_next := (\<lambda>x. if x \<in> set (t # given cs) then linked (t # given cs) x else m_next ?T x),
            m_refs := (\<lambda>x. m_refs ?T x + of_bool (x \<in> set (given cs)))\<rparr>)"
      using Cons.prems by (subst Cons.IH) (auto simp: Some)
    have "link_tasks (c # cs) (Some p) l T = link_tasks cs (Some t) (l\<lparr>m_size := Suc (m_size l)\<rparr>) ?T"
      using Cons.prems by (auto simp: Some task_defs)
    then show ?thesis
      unfolding IH using Cons.prems
      by (auto simp: Some linked_Cons fun_eq_iff)
  qed
qed

lemma distinct_count: "distinct xs \<Longrightarrow> count_list xs x = of_bool (x \<in> set xs)"
  by (induction xs) auto

lemma fromContainer_taken:
  assumes "distinct (given cs)" "\<forall>t\<in>set (given cs). m_next T t = None"
  shows "fromContainer cs T =
    Some (\<lparr>m_head = (case given cs of [] \<Rightarrow> None | t # _ \<Rightarrow> Some t), m_size = length (given cs)\<rparr>, taken (given cs) T)"
proof (cases "given cs")
  case Nil
  then have "cs = [] \<or> (\<exists>r. cs = None # r)"
    by (cases cs rule: list.exhaust; cases "hd cs") auto
  then show ?thesis
    by (auto simp: fromContainer_def empty_list_def taken_def)
next
  case (Cons t ts)
  then obtain r where cs: "cs = Some t # r" and ts: "ts = given r"
    by (cases cs rule: list.exhaust; cases "hd cs") auto
  show ?thesis
    using assms
    by (auto simp: cs fromContainer_def empty_list_def link_tasks_taken addRef_def taken_def fun_eq_iff)
qed

lemma reset_tasks_left:
  assumes "chain (m_next T) h ts" "distinct ts" "\<forall>t\<in>set ts. 0 < m_refs T t"
  shows "reset_tasks h T = Some (left ts T)"
  using assms
proof (induction ts arbitrary: h T)
  case Nil
  then show ?case by (simp add: reset_tasks.simps left_def)
next
  case (Cons t ts)
  let ?T = "left [t] T"
  have step: "reset_tasks h T = reset_tasks (m_next T t) ?T"
    using Cons.prems by (subst reset_tasks.simps) (auto simp: task_defs left_def fun_eq_iff intro!: arg_cong2 [where f = reset_tasks])
  have "m_next ?T = (m_next T)(t := None)"
    by (auto simp: left_def)
  then have "reset_tasks (m_next T t) ?T = Some (left ts ?T)"
    using Cons.prems by (intro Cons.IH) (auto simp: left_def)
  then show ?case
    unfolding step using Cons.prems by (auto simp: left_def fun_eq_iff)
qed


text \<open>
  Waiting for distinct tasks that are in no other list takes exactly one reference to each task before the
  first empty one of the container and links them in order; \<open>size\<close> and the iteration end and agree.
  \<open>reset\<close> then unlinks every task, gives back every reference and clears the ready callbacks of the tasks that
  are not ready, and changes nothing else; the list can be destroyed.
\<close>

theorem task_list_lifecycle:
  assumes "distinct (given cs)" "\<forall>t\<in>set (given cs). m_next T t = None"
  shows "\<exists>l T1 T2. fromContainer cs T = Some (l, T1) \<and>
    list_size l T1 = Some (length (given cs)) \<and> iterate T1 (m_head l) = Some (given cs) \<and>
    (\<forall>t. m_refs T1 t = m_refs T t + count_list (given cs) t) \<and>
    list_reset l T1 = Some (l\<lparr>m_head := None\<rparr>, T2) \<and> destroy_list (l\<lparr>m_head := None\<rparr>) = Some () \<and>
    T2 = T\<lparr>m_readyCallback := (\<lambda>t. m_readyCallback T t \<and> (t \<in> set (given cs) \<longrightarrow> flag_ready T t))\<rparr>"
proof -
  define l where "l = \<lparr>m_head = (case given cs of [] \<Rightarrow> None | t # _ \<Rightarrow> Some t), m_size = length (given cs)\<rparr>"
  define T2 where "T2 = left (given cs) (taken (given cs) T)"
  let ?T1 = "taken (given cs) T"
  have l: "m_head l = (case given cs of [] \<Rightarrow> None | t # _ \<Rightarrow> Some t)" "m_size l = length (given cs)"
    by (simp_all add: l_def)
  have made: "fromContainer cs T = Some (l, ?T1)"
    unfolding l_def by (rule fromContainer_taken [OF assms])
  have links: "chain (m_next ?T1) (m_head l) (given cs)"
    using linked_chain [OF assms(1)] links_cong [of "given cs" "m_next ?T1" "linked (given cs)"]
    by (simp add: l_def taken_def)
  have reset: "reset_tasks (m_head l) ?T1 = Some T2"
    unfolding T2_def using assms(1) by (intro reset_tasks_left links) (auto simp: taken_def)
  have undone: "T2 =
      T\<lparr>m_readyCallback := (\<lambda>t. m_readyCallback T t \<and> (t \<in> set (given cs) \<longrightarrow> flag_ready T t))\<rparr>"
    using assms(2) by (auto simp: T2_def left_def taken_def fun_eq_iff intro!: tasks.equality)
  have "m_refs ?T1 t = m_refs T t + count_list (given cs) t" for t
    using assms(1) by (simp add: taken_def distinct_count)
  moreover have "list_size l ?T1 = Some (length (given cs))"
    using chain_count [OF links, of 0] by (simp add: list_size_def l)
  moreover have "list_reset l ?T1 = Some (l\<lparr>m_head := None\<rparr>, T2)"
    by (simp add: list_reset_def reset)
  ultimately show ?thesis
    using made chain_iterate [OF links] undone
    by (intro exI [of _ l] exI [of _ ?T1] exI [of _ T2] conjI) (simp_all add: destroy_list_def require_def)
qed

definition demo_tasks :: tasks where
  "demo_tasks = \<lparr>m_next = (\<lambda>_. None), m_refs = (\<lambda>_. 1), flag_ready = (\<lambda>t. t = 2), m_readyCallback = (\<lambda>_. True)\<rparr>"

lemma task_list_lifecycle_witness:
  "\<exists>l T1. fromContainer [Some 4, Some 2, None, Some 7] demo_tasks = Some (l, T1) \<and>
     list_size l T1 = Some 2 \<and> iterate T1 (m_head l) = Some [4, 2]"
  using task_list_lifecycle [of "[Some 4, Some 2, None, Some 7]" demo_tasks]
  by (auto simp: demo_tasks_def numeral_eq_Suc)

text \<open>
  The same task twice makes the list a cycle: the constructor passes its assertion, and counting and iterating
  never end.  After \<open>reset\<close> the list keeps its size, so that \<open>size\<close> and move assignment fail their assertions.
\<close>

lemma count_returns:
  assumes "count_tasks T h c = Some r"
  shows "\<exists>xs. chain (m_next T) h xs \<and> r = c + length xs"
proof (rule count_tasks.raw_induct [OF _ assms])
  fix f :: "'c tasks_scheme \<Rightarrow> nat option \<Rightarrow> nat \<Rightarrow> nat option" and T h c r
  assume IH: "\<And>T h c r. f T h c = Some r \<Longrightarrow> \<exists>xs. chain (m_next T) h xs \<and> r = c + length xs"
    and step: "(case h of None \<Rightarrow> Some c | Some t \<Rightarrow> f T (getNext t T) (Suc c)) = Some r"
  show "\<exists>xs. chain (m_next T) h xs \<and> r = c + length xs"
  proof (cases h)
    case None
    with step show ?thesis by (intro exI [of _ "[]"]) simp
  next
    case (Some t)
    with step IH obtain xs where "chain (m_next T) (m_next T t) xs" "r = Suc c + length xs"
      by (fastforce simp: getNext_def)
    with Some show ?thesis by (intro exI [of _ "t # xs"]) simp
  qed
qed

lemma no_chain_on_cycle: "m_next T t = Some t \<Longrightarrow> \<not> chain (m_next T) (Some t) xs"
  by (induction xs) auto

lemma same_task_twice:
  assumes "m_next T t = None"
  shows "\<exists>l T1. fromContainer [Some t, Some t] T = Some (l, T1) \<and> list_size l T1 = None"
proof -
  let ?T1 = "T\<lparr>m_refs := (m_refs T)(t := Suc (Suc (m_refs T t))), m_next := (m_next T)(t \<mapsto> t)\<rparr>"
  have "fromContainer [Some t, Some t] T = Some (\<lparr>m_head = Some t, m_size = 2\<rparr>, ?T1)"
    using assms by (auto simp: fromContainer_def empty_list_def task_defs)
  moreover have "count_tasks ?T1 (Some t) 0 = None"
    using count_returns [of ?T1 "Some t" 0] no_chain_on_cycle [of ?T1 t] by (cases "count_tasks ?T1 (Some t) 0") auto
  ultimately show ?thesis by (simp add: list_size_def)
qed

lemma size_after_reset:
  assumes "list_reset l T = Some (l', T')" "m_size l \<noteq> 0"
  shows "list_size l' T' = None \<and> move_assign l' other = None"
proof -
  have "m_head l' = None" "m_size l' = m_size l"
    using assms(1) by (auto simp: list_reset_def bind_eq_Some_conv)
  then show ?thesis
    using assms(2) by (simp add: list_size_def count_tasks.simps move_assign_def)
qed

end
