(* ===== verification/TaskJoin.thy ===== *)
theory TaskJoin
  imports TaskList
begin

text \<open>
  Waiting for all or for any of several tasks, \<open>whenAllInternal\<close> and \<open>whenAnyInternal\<close> with their
  \<open>AwaiterState\<close> (\<open>src/async/task.cpp\<close>), as steps of the threads that take part: the coroutine that waits, a
  resolver for each task, and the thread that lets the expiration expire.  Each access to a member that threads
  share is one step, under sequential consistency.  Setting and invoking a ready callback are one step each
  of the task, which \<open>ready_callback_once\<close> of the core task shows, and the callback runs after it,
  outside of the task's lock; subscribing to the expiration is one step too.  The tasks of the list are
  numbered in list order; \<open>task_list_lifecycle\<close> shows that the list has this form.
\<close>

section \<open>State\<close>

datatype join_kind = All | Any

record joining =
  kind :: join_kind
  ntasks :: nat
  eternal :: bool
  has_executor :: bool

datatype CompletionState = CompletionNone | WithTrue | WithFalse

text \<open>
  What a thread does inside of \<open>AwaiterState\<close>: the ready callback of a task, \<open>resolve(result)\<close> with its
  exchange, \<open>CoreTaskLinkedList::reset\<close> with its loop over the tasks, and the last two statements of
  \<open>resolve\<close>.
\<close>

datatype act =
    Idle
  | Notify nat
  | Try bool
  | ReadHead
  | Loop "nat option"
  | Unlink nat "nat option"
  | ClearCallback nat "nat option"
  | Release nat "nat option"
  | DropList
  | Signal

datatype actor = Awaiter | Resolver nat | Expirer

datatype awaiter_pc =
    A_Check "nat option"
  | A_Early bool
  | A_Expired
  | A_Create
  | A_Begin
  | A_Set "nat option"
  | A_Next nat
  | A_Await
  | A_Resumed
  | A_Done bool

datatype resolver_pc = R_Start | R_Take | R_End

datatype expirer_pc = E_Wait | E_Fire | E_End

text \<open>
  The last four fields are history: what was registered, notified, unlinked and released.  No step reads
  them.
\<close>

record join = tasks +
  list_head :: "nat option"
  list_null :: bool
  counter :: size_t
  completionState :: CompletionState
  source_resolved :: bool
  expired :: bool
  subscribed :: bool
  created :: bool
  posted :: bool
  deleted :: bool
  failed :: bool
  awaiter :: awaiter_pc
  resolver :: "nat \<Rightarrow> resolver_pc"
  expirer :: expirer_pc
  acts :: "actor \<Rightarrow> act"
  registered :: "nat \<Rightarrow> bool"
  notified :: "nat \<Rightarrow> bool"
  unlinked :: nat
  released :: nat

section \<open>The callbacks\<close>

definition set_act :: "actor \<Rightarrow> act \<Rightarrow> join \<Rightarrow> join" where
  "set_act a x s = s\<lparr>acts := (acts s)(a := x)\<rparr>"

definition attempt :: "(join \<Rightarrow> join option) \<Rightarrow> join \<Rightarrow> join" where
  "attempt f s = (case f s of Some s' \<Rightarrow> s' | None \<Rightarrow> s\<lparr>failed := True\<rparr>)"

definition fetch_sub1 :: "size_t \<Rightarrow> size_t" where
  "fetch_sub1 c = (if c = 0 then 2 ^ 64 - 1 else c - 1)"

definition notify_step :: "joining \<Rightarrow> actor \<Rightarrow> nat \<Rightarrow> join \<Rightarrow> join" where
  "notify_step J a t s =
     (let s = s\<lparr>notified := (notified s)(t := True)\<rparr> in
      case kind J of
        All \<Rightarrow> set_act a (if counter s = 1 then Try True else Idle) (s\<lparr>counter := fetch_sub1 (counter s)\<rparr>)
      | Any \<Rightarrow> set_act a (Try True) s)"

definition resolve_step :: "actor \<Rightarrow> bool \<Rightarrow> join \<Rightarrow> join" where
  "resolve_step a result s =
     (if completionState s = CompletionNone
      then set_act a ReadHead (s\<lparr>completionState := (if result then WithTrue else WithFalse)\<rparr>)
      else set_act a Idle s)"

definition act_step :: "joining \<Rightarrow> actor \<Rightarrow> join \<Rightarrow> join option" where
  "act_step J a s =
     (case acts s a of
        Idle \<Rightarrow> None
      | Notify t \<Rightarrow> Some (notify_step J a t s)
      | Try result \<Rightarrow> Some (resolve_step a result s)
      | ReadHead \<Rightarrow> Some (set_act a (Loop (list_head s)) (s\<lparr>list_head := None\<rparr>))
      | Loop (Some t) \<Rightarrow> Some (set_act a (Unlink t (getNext t s)) s)
      | Loop None \<Rightarrow> Some (set_act a (if created s then DropList else Idle) s)
      | Unlink t nxt \<Rightarrow>
          Some (set_act a (ClearCallback t nxt) (attempt (setNext t None) (s\<lparr>unlinked := Suc t\<rparr>)))
      | ClearCallback t nxt \<Rightarrow> Some (set_act a (Release t nxt) (clearReadyCallback t s))
      | Release t nxt \<Rightarrow>
          Some (set_act a (Loop nxt) (attempt (releaseRef t) (s\<lparr>released := Suc t\<rparr>)))
      | DropList \<Rightarrow> Some (set_act a Signal (s\<lparr>list_null := True\<rparr>))
      | Signal \<Rightarrow> Some (set_act a Idle (s\<lparr>source_resolved := True\<rparr>)))"

section \<open>The threads\<close>

text \<open>
  The coroutine.  It does nothing else while a callback or a reset that it called runs.  When it is resumed
  it posts the deletion of the state; without a default executor it deletes it at once, and asserts that no
  expiration was subscribed.
\<close>

definition setReadyCallback_step :: "nat \<Rightarrow> join \<Rightarrow> join" where
  "setReadyCallback_step t s =
     (let s = s\<lparr>registered := (registered s)(t := True)\<rparr> in
      if flag_ready s t then set_act Awaiter (Notify t) s
      else s\<lparr>m_readyCallback := (m_readyCallback s)(t := True)\<rparr>)"

definition create_step :: "joining \<Rightarrow> join \<Rightarrow> join" where
  "create_step J s =
     (let s = s\<lparr>created := True, counter := (case kind J of All \<Rightarrow> ntasks J | Any \<Rightarrow> 0), awaiter := A_Begin\<rparr> in
      if eternal J then s
      else if expired s then set_act Awaiter (Try False) s
      else s\<lparr>subscribed := True\<rparr>)"

definition deleteDelayed_step :: "joining \<Rightarrow> join \<Rightarrow> join" where
  "deleteDelayed_step J s =
     (let s = s\<lparr>failed := (failed s \<or> \<not> list_null s)\<rparr> in
      if has_executor J then s\<lparr>posted := True\<rparr>
      else s\<lparr>failed := (failed s \<or> subscribed s), deleted := True\<rparr>)"

definition early :: "bool \<Rightarrow> join \<Rightarrow> join" where
  "early result s = set_act Awaiter ReadHead (s\<lparr>awaiter := A_Early result\<rparr>)"

definition awaiter_step :: "joining \<Rightarrow> join \<Rightarrow> join option" where
  "awaiter_step J s =
     (if acts s Awaiter \<noteq> Idle then None
      else case awaiter s of
        A_Check (Some t) \<Rightarrow>
          Some (case kind J of
                  All \<Rightarrow> s\<lparr>awaiter := (if flag_ready s t then A_Check (getNext t s) else A_Expired)\<rparr>
                | Any \<Rightarrow> if flag_ready s t then early True s else s\<lparr>awaiter := A_Check (getNext t s)\<rparr>)
      | A_Check None \<Rightarrow>
          Some (case kind J of
                  All \<Rightarrow> early True s
                | Any \<Rightarrow> if list_head s = None then early True s else s\<lparr>awaiter := A_Expired\<rparr>)
      | A_Early result \<Rightarrow> Some (s\<lparr>awaiter := A_Done result\<rparr>)
      | A_Expired \<Rightarrow> Some (if expired s then early False s else s\<lparr>awaiter := A_Create\<rparr>)
      | A_Create \<Rightarrow> Some (create_step J s)
      | A_Begin \<Rightarrow> Some (s\<lparr>awaiter := A_Set (list_head s)\<rparr>)
      | A_Set (Some t) \<Rightarrow> Some (setReadyCallback_step t (s\<lparr>awaiter := A_Next t\<rparr>))
      | A_Set None \<Rightarrow> Some (s\<lparr>awaiter := A_Await\<rparr>)
      | A_Next t \<Rightarrow> Some (s\<lparr>awaiter := A_Set (getNext t s)\<rparr>)
      | A_Await \<Rightarrow> if source_resolved s then Some (s\<lparr>awaiter := A_Resumed\<rparr>) else None
      | A_Resumed \<Rightarrow>
          Some (deleteDelayed_step J (s\<lparr>awaiter := A_Done (completionState s = WithTrue)\<rparr>))
      | A_Done result \<Rightarrow> None)"

text \<open>A resolver sets the flag \<open>Ready\<close>, then takes the ready callback and runs it.\<close>

definition resolver_step :: "nat \<Rightarrow> join \<Rightarrow> join option" where
  "resolver_step t s =
     (case resolver s t of
        R_Start \<Rightarrow> Some (s\<lparr>flag_ready := (flag_ready s)(t := True), resolver := (resolver s)(t := R_Take)\<rparr>)
      | R_Take \<Rightarrow>
          Some (let s1 = s\<lparr>m_readyCallback := (m_readyCallback s)(t := False), resolver := (resolver s)(t := R_End)\<rparr> in
                if m_readyCallback s t then set_act (Resolver t) (Notify t) s1 else s1)
      | R_End \<Rightarrow> None)"

definition expirer_step :: "joining \<Rightarrow> join \<Rightarrow> join option" where
  "expirer_step J s =
     (case expirer s of
        E_Wait \<Rightarrow> if eternal J then None else Some (s\<lparr>expired := True, expirer := E_Fire\<rparr>)
      | E_Fire \<Rightarrow>
          Some (if subscribed s then set_act Expirer (Try False) (s\<lparr>expirer := E_End\<rparr>) else s\<lparr>expirer := E_End\<rparr>)
      | E_End \<Rightarrow> None)"

definition delete_step :: "join \<Rightarrow> join option" where
  "delete_step s = (if posted s \<and> \<not> deleted s then Some (s\<lparr>deleted := True\<rparr>) else None)"

datatype choice = Acting actor | Awaiting | Resolving nat | Expiring | Deleting

text \<open>The threads of a run: one resolver for each task.\<close>

fun takes_part :: "joining \<Rightarrow> actor \<Rightarrow> bool" where
  "takes_part J (Resolver t) \<longleftrightarrow> t < ntasks J"
| "takes_part J _ \<longleftrightarrow> True"

fun choice_step :: "joining \<Rightarrow> choice \<Rightarrow> join \<Rightarrow> join option" where
  "choice_step J (Acting a) s = (if takes_part J a then act_step J a s else None)"
| "choice_step J Awaiting s = awaiter_step J s"
| "choice_step J (Resolving t) s = (if t < ntasks J then resolver_step t s else None)"
| "choice_step J Expiring s = expirer_step J s"
| "choice_step J Deleting s = delete_step s"

text \<open>At the start the tasks of \<open>rd\<close> are ready, and the expiration may have expired, unless it is eternal.\<close>

definition joined :: "joining \<Rightarrow> (nat \<Rightarrow> bool) \<Rightarrow> bool \<Rightarrow> join" where
  "joined J rd exp =
     \<lparr>m_next = linked [0..<ntasks J], m_refs = (\<lambda>t. of_bool (t < ntasks J)), flag_ready = rd,
      m_readyCallback = (\<lambda>_. False), list_head = (if ntasks J = 0 then None else Some 0), list_null = False,
      counter = 0, completionState = CompletionNone, source_resolved = False, expired = (exp \<and> \<not> eternal J), subscribed = False,
      created = False, posted = False, deleted = False, failed = False,
      awaiter = A_Check (if ntasks J = 0 then None else Some 0),
      resolver = (\<lambda>t. if rd t then R_End else R_Start), expirer = (if exp \<and> \<not> eternal J then E_End else E_Wait),
      acts = (\<lambda>_. Idle), registered = (\<lambda>_. False), notified = (\<lambda>_. False), unlinked = 0, released = 0\<rparr>"

inductive steps :: "joining \<Rightarrow> join \<Rightarrow> join \<Rightarrow> bool" for J where
  steps_refl: "steps J s s"
| steps_step: "steps J s s' \<Longrightarrow> choice_step J c s' = Some s'' \<Longrightarrow> steps J s s''"

fun run :: "joining \<Rightarrow> choice list \<Rightarrow> join \<Rightarrow> join option" where
  "run J [] s = Some s"
| "run J (c # cs) s = (case choice_step J c s of Some s' \<Rightarrow> run J cs s' | None \<Rightarrow> None)"

definition reached :: "joining \<Rightarrow> join \<Rightarrow> bool" where
  "reached J s \<longleftrightarrow> (\<exists>rd exp. steps J (joined J rd exp) s)"

end
