(* ===== verification/TaskJoinSafety.thy ===== *)
theory TaskJoinSafety
  imports TaskJoin
begin

text \<open>
  The invariant of waiting for several tasks, its preservation by every step, and what it gives: the result
  of \<open>whenAll\<close> and \<open>whenAny\<close>, the state of the tasks when they return, and that they do return.
\<close>

lemmas join_defs = set_act_def attempt_def fetch_sub1_def early_def
lemmas join_steps = notify_step_def resolve_step_def setReadyCallback_step_def create_step_def deleteDelayed_step_def

section \<open>The invariant\<close>

definition at_pos :: "nat \<Rightarrow> nat \<Rightarrow> nat option" where
  "at_pos n r = (if r < n then Some r else None)"

lemma at_pos_simps [simp]:
  "at_pos n r = Some t \<longleftrightarrow> r = t \<and> t < n"
  "Some t = at_pos n r \<longleftrightarrow> r = t \<and> t < n"
  "at_pos n r = None \<longleftrightarrow> n \<le> r"
  "None = at_pos n r \<longleftrightarrow> n \<le> r"
  by (auto simp: at_pos_def)

text \<open>Where a reset is: the links that are cut, the references that are given back.\<close>

fun resetting :: "act \<Rightarrow> bool" where
  "resetting Idle = False" | "resetting (Notify t) = False" | "resetting (Try b) = False" | "resetting _ = True"

fun at_reset :: "nat \<Rightarrow> join \<Rightarrow> act \<Rightarrow> bool" where
  "at_reset n s ReadHead \<longleftrightarrow> unlinked s = 0 \<and> released s = 0 \<and> list_head s = at_pos n 0 \<and> \<not> list_null s"
| "at_reset n s (Loop p) \<longleftrightarrow> p = at_pos n (unlinked s) \<and> released s = unlinked s \<and> list_head s = None \<and> \<not> list_null s"
| "at_reset n s (Unlink t p) \<longleftrightarrow> t < n \<and> p = at_pos n (Suc t) \<and> unlinked s = t \<and> released s = t \<and> list_head s = None \<and> \<not> list_null s"
| "at_reset n s (ClearCallback t p) \<longleftrightarrow> t < n \<and> p = at_pos n (Suc t) \<and> unlinked s = Suc t \<and> released s = t \<and> list_head s = None \<and> \<not> list_null s"
| "at_reset n s (Release t p) \<longleftrightarrow> t < n \<and> p = at_pos n (Suc t) \<and> unlinked s = Suc t \<and> released s = t \<and> list_head s = None \<and> \<not> list_null s"
| "at_reset n s DropList \<longleftrightarrow> unlinked s = n \<and> released s = n \<and> created s \<and> \<not> list_null s"
| "at_reset n s Signal \<longleftrightarrow> unlinked s = n \<and> released s = n \<and> created s \<and> list_null s"
| "at_reset n s _ \<longleftrightarrow> True"

definition inv_links :: "nat \<Rightarrow> join \<Rightarrow> bool" where
  "inv_links n s \<longleftrightarrow>
     (\<forall>t<n. m_next s t = (if t < unlinked s then None else at_pos n (Suc t))) \<and>
     (\<forall>t<n. m_refs s t = of_bool (released s \<le> t)) \<and> unlinked s \<le> n \<and>
     (list_head s = None \<or> list_head s = at_pos n 0)"

text \<open>Who resets: the winner of the exchange, or the coroutine on an early return.\<close>

fun is_early :: "awaiter_pc \<Rightarrow> bool" where
  "is_early (A_Early b) = True" | "is_early _ = False"

definition inv_at :: "nat \<Rightarrow> join \<Rightarrow> bool" where
  "inv_at n s \<longleftrightarrow>
     (\<forall>a. resetting (acts s a) \<longrightarrow>
        at_reset n s (acts s a) \<and> \<not> source_resolved s \<and>
        (if created s then completionState s \<noteq> CompletionNone else a = Awaiter \<and> is_early (awaiter s)))"

definition inv_one :: "join \<Rightarrow> bool" where
  "inv_one s \<longleftrightarrow> (\<forall>a b. resetting (acts s a) \<longrightarrow> resetting (acts s b) \<longrightarrow> a = b)"

definition inv_phase :: "nat \<Rightarrow> join \<Rightarrow> bool" where
  "inv_phase n s \<longleftrightarrow>
     (created s \<longrightarrow> completionState s = CompletionNone \<longrightarrow>
        unlinked s = 0 \<and> released s = 0 \<and> list_head s = at_pos n 0 \<and> \<not> list_null s \<and> \<not> source_resolved s) \<and>
     (created s \<longrightarrow> completionState s \<noteq> CompletionNone \<longrightarrow> \<not> source_resolved s \<longrightarrow> (\<exists>a. resetting (acts s a))) \<and>
     (source_resolved s \<longrightarrow>
        created s \<and> completionState s \<noteq> CompletionNone \<and> list_null s \<and> unlinked s = n \<and> released s = n)"

text \<open>What the ready flags must be for the result \<open>True\<close>.\<close>

definition join_met :: "joining \<Rightarrow> (nat \<Rightarrow> bool) \<Rightarrow> bool" where
  "join_met J P \<longleftrightarrow>
     (case kind J of All \<Rightarrow> \<forall>t<ntasks J. P t | Any \<Rightarrow> ntasks J = 0 \<or> (\<exists>t<ntasks J. P t))"

text \<open>The coroutine before the state is created, and after.\<close>

definition is_before :: "joining \<Rightarrow> join \<Rightarrow> bool" where
  "is_before J s \<longleftrightarrow> (\<forall>a. acts s a = Idle) \<and> unlinked s = 0 \<and> released s = 0 \<and> list_head s = at_pos (ntasks J) 0"

fun at_before :: "joining \<Rightarrow> join \<Rightarrow> awaiter_pc \<Rightarrow> bool" where
  "at_before J s (A_Check (Some t)) \<longleftrightarrow> is_before J s \<and> t < ntasks J \<and> (kind J = All \<longrightarrow> (\<forall>u<t. flag_ready s u))"
| "at_before J s (A_Check None) \<longleftrightarrow> is_before J s \<and> (kind J = All \<longrightarrow> (\<forall>u<ntasks J. flag_ready s u))"
| "at_before J s (A_Early b) \<longleftrightarrow>
     (if b then join_met J (flag_ready s) else expired s) \<and>
     (acts s Awaiter = Idle \<longrightarrow> unlinked s = ntasks J \<and> released s = ntasks J)"
| "at_before J s A_Expired \<longleftrightarrow> is_before J s \<and> 0 < ntasks J"
| "at_before J s A_Create \<longleftrightarrow> is_before J s \<and> 0 < ntasks J"
| "at_before J s (A_Done b) \<longleftrightarrow>
     (if b then join_met J (flag_ready s) else expired s) \<and>
     acts s Awaiter = Idle \<and> unlinked s = ntasks J \<and> released s = ntasks J"
| "at_before J s _ \<longleftrightarrow> False"

fun at_after :: "joining \<Rightarrow> join \<Rightarrow> awaiter_pc \<Rightarrow> bool" where
  "at_after J s A_Begin \<longleftrightarrow> (\<forall>t. \<not> registered s t)"
| "at_after J s (A_Set (Some t)) \<longleftrightarrow> t < ntasks J \<and> (\<forall>u\<ge>t. \<not> registered s u) \<and>
     (completionState s = CompletionNone \<longrightarrow> (\<forall>u<t. registered s u))"
| "at_after J s (A_Next t) \<longleftrightarrow> t < ntasks J \<and> (\<forall>u>t. \<not> registered s u) \<and>
     (completionState s = CompletionNone \<longrightarrow> (\<forall>u\<le>t. registered s u))"
| "at_after J s (A_Set None) \<longleftrightarrow>
     (completionState s = CompletionNone \<longrightarrow> (\<forall>u<ntasks J. registered s u))"
| "at_after J s A_Await \<longleftrightarrow>
     (completionState s = CompletionNone \<longrightarrow> (\<forall>u<ntasks J. registered s u))"
| "at_after J s A_Resumed \<longleftrightarrow> source_resolved s"
| "at_after J s (A_Done b) \<longleftrightarrow> source_resolved s \<and> (b \<longleftrightarrow> completionState s = WithTrue)"
| "at_after J s _ \<longleftrightarrow> False"

definition inv_awaiter :: "joining \<Rightarrow> join \<Rightarrow> bool" where
  "inv_awaiter J s \<longleftrightarrow>
     (if created s then 0 < ntasks J \<and> at_after J s (awaiter s)
      else at_before J s (awaiter s) \<and> completionState s = CompletionNone \<and> \<not> subscribed s \<and> \<not> posted s \<and>
        \<not> list_null s \<and> (\<forall>a. \<not> resetting (acts s a) \<longrightarrow> acts s a = Idle))"

text \<open>The ready callbacks: where the one of a registered task is.\<close>

definition inv_callbacks :: "nat \<Rightarrow> join \<Rightarrow> bool" where
  "inv_callbacks n s \<longleftrightarrow>
     (\<forall>t. registered s t \<longrightarrow> t < n \<and> created s) \<and>
     (\<forall>t. m_readyCallback s t \<longrightarrow> registered s t \<and> \<not> notified s t \<and> resolver s t \<noteq> R_End) \<and>
     (\<forall>a t. acts s a = Notify t \<longrightarrow>
        registered s t \<and> \<not> notified s t \<and> \<not> m_readyCallback s t \<and> flag_ready s t) \<and>
     (\<forall>a b t. acts s a = Notify t \<longrightarrow> acts s b = Notify t \<longrightarrow> a = b) \<and>
     (\<forall>t. notified s t \<longrightarrow> registered s t \<and> flag_ready s t) \<and>
     (\<forall>t. acts s (Resolver t) \<noteq> Idle \<longrightarrow> resolver s t = R_End \<and> t < n) \<and>
     (\<forall>t<n. resolver s t = R_Start \<longleftrightarrow> \<not> flag_ready s t) \<and>
     (created s \<longrightarrow> completionState s = CompletionNone \<longrightarrow>
        (\<forall>t. registered s t \<longrightarrow> m_readyCallback s t \<or> notified s t \<or> (\<exists>a. acts s a = Notify t)))"

text \<open>The result: who tries to complete, and with what.\<close>

definition inv_result :: "joining \<Rightarrow> join \<Rightarrow> bool" where
  "inv_result J s \<longleftrightarrow>
     (\<forall>a. acts s a = Try True \<longrightarrow> created s \<and> join_met J (notified s)) \<and>
     (\<forall>a. acts s a = Try False \<longrightarrow> created s \<and> expired s) \<and>
     (completionState s = WithTrue \<longrightarrow> join_met J (notified s)) \<and>
     (completionState s = WithFalse \<longrightarrow> expired s) \<and>
     (created s \<longrightarrow> kind J = All \<longrightarrow> counter s + card {t. notified s t} = ntasks J) \<and>
     (created s \<longrightarrow> completionState s = CompletionNone \<longrightarrow> join_met J (notified s) \<longrightarrow> (\<exists>a. acts s a = Try True))"

definition inv_expiry :: "joining \<Rightarrow> join \<Rightarrow> bool" where
  "inv_expiry J s \<longleftrightarrow>
     (expirer s = E_Wait \<longleftrightarrow> \<not> expired s) \<and> (acts s Expirer \<noteq> Idle \<longrightarrow> expirer s = E_End) \<and>
     (eternal J \<longrightarrow> \<not> expired s) \<and>
     (created s \<longrightarrow> \<not> eternal J \<longrightarrow> completionState s = CompletionNone \<longrightarrow>
        subscribed s \<or> acts s Awaiter = Try False) \<and>
     (created s \<longrightarrow> expired s \<longrightarrow> completionState s = CompletionNone \<longrightarrow>
        (subscribed s \<and> (expirer s = E_Fire \<or> acts s Expirer = Try False)) \<or> acts s Awaiter = Try False) \<and>
     (failed s \<longrightarrow> \<not> has_executor J)"

definition join_inv :: "joining \<Rightarrow> join \<Rightarrow> bool" where
  "join_inv J s \<longleftrightarrow>
     inv_links (ntasks J) s \<and> inv_at (ntasks J) s \<and> inv_one s \<and> inv_phase (ntasks J) s \<and> inv_awaiter J s \<and>
     inv_callbacks (ntasks J) s \<and> inv_result J s \<and> inv_expiry J s"

section \<open>The steps as moves\<close>

text \<open>The effect of each step on the fields, with the branches resolved: what the preservation proofs look at.\<close>

inductive move :: "joining \<Rightarrow> join \<Rightarrow> join \<Rightarrow> bool" for J s where
  notify_all: "acts s a = Notify t \<Longrightarrow> kind J = All \<Longrightarrow>
    move J s (s\<lparr>notified := (notified s)(t := True), counter := fetch_sub1 (counter s),
                acts := (acts s)(a := if counter s = 1 then Try True else Idle)\<rparr>)"
| notify_any: "acts s a = Notify t \<Longrightarrow> kind J = Any \<Longrightarrow>
    move J s (s\<lparr>notified := (notified s)(t := True), acts := (acts s)(a := Try True)\<rparr>)"
| win: "acts s a = Try b \<Longrightarrow> completionState s = CompletionNone \<Longrightarrow>
    move J s (s\<lparr>completionState := (if b then WithTrue else WithFalse), acts := (acts s)(a := ReadHead)\<rparr>)"
| lose: "acts s a = Try b \<Longrightarrow> completionState s \<noteq> CompletionNone \<Longrightarrow> move J s (s\<lparr>acts := (acts s)(a := Idle)\<rparr>)"
| read_head: "acts s a = ReadHead \<Longrightarrow>
    move J s (s\<lparr>list_head := None, acts := (acts s)(a := Loop (list_head s))\<rparr>)"
| loop: "acts s a = Loop (Some t) \<Longrightarrow> move J s (s\<lparr>acts := (acts s)(a := Unlink t (m_next s t))\<rparr>)"
| loop_end: "acts s a = Loop None \<Longrightarrow> move J s (s\<lparr>acts := (acts s)(a := if created s then DropList else Idle)\<rparr>)"
| unlink: "acts s a = Unlink t p \<Longrightarrow>
    move J s (s\<lparr>unlinked := Suc t, m_next := (m_next s)(t := None), acts := (acts s)(a := ClearCallback t p)\<rparr>)"
| clear_ready: "acts s a = ClearCallback t p \<Longrightarrow> flag_ready s t \<Longrightarrow> move J s (s\<lparr>acts := (acts s)(a := Release t p)\<rparr>)"
| clear: "acts s a = ClearCallback t p \<Longrightarrow> \<not> flag_ready s t \<Longrightarrow>
    move J s (s\<lparr>m_readyCallback := (m_readyCallback s)(t := False), acts := (acts s)(a := Release t p)\<rparr>)"
| release: "acts s a = Release t p \<Longrightarrow>
    move J s (s\<lparr>released := Suc t, m_refs := (m_refs s)(t := 0), acts := (acts s)(a := Loop p)\<rparr>)"
| drop_list: "acts s a = DropList \<Longrightarrow> move J s (s\<lparr>list_null := True, acts := (acts s)(a := Signal)\<rparr>)"
| signal: "acts s a = Signal \<Longrightarrow> move J s (s\<lparr>source_resolved := True, acts := (acts s)(a := Idle)\<rparr>)"
| check: "acts s Awaiter = Idle \<Longrightarrow> awaiter s = A_Check (Some t) \<Longrightarrow> flag_ready s t \<longleftrightarrow> kind J = All \<Longrightarrow>
    move J s (s\<lparr>awaiter := A_Check (m_next s t)\<rparr>)"
| check_early: "acts s Awaiter = Idle \<Longrightarrow> awaiter s = A_Check (Some t) \<Longrightarrow> flag_ready s t \<Longrightarrow> kind J = Any \<Longrightarrow>
    move J s (s\<lparr>awaiter := A_Early True, acts := (acts s)(Awaiter := ReadHead)\<rparr>)"
| check_fails: "acts s Awaiter = Idle \<Longrightarrow> awaiter s = A_Check (Some t) \<Longrightarrow> \<not> flag_ready s t \<Longrightarrow> kind J = All \<Longrightarrow>
    move J s (s\<lparr>awaiter := A_Expired\<rparr>)"
| checked_early: "acts s Awaiter = Idle \<Longrightarrow> awaiter s = A_Check None \<Longrightarrow> kind J = All \<or> list_head s = None \<Longrightarrow>
    move J s (s\<lparr>awaiter := A_Early True, acts := (acts s)(Awaiter := ReadHead)\<rparr>)"
| checked: "acts s Awaiter = Idle \<Longrightarrow> awaiter s = A_Check None \<Longrightarrow> kind J = Any \<Longrightarrow> list_head s \<noteq> None \<Longrightarrow>
    move J s (s\<lparr>awaiter := A_Expired\<rparr>)"
| early_done: "acts s Awaiter = Idle \<Longrightarrow> awaiter s = A_Early b \<Longrightarrow> move J s (s\<lparr>awaiter := A_Done b\<rparr>)"
| expired_early: "acts s Awaiter = Idle \<Longrightarrow> awaiter s = A_Expired \<Longrightarrow> expired s \<Longrightarrow>
    move J s (s\<lparr>awaiter := A_Early False, acts := (acts s)(Awaiter := ReadHead)\<rparr>)"
| not_expired: "acts s Awaiter = Idle \<Longrightarrow> awaiter s = A_Expired \<Longrightarrow> \<not> expired s \<Longrightarrow>
    move J s (s\<lparr>awaiter := A_Create\<rparr>)"
| create_expired: "acts s Awaiter = Idle \<Longrightarrow> awaiter s = A_Create \<Longrightarrow> expired s \<Longrightarrow> \<not> eternal J \<Longrightarrow>
    c = (case kind J of All \<Rightarrow> ntasks J | Any \<Rightarrow> 0) \<Longrightarrow>
    move J s (s\<lparr>created := True, counter := c, awaiter := A_Begin, acts := (acts s)(Awaiter := Try False)\<rparr>)"
| create_eternal: "acts s Awaiter = Idle \<Longrightarrow> awaiter s = A_Create \<Longrightarrow> eternal J \<Longrightarrow>
    c = (case kind J of All \<Rightarrow> ntasks J | Any \<Rightarrow> 0) \<Longrightarrow>
    move J s (s\<lparr>created := True, counter := c, awaiter := A_Begin\<rparr>)"
| create: "acts s Awaiter = Idle \<Longrightarrow> awaiter s = A_Create \<Longrightarrow> \<not> expired s \<Longrightarrow> \<not> eternal J \<Longrightarrow>
    c = (case kind J of All \<Rightarrow> ntasks J | Any \<Rightarrow> 0) \<Longrightarrow>
    move J s (s\<lparr>created := True, counter := c, awaiter := A_Begin, subscribed := True\<rparr>)"
| begin_set: "acts s Awaiter = Idle \<Longrightarrow> awaiter s = A_Begin \<Longrightarrow> move J s (s\<lparr>awaiter := A_Set (list_head s)\<rparr>)"
| set_ready: "acts s Awaiter = Idle \<Longrightarrow> awaiter s = A_Set (Some t) \<Longrightarrow> flag_ready s t \<Longrightarrow>
    move J s (s\<lparr>awaiter := A_Next t, registered := (registered s)(t := True), acts := (acts s)(Awaiter := Notify t)\<rparr>)"
| set_callback: "acts s Awaiter = Idle \<Longrightarrow> awaiter s = A_Set (Some t) \<Longrightarrow> \<not> flag_ready s t \<Longrightarrow>
    move J s (s\<lparr>awaiter := A_Next t, registered := (registered s)(t := True),
                m_readyCallback := (m_readyCallback s)(t := True)\<rparr>)"
| set_end: "acts s Awaiter = Idle \<Longrightarrow> awaiter s = A_Set None \<Longrightarrow> move J s (s\<lparr>awaiter := A_Await\<rparr>)"
| next_set: "acts s Awaiter = Idle \<Longrightarrow> awaiter s = A_Next t \<Longrightarrow> move J s (s\<lparr>awaiter := A_Set (m_next s t)\<rparr>)"
| resume: "acts s Awaiter = Idle \<Longrightarrow> awaiter s = A_Await \<Longrightarrow> source_resolved s \<Longrightarrow>
    move J s (s\<lparr>awaiter := A_Resumed\<rparr>)"
| finish: "acts s Awaiter = Idle \<Longrightarrow> awaiter s = A_Resumed \<Longrightarrow> has_executor J \<Longrightarrow>
    move J s (s\<lparr>awaiter := A_Done (completionState s = WithTrue), failed := (failed s \<or> \<not> list_null s), posted := True\<rparr>)"
| finish_inplace: "acts s Awaiter = Idle \<Longrightarrow> awaiter s = A_Resumed \<Longrightarrow> \<not> has_executor J \<Longrightarrow>
    move J s (s\<lparr>awaiter := A_Done (completionState s = WithTrue), failed := f, deleted := True\<rparr>)"
| become_ready: "t < ntasks J \<Longrightarrow> resolver s t = R_Start \<Longrightarrow>
    move J s (s\<lparr>flag_ready := (flag_ready s)(t := True), resolver := (resolver s)(t := R_Take)\<rparr>)"
| take_callback: "t < ntasks J \<Longrightarrow> resolver s t = R_Take \<Longrightarrow> m_readyCallback s t \<Longrightarrow>
    move J s (s\<lparr>m_readyCallback := (m_readyCallback s)(t := False), resolver := (resolver s)(t := R_End),
                acts := (acts s)(Resolver t := Notify t)\<rparr>)"
| take_nothing: "t < ntasks J \<Longrightarrow> resolver s t = R_Take \<Longrightarrow> \<not> m_readyCallback s t \<Longrightarrow>
    move J s (s\<lparr>m_readyCallback := (m_readyCallback s)(t := False), resolver := (resolver s)(t := R_End)\<rparr>)"
| expire: "expirer s = E_Wait \<Longrightarrow> \<not> eternal J \<Longrightarrow> move J s (s\<lparr>expired := True, expirer := E_Fire\<rparr>)"
| fire: "expirer s = E_Fire \<Longrightarrow> subscribed s \<Longrightarrow>
    move J s (s\<lparr>expirer := E_End, acts := (acts s)(Expirer := Try False)\<rparr>)"
| fire_nothing: "expirer s = E_Fire \<Longrightarrow> \<not> subscribed s \<Longrightarrow> move J s (s\<lparr>expirer := E_End\<rparr>)"
| delete: "posted s \<Longrightarrow> \<not> deleted s \<Longrightarrow> move J s (s\<lparr>deleted := True\<rparr>)"

lemma setNext_None [simp]: "setNext t None s = Some (s\<lparr>m_next := (m_next s)(t := None)\<rparr>)"
  by (simp add: setNext_def)

lemma resettingD:
  assumes "join_inv J s" "resetting (acts s a)"
  shows "at_reset (ntasks J) s (acts s a)" "\<not> source_resolved s"
    "created s \<Longrightarrow> completionState s \<noteq> CompletionNone" "\<not> created s \<Longrightarrow> a = Awaiter \<and> is_early (awaiter s)"
    "\<And>b. b \<noteq> a \<Longrightarrow> \<not> resetting (acts s b)"
  using assms by (auto simp: join_inv_def inv_at_def inv_one_def split: if_splits)

lemma release_move:
  assumes "join_inv J s" "acts s a = Release t p"
  shows "m_refs s t = Suc 0"
  using assms resettingD(1) [OF assms(1), of a] by (auto simp: join_inv_def inv_links_def)

lemma act_moves:
  assumes "join_inv J s" "act_step J a s = Some s'"
  shows "move J s s'"
proof (cases "acts s a")
  case (Loop p)
  then show ?thesis
    using assms(2) move.loop [of s a _ J] move.loop_end [of s a J]
    by (cases p) (auto simp: act_step_def join_defs getNext_def)
next
  case (Notify t)
  then show ?thesis
    using assms(2) move.notify_all [OF Notify, of J] move.notify_any [OF Notify, of J]
    by (cases "kind J") (auto simp: act_step_def join_steps Let_def join_defs split: if_splits)
next
  case (Try b)
  then show ?thesis
    using assms(2) move.win [OF Try, of J] move.lose [OF Try, of J]
    by (auto simp: act_step_def join_steps join_defs split: if_splits)
next
  case (ClearCallback t p)
  then show ?thesis
    using assms(2) move.clear [OF ClearCallback, of J] move.clear_ready [OF ClearCallback, of J]
    by (auto simp: act_step_def join_defs clearReadyCallback_def split: if_splits)
next
  case (Release t p)
  then show ?thesis
    using assms(2) move.release [OF Release, of J] release_move [OF assms(1) Release]
    by (auto simp: act_step_def join_defs releaseRef_def)
next
  case (Unlink t p)
  then show ?thesis
    using assms(2) move.unlink [OF Unlink, of J]
    by (auto simp: act_step_def join_defs)
next
  case ReadHead
  then show ?thesis
    using assms(2) move.read_head [OF ReadHead, of J]
    by (auto simp: act_step_def join_defs)
next
  case DropList
  then show ?thesis
    using assms(2) move.drop_list [OF DropList, of J]
    by (auto simp: act_step_def join_defs)
next
  case Signal
  then show ?thesis
    using assms(2) move.signal [OF Signal, of J]
    by (auto simp: act_step_def join_defs)
next
  case Idle
  then show ?thesis using assms(2) by (simp add: act_step_def)
qed


lemma awaiter_moves:
  assumes "awaiter_step J s = Some s'"
  shows "move J s s'"
proof -
  have idle: "acts s Awaiter = Idle"
    using assms by (auto simp: awaiter_step_def split: if_splits)
  show ?thesis
  proof (cases "awaiter s")
    case (A_Check p)
    then show ?thesis
      using assms idle move.check [OF idle, of _ J] move.check_early [OF idle, of _ J] move.check_fails [OF idle, of _ J]
        move.checked_early [OF idle, of J] move.checked [OF idle, of J]
      by (cases p; cases "kind J")
        (auto simp: awaiter_step_def join_defs getNext_def Let_def split: if_splits)
  next
    case (A_Set p)
    then show ?thesis
      using assms idle move.set_ready [OF idle, of _ J] move.set_callback [OF idle, of _ J] move.set_end [OF idle, of J]
      by (cases p) (auto simp: awaiter_step_def join_steps join_defs Let_def split: if_splits)
  next
    case A_Create
    then show ?thesis
      using assms idle move.create [OF idle, of J] move.create_eternal [OF idle, of J] move.create_expired [OF idle, of J]
      by (auto simp: awaiter_step_def join_steps join_defs Let_def split: if_splits)
  next
    case A_Resumed
    then show ?thesis
      using assms idle move.finish [OF idle, of J] move.finish_inplace [OF idle, of J]
      by (auto simp: awaiter_step_def join_steps join_defs Let_def split: if_splits)
  qed (use assms idle in \<open>auto simp: awaiter_step_def join_defs getNext_def split: if_splits
         intro: move.early_done move.expired_early move.not_expired move.begin_set move.next_set move.resume\<close>)
qed

lemma choice_moves:
  assumes "join_inv J s" "choice_step J c s = Some s'"
  shows "move J s s'"
proof (cases c)
  case (Resolving t)
  then show ?thesis
    using assms(2) move.become_ready [of t J s] move.take_callback [of t J s] move.take_nothing [of t J s]
    by (auto simp: resolver_step_def join_defs Let_def split: if_splits resolver_pc.splits)
next
  case Expiring
  then show ?thesis
    using assms(2) move.expire [of s J] move.fire [of s J] move.fire_nothing [of s J]
    by (auto simp: expirer_step_def join_defs split: if_splits expirer_pc.splits)
next
  case Deleting
  then show ?thesis
    using assms(2) move.delete [of s J] by (auto simp: delete_step_def split: if_splits)
qed (use assms act_moves awaiter_moves in \<open>auto split: if_splits\<close>)

section \<open>Preservation\<close>

lemma inv_parts:
  assumes "join_inv J s"
  shows "inv_links (ntasks J) s" "inv_at (ntasks J) s" "inv_one s" "inv_phase (ntasks J) s"
    "inv_awaiter J s" "inv_callbacks (ntasks J) s" "inv_result J s" "inv_expiry J s"
  using assms by (simp_all add: join_inv_def)

lemma links_step:
  assumes "join_inv J s" "move J s s'"
  shows "inv_links (ntasks J) s'"
proof -
  note I = inv_parts(1) [OF assms(1)]
  note R = resettingD(1) [OF assms(1)]
  from assms(2) show ?thesis
  proof cases
    case (unlink a t p)
    with I R [of a] show ?thesis by (auto simp: inv_links_def less_Suc_eq)
  next
    case (release a t p)
    with I R [of a] show ?thesis by (auto simp: inv_links_def)
  qed (use I in \<open>simp_all add: inv_links_def\<close>)
qed

lemma expiry_upd:
  assumes "inv_expiry J s" "acts s a = y" "y \<noteq> Idle" "y = Try False \<longrightarrow> completionState s' \<noteq> CompletionNone"
    "\<And>b. b \<noteq> a \<Longrightarrow> acts s' b = acts s b"
    "completionState s' = CompletionNone \<longrightarrow> completionState s = CompletionNone"
    "expirer s' = expirer s" "expired s' = expired s" "subscribed s' = subscribed s" "created s' = created s" "failed s' = failed s"
  shows "inv_expiry J s'"
proof -
  have "acts s' b = Try False" if "acts s b = Try False" "completionState s' = CompletionNone" for b
    using assms(2,4) assms(5) [of b] that by (cases "b = a") auto
  moreover have "acts s Expirer \<noteq> Idle" if "acts s' Expirer \<noteq> Idle"
    using assms(2,3) assms(5) [of Expirer] that by (cases "Expirer = a") auto
  ultimately show ?thesis
    using assms(1,6-) unfolding inv_expiry_def by (metis (no_types))
qed

lemma expiry_step:
  assumes "join_inv J s" "move J s s'"
  shows "inv_expiry J s'"
proof -
  note I = inv_parts(8) [OF assms(1)] and A = inv_parts(5) [OF assms(1)] and D = inv_parts(4) [OF assms(1)]
  from assms(2) show ?thesis
  proof cases
    case finish
    with I A D show ?thesis by (auto simp: inv_expiry_def inv_awaiter_def inv_phase_def split: if_splits)
  next
    case finish_inplace
    with I A D show ?thesis by (auto simp: inv_expiry_def inv_awaiter_def inv_phase_def split: if_splits)
  qed ((rule expiry_upd [OF I], assumption, simp_all; fail) | (use I in \<open>auto simp: inv_expiry_def; fail\<close>))+
qed

text \<open>At most one thread resets.\<close>

definition one_act :: "(actor \<Rightarrow> act) \<Rightarrow> bool" where
  "one_act f \<longleftrightarrow> (\<forall>a b. resetting (f a) \<longrightarrow> resetting (f b) \<longrightarrow> a = b)"

lemma one_upd:
  "one_act f \<Longrightarrow> (resetting x \<Longrightarrow> resetting (f a) \<or> (\<forall>b. \<not> resetting (f b))) \<Longrightarrow> one_act (f(a := x))"
  by (auto simp: one_act_def)

lemma one_step:
  assumes "join_inv J s" "move J s s'"
  shows "inv_one s'"
proof -
  have I: "one_act (acts s)" using inv_parts(3) [OF assms(1)] by (simp add: one_act_def inv_one_def)
  have idle: "\<not> resetting (acts s a)" if "acts s Awaiter = Idle" "\<not> created s" for a
    using resettingD(4) [OF assms(1), of a] that by auto
  have none: "\<not> resetting (acts s a)" if "completionState s = CompletionNone" "created s" for a
    using resettingD(3) [OF assms(1), of a] that by auto
  have created: "created s" if "acts s a = Try b" for a b
    using inv_parts(7) [OF assms(1)] that by (cases b) (auto simp: inv_result_def)
  have before: "\<not> created s" if "awaiter s \<in> range A_Check \<union> {A_Expired}"
    using inv_parts(5) [OF assms(1)] that by (auto simp: inv_awaiter_def split: if_splits)
  note U = one_upd [OF I]
  from assms(2) have "one_act (acts s')"
  proof cases
    case (win a b)
    with none created U [of ReadHead a] show ?thesis by auto
  next
    case (check_early t)
    with idle before U [of ReadHead Awaiter] show ?thesis by auto
  next
    case checked_early
    with idle before U [of ReadHead Awaiter] show ?thesis by auto
  next
    case expired_early
    with idle before U [of ReadHead Awaiter] show ?thesis by auto
  qed ((simp add: I del: fun_upd_apply; fail) | (simp del: fun_upd_apply split del: if_split, rule U, simp split: if_splits))+
  then show ?thesis by (simp add: one_act_def inv_one_def)
qed

definition at_ok :: "nat \<Rightarrow> join \<Rightarrow> actor \<Rightarrow> act \<Rightarrow> bool" where
  "at_ok n s a x \<longleftrightarrow> at_reset n s x \<and> \<not> source_resolved s \<and>
     (if created s then completionState s \<noteq> CompletionNone else a = Awaiter \<and> is_early (awaiter s))"

definition at_key where
  "at_key s = (unlinked s, released s, list_head s, list_null s, created s, source_resolved s,
     completionState s = CompletionNone, is_early (awaiter s))"

lemma at_reset_key:
  "unlinked s' = unlinked s \<Longrightarrow> released s' = released s \<Longrightarrow> list_head s' = list_head s \<Longrightarrow>
    list_null s' = list_null s \<Longrightarrow> created s' = created s \<Longrightarrow> at_reset n s' x = at_reset n s x"
  by (cases x) auto

lemma at_same:
  assumes "inv_at n s" "at_key s' = at_key s" "\<And>b. resetting (acts s' b) \<Longrightarrow> acts s' b = acts s b"
  shows "inv_at n s'"
proof -
  have "at_reset n s' x = at_reset n s x" for x
    using assms(2) by (intro at_reset_key) (simp_all add: at_key_def)
  then show ?thesis
    using assms unfolding inv_at_def at_key_def by (metis prod.inject)
qed

lemma at_moved:
  assumes "\<And>b. b \<noteq> a \<Longrightarrow> \<not> resetting (acts s b)" "acts s' = (acts s)(a := x)" "resetting x \<longrightarrow> at_ok n s' a x"
  shows "inv_at n s'"
  using assms by (auto simp: inv_at_def at_ok_def)

lemma try_created: "join_inv J s \<Longrightarrow> acts s a = Try b \<Longrightarrow> created s"
  by (cases b) (auto simp: inv_result_def dest!: inv_parts(7))

lemma before_created:
  "join_inv J s \<Longrightarrow> awaiter s \<in> range A_Check \<union> {A_Expired, A_Create} \<Longrightarrow> \<not> created s \<and> is_before J s \<and> \<not> list_null s"
  by (auto simp: inv_awaiter_def split: if_splits option.splits dest!: inv_parts(5))
    (metis at_before.simps(1,2) not_Some_eq)

lemma source_created: "join_inv J s \<Longrightarrow> source_resolved s \<Longrightarrow> created s"
  by (auto simp: inv_phase_def dest!: inv_parts(4))

lemma at_step:
  assumes "join_inv J s" "move J s s'"
  shows "inv_at (ntasks J) s'"
proof -
  note I = inv_parts(2) [OF assms(1)] and L = inv_parts(1) [OF assms(1), unfolded inv_links_def]
    and P = inv_parts(4) [OF assms(1), unfolded inv_phase_def]
  note R = resettingD [OF assms(1)]
  have quiet: "\<not> resetting (acts s b)" if "created s" "completionState s = CompletionNone" for b
    using R(3) [of b] that by auto
  have idle: "\<not> resetting (acts s b)" if "\<not> created s" "acts s Awaiter = Idle" for b
    using R(4) [of b] that by auto
  note B = before_created [OF assms(1)] and T = try_created [OF assms(1)] and C = source_created [OF assms(1)]
  from assms(2) show ?thesis
  proof cases
    case (win a b)
    then show ?thesis
      using T [of a b] quiet P by (intro at_moved [of a s _ ReadHead]) (auto simp: at_ok_def)
  next
    case (read_head a)
    then show ?thesis
      using R [of a] by (intro at_moved [of a s _ "Loop (list_head s)"]) (auto simp: at_ok_def)
  next
    case (loop a t)
    then show ?thesis
      using R [of a] L by (intro at_moved [of a s _ "Unlink t (m_next s t)"]) (auto simp: at_ok_def)
  next
    case (loop_end a)
    then show ?thesis
      using R [of a] L by (intro at_moved [of a s _ "if created s then DropList else Idle"]) (auto simp: at_ok_def)
  next
    case (unlink a t p)
    then show ?thesis
      using R [of a] by (intro at_moved [of a s _ "ClearCallback t p"]) (auto simp: at_ok_def)
  next
    case (clear_ready a t p)
    then show ?thesis
      using R [of a] by (intro at_moved [of a s _ "Release t p"]) (auto simp: at_ok_def)
  next
    case (clear a t p)
    then show ?thesis
      using R [of a] by (intro at_moved [of a s _ "Release t p"]) (auto simp: at_ok_def)
  next
    case (release a t p)
    then show ?thesis
      using R [of a] by (intro at_moved [of a s _ "Loop p"]) (auto simp: at_ok_def)
  next
    case (drop_list a)
    then show ?thesis
      using R [of a] by (intro at_moved [of a s _ Signal]) (auto simp: at_ok_def)
  next
    case (signal a)
    then show ?thesis
      using R [of a] by (intro at_moved [of a s _ Idle]) (auto simp: at_ok_def)
  next
    case (check_early t)
    then show ?thesis
      using B C idle by (intro at_moved [of Awaiter s _ ReadHead]) (auto simp: at_ok_def is_before_def)
  next
    case checked_early
    then show ?thesis
      using B C idle by (intro at_moved [of Awaiter s _ ReadHead]) (auto simp: at_ok_def is_before_def)
  next
    case expired_early
    then show ?thesis
      using B C idle by (intro at_moved [of Awaiter s _ ReadHead]) (auto simp: at_ok_def is_before_def)
  next
    case (early_done b)
    then show ?thesis
      using idle inv_parts(5) [OF assms(1)]
      by (auto simp: inv_at_def inv_awaiter_def split: if_splits)
  next
    case create_expired
    then show ?thesis using B by (auto simp: inv_at_def is_before_def)
  next
    case create_eternal
    then show ?thesis using B by (auto simp: inv_at_def is_before_def)
  next
    case create
    then show ?thesis using B by (auto simp: inv_at_def is_before_def)
  qed (rule at_same [OF I]; simp add: at_key_def split: if_splits)+
qed


lemma callback_idle:
  "join_inv J s \<Longrightarrow> resolver s t \<noteq> R_End \<Longrightarrow> acts s (Resolver t) = Idle"
  "join_inv J s \<Longrightarrow> expirer s \<noteq> E_End \<Longrightarrow> acts s Expirer = Idle"
  using inv_parts(6) [of J s] inv_parts(8) [of J s] unfolding inv_callbacks_def inv_expiry_def by blast+

lemma phase_moved:
  assumes "acts s' a = x" "resetting x" "\<not> source_resolved s'" "created s' \<longrightarrow> completionState s' \<noteq> CompletionNone"
  shows "inv_phase n s'"
  using assms by (auto simp: inv_phase_def)

definition phase_key where
  "phase_key s = (unlinked s, released s, list_head s, list_null s, created s, source_resolved s, completionState s)"

lemma phase_same:
  assumes "inv_phase n s" "phase_key s' = phase_key s" "\<And>b. resetting (acts s b) \<Longrightarrow> resetting (acts s' b)"
  shows "inv_phase n s'"
  using assms(1,2) assms(3) unfolding inv_phase_def phase_key_def by (metis prod.inject)

lemma phase_step:
  assumes "join_inv J s" "move J s s'"
  shows "inv_phase (ntasks J) s'"
proof -
  note I = inv_parts(4) [OF assms(1)] and A = inv_parts(5) [OF assms(1)]
  note R = resettingD [OF assms(1)]
  note B = before_created [OF assms(1)] and T = try_created [OF assms(1)] and C = source_created [OF assms(1)]
  from assms(2) show ?thesis
  proof cases
    case (win a b)
    then show ?thesis
      using T [of a b] I by (intro phase_moved [of _ a ReadHead]) (auto simp: inv_phase_def)
  next
    case (loop_end a)
    then show ?thesis
      using R [of a] by (cases "created s") (auto simp: inv_phase_def intro!: exI [of _ a])
  next
    case (signal a)
    then show ?thesis using R [of a] by (auto simp: inv_phase_def)
  next
    case (check_early t)
    then show ?thesis using B C by (intro phase_moved [of _ Awaiter ReadHead]) auto
  next
    case checked_early
    then show ?thesis using B C by (intro phase_moved [of _ Awaiter ReadHead]) auto
  next
    case expired_early
    then show ?thesis using B C by (intro phase_moved [of _ Awaiter ReadHead]) auto
  next
    case create_expired
    then show ?thesis using B C A by (auto simp: inv_phase_def is_before_def inv_awaiter_def)
  next
    case create_eternal
    then show ?thesis using B C A by (auto simp: inv_phase_def is_before_def inv_awaiter_def)
  next
    case create
    then show ?thesis using B C A by (auto simp: inv_phase_def is_before_def inv_awaiter_def)
  next
    case (take_callback t)
    then show ?thesis using callback_idle(1) [OF assms(1), of t] by (intro phase_same [OF I]) (auto simp: phase_key_def)
  next
    case fire
    then show ?thesis using callback_idle(2) [OF assms(1)] by (intro phase_same [OF I]) (auto simp: phase_key_def)
  next
    case (read_head a)
    then show ?thesis using R [of a] by (intro phase_moved [of _ a "Loop (list_head s)"]) simp_all
  next
    case (unlink a t p)
    then show ?thesis using R [of a] by (intro phase_moved [of _ a "ClearCallback t p"]) simp_all
  next
    case (release a t p)
    then show ?thesis using R [of a] by (intro phase_moved [of _ a "Loop p"]) simp_all
  next
    case (drop_list a)
    then show ?thesis using R [of a] by (intro phase_moved [of _ a Signal]) simp_all
  qed (rule phase_same [OF I]; auto simp: phase_key_def split: if_splits)+
qed

lemma join_met_mono: "join_met J P \<Longrightarrow> (\<And>t. P t \<Longrightarrow> Q t) \<Longrightarrow> join_met J Q"
  by (auto simp: join_met_def split: join_kind.splits)

definition before_key where
  "before_key s = (unlinked s, released s, list_head s, acts s)"

lemma before_mono:
  assumes "at_before J s p" "before_key s' = before_key s"
    "\<And>t. flag_ready s t \<Longrightarrow> flag_ready s' t" "expired s \<Longrightarrow> expired s'"
  shows "at_before J s' p"
  using assms join_met_mono [of J "flag_ready s" "flag_ready s'"]
  by (cases "(J, s, p)" rule: at_before.cases) (auto simp: before_key_def is_before_def)

lemma after_mono:
  assumes "at_after J s p" "registered s' = registered s"
    "completionState s' = completionState s \<or> completionState s = CompletionNone \<and> \<not> source_resolved s"
    "source_resolved s \<Longrightarrow> source_resolved s'"
  shows "at_after J s' p"
  using assms by (cases "(J, s, p)" rule: at_after.cases) auto

lemma before_step:
  assumes "join_inv J s" "move J s s'" "\<not> created s"
  shows "inv_awaiter J s'"
proof -
  have I: "at_before J s (awaiter s)" "completionState s = CompletionNone" "\<not> subscribed s" "\<not> posted s"
      "\<not> list_null s" "\<forall>a. \<not> resetting (acts s a) \<longrightarrow> acts s a = Idle"
    using inv_parts(5) [OF assms(1)] assms(3) by (auto simp: inv_awaiter_def)
  have idle: "\<And>a. \<not> resetting (acts s a) \<Longrightarrow> acts s a = Idle" using I(6) by blast
  have quiet: "acts s a \<noteq> Notify t \<and> acts s a \<noteq> Try b" for a t b
    using idle [of a] by (cases "acts s a") auto
  have none: "\<not> m_readyCallback s t" for t
    using inv_parts(6) [OF assms(1)] assms(3) unfolding inv_callbacks_def by blast
  note L = inv_parts(1) [OF assms(1), unfolded inv_links_def]
  note R = resettingD [OF assms(1)]
  have early: "\<exists>b. awaiter s = A_Early b \<and> a = Awaiter" if "resetting (acts s a)" for a
    using R(4) [OF that assms(3)] by (cases "awaiter s") auto
  have keep: "inv_awaiter J s'" if "before_key s' = before_key s" "\<And>t. flag_ready s t \<Longrightarrow> flag_ready s' t"
    "expired s \<Longrightarrow> expired s'" "awaiter s' = awaiter s" "created s' = created s"
    "completionState s' = completionState s" "subscribed s' = subscribed s" "posted s' = posted s" "list_null s' = list_null s"
    using before_mono [OF I(1), of s'] that I assms(3) by (auto simp: inv_awaiter_def before_key_def)
  have reset: "inv_awaiter J s'" if "resetting (acts s a)" "resetting x \<or> x = Idle \<and> unlinked s' = ntasks J \<and> released s' = ntasks J"
    "acts s' = (acts s)(a := x)" "flag_ready s' = flag_ready s" "expired s' = expired s" "awaiter s' = awaiter s"
    "created s' = created s" "completionState s' = completionState s" "subscribed s' = subscribed s"
    "posted s' = posted s" "list_null s' = list_null s" for a x
    using that early [OF that(1)] I assms(3) by (auto simp: inv_awaiter_def split: if_splits)
  from assms(2) show ?thesis
  proof cases
    case (read_head a)
    then show ?thesis by (intro reset [of a "Loop (list_head s)"]) simp_all
  next
    case (loop a t)
    then show ?thesis by (intro reset [of a "Unlink t (m_next s t)"]) simp_all
  next
    case (loop_end a)
    then show ?thesis using R(1) [of a] L assms(3) by (intro reset [of a Idle]) auto
  next
    case (unlink a t p)
    then show ?thesis by (intro reset [of a "ClearCallback t p"]) simp_all
  next
    case (clear_ready a t p)
    then show ?thesis by (intro reset [of a "Release t p"]) simp_all
  next
    case (clear a t p)
    then show ?thesis by (intro reset [of a "Release t p"]) simp_all
  next
    case (release a t p)
    then show ?thesis by (intro reset [of a "Loop p"]) simp_all
  next
    case (drop_list a)
    then show ?thesis using R(1) [of a] assms(3) by simp
  next
    case (signal a)
    then show ?thesis using R(1) [of a] assms(3) by simp
  next
    case (check t)
    then show ?thesis
      using I L assms(3)
      by (cases "ntasks J = Suc t") (auto simp: inv_awaiter_def is_before_def at_pos_def less_Suc_eq split: if_splits)
  next
    case (check_early t)
    then show ?thesis using I assms(3) by (auto simp: inv_awaiter_def is_before_def join_met_def)
  next
    case (check_fails t)
    then show ?thesis using I assms(3) by (auto simp: inv_awaiter_def is_before_def)
  next
    case checked_early
    then show ?thesis using I assms(3) by (auto simp: inv_awaiter_def is_before_def join_met_def split: join_kind.splits)
  next
    case checked
    then show ?thesis using I assms(3) by (auto simp: inv_awaiter_def is_before_def)
  next
    case (early_done b)
    then show ?thesis using I assms(3) by (auto simp: inv_awaiter_def)
  next
    case expired_early
    then show ?thesis using I assms(3) by (auto simp: inv_awaiter_def is_before_def)
  next
    case not_expired
    then show ?thesis using I assms(3) by (auto simp: inv_awaiter_def is_before_def)
  next
    case create_expired
    then show ?thesis using I inv_parts(6) [OF assms(1)] assms(3) by (auto simp: inv_awaiter_def inv_callbacks_def)
  next
    case create_eternal
    then show ?thesis using I inv_parts(6) [OF assms(1)] assms(3) by (auto simp: inv_awaiter_def inv_callbacks_def)
  next
    case create
    then show ?thesis using I inv_parts(6) [OF assms(1)] assms(3) by (auto simp: inv_awaiter_def inv_callbacks_def)
  next
    case become_ready
    then show ?thesis by (intro keep) (simp_all add: before_key_def)
  next
    case take_nothing
    then show ?thesis by (intro keep) (simp_all add: before_key_def)
  next
    case expire
    then show ?thesis by (intro keep) (simp_all add: before_key_def)
  next
    case fire_nothing
    then show ?thesis by (intro keep) (simp_all add: before_key_def)
  qed (use I none quiet source_created [OF assms(1)] assms(3) in auto)
qed


lemma after_step:
  assumes "join_inv J s" "move J s s'" "created s"
  shows "inv_awaiter J s'"
proof -
  have I: "0 < ntasks J" "at_after J s (awaiter s)"
    using inv_parts(5) [OF assms(1)] assms(3) by (auto simp: inv_awaiter_def)
  note P = inv_parts(4) [OF assms(1), unfolded inv_phase_def] and L = inv_parts(1) [OF assms(1), unfolded inv_links_def]
  have keep: "inv_awaiter J s'" if "registered s' = registered s"
    "completionState s' = completionState s \<or> completionState s = CompletionNone \<and> \<not> source_resolved s"
    "source_resolved s \<Longrightarrow> source_resolved s'" "awaiter s' = awaiter s" "created s' = created s"
    using after_mono [OF I(2), of s'] that I assms(3) by (simp add: inv_awaiter_def)
  from assms(2) show ?thesis
  proof cases
    case (win a b)
    then show ?thesis using P assms(3) by (intro keep) auto
  next
    case begin_set
    have "list_head s = None \<or> list_head s = Some 0"
      using L I(1) by (auto simp: at_pos_def)
    moreover have "completionState s = CompletionNone \<Longrightarrow> list_head s = Some 0"
      using P I(1) assms(3) by (auto simp: at_pos_def)
    ultimately show ?thesis using I assms(3) begin_set by (auto simp: inv_awaiter_def)
  next
    case (set_ready t)
    then show ?thesis using I assms(3) by (auto simp: inv_awaiter_def)
  next
    case (set_callback t)
    then show ?thesis using I assms(3) by (auto simp: inv_awaiter_def)
  next
    case set_end
    then show ?thesis using I assms(3) by (auto simp: inv_awaiter_def)
  next
    case (next_set t)
    then show ?thesis using I P L assms(3) by (auto simp: inv_awaiter_def at_pos_def less_Suc_eq_le split: if_splits)
  next
    case resume
    then show ?thesis using I assms(3) by (auto simp: inv_awaiter_def)
  next
    case finish
    then show ?thesis using I assms(3) by (auto simp: inv_awaiter_def)
  next
    case finish_inplace
    then show ?thesis using I assms(3) by (auto simp: inv_awaiter_def)
  qed ((rule keep; simp; fail) | (insert I assms(3), simp add: inv_awaiter_def; fail))+
qed

lemma callbacksD:
  assumes "inv_callbacks n s"
  shows "registered s t \<Longrightarrow> t < n \<and> created s"
    and "m_readyCallback s t \<Longrightarrow> registered s t \<and> \<not> notified s t \<and> resolver s t \<noteq> R_End"
    and "acts s a = Notify t \<Longrightarrow> registered s t \<and> \<not> notified s t \<and> \<not> m_readyCallback s t \<and> flag_ready s t"
    and "acts s a = Notify t \<Longrightarrow> acts s b = Notify t \<Longrightarrow> a = b"
    and "notified s t \<Longrightarrow> registered s t \<and> flag_ready s t"
    and "acts s (Resolver t) \<noteq> Idle \<Longrightarrow> resolver s t = R_End \<and> t < n"
    and "t < n \<Longrightarrow> resolver s t = R_Start \<longleftrightarrow> \<not> flag_ready s t"
    and "created s \<Longrightarrow> completionState s = CompletionNone \<Longrightarrow> registered s t \<Longrightarrow>
       m_readyCallback s t \<or> notified s t \<or> (\<exists>a. acts s a = Notify t)"
  using assms unfolding inv_callbacks_def by blast+

lemma callbacksI:
  assumes "\<And>t. registered s t \<Longrightarrow> t < n \<and> created s"
    and "\<And>t. m_readyCallback s t \<Longrightarrow> registered s t \<and> \<not> notified s t \<and> resolver s t \<noteq> R_End"
    and "\<And>a t. acts s a = Notify t \<Longrightarrow> registered s t \<and> \<not> notified s t \<and> \<not> m_readyCallback s t \<and> flag_ready s t"
    and "\<And>a b t. acts s a = Notify t \<Longrightarrow> acts s b = Notify t \<Longrightarrow> a = b"
    and "\<And>t. notified s t \<Longrightarrow> registered s t \<and> flag_ready s t"
    and "\<And>t. acts s (Resolver t) \<noteq> Idle \<Longrightarrow> resolver s t = R_End \<and> t < n"
    and "\<And>t. t < n \<Longrightarrow> resolver s t = R_Start \<longleftrightarrow> \<not> flag_ready s t"
    and "\<And>t. created s \<Longrightarrow> completionState s = CompletionNone \<Longrightarrow> registered s t \<Longrightarrow>
       m_readyCallback s t \<or> notified s t \<or> (\<exists>a. acts s a = Notify t)"
  shows "inv_callbacks n s"
  using assms unfolding inv_callbacks_def by blast

definition callback_key where
  "callback_key s = (registered s, m_readyCallback s, notified s, flag_ready s, resolver s, created s)"

lemma callbacks_same:
  assumes I: "inv_callbacks n s" and "callback_key s' = callback_key s"
    and c: "completionState s' = CompletionNone \<Longrightarrow> completionState s = CompletionNone"
    and n: "\<And>a t. acts s' a = Notify t \<longleftrightarrow> acts s a = Notify t"
    and i: "\<And>t. acts s' (Resolver t) \<noteq> Idle \<Longrightarrow> acts s (Resolver t) \<noteq> Idle"
  shows "inv_callbacks n s'"
proof -
  note K = callbacksD [OF I]
  have eqs: "registered s' = registered s" "m_readyCallback s' = m_readyCallback s" "notified s' = notified s"
    "flag_ready s' = flag_ready s" "resolver s' = resolver s" "created s' = created s"
    using assms(2) by (simp_all add: callback_key_def)
  show ?thesis
    by (rule callbacksI; unfold eqs n) (fact K | rule K(6), erule i | rule K(8); (assumption | erule c))+
qed

lemma callbacks_step:
  assumes "join_inv J s" "move J s s'"
  shows "inv_callbacks (ntasks J) s'"
proof -
  note I = inv_parts(6) [OF assms(1)] and A = inv_parts(5) [OF assms(1)]
  note K = callbacksD [OF I]
  have notify: "inv_callbacks (ntasks J) s'"
    if n: "acts s a = Notify t" "acts s' = (acts s)(a := x)" "\<And>u. x \<noteq> Notify u" "notified s' = (notified s)(t := True)"
      "registered s' = registered s" "m_readyCallback s' = m_readyCallback s" "flag_ready s' = flag_ready s"
      "resolver s' = resolver s" "created s' = created s" "completionState s' = completionState s" for a t x
  proof -
    have b: "acts s' b = Notify u \<Longrightarrow> acts s b = Notify u \<and> u \<noteq> t" for b u
      using n(1-3) K(4) [of b t a] by (cases "b = a") auto
    have r: "acts s' (Resolver u) \<noteq> Idle \<Longrightarrow> acts s (Resolver u) \<noteq> Idle" for u
      using n(1,2) by (cases "Resolver u = a") auto
    have o: "acts s b = Notify u \<Longrightarrow> acts s' b = Notify u \<or> u = t" for b u
      using n(1,2) by (cases "b = a") auto
    show ?thesis
      by (rule callbacksI; (unfold n(4-))?)
        (fact K(1), metis K(2,3) n(1) fun_upd_apply, metis b K(3) fun_upd_apply, metis b K(4),
          metis K(3,5) n(1) fun_upd_apply, metis K(6) r, fact K(7), metis K(8) o fun_upd_apply)
  qed
  have same: "inv_callbacks (ntasks J) s'" if "callback_key s' = callback_key s"
    "completionState s' = CompletionNone \<Longrightarrow> completionState s = CompletionNone"
    "acts s' = (acts s)(a := x)" "\<forall>u. x \<noteq> Notify u" "\<forall>u. acts s a \<noteq> Notify u"
    "acts s a \<noteq> Idle \<or> x = Idle \<or> (\<forall>t. a \<noteq> Resolver t)" for a x
    using that by (intro callbacks_same [OF I that(1,2)]) (auto split: if_splits)
  have idle: "inv_callbacks (ntasks J) s'" if "callback_key s' = callback_key s"
    "completionState s' = CompletionNone \<Longrightarrow> completionState s = CompletionNone" "acts s' = acts s"
    using that by (intro callbacks_same [OF I that(1,2)]) auto
  have new: "inv_callbacks (ntasks J) s'" if "\<not> created s"
    "callback_key s' = (registered s, m_readyCallback s, notified s, flag_ready s, resolver s, True)"
    "acts s' = acts s \<or> acts s Awaiter = Idle \<and> acts s' = (acts s)(Awaiter := Try False)"
  proof -
    have eqs: "registered s' = registered s" "m_readyCallback s' = m_readyCallback s" "notified s' = notified s"
      "flag_ready s' = flag_ready s" "resolver s' = resolver s" "created s' = True"
      using that(2) by (simp_all add: callback_key_def)
    have n: "acts s' a = Notify t \<longleftrightarrow> acts s a = Notify t" "acts s' (Resolver t) = acts s (Resolver t)" for a t
      using that(3) by (auto split: if_splits)
    show ?thesis
      by (rule callbacksI; unfold eqs n)
        (metis K(1) that(1), fact K(2), fact K(3), fact K(4), fact K(5), fact K(6), fact K(7), metis K(1) that(1))
  qed
  have taken: "\<forall>u. registered s u \<longrightarrow> u < ntasks J" using K(1) by blast
  from assms(2) show ?thesis
  proof cases
    case (notify_all a t)
    then show ?thesis by (intro notify [of a t "if counter s = 1 then Try True else Idle"]) (simp_all split: if_splits)
  next
    case (notify_any a t)
    then show ?thesis by (intro notify [of a t "Try True"]) (simp_all split: if_splits)
  next
    case (win a b)
    then show ?thesis by (intro same [of a ReadHead]) (simp_all add: callback_key_def)
  next
    case (lose a b)
    then show ?thesis by (intro same [of a Idle]) (simp_all add: callback_key_def)
  next
    case (read_head a)
    then show ?thesis by (intro same [of a "Loop (list_head s)"]) (simp_all add: callback_key_def)
  next
    case (loop a t)
    then show ?thesis by (intro same [of a "Unlink t (m_next s t)"]) (simp_all add: callback_key_def)
  next
    case (loop_end a)
    then show ?thesis by (intro same [of a "if created s then DropList else Idle"]) (simp_all add: callback_key_def)
  next
    case (unlink a t p)
    then show ?thesis by (intro same [of a "ClearCallback t p"]) (simp_all add: callback_key_def)
  next
    case (clear_ready a t p)
    then show ?thesis by (intro same [of a "Release t p"]) (simp_all add: callback_key_def)
  next
    case (release a t p)
    then show ?thesis by (intro same [of a "Loop p"]) (simp_all add: callback_key_def)
  next
    case (drop_list a)
    then show ?thesis by (intro same [of a Signal]) (simp_all add: callback_key_def)
  next
    case (signal a)
    then show ?thesis by (intro same [of a Idle]) (simp_all add: callback_key_def)
  next
    case (check_early t)
    then show ?thesis by (intro same [of Awaiter ReadHead]) (simp_all add: callback_key_def)
  next
    case checked_early
    then show ?thesis by (intro same [of Awaiter ReadHead]) (simp_all add: callback_key_def)
  next
    case expired_early
    then show ?thesis by (intro same [of Awaiter ReadHead]) (simp_all add: callback_key_def)
  next
    case create_expired
    then show ?thesis using before_created [OF assms(1)] by (intro new) (simp_all add: callback_key_def)
  next
    case create_eternal
    then show ?thesis using before_created [OF assms(1)] by (intro new) (simp_all add: callback_key_def)
  next
    case create
    then show ?thesis using before_created [OF assms(1)] by (intro new) (simp_all add: callback_key_def)
  next
    case fire
    then show ?thesis using callback_idle(2) [OF assms(1)] by (intro same [of Expirer "Try False"]) (simp_all add: callback_key_def)
  next
    case (clear a t p)
    then have busy: "created s \<Longrightarrow> completionState s \<noteq> CompletionNone"
      using resettingD(3) [OF assms(1), of a] by simp
    have n: "acts s' b = Notify u \<longleftrightarrow> acts s b = Notify u" "acts s' (Resolver u) \<noteq> Idle \<longleftrightarrow> acts s (Resolver u) \<noteq> Idle" for b u
      using clear by auto
    have eqs: "registered s' = registered s" "m_readyCallback s' = (m_readyCallback s)(t := False)" "notified s' = notified s"
      "flag_ready s' = flag_ready s" "resolver s' = resolver s" "created s' = created s" "completionState s' = completionState s"
      using clear by simp_all
    show ?thesis
      by (rule callbacksI; (unfold eqs n)?)
        (fact K(1), metis K(2) fun_upd_apply, metis K(3) fun_upd_apply, fact K(4), fact K(5), fact K(6), fact K(7), metis busy)
  next
    case (set_ready t)
    then have t: "t < ntasks J" "\<not> registered s t" "created s"
      using A by (auto simp: inv_awaiter_def split: if_splits)
    have n: "acts s' b = Notify u \<longleftrightarrow> acts s b = Notify u \<or> b = Awaiter \<and> u = t" "acts s' (Resolver u) = acts s (Resolver u)" for b u
      using set_ready by auto
    have eqs: "registered s' = (registered s)(t := True)" "m_readyCallback s' = m_readyCallback s" "notified s' = notified s"
      "flag_ready s' = flag_ready s" "resolver s' = resolver s" "created s' = created s" "completionState s' = completionState s"
      using set_ready by simp_all
    show ?thesis
      by (rule callbacksI; (unfold eqs n)?)
        (metis K(1) t fun_upd_apply, metis K(2) fun_upd_apply, metis K(2,3,5) t(2) set_ready(4) fun_upd_apply,
          metis K(3,4) t(2), metis K(5) fun_upd_apply, fact K(6), fact K(7), metis K(8) fun_upd_apply)
  next
    case (set_callback t)
    then have t: "t < ntasks J" "\<not> registered s t" "created s"
      using A by (auto simp: inv_awaiter_def split: if_splits)
    then have r: "resolver s t \<noteq> R_End"
      using set_callback K(7) [of t] by auto
    have eqs: "registered s' = (registered s)(t := True)" "m_readyCallback s' = (m_readyCallback s)(t := True)"
      "notified s' = notified s" "flag_ready s' = flag_ready s" "resolver s' = resolver s" "created s' = created s"
      "completionState s' = completionState s" "acts s' = acts s"
      using set_callback by simp_all
    show ?thesis
      by (rule callbacksI; (unfold eqs)?)
        (metis K(1) t fun_upd_apply, metis K(2,5) t r fun_upd_apply, metis K(3) t(2) fun_upd_apply,
          fact K(4), metis K(5) fun_upd_apply, fact K(6), fact K(7), metis K(8) fun_upd_apply)
  next
    case (become_ready t)
    then have i: "acts s (Resolver t) = Idle" using K(6) [of t] by auto
    have eqs: "registered s' = registered s" "m_readyCallback s' = m_readyCallback s" "notified s' = notified s"
      "flag_ready s' = (flag_ready s)(t := True)" "resolver s' = (resolver s)(t := R_Take)" "created s' = created s"
      "completionState s' = completionState s" "acts s' = acts s"
      using become_ready by simp_all
    show ?thesis
      by (rule callbacksI; (unfold eqs)?)
        (fact K(1), metis K(2) fun_upd_apply resolver_pc.distinct(5), metis K(3) fun_upd_apply, fact K(4),
          metis K(5) fun_upd_apply, metis K(6) i fun_upd_apply, simp add: K(7), fact K(8))
  next
    case (take_callback t)
    then have t: "registered s t" "\<not> notified s t" "flag_ready s t" "acts s (Resolver t) = Idle"
      using K(2) [of t] K(7) [of t] K(6) [of t] by auto
    have n: "acts s' b = Notify u \<longleftrightarrow> acts s b = Notify u \<or> b = Resolver t \<and> u = t" for b u
      using take_callback t(4) by auto
    have n2: "acts s' (Resolver u) \<noteq> Idle \<longleftrightarrow> acts s (Resolver u) \<noteq> Idle \<or> u = t" for u
      using take_callback by auto
    have eqs: "registered s' = registered s" "m_readyCallback s' = (m_readyCallback s)(t := False)" "notified s' = notified s"
      "flag_ready s' = flag_ready s" "resolver s' = (resolver s)(t := R_End)" "created s' = created s"
      "completionState s' = completionState s"
      using take_callback by simp_all
    show ?thesis
    proof (rule callbacksI; (unfold eqs n n2)?)
      show "registered s u \<and> \<not> notified s u \<and> ((resolver s)(t := R_End)) u \<noteq> R_End"
        if "((m_readyCallback s)(t := False)) u" for u
        using that K(2) [of u] by (auto split: if_splits)
      show "registered s u \<and> \<not> notified s u \<and> \<not> ((m_readyCallback s)(t := False)) u \<and> flag_ready s u"
        if "acts s a = Notify u \<or> a = Resolver t \<and> u = t" for a u
        using that K(3) [of a u] t by auto
      show "a = b" if "acts s a = Notify u \<or> a = Resolver t \<and> u = t" "acts s b = Notify u \<or> b = Resolver t \<and> u = t" for a b u
        using that K(3,4) take_callback(4) by blast
      show "((resolver s)(t := R_End)) u = R_End \<and> u < ntasks J" if "acts s (Resolver u) \<noteq> Idle \<or> u = t" for u
        using that K(6) [of u] take_callback(2) by auto
      show "((resolver s)(t := R_End)) u = R_Start \<longleftrightarrow> \<not> flag_ready s u" if "u < ntasks J" for u
        using K(7) [OF that] t(3) by auto
      show "((m_readyCallback s)(t := False)) u \<or> notified s u \<or> (\<exists>a. acts s a = Notify u \<or> a = Resolver t \<and> u = t)"
        if "created s" "completionState s = CompletionNone" "registered s u" for u
        using K(8) [OF that] by (cases "u = t") auto
    qed (fact K(1) K(5))+
  next
    case (take_nothing t)
    then have m: "m_readyCallback s' = m_readyCallback s" by (auto simp: fun_eq_iff)
    have ready: "flag_ready s t"
      using K(7) [of t] take_nothing by simp
    have eqs: "registered s' = registered s" "notified s' = notified s"
      "flag_ready s' = flag_ready s" "resolver s' = (resolver s)(t := R_End)" "created s' = created s"
      "completionState s' = completionState s" "acts s' = acts s"
      using take_nothing by simp_all
    show ?thesis
      by (rule callbacksI; (unfold eqs m)?)
        (fact K(1), metis K(2) take_nothing(4) fun_upd_apply, fact K(3), fact K(4), fact K(5), metis K(6) fun_upd_apply,
          simp add: K(7) ready, fact K(8))
  qed (rule idle; simp add: callback_key_def)+
qed

lemma resultD:
  assumes "inv_result J s"
  shows "acts s a = Try True \<Longrightarrow> created s \<and> join_met J (notified s)"
    and "acts s a = Try False \<Longrightarrow> created s \<and> expired s"
    and "completionState s = WithTrue \<Longrightarrow> join_met J (notified s)"
    and "completionState s = WithFalse \<Longrightarrow> expired s"
    and "created s \<Longrightarrow> kind J = All \<Longrightarrow> counter s + card {t. notified s t} = ntasks J"
    and "created s \<Longrightarrow> completionState s = CompletionNone \<Longrightarrow> join_met J (notified s) \<Longrightarrow> \<exists>a. acts s a = Try True"
  using assms unfolding inv_result_def by blast+

lemma resultI:
  assumes "\<And>a. acts s a = Try True \<Longrightarrow> created s \<and> join_met J (notified s)"
    and "\<And>a. acts s a = Try False \<Longrightarrow> created s \<and> expired s"
    and "completionState s = WithTrue \<Longrightarrow> join_met J (notified s)"
    and "completionState s = WithFalse \<Longrightarrow> expired s"
    and "created s \<Longrightarrow> kind J = All \<Longrightarrow> counter s + card {t. notified s t} = ntasks J"
    and "created s \<Longrightarrow> completionState s = CompletionNone \<Longrightarrow> join_met J (notified s) \<Longrightarrow> \<exists>a. acts s a = Try True"
  shows "inv_result J s"
  using assms unfolding inv_result_def by blast

definition result_key where
  "result_key s = (notified s, created s, counter s, completionState s)"

lemma result_same:
  assumes "inv_result J s" "result_key s' = result_key s" "expired s \<Longrightarrow> expired s'"
    and t: "\<And>a b. acts s' a = Try b \<longleftrightarrow> acts s a = Try b"
  shows "inv_result J s'"
proof -
  note D = resultD [OF assms(1)]
  have eqs: "notified s' = notified s" "created s' = created s" "counter s' = counter s" "completionState s' = completionState s"
    using assms(2) by (simp_all add: result_key_def)
  show ?thesis
    by (rule resultI; unfold eqs t) (use D assms(3) in blast)+
qed

lemma result_act:
  assumes "inv_result J s" "result_key s' = result_key s" "expired s' = expired s" "acts s' = (acts s)(a := x)"
    "\<forall>b. acts s a \<noteq> Try b" "x \<noteq> Try True" "x = Try False \<Longrightarrow> created s \<and> expired s"
  shows "inv_result J s'"
proof -
  note D = resultD [OF assms(1)]
  have eqs: "notified s' = notified s" "created s' = created s" "counter s' = counter s" "completionState s' = completionState s"
    using assms(2) by (simp_all add: result_key_def)
  have "acts s b = Try True \<Longrightarrow> acts s' b = Try True" for b
    using assms(4,5) by (cases "b = a") auto
  then have six: "created s \<Longrightarrow> completionState s = CompletionNone \<Longrightarrow> join_met J (notified s) \<Longrightarrow> \<exists>a. acts s' a = Try True"
    using D(6) by blast
  have one: "acts s' b = Try True \<Longrightarrow> created s \<and> join_met J (notified s)"
    and two: "acts s' b = Try False \<Longrightarrow> created s \<and> expired s" for b
    using assms(4,6,7) D(1,2) [of b] by (cases "b = a"; simp)+
  show ?thesis
    by (rule resultI; unfold eqs assms(3)) (fact one | fact two | fact D(3,4,5) | fact six)+
qed

lemma card_notified:
  assumes "\<forall>u. P u \<longrightarrow> u < n" "\<not> P t" "t < n"
  shows "card {u. (P(t := True)) u} = Suc (card {u. P u})" "card {u. P u} < n"
    "card {u. (P(t := True)) u} = n \<longleftrightarrow> (\<forall>u<n. (P(t := True)) u)"
proof -
  have fin: "finite {u. P u}" "{u. P u} \<subseteq> {..<n}"
    using assms(1) finite_subset [of "{u. P u}" "{..<n}"] by auto
  have ins: "{u. (P(t := True)) u} = insert t {u. P u}" by auto
  show "card {u. (P(t := True)) u} = Suc (card {u. P u})"
    unfolding ins using fin(1) assms(2) by simp
  have "{u. P u} \<subset> {..<n}"
    using fin(2) assms(2,3) by auto
  then show "card {u. P u} < n"
    using psubset_card_mono [of "{..<n}" "{u. P u}"] by simp
  have sub: "insert t {u. P u} \<subseteq> {..<n}" using fin(2) assms(3) by auto
  show "card {u. (P(t := True)) u} = n \<longleftrightarrow> (\<forall>u<n. (P(t := True)) u)"
  proof
    assume "card {u. (P(t := True)) u} = n"
    then have "insert t {u. P u} = {..<n}"
      using sub unfolding ins by (intro card_subset_eq) auto
    then show "\<forall>u<n. (P(t := True)) u"
      unfolding ins [symmetric] by blast
  next
    assume "\<forall>u<n. (P(t := True)) u"
    then have "insert t {u. P u} = {..<n}"
      using sub unfolding ins [symmetric] by auto
    then show "card {u. (P(t := True)) u} = n"
      unfolding ins by simp
  qed
qed

lemma result_step:
  assumes "join_inv J s" "move J s s'"
  shows "inv_result J s'"
proof -
  note I = inv_parts(7) [OF assms(1)] and A = inv_parts(5) [OF assms(1)]
  note D = resultD [OF I]
  note K = callbacksD [OF inv_parts(6) [OF assms(1)]]
  have same: "inv_result J s'" if "result_key s' = result_key s" "expired s' = expired s"
    "acts s' = (acts s)(a := x)" "\<forall>b. x \<noteq> Try b" "\<forall>b. acts s a \<noteq> Try b" for a x
    using that by (intro result_act [OF I that(1-3)]) auto
  have idle: "inv_result J s'" if "result_key s' = result_key s" "expired s \<Longrightarrow> expired s'" "acts s' = acts s"
    using that by (intro result_same [OF I that(1)]) auto
  have new: "inv_result J s'" if "awaiter s = A_Create" "created s'" "notified s' = notified s"
    "counter s' = (case kind J of All \<Rightarrow> ntasks J | Any \<Rightarrow> 0)" "completionState s' = completionState s"
    "acts s' = acts s \<or> expired s' \<and> acts s' = (acts s)(Awaiter := Try False)"
  proof -
    have b: "\<not> created s" "is_before J s" "0 < ntasks J" "completionState s = CompletionNone"
      using before_created [OF assms(1)] A that(1) by (auto simp: inv_awaiter_def)
    then have n: "\<not> notified s t" "\<not> registered s t" for t
      using K(1) [of t] K(5) [of t] by auto
    then have "\<not> join_met J (notified s)"
      using b(3) by (auto simp: join_met_def split: join_kind.splits)
    with b n that show ?thesis
      by (intro resultI) (auto simp: is_before_def split: if_splits)
  qed
  from assms(2) show ?thesis
  proof cases
    case (notify_all a t)
    then have t: "\<not> notified s t" "t < ntasks J" "created s" "\<forall>u. notified s u \<longrightarrow> u < ntasks J"
      using K(3) [of a t] K(1) [of t] K(1,5) by blast+
    note c = card_notified [OF t(4,1,2)]
    have n: "counter s + card {u. notified s u} = ntasks J" using D(5) t(3) notify_all by simp
    have "join_met J (notified s') \<longleftrightarrow> card {u. ((notified s)(t := True)) u} = ntasks J"
      unfolding c(3) using notify_all by (simp add: join_met_def)
    then have met: "join_met J (notified s') \<longleftrightarrow> counter s = 1"
      using c(1) n by linarith
    have old: "join_met J (notified s) \<Longrightarrow> False"
      using t notify_all by (auto simp: join_met_def)
    have cnt: "counter s' + card {u. notified s' u} = ntasks J"
      using c n notify_all by (simp add: fetch_sub1_def)
    have acts: "acts s' = (acts s)(a := if counter s = 1 then Try True else Idle)"
      and eqs: "created s' = created s" "expired s' = expired s" "completionState s' = completionState s"
      using notify_all by simp_all
    show ?thesis
      using D t met old cnt by (intro resultI) (auto simp: acts eqs split: if_splits)
  next
    case (notify_any a t)
    then have t: "t < ntasks J" "created s"
      using K(3) [of a t] K(1) [of t] by blast+
    then have "join_met J (notified s')"
      using notify_any by (auto simp: join_met_def)
    then show ?thesis
      using D notify_any t by (intro resultI) (auto split: if_splits)
  next
    case (win a b)
    then show ?thesis using D by (intro resultI) (auto split: if_splits)
  next
    case (lose a b)
    then show ?thesis using D by (intro resultI) (auto split: if_splits)
  next
    case create_expired
    then show ?thesis by (intro new) simp_all
  next
    case create_eternal
    then show ?thesis by (intro new) simp_all
  next
    case create
    then show ?thesis by (intro new) simp_all
  next
    case fire
    have "created s"
      using A fire(3) unfolding inv_awaiter_def by meson
    moreover have "expired s"
      using inv_parts(8) [OF assms(1)] fire(2) unfolding inv_expiry_def by auto
    ultimately show ?thesis
      using callback_idle(2) [OF assms(1)] fire
      by (intro result_act [OF I, of s' Expirer "Try False"]) (simp_all add: result_key_def)
  next
    case (take_callback t)
    then show ?thesis using K(6) [of t] by (intro same [of "Resolver t" "Notify t"]) (auto simp: result_key_def)
  next
    case (read_head a)
    then show ?thesis by (intro same [of a "Loop (list_head s)"]) (simp_all add: result_key_def)
  next
    case (loop a t)
    then show ?thesis by (intro same [of a "Unlink t (m_next s t)"]) (simp_all add: result_key_def)
  next
    case (loop_end a)
    then show ?thesis by (intro same [of a "if created s then DropList else Idle"]) (simp_all add: result_key_def)
  next
    case (unlink a t p)
    then show ?thesis by (intro same [of a "ClearCallback t p"]) (simp_all add: result_key_def)
  next
    case (clear_ready a t p)
    then show ?thesis by (intro same [of a "Release t p"]) (simp_all add: result_key_def)
  next
    case (clear a t p)
    then show ?thesis by (intro same [of a "Release t p"]) (simp_all add: result_key_def)
  next
    case (release a t p)
    then show ?thesis by (intro same [of a "Loop p"]) (simp_all add: result_key_def)
  next
    case (drop_list a)
    then show ?thesis by (intro same [of a Signal]) (simp_all add: result_key_def)
  next
    case (signal a)
    then show ?thesis by (intro same [of a Idle]) (simp_all add: result_key_def)
  next
    case (check_early t)
    then show ?thesis by (intro same [of Awaiter ReadHead]) (simp_all add: result_key_def)
  next
    case checked_early
    then show ?thesis by (intro same [of Awaiter ReadHead]) (simp_all add: result_key_def)
  next
    case expired_early
    then show ?thesis by (intro same [of Awaiter ReadHead]) (simp_all add: result_key_def)
  next
    case (set_ready t)
    then show ?thesis by (intro same [of Awaiter "Notify t"]) (simp_all add: result_key_def)
  qed (rule idle; simp add: result_key_def)+
qed

lemma linked_upt: "t < n \<Longrightarrow> linked [0..<n] t = at_pos n (Suc t)"
proof -
  assume "t < n"
  have "zip [0..<n] (tl [0..<n]) = map (\<lambda>i. (i, Suc i)) [0..<n - 1]"
    by (rule nth_equalityI) (auto simp: nth_tl)
  moreover have "map_of (map (\<lambda>i. (i, Suc i)) [0..<m]) t = (if t < m then Some (Suc t) else None)" for m
    by (auto simp: map_of_eq_None_iff map_of_map_restrict restrict_map_def)
  ultimately show ?thesis
    using \<open>t < n\<close> by (auto simp: linked_def at_pos_def)
qed

lemma join_inv_start: "join_inv J (joined J rd exp)"
proof -
  have "inv_links (ntasks J) (joined J rd exp)"
    by (simp add: inv_links_def joined_def linked_upt at_pos_def)
  moreover have "inv_awaiter J (joined J rd exp)"
    by (simp add: inv_awaiter_def joined_def is_before_def at_pos_def)
  moreover have "inv_callbacks (ntasks J) (joined J rd exp)"
    by (simp add: inv_callbacks_def joined_def)
  ultimately show ?thesis
    by (simp add: join_inv_def inv_at_def inv_one_def inv_phase_def inv_result_def inv_expiry_def) (simp add: joined_def)
qed

lemma join_inv_step: "join_inv J s \<Longrightarrow> choice_step J c s = Some s' \<Longrightarrow> join_inv J s'"
  using choice_moves [of J s c s'] links_step at_step one_step phase_step before_step after_step callbacks_step result_step expiry_step
  unfolding join_inv_def by metis

lemma reached_inv: "reached J s \<Longrightarrow> join_inv J s"
proof -
  have "steps J s0 s \<Longrightarrow> join_inv J s0 \<Longrightarrow> join_inv J s" for s0
    by (induction rule: steps.induct) (auto intro: join_inv_step)
  then show "reached J s \<Longrightarrow> join_inv J s"
    using join_inv_start by (auto simp: reached_def)
qed

section \<open>The result\<close>

text \<open>
  C36. When \<open>whenAll\<close> returns true, all tasks are ready, when \<open>whenAny\<close> does, one is or there was none; when
  they return false, the expiration has expired.  Every task is then out of the list, its reference given back
  exactly once, and no assertion has failed, under every interleaving of the coroutine, the tasks and the
  expiration.
\<close>

theorem join_result:
  assumes "reached J s" "awaiter s = A_Done result"
  shows "(if result then join_met J (flag_ready s) else expired s) \<and>
    (\<forall>t<ntasks J. m_next s t = None \<and> m_refs s t = 0) \<and> (has_executor J \<longrightarrow> \<not> failed s)"
proof -
  note inv = reached_inv [OF assms(1)]
  note R = resultD [OF inv_parts(7) [OF inv]] and K = callbacksD [OF inv_parts(6) [OF inv]]
  have A: "inv_awaiter J s" and P: "inv_phase (ntasks J) s" and L: "inv_links (ntasks J) s"
    using inv_parts [OF inv] by simp_all
  have "(if result then join_met J (flag_ready s) else expired s) \<and> unlinked s = ntasks J \<and> released s = ntasks J"
  proof (cases "created s")
    case True
    then have d: "source_resolved s" "result \<longleftrightarrow> completionState s = WithTrue"
      using A assms(2) by (auto simp: inv_awaiter_def)
    then have p: "completionState s \<noteq> CompletionNone" "unlinked s = ntasks J" "released s = ntasks J"
      using P by (auto simp: inv_phase_def)
    have "join_met J (flag_ready s)" if "completionState s = WithTrue"
      using join_met_mono [OF R(3) [OF that]] K(5) by blast
    then show ?thesis
      using d p R(4) by (cases "completionState s") auto
  next
    case False
    then show ?thesis
      using A assms(2) by (auto simp: inv_awaiter_def)
  qed
  then show ?thesis
    using L inv_parts(8) [OF inv] by (auto simp: inv_links_def inv_expiry_def)
qed

text \<open>Nothing is under way, and the coroutine is blocked.\<close>

definition quiet :: "joining \<Rightarrow> join \<Rightarrow> bool" where
  "quiet J s \<longleftrightarrow> (\<forall>a. act_step J a s = None) \<and> awaiter_step J s = None \<and>
     (\<forall>t<ntasks J. resolver s t \<noteq> R_Take) \<and> expirer s \<noteq> E_Fire"

lemma quiet_idle: "act_step J a s = None \<longleftrightarrow> acts s a = Idle"
  by (auto simp: act_step_def split: act.splits option.splits)


end
