(* ===== verification/TaskJoinRuns.thy ===== *)
theory TaskJoinRuns
  imports TaskJoinSafety
begin

text \<open>
  Waiting for several tasks ends: a weight that every step of \<open>TaskJoin\<close> decreases bounds the length of
  all runs.  Then concrete runs, on which the theorems about \<open>whenAll\<close> and \<open>whenAny\<close> are applied, and one
  in which a callback is called on a state that is deleted.
\<close>

section \<open>Termination\<close>

fun act_work :: "nat \<Rightarrow> act \<Rightarrow> nat" where
  "act_work n Idle = 0"
| "act_work n Signal = 1"
| "act_work n DropList = 2"
| "act_work n (Loop None) = 3"
| "act_work n (Loop (Some t)) = 4 * (n - t) + 3"
| "act_work n (Unlink t p) = 4 * (n - t) + 2"
| "act_work n (ClearCallback t p) = 4 * (n - t) + 1"
| "act_work n (Release t p) = 4 * (n - t)"
| "act_work n ReadHead = 4 * n + 4"
| "act_work n (Try b) = 4 * n + 5"
| "act_work n (Notify t) = 4 * n + 6"

fun awaiter_work :: "nat \<Rightarrow> awaiter_pc \<Rightarrow> nat" where
  "awaiter_work n (A_Done b) = 0"
| "awaiter_work n A_Resumed = 1"
| "awaiter_work n A_Await = 2"
| "awaiter_work n (A_Set None) = 3"
| "awaiter_work n (A_Set (Some t)) = 3 + (4 * n + 9) * (n - t)"
| "awaiter_work n (A_Next t) = 4 + (4 * n + 9) * (n - Suc t)"
| "awaiter_work n A_Begin = 4 + (4 * n + 9) * n"
| "awaiter_work n A_Create = 4 * n + 11 + (4 * n + 9) * n"
| "awaiter_work n A_Expired = 4 * n + 12 + (4 * n + 9) * n"
| "awaiter_work n (A_Early b) = 1"
| "awaiter_work n (A_Check None) = 4 * n + 13 + (4 * n + 9) * n"
| "awaiter_work n (A_Check (Some t)) = 4 * n + 13 + (4 * n + 9) * n + (n - t)"

fun resolver_work :: "nat \<Rightarrow> resolver_pc \<Rightarrow> nat" where
  "resolver_work n R_End = 0" | "resolver_work n R_Take = 4 * n + 7" | "resolver_work n R_Start = 4 * n + 8"

fun expirer_work :: "nat \<Rightarrow> expirer_pc \<Rightarrow> nat" where
  "expirer_work n E_End = 0" | "expirer_work n E_Fire = 4 * n + 6" | "expirer_work n E_Wait = 4 * n + 7"

definition acts_work :: "nat \<Rightarrow> (actor \<Rightarrow> act) \<Rightarrow> nat" where
  "acts_work n f = act_work n (f Awaiter) + act_work n (f Expirer) + (\<Sum>t<n. act_work n (f (Resolver t)))"

definition work :: "nat \<Rightarrow> join \<Rightarrow> nat" where
  "work n s = awaiter_work n (awaiter s) + expirer_work n (expirer s) + (\<Sum>t<n. resolver_work n (resolver s t)) +
     acts_work n (acts s) + of_bool (\<not> deleted s)"

lemma sum_upd:
  fixes g :: "'b \<Rightarrow> nat" and t n :: nat
  assumes "t < n"
  shows "(\<Sum>u<n. g ((f(t := x)) u)) + g (f t) = (\<Sum>u<n. g (f u)) + g x"
proof -
  have "(\<Sum>u\<in>{..<n} - {t}. g ((f(t := x)) u)) = (\<Sum>u\<in>{..<n} - {t}. g (f u))"
    by (rule sum.cong) auto
  moreover have "(\<Sum>u<n. g (h u)) = g (h t) + (\<Sum>u\<in>{..<n} - {t}. g (h u))" for h
    using assms sum.remove [of "{..<n}" t "\<lambda>u. g (h u)"] by simp
  ultimately show ?thesis by simp
qed

lemma acts_work_upd:
  assumes "\<And>t. a = Resolver t \<Longrightarrow> t < n"
  shows "acts_work n (f(a := x)) + act_work n (f a) = acts_work n f + act_work n x"
proof (cases a)
  case (Resolver t)
  have "(\<lambda>u. act_work n ((f(Resolver t := x)) (Resolver u))) = (\<lambda>u. act_work n (((\<lambda>u. f (Resolver u))(t := x)) u))"
    by auto
  then show ?thesis
    using sum_upd [of t n "act_work n" "\<lambda>u. f (Resolver u)" x] assms Resolver
    by (simp add: acts_work_def del: fun_upd_apply) simp
qed (simp_all add: acts_work_def)

lemma work_step:
  assumes "join_inv J s" "move J s s'"
  shows "work (ntasks J) s' < work (ntasks J) s"
proof -
  let ?n = "ntasks J"
  note R = resettingD(1) [OF assms(1)] and A = inv_parts(5) [OF assms(1)]
  note L = inv_parts(1) [OF assms(1), unfolded inv_links_def]
  note K = callbacksD [OF inv_parts(6) [OF assms(1)]]
  have more: "awaiter_work ?n (A_Next t) + (4 * ?n + 7) < awaiter_work ?n (A_Set (Some t))" if "t < ?n" for t
    using that by (simp add: Suc_diff_Suc [symmetric] algebra_simps)
  have U: "acts_work ?n ((acts s)(a := x)) + act_work ?n (acts s a) = acts_work ?n (acts s) + act_work ?n x"
    if "acts s a \<noteq> Idle \<or> (\<forall>t. a \<noteq> Resolver t) \<or> (\<exists>t<?n. a = Resolver t)" for a x
    using that K(6) by (intro acts_work_upd) auto
  have T: "(\<Sum>u<?n. resolver_work ?n (((resolver s)(t := x)) u)) + resolver_work ?n (resolver s t) =
      (\<Sum>u<?n. resolver_work ?n (resolver s u)) + resolver_work ?n x" if "t < ?n" for t x
    by (rule sum_upd [OF that])
  have acting: "work ?n s' < work ?n s" if "acts s' = (acts s)(a := x)" "acts s a \<noteq> Idle" "act_work ?n x < act_work ?n (acts s a)"
    "awaiter s' = awaiter s" "expirer s' = expirer s" "resolver s' = resolver s" "deleted s' = deleted s" for a x
    using U [of a x] that by (simp add: work_def del: fun_upd_apply)
  have waiting: "work ?n s' < work ?n s" if "acts s' = acts s" "awaiter_work ?n (awaiter s') < awaiter_work ?n (awaiter s)"
    "expirer s' = expirer s" "resolver s' = resolver s" "deleted s' = deleted s \<or> deleted s'" for a x
    using that by (auto simp: work_def)
  have calling: "work ?n s' < work ?n s" if "acts s Awaiter = Idle" "acts s' = (acts s)(Awaiter := x)"
    "awaiter_work ?n (awaiter s') + act_work ?n x < awaiter_work ?n (awaiter s)"
    "expirer s' = expirer s" "resolver s' = resolver s" "deleted s' = deleted s" for x
    using U [of Awaiter x] that by (simp add: work_def del: fun_upd_apply)
  from assms(2) show ?thesis
  proof cases
    case (notify_all a t)
    then show ?thesis by (intro acting [of a "if counter s = 1 then Try True else Idle"]) simp_all
  next
    case (notify_any a t)
    then show ?thesis by (intro acting [of a "Try True"]) simp_all
  next
    case (win a b)
    then show ?thesis by (intro acting [of a ReadHead]) simp_all
  next
    case (lose a b)
    then show ?thesis by (intro acting [of a Idle]) simp_all
  next
    case (read_head a)
    then show ?thesis using R [of a] by (intro acting [of a "Loop (list_head s)"]) (auto simp: at_pos_def)
  next
    case (loop a t)
    then show ?thesis using R [of a] by (intro acting [of a "Unlink t (m_next s t)"]) auto
  next
    case (loop_end a)
    then show ?thesis by (intro acting [of a "if created s then DropList else Idle"]) auto
  next
    case (unlink a t p)
    then show ?thesis by (intro acting [of a "ClearCallback t p"]) auto
  next
    case (clear_ready a t p)
    then show ?thesis by (intro acting [of a "Release t p"]) auto
  next
    case (clear a t p)
    then show ?thesis by (intro acting [of a "Release t p"]) auto
  next
    case (release a t p)
    then show ?thesis using R [of a] by (intro acting [of a "Loop p"]) (auto simp: at_pos_def)
  next
    case (drop_list a)
    then show ?thesis by (intro acting [of a Signal]) auto
  next
    case (signal a)
    then show ?thesis by (intro acting [of a Idle]) auto
  next
    case (check t)
    then have "m_next s t = at_pos ?n (Suc t)" "t < ?n"
      using A L by (auto simp: inv_awaiter_def is_before_def split: if_splits)
    then show ?thesis using check by (intro waiting) (auto simp: at_pos_def)
  next
    case (check_early t)
    then show ?thesis by (intro calling [of ReadHead]) auto
  next
    case (check_fails t)
    then have "t < ?n" using A by (auto simp: inv_awaiter_def split: if_splits)
    then show ?thesis using check_fails by (intro waiting) auto
  next
    case checked_early
    then show ?thesis by (intro calling [of ReadHead]) auto
  next
    case expired_early
    then show ?thesis by (intro calling [of ReadHead]) auto
  next
    case create_expired
    then show ?thesis by (intro calling [of "Try False"]) auto
  next
    case begin_set
    then show ?thesis using L by (intro waiting) (auto simp: at_pos_def)
  next
    case (set_ready t)
    have "t < ?n" using A set_ready by (auto simp: inv_awaiter_def split: if_splits)
    then show ?thesis using set_ready more [of t] by (intro calling [of "Notify t"]) auto
  next
    case (set_callback t)
    have "t < ?n" using A set_callback by (auto simp: inv_awaiter_def split: if_splits)
    then show ?thesis using set_callback more [of t] by (intro waiting) auto
  next
    case (next_set t)
    have "t < ?n" using A next_set by (auto simp: inv_awaiter_def split: if_splits)
    then have "m_next s t = None \<or> m_next s t = at_pos ?n (Suc t)" using L by auto
    then show ?thesis using next_set by (intro waiting) (auto simp: at_pos_def)
  next
    case (become_ready t)
    then show ?thesis using T [of t R_Take] by (simp add: work_def del: fun_upd_apply)
  next
    case (take_callback t)
    then show ?thesis using T [of t R_End] U [of "Resolver t" "Notify t"] K(6) [of t] by (simp add: work_def del: fun_upd_apply)
  next
    case (take_nothing t)
    then show ?thesis using T [of t R_End] by (simp add: work_def del: fun_upd_apply)
  next
    case fire
    then show ?thesis using U [of Expirer "Try False"] callback_idle(2) [OF assms(1)] by (simp add: work_def del: fun_upd_apply)
  qed ((rule waiting; simp; fail) | (simp add: work_def; fail))+
qed

text \<open>
  C37. Waiting ends: whatever the threads do, for \<open>n\<close> tasks at most \<open>8 n^2 + 27 n + 22\<close> steps are taken
  in all, those of the resolvers, of the expiration and of the callbacks included.
\<close>

theorem join_ends:
  assumes "run J cs (joined J rd exp) = Some s"
  shows "length cs \<le> 8 * (ntasks J)\<^sup>2 + 27 * ntasks J + 22"
proof -
  have "run J cs s0 = Some s \<Longrightarrow> join_inv J s0 \<Longrightarrow> length cs + work (ntasks J) s \<le> work (ntasks J) s0" for s0
  proof (induction cs arbitrary: s0)
    case (Cons c cs)
    then obtain s1 where s1: "choice_step J c s0 = Some s1" "run J cs s1 = Some s"
      by (auto split: option.splits)
    then show ?case
      using Cons.IH [OF s1(2) join_inv_step [OF Cons.prems(2) s1(1)]] work_step [OF Cons.prems(2) choice_moves [OF Cons.prems(2) s1(1)]]
      by simp
  qed simp
  then have "length cs \<le> work (ntasks J) (joined J rd exp)"
    using assms join_inv_start [of J rd exp] by fastforce
  also have "\<dots> \<le> 8 * (ntasks J)\<^sup>2 + 27 * ntasks J + 22"
  proof -
    have "(\<Sum>t<n. resolver_work n (if rd t then R_End else R_Start)) \<le> n * (4 * n + 8)" for n
      using sum_bounded_above [of "{..<n}" "\<lambda>t. resolver_work n (if rd t then R_End else R_Start)" "4 * n + 8"] by simp
    from this [of "ntasks J"] show ?thesis
      by (auto simp: work_def joined_def acts_work_def power2_eq_square algebra_simps)
  qed
  finally show ?thesis .
qed


section \<open>Runs\<close>

definition demo_all :: joining where
  "demo_all = \<lparr>kind = All, ntasks = 1, eternal = False, has_executor = True\<rparr>"

definition demo_run :: "choice list" where
  "demo_run = replicate 7 Awaiting @ [Resolving 0, Resolving 0] @ replicate 10 (Acting (Resolver 0)) @ [Awaiting, Awaiting]"

definition demo_join :: join where
  "demo_join = the (run demo_all demo_run (joined demo_all (\<lambda>_. False) False))"

lemma run_reached:
  assumes "run J cs (joined J rd exp) = Some s"
  shows "reached J s"
proof -
  have "run J cs s0 = Some s \<Longrightarrow> steps J (joined J rd exp) s0 \<Longrightarrow> steps J (joined J rd exp) s" for s0
    by (induction cs arbitrary: s0) (auto split: option.splits intro: steps.intros)
  then show ?thesis
    using assms steps.steps_refl unfolding reached_def by blast
qed

lemma demo_runs: "run demo_all demo_run (joined demo_all (\<lambda>_. False) False) = Some demo_join"
proof -
  have "\<not> Option.is_none (run demo_all demo_run (joined demo_all (\<lambda>_. False) False))"
    by code_simp
  then show ?thesis by (simp add: demo_join_def Option.is_none_def)
qed

lemma demo_state:
  "awaiter demo_join = A_Done True" "acts demo_join Awaiter = Idle" "acts demo_join Expirer = Idle"
  "acts demo_join (Resolver 0) = Idle" "resolver demo_join 0 = R_End" "expirer demo_join = E_Wait" "flag_ready demo_join 0"
  by code_simp+

lemma join_result_witness: "join_met demo_all (flag_ready demo_join) \<and> m_refs demo_join 0 = 0"
  using join_result [OF run_reached [OF demo_runs] demo_state(1)] by (simp add: demo_all_def)


lemma join_ends_witness: "length demo_run = 21 \<and> length demo_run \<le> 8 * (ntasks demo_all)\<^sup>2 + 27 * ntasks demo_all + 22"
  using join_ends [OF demo_runs] by (simp add: demo_run_def)

definition demo_any :: joining where
  "demo_any = \<lparr>kind = Any, ntasks = 2, eternal = False, has_executor = True\<rparr>"

definition late_run :: "choice list" where
  "late_run = replicate 11 Awaiting @ [Resolving 0, Resolving 0, Resolving 1, Resolving 1] @
     replicate 14 (Acting (Resolver 1)) @ [Awaiting, Awaiting, Deleting]"

text \<open>
  A ready callback can run on a deleted state: while a task has become ready and its callback is taken but
  not yet called, another task completes \<open>whenAny\<close>, the coroutine returns and the posted deletion runs; the
  reset of the list cannot clear the callback, because the task is ready.
\<close>

theorem late_callback:
  "\<exists>s. reached demo_any s \<and> deleted s \<and> acts s (Resolver 0) = Notify 0"
proof -
  let ?r = "run demo_any late_run (joined demo_any (\<lambda>_. False) False)"
  have "\<not> Option.is_none ?r" by code_simp
  then obtain s where s: "?r = Some s" by (auto simp: Option.is_none_def)
  have "deleted (the ?r) \<and> acts (the ?r) (Resolver 0) = Notify 0" by code_simp
  then show ?thesis using s run_reached [OF s] by auto
qed

end
