(* ===== verification/Cancelling.thy ===== *)
theory Cancelling
  imports Prelude
begin

text \<open>
  Cancellation, \<open>CancellationState\<close> (\<open>src/utils/cancellation.cpp\<close>), shared by threads that cancel and
  threads that subscribe a callback and may unsubscribe it later.  What is done under the mutex of the state is
  one step; the lock of an entry is taken and released in steps of its own, and the callback of an entry runs
  between them, so that it can itself unsubscribe.  Subscribers are numbered, and so are their callbacks.
\<close>

section \<open>The state and its operations\<close>

record SubscriptionEntry =
  callback :: "nat option"
  owner :: "nat option"

text \<open>\<open>called\<close> logs the callbacks; \<open>visited\<close> is history: the entries that \<open>cancel\<close> has come to.\<close>

record CancellationState =
  m_isCancelled :: bool
  m_subscriptions :: "SubscriptionEntry list"
  called :: "nat list"
  visited :: nat

definition new_state :: CancellationState where
  "new_state = \<lparr>m_isCancelled = False, m_subscriptions = [], called = [], visited = 0\<rparr>"

datatype role = Canceller | Subscriber

datatype pc =
    Begin
  | Visit nat
  | Locked nat
  | Running nat
  | Finished
  | Held "nat option"
  | Clearing nat
  | Cleared nat
  | Gone "nat option"

type_synonym config = "CancellationState \<times> (role \<times> pc) list"

definition set_owner :: "nat \<Rightarrow> nat option \<Rightarrow> CancellationState \<Rightarrow> CancellationState" where
  "set_owner k i s = s\<lparr>m_subscriptions := (m_subscriptions s)[k := (m_subscriptions s ! k)\<lparr>owner := i\<rparr>]\<rparr>"

definition setUnsubscribed :: "nat \<Rightarrow> CancellationState \<Rightarrow> CancellationState" where
  "setUnsubscribed k s =
     s\<lparr>m_subscriptions := (m_subscriptions s)[k := (m_subscriptions s ! k)\<lparr>callback := None\<rparr>]\<rparr>"

text \<open>Taking the lock of an entry: the thread waits while another one holds it.\<close>

definition lock_entry :: "nat \<Rightarrow> nat \<Rightarrow> CancellationState \<Rightarrow> CancellationState option" where
  "lock_entry i k s = (if owner (m_subscriptions s ! k) = None then Some (set_owner k (Some i) s) else None)"

definition cancel_step :: "nat \<Rightarrow> pc \<Rightarrow> CancellationState \<Rightarrow> (pc \<times> CancellationState) option" where
  "cancel_step i p s =
     (case p of
        Begin \<Rightarrow> Some (if m_isCancelled s then (Finished, s) else (Visit 0, s\<lparr>m_isCancelled := True\<rparr>))
      | Visit k \<Rightarrow>
          if k < length (m_subscriptions s)
          then do { s \<leftarrow> lock_entry i k s; Some (Locked k, s) }
          else Some (Finished, s)
      | Locked k \<Rightarrow>
          Some (case callback (m_subscriptions s ! k) of
                  Some cb \<Rightarrow> (Running k, s\<lparr>called := cb # called s, visited := Suc k\<rparr>)
                | None \<Rightarrow> (Visit (Suc k), set_owner k None (s\<lparr>visited := Suc k\<rparr>)))
      | Running k \<Rightarrow> Some (Visit (Suc k), set_owner k None s)
      | _ \<Rightarrow> None)"

text \<open>
  A subscriber: \<open>subscribe\<close> calls the callback at once when the state is cancelled, and gives the null handle.
  The subscription is then held until \<open>unsubscribe\<close>.
\<close>

definition subscribe :: "nat \<Rightarrow> CancellationState \<Rightarrow> nat option \<times> CancellationState" where
  "subscribe i s =
     (if m_isCancelled s then (None, s\<lparr>called := i # called s\<rparr>)
      else (Some (length (m_subscriptions s)),
            s\<lparr>m_subscriptions := m_subscriptions s @ [\<lparr>callback = Some i, owner = None\<rparr>]\<rparr>))"

definition subscriber_step :: "nat \<Rightarrow> pc \<Rightarrow> CancellationState \<Rightarrow> (pc \<times> CancellationState) option" where
  "subscriber_step i p s =
     (case p of
        Begin \<Rightarrow> Some (let (h, s') = subscribe i s in (Held h, s'))
      | Held None \<Rightarrow> Some (Gone None, s)
      | Held (Some k) \<Rightarrow> do { s \<leftarrow> lock_entry i k s; Some (Clearing k, s) }
      | Clearing k \<Rightarrow> Some (Cleared k, setUnsubscribed k s)
      | Cleared k \<Rightarrow> Some (Gone (Some k), set_owner k None s)
      | _ \<Rightarrow> None)"

definition thread_step :: "nat \<Rightarrow> role \<Rightarrow> pc \<Rightarrow> CancellationState \<Rightarrow> (pc \<times> CancellationState) option" where
  "thread_step i r p s = (case r of Canceller \<Rightarrow> cancel_step i p s | Subscriber \<Rightarrow> subscriber_step i p s)"

text \<open>
  A callback that runs may unsubscribe any subscription whose lock is free or, the lock being recursive, held
  by its own thread.
\<close>

definition nested_unsubscribe :: "nat \<Rightarrow> nat \<Rightarrow> CancellationState \<Rightarrow> CancellationState option" where
  "nested_unsubscribe i k s =
     (if k < length (m_subscriptions s) \<and> owner (m_subscriptions s ! k) \<in> {None, Some i}
      then Some (setUnsubscribed k s) else None)"

inductive step :: "config \<Rightarrow> config \<Rightarrow> bool" where
  thread: "i < length ts \<Longrightarrow> ts ! i = (r, p) \<Longrightarrow> thread_step i r p s = Some (p', s') \<Longrightarrow>
    step (s, ts) (s', ts[i := (r, p')])"
| nested: "i < length ts \<Longrightarrow> ts ! i = (Canceller, Running k) \<Longrightarrow> nested_unsubscribe i h s = Some s' \<Longrightarrow>
    step (s, ts) (s', ts)"

inductive reachable :: "role list \<Rightarrow> config \<Rightarrow> bool" for roles where
  init: "reachable roles (new_state, map (\<lambda>r. (r, Begin)) roles)"
| step: "reachable roles c \<Longrightarrow> step c c' \<Longrightarrow> reachable roles c'"

section \<open>The entries\<close>

definition cb :: "CancellationState \<Rightarrow> nat \<Rightarrow> nat option" where
  "cb s k = callback (m_subscriptions s ! k)"

definition ow :: "CancellationState \<Rightarrow> nat \<Rightarrow> nat option" where
  "ow s k = owner (m_subscriptions s ! k)"

definition entries :: "CancellationState \<Rightarrow> nat" where
  "entries s = length (m_subscriptions s)"

lemma set_owner_simps [simp]:
  "entries (set_owner k i s) = entries s" "cb (set_owner k i s) j = cb s j"
  "k < entries s \<Longrightarrow> ow (set_owner k i s) j = (if j = k then i else ow s j)"
  "m_isCancelled (set_owner k i s) = m_isCancelled s" "called (set_owner k i s) = called s"
  "visited (set_owner k i s) = visited s"
  by (cases "k < length (m_subscriptions s)";
      simp add: set_owner_def cb_def ow_def entries_def nth_list_update list_update_beyond)+

lemma setUnsubscribed_simps [simp]:
  "entries (setUnsubscribed k s) = entries s" "ow (setUnsubscribed k s) j = ow s j"
  "k < entries s \<Longrightarrow> cb (setUnsubscribed k s) j = (if j = k then None else cb s j)"
  "m_isCancelled (setUnsubscribed k s) = m_isCancelled s" "called (setUnsubscribed k s) = called s"
  "visited (setUnsubscribed k s) = visited s"
  by (cases "k < length (m_subscriptions s)";
      simp add: setUnsubscribed_def cb_def ow_def entries_def nth_list_update list_update_beyond)+

lemma field_simps_entries [simp]:
  "entries (s\<lparr>called := c\<rparr>) = entries s" "cb (s\<lparr>called := c\<rparr>) = cb s" "ow (s\<lparr>called := c\<rparr>) = ow s"
  "entries (s\<lparr>visited := v\<rparr>) = entries s" "cb (s\<lparr>visited := v\<rparr>) = cb s" "ow (s\<lparr>visited := v\<rparr>) = ow s"
  "entries (s\<lparr>m_isCancelled := b\<rparr>) = entries s" "cb (s\<lparr>m_isCancelled := b\<rparr>) = cb s" "ow (s\<lparr>m_isCancelled := b\<rparr>) = ow s"
  by (auto simp: entries_def cb_def ow_def)

section \<open>The invariant\<close>

fun holds :: "nat \<Rightarrow> pc \<Rightarrow> bool" where
  "holds k (Locked j) \<longleftrightarrow> j = k" | "holds k (Running j) \<longleftrightarrow> j = k"
| "holds k (Clearing j) \<longleftrightarrow> j = k" | "holds k (Cleared j) \<longleftrightarrow> j = k" | "holds k _ \<longleftrightarrow> False"

fun visits :: "pc \<Rightarrow> bool" where
  "visits (Visit k) = True" | "visits (Locked k) = True" | "visits (Running k) = True" | "visits _ = False"

fun fits :: "role \<Rightarrow> pc \<Rightarrow> bool" where
  "fits r Begin = True"
| "fits r (Visit k) = (r = Canceller)" | "fits r (Locked k) = (r = Canceller)" | "fits r (Running k) = (r = Canceller)"
| "fits r Finished = (r = Canceller)"
| "fits r (Held h) = (r = Subscriber)" | "fits r (Clearing k) = (r = Subscriber)"
| "fits r (Cleared k) = (r = Subscriber)" | "fits r (Gone h) = (r = Subscriber)"

text \<open>The subscription of a thread: not yet there, the null handle, or an entry.\<close>

fun handle :: "pc \<Rightarrow> nat option option" where
  "handle (Held h) = Some h" | "handle (Gone h) = Some h"
| "handle (Clearing k) = Some (Some k)" | "handle (Cleared k) = Some (Some k)" | "handle _ = None"

fun cleared :: "nat \<Rightarrow> pc \<Rightarrow> bool" where
  "cleared k (Cleared j) \<longleftrightarrow> j = k" | "cleared k (Gone h) \<longleftrightarrow> h = Some k" | "cleared k _ \<longleftrightarrow> False"

definition inv_lock :: "nat \<Rightarrow> (nat \<Rightarrow> pc) \<Rightarrow> CancellationState \<Rightarrow> bool" where
  "inv_lock n P s \<longleftrightarrow>
     (\<forall>i<n. \<forall>k. holds k (P i) \<longrightarrow> k < entries s) \<and>
     (\<forall>k<entries s. \<forall>i. ow s k = Some i \<longleftrightarrow> i < n \<and> holds k (P i))"

fun at_visit :: "CancellationState \<Rightarrow> pc \<Rightarrow> bool" where
  "at_visit s (Visit k) \<longleftrightarrow> m_isCancelled s \<and> visited s = k"
| "at_visit s (Locked k) \<longleftrightarrow> m_isCancelled s \<and> visited s = k"
| "at_visit s (Running k) \<longleftrightarrow> m_isCancelled s \<and> visited s = Suc k"
| "at_visit s Finished \<longleftrightarrow> m_isCancelled s"
| "at_visit s _ \<longleftrightarrow> True"

definition inv_visit :: "nat \<Rightarrow> (nat \<Rightarrow> pc) \<Rightarrow> CancellationState \<Rightarrow> bool" where
  "inv_visit n P s \<longleftrightarrow>
     (\<forall>i<n. at_visit s (P i)) \<and>
     (\<forall>i<n. \<forall>j<n. visits (P i) \<longrightarrow> visits (P j) \<longrightarrow> i = j) \<and>
     (m_isCancelled s \<longrightarrow> (\<exists>i<n. visits (P i)) \<or> visited s = entries s) \<and>
     (\<not> m_isCancelled s \<longrightarrow> visited s = 0) \<and> visited s \<le> entries s"

text \<open>How often the callback of a subscriber was called, by its handle.\<close>

fun counted :: "CancellationState \<Rightarrow> nat \<Rightarrow> nat option option \<Rightarrow> bool" where
  "counted s c None \<longleftrightarrow> c = 0"
| "counted s c (Some None) \<longleftrightarrow> c = 1 \<and> m_isCancelled s"
| "counted s c (Some (Some k)) \<longleftrightarrow> k < entries s \<and>
     (if visited s \<le> k then c = 0 else c \<le> 1 \<and> (cb s k \<noteq> None \<longrightarrow> c = 1))"

definition inv_calls :: "nat \<Rightarrow> (nat \<Rightarrow> pc) \<Rightarrow> CancellationState \<Rightarrow> bool" where
  "inv_calls n P s \<longleftrightarrow>
     (\<forall>k<entries s. \<forall>j. cb s k = Some j \<longrightarrow> j < n \<and> handle (P j) = Some (Some k)) \<and>
     (\<forall>i<n. \<forall>j<n. \<forall>k. handle (P i) = Some (Some k) \<longrightarrow> handle (P j) = Some (Some k) \<longrightarrow> i = j) \<and>
     (\<forall>i<n. counted s (count_list (called s) i) (handle (P i))) \<and>
     (\<forall>i<n. \<forall>k. cleared k (P i) \<longrightarrow> cb s k = None) \<and>
     (\<forall>i<n. \<forall>j<n. \<forall>k. P i = Gone (Some k) \<longrightarrow> P j \<noteq> Running k)"

lemmas entry_folds = ow_def [symmetric] cb_def [symmetric] entries_def [symmetric]
lemmas step_defs = thread_step_def cancel_step_def subscriber_step_def lock_entry_def nested_unsubscribe_def

lemma subscribe_simps:
  assumes "subscribe i s = (h, s')"
  shows "m_isCancelled s \<Longrightarrow> h = None \<and> s' = s\<lparr>called := i # called s\<rparr>"
    "\<not> m_isCancelled s \<Longrightarrow> h = Some (entries s) \<and> entries s' = Suc (entries s) \<and> m_isCancelled s' = False \<and>
       called s' = called s \<and> visited s' = visited s"
    "\<not> m_isCancelled s \<Longrightarrow> cb s' k = (if k < entries s then cb s k else if k = entries s then Some i else cb s' k)"
    "\<not> m_isCancelled s \<Longrightarrow> ow s' k = (if k < entries s then ow s k else if k = entries s then None else ow s' k)"
  using assms by (auto simp: subscribe_def cb_def ow_def entries_def nth_append)

text \<open>The steps with their effects, for the proofs that the invariant is kept.\<close>

inductive move :: "nat \<Rightarrow> role \<Rightarrow> pc \<Rightarrow> CancellationState \<Rightarrow> pc \<Rightarrow> CancellationState \<Rightarrow> bool" where
  late_cancel: "m_isCancelled s \<Longrightarrow> move i Canceller Begin s Finished s"
| cancel: "\<not> m_isCancelled s \<Longrightarrow> move i Canceller Begin s (Visit 0) (s\<lparr>m_isCancelled := True\<rparr>)"
| visit: "k < entries s \<Longrightarrow> ow s k = None \<Longrightarrow> move i Canceller (Visit k) s (Locked k) (set_owner k (Some i) s)"
| visited_all: "entries s \<le> k \<Longrightarrow> move i Canceller (Visit k) s Finished s"
| call: "cb s k = Some j \<Longrightarrow>
    move i Canceller (Locked k) s (Running k) (s\<lparr>called := j # called s, visited := Suc k\<rparr>)"
| skip: "cb s k = None \<Longrightarrow> move i Canceller (Locked k) s (Visit (Suc k)) (set_owner k None (s\<lparr>visited := Suc k\<rparr>))"
| returned: "move i Canceller (Running k) s (Visit (Suc k)) (set_owner k None s)"
| late_subscribe: "m_isCancelled s \<Longrightarrow> move i Subscriber Begin s (Held None) (s\<lparr>called := i # called s\<rparr>)"
| subscribe: "\<not> m_isCancelled s \<Longrightarrow> entries s' = Suc (entries s) \<Longrightarrow> \<not> m_isCancelled s' \<Longrightarrow> called s' = called s \<Longrightarrow>
    visited s' = visited s \<Longrightarrow> (\<And>k. k < entries s \<Longrightarrow> cb s' k = cb s k \<and> ow s' k = ow s k) \<Longrightarrow>
    cb s' (entries s) = Some i \<Longrightarrow> ow s' (entries s) = None \<Longrightarrow>
    move i Subscriber Begin s (Held (Some (entries s))) s'"
| no_handle: "move i Subscriber (Held None) s (Gone None) s"
| unsubscribe: "ow s k = None \<Longrightarrow> move i Subscriber (Held (Some k)) s (Clearing k) (set_owner k (Some i) s)"
| clear: "move i Subscriber (Clearing k) s (Cleared k) (setUnsubscribed k s)"
| unlock: "move i Subscriber (Cleared k) s (Gone (Some k)) (set_owner k None s)"

lemma thread_moves: "thread_step i r p s = Some (p', s') \<Longrightarrow> move i r p s p' s'"
proof (cases r)
  case Canceller
  then show "thread_step i r p s = Some (p', s') \<Longrightarrow> move i r p s p' s'"
    by (cases p) (auto simp: step_defs entry_folds split: if_splits option.splits intro: move.intros)
next
  case Subscriber
  have new: "move i Subscriber Begin s (Held h) s'" if "subscribe i s = (h, s')" for h
  proof (cases "m_isCancelled s")
    case True
    then show ?thesis using subscribe_simps(1) [OF that] move.late_subscribe by auto
  next
    case False
    then show ?thesis
      using subscribe_simps(2-4) [OF that] by (auto intro!: move.subscribe) (metis order_less_irrefl)+
  qed
  assume "thread_step i r p s = Some (p', s')"
  then show ?thesis
    using Subscriber new
    by (cases p) (auto simp: step_defs entry_folds split: if_splits option.splits prod.splits intro: move.intros)
qed

lemma one_holder:
  assumes "inv_lock n P s" "i < n" "j < n" "holds k (P i)" "holds k (P j)"
  shows "i = j"
proof -
  have "k < entries s" using assms(1,2,4) by (simp add: inv_lock_def)
  then have "ow s k = Some i" "ow s k = Some j" using assms unfolding inv_lock_def by blast+
  then show ?thesis by simp
qed

lemma lock_step:
  assumes "inv_lock n P s" "i < n" "P i = p" "move i r p s p' s'"
    and handles: "\<And>k. handle p = Some (Some k) \<Longrightarrow> k < entries s"
  shows "inv_lock n (P(i := p')) s'"
  using assms(4)
proof cases
  case (subscribe)
  have L: "\<forall>i<n. \<forall>k. holds k (P i) \<longrightarrow> k < entries s" and O: "\<forall>k<entries s. \<forall>i. ow s k = Some i \<longleftrightarrow> i < n \<and> holds k (P i)"
    using assms(1) unfolding inv_lock_def by blast+
  have "ow s' k = Some j \<longleftrightarrow> j < n \<and> holds k ((P(i := p')) j)" if "k < entries s'" for k j
  proof (cases "k < entries s")
    case True
    then show ?thesis using O assms(2,3) subscribe by auto
  next
    case False
    then have "k = entries s" using that subscribe by simp
    moreover have "\<not> holds (entries s) (P j)" if "j < n" using L that by blast
    ultimately show ?thesis using subscribe by auto
  qed
  moreover have "k < entries s'" if "j < n" "holds k ((P(i := p')) j)" for j k
  proof -
    have "\<not> holds k p'" "entries s' = Suc (entries s)" using subscribe by simp_all
    moreover have "j \<noteq> i \<Longrightarrow> k < entries s" using L that by simp
    ultimately show ?thesis using that(2) by (cases "j = i") simp_all
  qed
  ultimately show ?thesis
    unfolding inv_lock_def by blast
next
  case (skip k)
  then have u: "\<not> (j < n \<and> holds k (P j))" if "j \<noteq> i" for j
    using one_holder [OF assms(1,2), of j k] assms(3) that by auto
  have "k < entries s"
    using assms(1-3) skip unfolding inv_lock_def by auto
  then show ?thesis
    using assms(1-3) u skip unfolding inv_lock_def by (simp split: if_splits; blast?)
next
  case (returned k)
  then have u: "\<not> (j < n \<and> holds k (P j))" if "j \<noteq> i" for j
    using one_holder [OF assms(1,2), of j k] assms(3) that by auto
  have "k < entries s"
    using assms(1-3) returned unfolding inv_lock_def by auto
  then show ?thesis
    using assms(1-3) u returned unfolding inv_lock_def by (simp split: if_splits; blast?)
next
  case (unlock k)
  then have u: "\<not> (j < n \<and> holds k (P j))" if "j \<noteq> i" for j
    using one_holder [OF assms(1,2), of j k] assms(3) that by auto
  have "k < entries s"
    using assms(1-3) unlock unfolding inv_lock_def by auto
  then show ?thesis
    using assms(1-3) u unlock unfolding inv_lock_def by (simp split: if_splits; blast?)
next
  case (unsubscribe k)
  then show ?thesis
    using assms(1-3) handles [of k] unfolding inv_lock_def by (auto split: if_splits)
next
  case (clear k)
  then show ?thesis
    using assms(1-3) unfolding inv_lock_def by (auto split: if_splits)
qed (use assms(1-3) in \<open>unfold inv_lock_def, (auto split: if_splits; fail)\<close>)+

lemma at_visit_cong:
  "(m_isCancelled s \<Longrightarrow> m_isCancelled s') \<Longrightarrow> \<not> visits p \<or> visited s' = visited s \<Longrightarrow> at_visit s p \<Longrightarrow> at_visit s' p"
  by (cases p) auto

lemma visit_step:
  assumes "inv_visit n P s" "inv_lock n P s" "i < n" "P i = p" "move i r p s p' s'"
  shows "inv_visit n (P(i := p')) s'"
proof -
  have at: "j < n \<Longrightarrow> at_visit s (P j)" and one: "j < n \<Longrightarrow> k < n \<Longrightarrow> visits (P j) \<Longrightarrow> visits (P k) \<Longrightarrow> j = k"
    and rest: "\<not> m_isCancelled s \<longrightarrow> visited s = 0" "visited s \<le> entries s"
    and who: "m_isCancelled s \<longrightarrow> (\<exists>i<n. visits (P i)) \<or> visited s = entries s" for j k
    using assms(1) by (auto simp: inv_visit_def)
  have bound: "k < entries s" if "holds k p" for k
    using assms(2-4) that unfolding inv_lock_def by blast
  have calm: "\<not> visits (P j)" if "j < n" "\<not> m_isCancelled s" for j
    using at [OF that(1)] that(2) by (cases "P j") auto
  have go: "inv_visit n (P(i := p')) s'"
    if "at_visit s' p'" "visits p \<or> \<not> m_isCancelled s \<and> entries s' = entries s" "m_isCancelled s'"
      "visits p' \<or> visited s' = entries s'" "visited s' \<le> entries s'"
  proof -
    have alone: "\<not> visits (P j)" if "j < n" "j \<noteq> i" for j
      using \<open>visits p \<or> _\<close> calm one [of i j] assms(3,4) that by auto
    then have "at_visit s' (P j)" if "j < n" "j \<noteq> i" for j
      using at_visit_cong [OF _ _ at [OF that(1)], of s'] \<open>m_isCancelled s'\<close> that by blast
    with alone that assms(3) show ?thesis
      by (auto simp: inv_visit_def)
  qed
  have stay: "inv_visit n (P(i := p')) s'"
    if "\<not> visits p" "\<not> visits p'" "p' = Finished \<longrightarrow> m_isCancelled s" "m_isCancelled s' = m_isCancelled s"
      "visited s' = visited s"
      "entries s' = entries s \<or> \<not> m_isCancelled s \<and> entries s \<le> entries s'"
  proof -
    have "at_visit s' (P j)" if "j < n" for j
      using at [OF that] at_visit_cong \<open>m_isCancelled s' = _\<close> \<open>visited s' = _\<close> by blast
    moreover have "at_visit s' p'"
      using that(2-4) by (cases p') auto
    moreover have "(\<exists>j<n. visits ((P(i := p')) j)) \<or> visited s' = entries s'" if "m_isCancelled s'"
    proof -
      have c: "m_isCancelled s" "entries s' = entries s"
        using that \<open>m_isCancelled s' = _\<close> \<open>_ \<or> \<not> m_isCancelled s \<and> _\<close> by auto
      with who consider j where "j < n" "visits (P j)" | "visited s = entries s" by blast
      then show ?thesis
      proof cases
        case 1
        then have "visits ((P(i := p')) j)" using \<open>\<not> visits p\<close> assms(4) by (cases "j = i") auto
        with 1 show ?thesis by blast
      qed (simp add: c \<open>visited s' = _\<close>)
    qed
    ultimately show ?thesis
      using that one rest unfolding inv_visit_def by (intro conjI allI impI) (auto split: if_splits)
  qed
  from assms(5) show ?thesis
    using at [OF assms(3)] assms(4) rest bound
    by cases ((rule go; simp add: Suc_le_eq; fail) | (rule stay; simp; fail))+
qed

lemma callsD:
  assumes "inv_calls n P s"
  shows "k < entries s \<Longrightarrow> cb s k = Some j \<Longrightarrow> j < n \<and> handle (P j) = Some (Some k)"
    and "i < n \<Longrightarrow> j < n \<Longrightarrow> handle (P i) = Some (Some k) \<Longrightarrow> handle (P j) = Some (Some k) \<Longrightarrow> i = j"
    and "i < n \<Longrightarrow> counted s (count_list (called s) i) (handle (P i))"
    and "i < n \<Longrightarrow> cleared k (P i) \<Longrightarrow> cb s k = None"
    and "i < n \<Longrightarrow> j < n \<Longrightarrow> P i = Gone (Some k) \<Longrightarrow> P j \<noteq> Running k"
  using assms by (auto simp: inv_calls_def)

lemma callsI:
  assumes "\<And>k j. k < entries s \<Longrightarrow> cb s k = Some j \<Longrightarrow> j < n \<and> handle (P j) = Some (Some k)"
    and "\<And>i j k. i < n \<Longrightarrow> j < n \<Longrightarrow> handle (P i) = Some (Some k) \<Longrightarrow> handle (P j) = Some (Some k) \<Longrightarrow> i = j"
    and "\<And>i. i < n \<Longrightarrow> counted s (count_list (called s) i) (handle (P i))"
    and "\<And>i k. i < n \<Longrightarrow> cleared k (P i) \<Longrightarrow> cb s k = None"
    and "\<And>i j k. i < n \<Longrightarrow> j < n \<Longrightarrow> P i = Gone (Some k) \<Longrightarrow> P j \<noteq> Running k"
  shows "inv_calls n P s"
  using assms by (auto simp: inv_calls_def)

lemma counted_mono:
  "counted s c h \<Longrightarrow> (m_isCancelled s \<Longrightarrow> m_isCancelled s') \<Longrightarrow> entries s \<le> entries s' \<Longrightarrow>
    (\<And>k. h = Some (Some k) \<Longrightarrow> k < entries s \<Longrightarrow> (visited s' \<le> k \<longleftrightarrow> visited s \<le> k) \<and> (cb s k = None \<longrightarrow> cb s' k = None)) \<Longrightarrow>
    counted s' c h"
  by (cases "(s, c, h)" rule: counted.cases) (auto split: if_splits)

lemma counted_set_owner [simp]: "counted (set_owner k i s) c h = counted s c h"
  by (cases "(s, c, h)" rule: counted.cases) auto

lemma calls_kept:
  assumes I: "inv_calls n P s" and i: "i < n" and same: "handle p' = handle (P i)" "entries s' = entries s"
    and cbs: "\<And>k. k < entries s \<Longrightarrow> cb s' k = cb s k \<or> cb s' k = None"
    and cnt: "\<And>j. j < n \<Longrightarrow> counted s' (count_list (called s') j) (handle (P j))"
    and own: "\<And>k. cleared k p' \<Longrightarrow> cb s' k = None" and others: "\<And>j k. j < n \<Longrightarrow> cleared k (P j) \<Longrightarrow> cb s' k = None"
    and gone: "\<And>k j. p' = Gone (Some k) \<Longrightarrow> j < n \<Longrightarrow> j \<noteq> i \<Longrightarrow> P j \<noteq> Running k"
    and runs: "\<And>k j. p' = Running k \<Longrightarrow> j < n \<Longrightarrow> j \<noteq> i \<Longrightarrow> P j \<noteq> Gone (Some k)"
  shows "inv_calls n (P(i := p')) s'"
proof (rule callsI)
  note D = callsD [OF I]
  have h: "handle ((P(i := p')) j) = handle (P j)" for j
    using same(1) by simp
  show "j < n \<and> handle ((P(i := p')) j) = Some (Some k)" if "k < entries s'" "cb s' k = Some j" for k j
    using D(1) [of k j] that cbs [of k] same(2) unfolding h by auto
  show "j = l" if "j < n" "l < n" "handle ((P(i := p')) j) = Some (Some k)" "handle ((P(i := p')) l) = Some (Some k)" for j l k
    using D(2) [of j l k] that unfolding h by auto
  show "counted s' (count_list (called s') j) (handle ((P(i := p')) j))" if "j < n" for j
    unfolding h by (rule cnt [OF that])
  show "cb s' k = None" if "j < n" "cleared k ((P(i := p')) j)" for j k
    using that own others by (cases "j = i") auto
  show "(P(i := p')) l \<noteq> Running k" if "j < n" "l < n" "(P(i := p')) j = Gone (Some k)" for j l k
    using that gone [of k l] runs [of k j] D(5) [of j l k] by (auto split: if_splits)
qed

lemma calls_step:
  assumes "inv_calls n P s" "inv_visit n P s" "inv_lock n P s" "i < n" "P i = p" "move i r p s p' s'"
  shows "inv_calls n (P(i := p')) s'"
proof -
  note D = callsD [OF assms(1)]
  have bound: "k < entries s" if "holds k p" for k
    using assms(3-5) that unfolding inv_lock_def by blast
  have at: "at_visit s p" "visited s \<le> entries s"
    using assms(2,4,5) by (auto simp: inv_visit_def)
  have quiet: "P j \<noteq> Running k" if "holds k p" "j < n" "j \<noteq> i" for j k
    using one_holder [OF assms(3,4) that(2), of k] assms(5) that by auto
  note K = calls_kept [OF assms(1,4)]
  have old: "counted s (count_list (called s) j) (handle (P j))" if "j < n" for j by (rule D(3) [OF that])
  from assms(6) show ?thesis
  proof cases
    case (call k j)
    have k: "k < entries s" "visited s = k" using bound [of k] at call by auto
    have j: "j < n" "handle (P j) = Some (Some k)" using D(1) [OF k(1)] call by auto
    have "counted s' (count_list (called s') l) (handle (P l))" if "l < n" for l
    proof (cases "l = j")
      case True
      then show ?thesis using old [OF that] j k call by simp
    next
      case False
      then have "handle (P l) \<noteq> Some (Some k)" using D(2) [OF that j(1) _ j(2)] by auto
      then show ?thesis
        using old [OF that] False k call
        by (cases "(s, count_list (called s) l, handle (P l))" rule: counted.cases) (auto split: if_splits)
    qed
    then show ?thesis
      using call D(4) assms(5) by (intro K) fastforce+
  next
    case (skip k)
    have k: "k < entries s" "visited s = k" using bound [of k] at skip by auto
    have "counted s' (count_list (called s') l) (handle (P l))" if "l < n" for l
    proof (cases "handle (P l) = Some (Some k)")
      case True
      then show ?thesis using old [OF that] k skip by simp
    next
      case False
      then show ?thesis
        using old [OF that] k skip
        by (cases "(s, count_list (called s) l, handle (P l))" rule: counted.cases)
          (auto simp: not_less_eq_eq split: if_splits)
    qed
    then show ?thesis
      using skip D(4) assms(5) by (intro K) auto
  next
    case late_subscribe
    have cnt: "counted s' (count_list (called s') l) (handle ((P(i := p')) l))" if "l < n" for l
    proof (cases "l = i")
      case True
      then show ?thesis using old [OF that] late_subscribe assms(5) by simp
    next
      case False
      then show ?thesis
        using late_subscribe by (simp, intro counted_mono [OF old [OF that]]) auto
    qed
    have h: "handle ((P(i := p')) j) = Some (Some k) \<longleftrightarrow> handle (P j) = Some (Some k)" for j k
      using late_subscribe assms(5) by auto
    have x: "\<not> cleared k p'" "p' \<noteq> Gone h" "p' \<noteq> Running k" "cb s' = cb s" "entries s' = entries s" for k h
      using late_subscribe by auto
    show ?thesis
    proof (rule callsI)
      show "cb s' k = None" if "j < n" "cleared k ((P(i := p')) j)" for j k
        using D(4) [of j k] that x by (cases "j = i") auto
      show "(P(i := p')) l \<noteq> Running k" if "j < n" "l < n" "(P(i := p')) j = Gone (Some k)" for j l k
        using D(5) [of j l k] that x by (auto split: if_splits)
      show "j < n \<and> handle ((P(i := p')) j) = Some (Some k)" if "k < entries s'" "cb s' k = Some j" for k j
        unfolding h using D(1) that x by simp
      show "j = l" if "j < n" "l < n" "handle ((P(i := p')) j) = Some (Some k)"
        "handle ((P(i := p')) l) = Some (Some k)" for j l k
        using D(2) that unfolding h by blast
    qed (rule cnt)
  next
    case subscribe
    let ?e = "entries s"
    have below: "k < ?e" if "l < n" "handle (P l) = Some (Some k)" for l k
      using old [OF that(1)] that(2) by simp
    have h: "handle ((P(i := p')) j) = Some (Some k) \<longleftrightarrow> (if j = i then k = ?e else handle (P j) = Some (Some k))" for j k
      using subscribe by auto
    have v: "visited s \<le> ?e" "visited s = 0" using at assms(2) subscribe by (auto simp: inv_visit_def)
    have x: "\<not> cleared k p'" "p' \<noteq> Gone h" "p' \<noteq> Running k" for k h
      using subscribe by auto
    have gone: "k < ?e" if "l < n" "cleared k (P l)" for l k
      by (rule below [OF that(1)]) (use that(2) in \<open>cases "P l"; simp\<close>)
    show ?thesis
    proof (rule callsI)
      show "j < n \<and> handle ((P(i := p')) j) = Some (Some k)" if "k < entries s'" "cb s' k = Some j" for k j
      proof (cases "k < ?e")
        case True
        then have "j < n" "handle (P j) = Some (Some k)" using D(1) [OF True, of j] that subscribe by auto
        then show ?thesis using assms(5) subscribe unfolding h by auto
      next
        case False
        then have "k = ?e" using that(1) subscribe by simp
        then show ?thesis using that(2) subscribe assms(4) unfolding h by simp
      qed
      show "j = l" if "j < n" "l < n" "handle ((P(i := p')) j) = Some (Some k)"
        "handle ((P(i := p')) l) = Some (Some k)" for j l k
        using that(3,4) D(2) [OF that(1,2), of k] below [OF that(1), of k] below [OF that(2), of k]
        unfolding h by (auto split: if_splits)
      show "counted s' (count_list (called s') l) (handle ((P(i := p')) l))" if "l < n" for l
      proof (cases "l = i")
        case True
        then show ?thesis using old [OF that] subscribe assms(5) v by simp
      next
        case False
        then show ?thesis
          using subscribe by (simp, intro counted_mono [OF old [OF that]]) auto
      qed
      show "cb s' k = None" if "j < n" "cleared k ((P(i := p')) j)" for j k
        using D(4) [of j k] gone [of j k] that x subscribe by (cases "j = i") auto
      show "(P(i := p')) l \<noteq> Running k" if "j < n" "l < n" "(P(i := p')) j = Gone (Some k)" for j l k
        using D(5) [of j l k] that x by (auto split: if_splits)
    qed
  next
    case (clear k)
    then have k: "k < entries s" using bound [of k] by simp
    have "counted s' (count_list (called s) l) (handle (P l))" if "l < n" for l
      by (rule counted_mono [OF old [OF that]]) (use clear k in auto)
    then show ?thesis
      using clear k D(4) assms(5) by (intro K) (auto split: if_splits)
  next
    case (unlock k)
    then show ?thesis
      using old quiet D(4) [OF assms(4), of k] D(4) assms(5) by (intro K) auto
  next
    case cancel
    have "counted s' (count_list (called s) l) (handle (P l))" if "l < n" for l
      by (rule counted_mono [OF old [OF that]]) (use cancel in auto)
    then show ?thesis
      using cancel D(4) assms(5) by (intro K) auto
  qed ((rule K; insert old D(4) assms(5); auto; fail)+)
qed

section \<open>Every reachable state\<close>

definition at_pc :: "(role \<times> pc) list \<Rightarrow> nat \<Rightarrow> pc" where
  "at_pc ts i = snd (ts ! i)"

definition inv :: "role list \<Rightarrow> config \<Rightarrow> bool" where
  "inv roles c \<longleftrightarrow> (let (s, ts) = c; n = length roles in
     map fst ts = roles \<and> (\<forall>i<n. fits (fst (ts ! i)) (at_pc ts i)) \<and>
     inv_lock n (at_pc ts) s \<and> inv_visit n (at_pc ts) s \<and> inv_calls n (at_pc ts) s)"

lemma at_pc_update: "i < length ts \<Longrightarrow> at_pc (ts[i := (r, p)]) = (at_pc ts)(i := p)"
  by (auto simp: at_pc_def fun_eq_iff nth_list_update)

lemma move_fits: "move i r p s p' s' \<Longrightarrow> fits r p'"
  by (induction rule: move.induct) auto

lemma nested_step:
  assumes "inv_lock n P s" "inv_visit n P s" "inv_calls n P s" "i < n" "h < entries s"
  shows "inv_lock n P (setUnsubscribed h s)" "inv_visit n P (setUnsubscribed h s)" "inv_calls n P (setUnsubscribed h s)"
proof -
  show "inv_lock n P (setUnsubscribed h s)"
    using assms(1) by (simp add: inv_lock_def)
  have "at_visit (setUnsubscribed h s) p = at_visit s p" for p
    by (cases p) auto
  then show "inv_visit n P (setUnsubscribed h s)"
    using assms(2) by (simp add: inv_visit_def)
  note D = callsD [OF assms(3)]
  have "counted (setUnsubscribed h s) (count_list (called s) l) (handle (P l))" if "l < n" for l
    by (rule counted_mono [OF D(3) [OF that]]) (use assms(5) in auto)
  then have "inv_calls n (P(i := P i)) (setUnsubscribed h s)"
    using assms(5) D(4,5) by (intro calls_kept [OF assms(3,4)]) (use assms(4) in auto)
  then show "inv_calls n P (setUnsubscribed h s)"
    by simp
qed

lemma cancellation_keeps:
  assumes "inv roles c" "step c c'"
  shows "inv roles c'"
  using assms(2,1)
proof (induction rule: step.induct)
  case (thread i ts r p s p' s')
  let ?n = "length roles"
  from thread.prems have I: "map fst ts = roles" "inv_lock ?n (at_pc ts) s" "inv_visit ?n (at_pc ts) s"
    "inv_calls ?n (at_pc ts) s" "\<forall>i<?n. fits (fst (ts ! i)) (at_pc ts i)"
    by (auto simp: inv_def Let_def)
  have i: "i < ?n" "at_pc ts i = p" using thread.hyps I(1) by (auto simp: at_pc_def)
  have m: "move i r p s p' s'" by (rule thread_moves [OF thread.hyps(3)])
  have "k < entries s" if "handle p = Some (Some k)" for k
    using callsD(3) [OF I(4) i(1)] that i(2) by simp
  then have "inv_lock ?n ((at_pc ts)(i := p')) s'"
    using lock_step [OF I(2) i m] by blast
  moreover have "inv_visit ?n ((at_pc ts)(i := p')) s'" "inv_calls ?n ((at_pc ts)(i := p')) s'"
    by (rule visit_step [OF I(3,2) i m], rule calls_step [OF I(4,3,2) i m])
  moreover have "map fst (ts[i := (r, p')]) = roles"
    using I(1) thread.hyps(1,2) by (metis fst_conv list_update_id map_update)
  moreover have "fits (fst (ts[i := (r, p')] ! j)) (((at_pc ts)(i := p')) j)" if "j < ?n" for j
    using I(5) move_fits [OF m] that thread.hyps(1) by (cases "j = i") auto
  ultimately show ?case
    using thread.hyps(1) by (simp add: inv_def Let_def at_pc_update)
next
  case (nested i ts k h s s')
  have "h < entries s" "s' = setUnsubscribed h s"
    using nested.hyps(3) by (auto simp: step_defs entry_folds split: if_splits)
  moreover have "i < length roles"
    using nested.hyps(1) nested.prems by (auto simp: inv_def Let_def)
  ultimately show ?case
    using nested_step [of "length roles" "at_pc ts" s i h] nested.prems by (auto simp: inv_def Let_def)
qed

lemma cancellation_start: "inv roles (new_state, map (\<lambda>r. (r, Begin)) roles)"
proof -
  have e: "entries new_state = 0" "called new_state = []" "visited new_state = 0" "m_isCancelled new_state = False"
    by (auto simp: new_state_def entries_def)
  have p: "at_pc (map (\<lambda>r. (r, Begin)) roles) i = Begin" if "i < length roles" for i
    using that by (simp add: at_pc_def)
  show ?thesis
    using e p by (auto simp: inv_def Let_def inv_lock_def inv_visit_def inv_calls_def comp_def)
qed

lemma cancellation_inv: "reachable roles c \<Longrightarrow> inv roles c"
  by (induction rule: reachable.induct) (auto intro: cancellation_start cancellation_keeps)

lemma reachableD:
  assumes "reachable roles (s, ts)"
  shows "length ts = length roles" "inv_lock (length ts) (at_pc ts) s" "inv_visit (length ts) (at_pc ts) s"
    "inv_calls (length ts) (at_pc ts) s" "\<And>i. i < length ts \<Longrightarrow> fits (fst (ts ! i)) (at_pc ts i)"
  using cancellation_inv [OF assms] by (auto simp: inv_def Let_def)

lemmas thread_defs = thread_step_def cancel_step_def subscriber_step_def lock_entry_def subscribe_def

section \<open>Properties\<close>

text \<open>
  C14. A callback is called at most once and never before \<open>cancel\<close>; when every cancelling thread has finished
  and the subscribers still hold their subscriptions, each callback that was not unsubscribed was called, however
  \<open>subscribe\<close>, \<open>cancel\<close> and \<open>unsubscribe\<close> were interleaved.
\<close>
theorem cancel_calls_once:
  assumes "reachable roles (s, ts)" "i < length ts" "fst (ts ! i) = Subscriber"
  shows "count_list (called s) i \<le> 1 \<and> (\<not> m_isCancelled s \<longrightarrow> count_list (called s) i = 0) \<and>
    (Canceller \<in> set roles \<and> (\<forall>j<length ts. fst (ts ! j) = Canceller \<longrightarrow> snd (ts ! j) = Finished) \<and>
     (\<exists>h. snd (ts ! i) = Held h \<and> (\<forall>k. h = Some k \<longrightarrow> callback (m_subscriptions s ! k) \<noteq> None)) \<longrightarrow>
     count_list (called s) i = 1)"
proof (intro conjI impI)
  note R = reachableD [OF assms(1)]
  have c: "counted s (count_list (called s) i) (handle (at_pc ts i))"
    by (rule callsD(3) [OF R(4) assms(2)])
  have v: "\<not> m_isCancelled s \<longrightarrow> visited s = 0" using R(3) by (auto simp: inv_visit_def)
  show "count_list (called s) i \<le> 1"
    using c by (cases "(s, count_list (called s) i, handle (at_pc ts i))" rule: counted.cases) (auto split: if_splits)
  show "count_list (called s) i = 0" if "\<not> m_isCancelled s"
    using c v that
    by (cases "(s, count_list (called s) i, handle (at_pc ts i))" rule: counted.cases) (auto split: if_splits)
  assume "Canceller \<in> set roles \<and> (\<forall>j<length ts. fst (ts ! j) = Canceller \<longrightarrow> snd (ts ! j) = Finished) \<and>
     (\<exists>h. snd (ts ! i) = Held h \<and> (\<forall>k. h = Some k \<longrightarrow> callback (m_subscriptions s ! k) \<noteq> None))"
  then obtain h where all: "\<And>j. j < length ts \<Longrightarrow> fst (ts ! j) = Canceller \<Longrightarrow> snd (ts ! j) = Finished"
    and h: "snd (ts ! i) = Held h" "\<And>k. h = Some k \<Longrightarrow> cb s k \<noteq> None" and some: "Canceller \<in> set roles"
    unfolding cb_def by blast
  have "map fst ts = roles" using cancellation_inv [OF assms(1)] by (simp add: inv_def Let_def)
  with some obtain j where j: "j < length ts" "fst (ts ! j) = Canceller" by (auto simp: in_set_conv_nth)
  have "at_visit s (at_pc ts j)" using R(3) j(1) by (simp add: inv_visit_def)
  then have k: "m_isCancelled s" using all [OF j] by (simp add: at_pc_def)
  have "\<not> visits (at_pc ts l)" if "l < length ts" for l
    using R(5) [OF that] all [OF that] by (cases "snd (ts ! l)") (auto simp: at_pc_def)
  then have "visited s = entries s" using R(3) k unfolding inv_visit_def by blast
  then show "count_list (called s) i = 1" using c h by (cases h) (auto simp: at_pc_def)
qed

lemma gone_step:
  assumes "reachable roles (s, ts)" "i < length ts" "snd (ts ! i) = Gone h" "step (s, ts) (s', ts')"
  shows "length ts' = length ts \<and> snd (ts' ! i) = Gone h \<and> count_list (called s') i = count_list (called s) i"
  using assms(4)
proof cases
  case (thread l r p p')
  have m: "move l r p s p' s'" by (rule thread_moves [OF thread(4)])
  then have "l \<noteq> i" using thread(3) assms(3) by (auto elim: move.cases)
  note D = callsD [OF reachableD(4) [OF assms(1)]]
  have l: "l < length ts" "at_pc ts l = p" using thread by (auto simp: at_pc_def)
  have "cb s k \<noteq> Some i" if "k < entries s" for k
    using D(1) [OF that, of i] D(4) [OF assms(2), of k] assms(3) by (auto simp: at_pc_def)
  moreover have "k < entries s" if "p = Locked k" for k
    using reachableD(2) [OF assms(1)] l that by (auto simp: inv_lock_def)
  ultimately have n: "cb s k \<noteq> Some i" if "p = Locked k" for k
    using that by blast
  from m have "count_list (called s') i = count_list (called s) i"
    by cases (use n \<open>l \<noteq> i\<close> in auto)
  then show ?thesis using thread \<open>l \<noteq> i\<close> assms(3) by simp
next
  case (nested l k h)
  then show ?thesis using assms(3) by (auto simp: step_defs split: if_splits)
qed

text \<open>
  Once \<open>unsubscribe\<close> has returned, the callback is not running and is never called again, whatever the
  other threads do: the data the callback uses may be destroyed.
\<close>
theorem unsubscribed_stays_quiet:
  assumes "reachable roles (s, ts)" "i < length ts" "snd (ts ! i) = Gone (Some k)" "step\<^sup>*\<^sup>* (s, ts) (s', ts')"
  shows "count_list (called s') i = count_list (called s) i \<and> (\<forall>j<length ts. snd (ts' ! j) \<noteq> Running k)"
proof -
  have "reachable roles c \<and> length (snd c) = length ts \<and> snd (snd c ! i) = Gone (Some k) \<and>
      count_list (called (fst c)) i = count_list (called s) i" if "step\<^sup>*\<^sup>* (s, ts) c" for c
    using that
  proof induction
    case base
    then show ?case using assms by simp
  next
    case (step c c')
    then show ?case
      using gone_step [of roles "fst c" "snd c" i "Some k" "fst c'" "snd c'"] assms(2)
      by (auto intro: reachable.step)
  qed
  from this [OF assms(4)] have r: "reachable roles (s', ts')" "length ts' = length ts"
    "snd (ts' ! i) = Gone (Some k)" "count_list (called s') i = count_list (called s) i"
    by auto
  then show ?thesis
    using callsD(5) [OF reachableD(4) [OF r(1)], of i _ k] assms(2) by (auto simp: at_pc_def)
qed

text \<open>
  No deadlock: as long as a thread has not finished, some thread can go on.  The callbacks are assumed to
  return.
\<close>
theorem cancellation_progress:
  assumes "reachable roles (s, ts)" "i < length ts" "snd (ts ! i) \<noteq> Finished" "\<forall>h. snd (ts ! i) \<noteq> Gone h"
  shows "\<exists>c. step (s, ts) c"
proof -
  note R = reachableD [OF assms(1)]
  have go: "\<exists>c. step (s, ts) c" if "j < length ts" "thread_step j (fst (ts ! j)) (snd (ts ! j)) s \<noteq> None" for j
    using step.thread [OF that(1), of "fst (ts ! j)" "snd (ts ! j)"] that(2) by (metis not_None_eq prod.collapse)
  have holder: "\<exists>c. step (s, ts) c" if "j < length ts" "holds k (snd (ts ! j))" for j k
  proof (rule go [OF that(1)])
    show "thread_step j (fst (ts ! j)) (snd (ts ! j)) s \<noteq> None"
      using R(5) [OF that(1)] that(2)
      by (cases "snd (ts ! j)") (auto simp: thread_defs at_pc_def split: option.splits)
  qed
  show ?thesis
  proof (cases "thread_step i (fst (ts ! i)) (snd (ts ! i)) s = None")
    case False
    then show ?thesis by (rule go [OF assms(2)])
  next
    case True
    have h: "k < entries s" if "snd (ts ! i) = Held (Some k)" for k
      using callsD(3) [OF R(4) assms(2)] that by (simp add: at_pc_def)
    have "\<exists>k<entries s. ow s k \<noteq> None"
      using True R(5) [OF assms(2)] assms(3,4) h
      by (cases "snd (ts ! i)"; cases "fst (ts ! i)")
        (auto simp: thread_defs at_pc_def entry_folds split: option.splits if_splits prod.splits)
    then obtain k j where "k < entries s" "ow s k = Some j" by auto
    then have "j < length ts" "holds k (snd (ts ! j))"
      using R(2) by (auto simp: inv_lock_def at_pc_def)
    then show ?thesis by (rule holder)
  qed
qed

section \<open>Runs\<close>

text \<open>A run of the threads in a given order; \<open>None\<close> when a thread whose turn it is cannot step.\<close>

fun run :: "nat list \<Rightarrow> config \<Rightarrow> config option" where
  "run [] c = Some c"
| "run (i # is) (s, ts) =
     (if i < length ts then
        case thread_step i (fst (ts ! i)) (snd (ts ! i)) s of
          Some (p, s') \<Rightarrow> run is (s', ts[i := (fst (ts ! i), p)])
        | None \<Rightarrow> None
      else None)"

lemma run_steps: "run is c = Some c' \<Longrightarrow> step\<^sup>*\<^sup>* c c'"
proof (induction "is" c rule: run.induct)
  case (2 i "is" s ts)
  from 2(2) obtain p s' where n: "i < length ts" "thread_step i (fst (ts ! i)) (snd (ts ! i)) s = Some (p, s')"
    "run is (s', ts[i := (fst (ts ! i), p)]) = Some c'"
    by (auto split: if_splits option.splits prod.splits)
  then have "step (s, ts) (s', ts[i := (fst (ts ! i), p)])"
    by (intro step.thread) auto
  moreover have "step\<^sup>*\<^sup>* (s', ts[i := (fst (ts ! i), p)]) c'"
    using 2(1) n by blast
  ultimately show ?case by (rule converse_rtranclp_into_rtranclp)
qed simp

lemma steps_reachable: "step\<^sup>*\<^sup>* c c' \<Longrightarrow> reachable roles c \<Longrightarrow> reachable roles c'"
  by (induction rule: rtranclp_induct) (auto intro: reachable.step)

definition begin_config :: "role list \<Rightarrow> config" where
  "begin_config roles = (new_state, map (\<lambda>r. (r, Begin)) roles)"

lemma run_reachable: "run is (begin_config roles) = Some c \<Longrightarrow> reachable roles c"
  using steps_reachable [OF run_steps] reachable.init unfolding begin_config_def by blast

text \<open>One thread cancels; the first subscriber comes before and unsubscribes, the second comes after it.\<close>

definition demo_roles :: "role list" where "demo_roles = [Canceller, Subscriber, Subscriber]"
definition demo :: config where "demo = the (run [1, 0, 0, 0, 0, 2, 0] (begin_config demo_roles))"
definition demo_gone :: config where "demo_gone = the (run [1, 0, 1, 1, 1] (begin_config demo_roles))"
definition demo_end :: config where "demo_end = the (run [0, 0, 0] demo_gone)"

lemma cancel_demo_reachable: "reachable demo_roles (fst demo, snd demo)"
  by (rule run_reachable [of "[1, 0, 0, 0, 0, 2, 0]"]) (simp add: demo_def, code_simp)

lemma demo_gone_reachable: "reachable demo_roles (fst demo_gone, snd demo_gone)"
  by (rule run_reachable [of "[1, 0, 1, 1, 1]"]) (simp add: demo_gone_def, code_simp)

lemma demo_end_steps: "step\<^sup>*\<^sup>* (fst demo_gone, snd demo_gone) (fst demo_end, snd demo_end)"
  by (rule run_steps [of "[0, 0, 0]"]) (simp add: demo_end_def, code_simp)

theorem cancel_calls_once_witness:
  "count_list (called (fst demo)) 1 = 1 \<and> count_list (called (fst demo)) 2 = 1"
proof -
  have l: "1 < length (snd demo)" "fst (snd demo ! 1) = Subscriber"
    "2 < length (snd demo)" "fst (snd demo ! 2) = Subscriber" by code_simp+
  have d: "Canceller \<in> set demo_roles" "\<forall>j<length (snd demo). fst (snd demo ! j) = Canceller \<longrightarrow> snd (snd demo ! j) = Finished"
    by (simp add: demo_roles_def, code_simp)
  have h: "snd (snd demo ! 1) = Held (Some 0)" "callback (m_subscriptions (fst demo) ! 0) \<noteq> None"
    "snd (snd demo ! 2) = Held None" by code_simp+
  show ?thesis
    using cancel_calls_once [OF cancel_demo_reachable l(1,2)] cancel_calls_once [OF cancel_demo_reachable l(3,4)] d h by simp
qed

theorem unsubscribed_stays_quiet_witness:
  "count_list (called (fst demo_end)) 1 = count_list (called (fst demo_gone)) 1 \<and> snd (snd demo_end ! 0) \<noteq> Running 0"
proof -
  have l: "1 < length (snd demo_gone)" "0 < length (snd demo_gone)" by code_simp+
  moreover have "snd (snd demo_gone ! 1) = Gone (Some 0)" by code_simp
  ultimately show ?thesis
    using unsubscribed_stays_quiet [OF demo_gone_reachable _ _ demo_end_steps, of 1 0] by blast
qed

theorem cancellation_progress_witness: "\<exists>c. step (fst demo_gone, snd demo_gone) c"
proof (rule cancellation_progress [OF demo_gone_reachable])
  show "0 < length (snd demo_gone)" by code_simp
  have "snd (snd demo_gone ! 0) = Visit 0" by code_simp
  then show "snd (snd demo_gone ! 0) \<noteq> Finished" "\<forall>h. snd (snd demo_gone ! 0) \<noteq> Gone h" by simp_all
qed

end
