(* ===== verification/HttpParser.thy ===== *)
theory HttpParser
  imports Strings
begin

text \<open>
  \<open>HttpParser\<close> (\<open>src/network/http_parser.cpp\<close>): the header block of an HTTP message as a view into the
  received bytes, its lines and headers, and the loops over the headers; and the packets of the debug adapter
  (\<open>src/debug/dap/dap_utils.cpp\<close>) that are read from a stream with it.  Views into the buffer are offsets, as
  the code finds the line behind a header from the address of its key.  The lemmas show that the walk over the
  headers, by address, is the list of header lines of the text, and what is read from a stream does not depend on
  how the bytes arrive, as far as the header block goes.
\<close>

section \<open>The parser\<close>

definition crlf :: string where "crlf = [CHR 0x0D, CHR 0x0A]"
definition EndOfHeaders :: string where "EndOfHeaders = crlf @ crlf"

lemma separator_lengths [simp]: "length crlf = 2" "length EndOfHeaders = 4" "crlf \<noteq> []" "EndOfHeaders \<noteq> []"
  by (simp_all add: crlf_def EndOfHeaders_def)

record Header =
  key :: view
  val :: view

definition no_header :: Header where "no_header = \<lparr>key = NullView, val = NullView\<rparr>"

definition given :: "Header \<Rightarrow> bool" where
  "given h \<longleftrightarrow> view_size (key h) \<noteq> 0"

definition getHeadersBuffer :: "string \<Rightarrow> string" where
  "getHeadersBuffer buffer =
     (case find_str buffer EndOfHeaders 0 of Some pos \<Rightarrow> take (pos + length EndOfHeaders) buffer | None \<Rightarrow> [])"

definition tryParseHeader :: "string \<Rightarrow> view \<Rightarrow> Header" where
  "tryParseHeader s line =
     (case line of
        NullView \<Rightarrow> no_header
      | View off n \<Rightarrow>
          (case find_char (view_str s line) (CHR '':'') 0 of
             None \<Rightarrow> no_header
           | Some index \<Rightarrow>
               \<lparr>key = trimImpl s (View off index), val = trimImpl s (View (off + index + 1) (n - index - 1))\<rparr>))"

text \<open>\<open>parseHeader\<close> gives an error for a line without a header.\<close>

definition parseHeader :: "string \<Rightarrow> view \<Rightarrow> string + Header" where
  "parseHeader s line =
     (let header = tryParseHeader s line
      in if given header then Inr header else Inl (''Invalid http header:('' @ view_str s line @ '')''))"

definition getNextLine :: "string \<Rightarrow> view \<Rightarrow> view" where
  "getNextLine buffer line =
     (if buffer = [] \<or> view_size line = 0 then NullView
      else case line of
        NullView \<Rightarrow> NullView
      | View off n \<Rightarrow>
          (case find_str buffer crlf off of
             None \<Rightarrow> NullView
           | Some end1 \<Rightarrow>
               (let begin' = end1 + length crlf
                in case find_str buffer crlf begin' of
                     None \<Rightarrow> NullView
                   | Some end' \<Rightarrow> View begin' (end' - begin'))))"

definition getFirstHeader :: "string \<Rightarrow> Header" where
  "getFirstHeader buffer =
     (if buffer = [] then no_header
      else
        let firstLine = (case find_str buffer crlf 0 of None \<Rightarrow> View 0 (length buffer) | Some end1 \<Rightarrow> View 0 end1);
            firstHeader = tryParseHeader buffer firstLine
        in if given firstHeader then firstHeader
           else tryParseHeader buffer (getNextLine buffer firstLine))"

definition getNextHeader :: "string \<Rightarrow> Header \<Rightarrow> Header" where
  "getNextHeader buffer h =
     (if given h then tryParseHeader buffer (getNextLine buffer (key h)) else no_header)"

text \<open>The loops over the headers end because the key of the next header lies behind.\<close>

definition rank :: "string \<Rightarrow> Header \<Rightarrow> nat" where
  "rank s h = (if given h then (case key h of View off _ \<Rightarrow> Suc (length s - off) | NullView \<Rightarrow> 0) else 0)"

lemma find_str_bounds:
  assumes "find_str s p off = Some i"
  shows "off \<le> i \<and> i + length p \<le> length s"
proof -
  from assms obtain j where j: "off \<le> length s" "find_sub p (drop off s) = Some j" "i = off + j"
    by (auto simp: find_str_def split: if_splits)
  from find_sub_Some [OF j(2)] have "j + length p \<le> length s - off" by simp
  with j show ?thesis by arith
qed

lemma next_line_behind:
  assumes "getNextLine s (View off n) = View b m"
  shows "off + 2 \<le> b \<and> b + m \<le> length s"
proof -
  from assms obtain e e' where e: "find_str s crlf off = Some e" "find_str s crlf (e + 2) = Some e'"
    "b = e + 2" "m = e' - b"
    by (auto simp: getNextLine_def crlf_def Let_def split: if_splits option.splits)
  then show ?thesis using find_str_bounds [OF e(1)] find_str_bounds [OF e(2)] by auto
qed

lemma parsed_key_inside:
  assumes "given (tryParseHeader s (View b n))"
  obtains off m where "key (tryParseHeader s (View b n)) = View off m" "m \<noteq> 0" "b \<le> off" "off + m \<le> b + n"
proof -
  let ?h = "tryParseHeader s (View b n)"
  obtain i where i: "find_char (view_str s (View b n)) (CHR '':'') 0 = Some i"
    using assms by (auto simp: tryParseHeader_def given_def no_header_def split: option.splits)
  then have k: "key ?h = trimImpl s (View b i)" by (simp add: tryParseHeader_def)
  from i have "find_index (\<lambda>d. d = CHR '':'') (view_str s (View b n)) = Some i"
    by (auto simp: find_char_def)
  from find_index_less [OF this] have "i < length (view_str s (View b n))" .
  then have "i < n" by simp
  obtain off m where v: "key ?h = View off m" "m \<noteq> 0"
    using assms by (cases "key ?h") (auto simp: given_def)
  then show ?thesis
    using that trim_inside [of s b i off m] k \<open>i < n\<close> by auto
qed

lemma next_rank [simp]:
  assumes "given h"
  shows "rank s (getNextHeader s h) < rank s h"
proof (cases "given (getNextHeader s h)")
  case True
  obtain off n where h: "key h = View off n"
    using assms by (cases "key h") (auto simp: given_def)
  have nxt: "getNextHeader s h = tryParseHeader s (getNextLine s (View off n))"
    using assms h by (simp add: getNextHeader_def)
  then obtain b m where l: "getNextLine s (View off n) = View b m"
    using True by (cases "getNextLine s (View off n)") (auto simp: tryParseHeader_def given_def no_header_def)
  obtain o' k where k: "key (getNextHeader s h) = View o' k" "k \<noteq> 0" "b \<le> o'" "o' + k \<le> b + m"
    using parsed_key_inside [of s b m] True nxt l by metis
  with next_line_behind [OF l] have "length s - o' < length s - off" by arith
  then show ?thesis using h k True assms by (simp add: rank_def)
next
  case False
  then show ?thesis using assms by (auto simp: rank_def given_def split: view.splits)
qed

text \<open>Iterating from \<open>begin()\<close> to \<open>end()\<close>, and the loops of the static functions.\<close>

function iterate :: "string \<Rightarrow> Header \<Rightarrow> Header list" where
  "iterate s h = (if given h then h # iterate s (getNextHeader s h) else [])"
  by pat_completeness auto
termination by (relation "measure (\<lambda>(s, h). rank s h)") auto

function findHeader_loop :: "string \<Rightarrow> string \<Rightarrow> Header \<Rightarrow> Header" where
  "findHeader_loop s k h =
     (if given h then if icaseEqual (view_str s (key h)) k then h else findHeader_loop s k (getNextHeader s h)
      else no_header)"
  by pat_completeness auto
termination by (relation "measure (\<lambda>(s, k, h). rank s h)") auto

function headersCount_loop :: "string \<Rightarrow> nat \<Rightarrow> Header \<Rightarrow> nat" where
  "headersCount_loop s counter h =
     (if given h then headersCount_loop s (counter + 1) (getNextHeader s h) else counter)"
  by pat_completeness auto
termination by (relation "measure (\<lambda>(s, c, h). rank s h)") auto

text \<open>\<open>None\<close> is the fatal failure for an invalid index.\<close>

function headerAt_loop :: "string \<Rightarrow> nat \<Rightarrow> nat \<Rightarrow> Header \<Rightarrow> Header option" where
  "headerAt_loop s index counter h =
     (if given h then
        if counter = index then Some h else headerAt_loop s index (counter + 1) (getNextHeader s h)
      else None)"
  by pat_completeness auto
termination by (relation "measure (\<lambda>(s, i, c, h). rank s h)") auto

declare iterate.simps [simp del] findHeader_loop.simps [simp del] headersCount_loop.simps [simp del]
  headerAt_loop.simps [simp del]

definition findHeader :: "string \<Rightarrow> string \<Rightarrow> Header" where
  "findHeader buffer k = findHeader_loop buffer k (getFirstHeader buffer)"

definition headersCount :: "string \<Rightarrow> nat" where
  "headersCount buffer = headersCount_loop buffer 0 (getFirstHeader buffer)"

definition headerAt :: "string \<Rightarrow> nat \<Rightarrow> Header option" where
  "headerAt buffer index = headerAt_loop buffer index 0 (getFirstHeader buffer)"

record HttpParser =
  m_buffer :: string
  m_contentLength :: "nat option"

definition make_parser :: "string \<Rightarrow> HttpParser" where
  "make_parser buffer = \<lparr>m_buffer = getHeadersBuffer buffer, m_contentLength = None\<rparr>"

definition parser_given :: "HttpParser \<Rightarrow> bool" where
  "parser_given p \<longleftrightarrow> m_buffer p \<noteq> []"

definition headersLength :: "HttpParser \<Rightarrow> nat" where
  "headersLength p = length (m_buffer p)"

definition header_value :: "HttpParser \<Rightarrow> string \<Rightarrow> string" where
  "header_value p k = view_str (m_buffer p) (val (findHeader (m_buffer p) k))"

definition hasHeader :: "HttpParser \<Rightarrow> string \<Rightarrow> bool" where
  "hasHeader p k \<longleftrightarrow> header_value p k \<noteq> []"

definition all_headers :: "HttpParser \<Rightarrow> Header list" where
  "all_headers p = iterate (m_buffer p) (getFirstHeader (m_buffer p))"

text \<open>
  \<open>std::stoul\<close>: white space, a sign, and as many digits as there are; \<open>w\<close> is the width of \<open>unsigned long\<close>,
  32 bits on Windows.  A negative number wraps.
\<close>

datatype stoul_error = Invalid_argument | Out_of_range

definition isspace :: "char \<Rightarrow> bool" where
  "isspace c \<longleftrightarrow> c = CHR '' '' \<or> of_char c \<in> {9 :: nat..13}"

definition isdigit :: "char \<Rightarrow> bool" where
  "isdigit c \<longleftrightarrow> of_char c \<in> {48 :: nat..57}"

definition number :: "string \<Rightarrow> nat" where
  "number = foldl (\<lambda>n c. 10 * n + (of_char c - 48)) 0"

definition stoul :: "nat \<Rightarrow> string \<Rightarrow> stoul_error + nat" where
  "stoul w str =
     (let t = dropWhile isspace str;
          minus = (t \<noteq> [] \<and> hd t = CHR ''-'');
          digits = takeWhile isdigit (if t \<noteq> [] \<and> hd t \<in> {CHR ''+'', CHR ''-''} then tl t else t)
      in if digits = [] then Inl Invalid_argument
         else if 2 ^ w \<le> number digits then Inl Out_of_range
         else Inr (if minus then (2 ^ w - number digits) mod 2 ^ w else number digits))"

text \<open>The length is kept in the parser; an exception of \<open>stoul\<close> leaves it.\<close>

definition contentLength :: "nat \<Rightarrow> HttpParser \<Rightarrow> (stoul_error + nat) \<times> HttpParser" where
  "contentLength w p =
     (case m_contentLength p of
        Some n \<Rightarrow> (Inr n, p)
      | None \<Rightarrow>
          (let contentLengthValue = header_value p ''Content-Length''
           in if contentLengthValue \<noteq> []
              then (case stoul w contentLengthValue of
                      Inl e \<Rightarrow> (Inl e, p)
                    | Inr n \<Rightarrow> (Inr n, p\<lparr>m_contentLength := Some n\<rparr>))
              else (Inr 0, p\<lparr>m_contentLength := Some 0\<rparr>)))"

section \<open>Packets of the debug adapter\<close>

record RawPacket =
  buffer :: string
  http :: HttpParser

datatype packet_error = Unexpected_end | No_content_length

text \<open>The stream delivers byte strings; the end of the list is the null buffer.\<close>

fun readHttpPacket_loop :: "string \<Rightarrow> HttpParser \<Rightarrow> string list \<Rightarrow> (packet_error + RawPacket) \<times> string list" where
  "readHttpPacket_loop packet p chunks =
     (if parser_given p then
        (if \<not> hasHeader p ''Content-Length'' then Inl No_content_length
         else Inr \<lparr>buffer = packet, http = p\<rparr>, chunks)
      else case chunks of
        [] \<Rightarrow> (Inl Unexpected_end, [])
      | b # rest \<Rightarrow> readHttpPacket_loop (packet @ b) (make_parser (packet @ b)) rest)"

declare readHttpPacket_loop.simps [simp del]

definition readHttpPacket :: "string list \<Rightarrow> (packet_error + RawPacket) \<times> string list" where
  "readHttpPacket chunks = readHttpPacket_loop [] \<lparr>m_buffer = [], m_contentLength = None\<rparr> chunks"

text \<open>
  The view of the content is made without a check: reading it is undefined where it leaves the buffer.  Parsing
  json is a parameter, which gives a dictionary, another value, or an error.
\<close>

definition content_view :: "nat \<Rightarrow> RawPacket \<Rightarrow> (stoul_error + string) option" where
  "content_view w packet =
     (case fst (contentLength w (http packet)) of
        Inl e \<Rightarrow> Some (Inl e)
      | Inr n \<Rightarrow> do {
          require (headersLength (http packet) + n \<le> length (buffer packet));
          Some (Inr (take n (drop (headersLength (http packet)) (buffer packet)))) })"

definition makeDapHttpResponsePacket :: "string \<Rightarrow> string \<Rightarrow> string" where
  "makeDapHttpResponsePacket path responseContent =
     (''POST '' @ path @ '' HTTP/1.1'' @ crlf @
      ''Content-Type: application/json'' @ crlf @
      ''Content-Length: '' @ show_nat (length responseContent) @ crlf @ crlf) @ responseContent"

section \<open>The loops\<close>

definition key_is :: "string \<Rightarrow> string \<Rightarrow> Header \<Rightarrow> bool" where
  "key_is s k h = icaseEqual (view_str s (key h)) k"

text \<open>
  The contract of the loops over the headers: each of them runs through the list that iterating gives.
\<close>

locale header_loops =
  fixes follow :: "'h \<Rightarrow> 'h" and live :: "'h \<Rightarrow> bool" and matches :: "'k \<Rightarrow> 'h \<Rightarrow> bool" and nothing :: 'h
    and walk :: "'h \<Rightarrow> 'h list" and search :: "'k \<Rightarrow> 'h \<Rightarrow> 'h" and counting :: "nat \<Rightarrow> 'h \<Rightarrow> nat"
    and pick :: "nat \<Rightarrow> nat \<Rightarrow> 'h \<Rightarrow> 'h option"
  assumes walk: "walk h = (if live h then h # walk (follow h) else [])"
    and search: "search k h = (if live h then if matches k h then h else search k (follow h) else nothing)"
    and counting: "counting c h = (if live h then counting (c + 1) (follow h) else c)"
    and pick: "pick i c h = (if live h then if c = i then Some h else pick i (c + 1) (follow h) else None)"
begin

lemma walk_induct [consumes 0, case_names stop go]:
  assumes "\<And>h. \<not> live h \<Longrightarrow> walk h = [] \<Longrightarrow> Q h"
    and "\<And>h. live h \<Longrightarrow> walk h = h # walk (follow h) \<Longrightarrow> Q (follow h) \<Longrightarrow> Q h"
  shows "Q h"
proof (induction "walk h" arbitrary: h)
  case Nil
  then have "\<not> live h" using walk [of h] by auto
  then show ?case using assms(1) Nil by simp
next
  case (Cons x xs)
  then have "live h" "walk h = h # walk (follow h)" using walk [of h] by (auto split: if_splits)
  then show ?case using assms(2) Cons by simp
qed

lemma search_walk: "search k h = (case find (matches k) (walk h) of Some x \<Rightarrow> x | None \<Rightarrow> nothing)"
  by (induction h rule: walk_induct) (subst search, simp)+

lemma counting_walk: "counting c h = c + length (walk h)"
  by (induction h arbitrary: c rule: walk_induct) (subst counting, simp)+

lemma pick_walk: "pick (c + i) c h = (if i < length (walk h) then Some (walk h ! i) else None)"
proof (induction h arbitrary: c i rule: walk_induct)
  case (stop h)
  then show ?case by (subst pick) simp
next
  case (go h)
  show ?case
  proof (cases i)
    case 0
    then show ?thesis using go by (subst pick) simp
  next
    case (Suc j)
    then have "pick (c + i) c h = pick (c + 1 + j) (c + 1) (follow h)" using go by (subst pick) simp
    then show ?thesis using go(3) [of "c + 1" j] go Suc by simp
  qed
qed

end

interpretation hl: header_loops "getNextHeader s" given "key_is s" no_header "iterate s" "findHeader_loop s"
  "headersCount_loop s" "headerAt_loop s" for s
  by (unfold_locales; (subst iterate.simps | subst findHeader_loop.simps | subst headersCount_loop.simps |
    subst headerAt_loop.simps); simp add: key_is_def)

section \<open>Reference: the lines of the text\<close>

function crlf_lines :: "string \<Rightarrow> string list" where
  "crlf_lines s = (case s of [] \<Rightarrow> [[]] | c # r \<Rightarrow>
     if starts_with s crlf then [] # crlf_lines (drop 2 s)
     else (case crlf_lines r of [] \<Rightarrow> [[c]] | l # ls \<Rightarrow> (c # l) # ls))"
  by pat_completeness auto
termination by (relation "measure length") (auto simp: starts_with_iff crlf_def)

declare crlf_lines.simps [simp del]

text \<open>The key and the value of a line; a line without a key is not a header.\<close>

definition line_header :: "string \<Rightarrow> string \<times> string" where
  "line_header l =
     (case find_index (\<lambda>c. c = CHR '':'') l of
        None \<Rightarrow> ([], [])
      | Some i \<Rightarrow> (strip (take i l), strip (drop (Suc i) l)))"

definition has_key :: "string \<Rightarrow> bool" where
  "has_key l \<longleftrightarrow> fst (line_header l) \<noteq> []"

text \<open>
  The headers of the lines: up to the first line that is none; a first line that is none is skipped, unless it is
  empty.
\<close>

definition header_lines :: "string list \<Rightarrow> string list" where
  "header_lines ls =
     (case ls of
        [] \<Rightarrow> []
      | l # r \<Rightarrow> if has_key l \<or> l = [] then takeWhile has_key ls else takeWhile has_key r)"

definition text_of :: "string \<Rightarrow> Header \<Rightarrow> string \<times> string" where
  "text_of s h = (view_str s (key h), view_str s (val h))"

lemma crlf_lines_find:
  "crlf_lines s = (case find_sub crlf s of None \<Rightarrow> [s] | Some i \<Rightarrow> take i s # crlf_lines (drop (i + 2) s))"
proof (induction s)
  case Nil
  then show ?case by (simp add: crlf_lines.simps crlf_def)
next
  case (Cons c r)
  then show ?case
    by (subst crlf_lines.simps) (auto split: option.splits)
qed

lemma find_sub_drop: "find_sub p s = Some i \<Longrightarrow> d \<le> i \<Longrightarrow> find_sub p (drop d s) = Some (i - d)"
proof (induction p s arbitrary: i d rule: find_sub.induct)
  case (2 p x xs)
  then show ?case by (cases d) (auto split: if_splits)
qed (auto split: if_splits)

lemma find_str_line:
  assumes "find_sub crlf (drop b s) = Some i" "b \<le> off" "off \<le> b + i"
  shows "find_str s crlf off = Some (b + i)"
proof -
  have "find_sub crlf (drop off s) = Some (i - (off - b))"
    using find_sub_drop [OF assms(1), of "off - b"] assms(2,3) by simp
  moreover have "b + i + 2 \<le> length s"
    using find_sub_Some [OF assms(1)] by (simp add: crlf_def) arith
  ultimately show ?thesis using assms(2,3) by (simp add: find_str_def)
qed

lemma parsed_text:
  assumes "b + n \<le> length s"
  shows "text_of s (tryParseHeader s (View b n)) = line_header (take n (drop b s))"
    and "given (tryParseHeader s (View b n)) \<longleftrightarrow> has_key (take n (drop b s))"
proof -
  let ?l = "take n (drop b s)"
  show t: "text_of s (tryParseHeader s (View b n)) = line_header ?l"
  proof (cases "find_index (\<lambda>c. c = CHR '':'') ?l")
    case None
    then show ?thesis
      by (simp add: tryParseHeader_def find_char_def line_header_def text_of_def no_header_def)
  next
    case (Some i)
    then have i: "i < n" using find_index_less [OF Some] assms by simp
    then have w: "view_wf s (View b i)" "view_wf s (View (b + i + 1) (n - i - 1))" using assms by auto
    have c: "view_str s (View b i) = take i ?l" "view_str s (View (b + i + 1) (n - i - 1)) = drop (Suc i) ?l"
      using i by (auto simp: min_def drop_take add.commute)
    have "tryParseHeader s (View b n) =
        \<lparr>key = trimImpl s (View b i), val = trimImpl s (View (b + i + 1) (n - i - 1))\<rparr>"
      using Some by (simp add: tryParseHeader_def find_char_def)
    then show ?thesis
      using Some trim_str [OF w(1)] trim_str [OF w(2)] unfolding c by (simp add: text_of_def line_header_def)
  qed
  have w: "view_wf s (key (tryParseHeader s (View b n)))"
    using assms find_index_less [of "\<lambda>c. c = CHR '':''" ?l]
    by (auto simp: tryParseHeader_def no_header_def find_char_def intro!: trim_wf split: option.splits)
  then show "given (tryParseHeader s (View b n)) \<longleftrightarrow> has_key ?l"
    using t view_str_empty [OF w] by (auto simp: given_def has_key_def text_of_def prod_eq_iff)
qed

lemma crlf_lines_nonempty [simp]: "crlf_lines s \<noteq> []"
  by (subst crlf_lines_find) (simp split: option.splits)

text \<open>The lines that end with the separator.\<close>

definition ended_lines :: "string \<Rightarrow> string list" where
  "ended_lines s = butlast (crlf_lines s)"

lemma ended_lines_find:
  "ended_lines s = (case find_sub crlf s of None \<Rightarrow> [] | Some i \<Rightarrow> take i s # ended_lines (drop (i + 2) s))"
  unfolding ended_lines_def by (subst crlf_lines_find) (simp split: option.splits)

lemma found_line: "find_sub crlf (drop b s) = Some i \<Longrightarrow> b + i + 2 \<le> length s"
  using find_sub_Some [of crlf "drop b s" i] by (simp add: crlf_def) arith

text \<open>The line that begins at \<open>b\<close>, when it is ended.\<close>

definition line_at :: "string \<Rightarrow> nat \<Rightarrow> view" where
  "line_at s b = (case find_sub crlf (drop b s) of None \<Rightarrow> NullView | Some j \<Rightarrow> View b j)"

lemma next_line:
  assumes "find_sub crlf (drop b s) = Some i" "b \<le> off" "off \<le> b + i" "m \<noteq> 0"
  shows "getNextLine s (View off m) = line_at s (b + i + 2)"
proof -
  have "s \<noteq> []" "b + i + 2 \<le> length s" using found_line [OF assms(1)] by auto
  moreover have "length crlf = 2" by (simp add: crlf_def)
  ultimately show ?thesis
    using find_str_line [OF assms(1-3)] assms(4)
    by (simp add: getNextLine_def Let_def find_str_def line_at_def split: option.splits)
qed

lemma iterate_lines:
  "map (text_of s) (iterate s (tryParseHeader s (line_at s b))) =
     map line_header (takeWhile has_key (ended_lines (drop b s)))"
proof (induction "length s - b" arbitrary: b rule: less_induct)
  case less
  let ?h = "tryParseHeader s (line_at s b)"
  show ?case
  proof (cases "find_sub crlf (drop b s)")
    case None
    then have "iterate s ?h = []"
      by (subst iterate.simps) (simp add: line_at_def tryParseHeader_def given_def no_header_def)
    moreover have "ended_lines (drop b s) = []" using None by (subst ended_lines_find) simp
    ultimately show ?thesis by simp
  next
    case (Some j)
    let ?b = "b + j + 2"
    have h: "?h = tryParseHeader s (View b j)" using Some by (simp add: line_at_def)
    have L: "?b \<le> length s" by (rule found_line [OF Some])
    then have tx: "text_of s ?h = line_header (take j (drop b s))" "given ?h \<longleftrightarrow> has_key (take j (drop b s))"
      using parsed_text [of b j s] unfolding h by simp_all
    have el: "ended_lines (drop b s) = take j (drop b s) # ended_lines (drop ?b s)"
      using Some by (subst ended_lines_find) (simp add: add.commute add.left_commute)
    show ?thesis
    proof (cases "given ?h")
      case True
      then obtain off m where k: "key ?h = View off m" "m \<noteq> 0" "b \<le> off" "off + m \<le> b + j"
        using parsed_key_inside [of s b j] unfolding h by metis
      have "getNextHeader s ?h = tryParseHeader s (line_at s ?b)"
        using next_line [OF Some k(3) _ k(2)] True k by (simp add: getNextHeader_def)
      then have "iterate s ?h = ?h # iterate s (tryParseHeader s (line_at s ?b))"
        using True by (subst iterate.simps) simp
      moreover have "length s - ?b < length s - b" using L by arith
      ultimately show ?thesis using less.hyps [of ?b] True tx unfolding el by simp
    next
      case False
      then have "iterate s ?h = []" by (subst iterate.simps) simp
      then show ?thesis using False tx unfolding el by simp
    qed
  qed
qed

lemma first_headers:
  assumes "find_sub crlf s \<noteq> None"
  shows "map (text_of s) (iterate s (getFirstHeader s)) = map line_header (header_lines (ended_lines s))"
proof -
  obtain i where i: "find_sub crlf s = Some i" using assms by auto
  have L: "i + 2 \<le> length s" "s \<noteq> []" using found_line [of 0 s i] i by auto
  have el: "ended_lines s = take i s # ended_lines (drop (i + 2) s)"
    using i by (subst ended_lines_find) simp
  have l0: "line_at s 0 = View 0 i" "find_str s crlf 0 = Some i" using i by (auto simp: line_at_def find_str_def)
  let ?h = "tryParseHeader s (View 0 i)"
  have g: "given ?h \<longleftrightarrow> has_key (take i s)" using parsed_text [of 0 i s] L by simp
  have f: "getFirstHeader s = (if given ?h then ?h else tryParseHeader s (getNextLine s (View 0 i)))"
    using l0 L by (simp add: getFirstHeader_def)
  consider "given ?h" | "\<not> given ?h" "i = 0" | "\<not> given ?h" "i \<noteq> 0" by blast
  then show ?thesis
  proof cases
    case 1
    then show ?thesis using iterate_lines [of s 0] f l0 g by (simp add: el header_lines_def)
  next
    case 2
    then have "iterate s (getFirstHeader s) = []"
      unfolding f by (subst iterate.simps) (simp add: getNextLine_def tryParseHeader_def given_def no_header_def)
    then show ?thesis using 2 g by (simp add: el header_lines_def)
  next
    case 3
    have "getNextLine s (View 0 i) = line_at s (i + 2)"
      using next_line [of 0 s i 0 i] i 3 by simp
    then show ?thesis
      using iterate_lines [of s "i + 2"] 3 g L by (auto simp: f el header_lines_def)
  qed
qed

lemma find_map_pair: "find P (map f xs) = map_option f (find (\<lambda>x. P (f x)) xs)"
  by (induction xs) auto

text \<open>What a parser finds, in terms of the lines of its block.\<close>

definition headers_of :: "string \<Rightarrow> (string \<times> string) list" where
  "headers_of block = map line_header (header_lines (ended_lines block))"

definition value_of :: "string \<Rightarrow> (string \<times> string) list \<Rightarrow> string" where
  "value_of k hs = (case find (\<lambda>(k', v). icaseEqual k' k) hs of Some (k', v) \<Rightarrow> v | None \<Rightarrow> [])"

lemma getHeadersBuffer_find:
  "getHeadersBuffer s = (case find_sub EndOfHeaders s of None \<Rightarrow> [] | Some i \<Rightarrow> take (i + 4) s)"
  by (cases "find_sub EndOfHeaders s") (simp_all add: getHeadersBuffer_def find_str_def)

lemma find_sub_append: "find_sub p s = Some i \<Longrightarrow> find_sub p (s @ t) = Some i"
proof (induction p s arbitrary: i rule: find_sub.induct)
  case (1 p)
  then show ?case by (cases t) (auto split: if_splits)
next
  case (2 p x xs)
  have s: "starts_with ((x # xs) @ t) p" if "starts_with (x # xs) p"
    using that unfolding starts_with_iff by (metis append_assoc)
  have n: "\<not> starts_with ((x # xs) @ t) p" if "\<not> starts_with (x # xs) p" "find_sub p xs = Some j" for j
    using find_sub_Some [OF that(2)] that(1) unfolding starts_with_def take_append by simp
  show ?case using 2 s n by (auto split: if_splits)
qed

lemma block_has_lines:
  assumes "getHeadersBuffer s \<noteq> []"
  shows "find_sub crlf (getHeadersBuffer s) \<noteq> None"
proof -
  obtain i where i: "find_sub EndOfHeaders s = Some i"
    using assms by (auto simp: getHeadersBuffer_find split: option.splits)
  have "take 4 (drop i s) = EndOfHeaders" "i + 4 \<le> length s"
    using find_sub_Some [OF i] by simp_all
  then have "starts_with (drop i (take (i + 4) s)) crlf"
    by (auto simp: starts_with_iff drop_take EndOfHeaders_def)
  then show ?thesis
    using find_sub_None [of crlf "take (i + 4) s" i] i by (auto simp: getHeadersBuffer_find)
qed

lemma walk_is_headers:
  "map (text_of (getHeadersBuffer s)) (iterate (getHeadersBuffer s) (getFirstHeader (getHeadersBuffer s))) =
     headers_of (getHeadersBuffer s)"
proof (cases "getHeadersBuffer s = []")
  case True
  have "iterate [] (getFirstHeader []) = []"
    by (subst iterate.simps) (simp add: getFirstHeader_def given_def no_header_def)
  moreover have "ended_lines [] = []" by (subst ended_lines_find) (simp add: crlf_def)
  ultimately show ?thesis using True by (simp add: headers_of_def header_lines_def)
next
  case False
  then show ?thesis using first_headers [OF block_has_lines [OF False]] by (simp add: headers_of_def)
qed

text \<open>
  C10. For every text received, the headers are those of the lines of the header block: iterating, counting,
  indexing and searching by key, which walk over addresses in the buffer, agree with the list of the key and
  value pairs of its lines, up to the first line that is no header, the request line left out if it has no colon.
\<close>
theorem headers_are_lines:
  "let p = make_parser received; hs = headers_of (getHeadersBuffer received)
   in map (text_of (m_buffer p)) (all_headers p) = hs \<and>
    headersCount (m_buffer p) = length hs \<and>
    map_option (text_of (m_buffer p)) (headerAt (m_buffer p) i) = (if i < length hs then Some (hs ! i) else None) \<and>
    header_value p k = value_of k hs"
proof -
  define p where "p = make_parser received"
  define hs where "hs = headers_of (getHeadersBuffer received)"
  let ?s = "getHeadersBuffer received" and ?w = "iterate (getHeadersBuffer received) (getFirstHeader (getHeadersBuffer received))"
  have w: "map (text_of ?s) ?w = hs" unfolding hs_def by (rule walk_is_headers)
  then have l: "length ?w = length hs" using length_map [of "text_of ?s" ?w] by simp
  have "map_option (text_of ?s) (headerAt ?s i) = (if i < length hs then Some (hs ! i) else None)"
    using hl.pick_walk [of ?s 0 i "getFirstHeader ?s"] unfolding w [symmetric] by (simp add: headerAt_def)
  moreover have "header_value p k = value_of k hs"
  proof -
    have "key_is ?s k = (\<lambda>h. case text_of ?s h of (k', v) \<Rightarrow> icaseEqual k' k)"
      by (simp add: fun_eq_iff key_is_def text_of_def)
    then have "value_of k hs = (case find (key_is ?s k) ?w of Some h \<Rightarrow> view_str ?s (val h) | None \<Rightarrow> [])"
      unfolding w [symmetric] value_of_def find_map_pair by (cases "find (key_is ?s k) ?w") (simp_all add: text_of_def)
    then show ?thesis
      using hl.search_walk [of ?s k "getFirstHeader ?s"]
      by (cases "find (key_is ?s k) ?w") (simp_all add: header_value_def findHeader_def p_def make_parser_def no_header_def)
  qed
  ultimately show ?thesis
    using w l hl.counting_walk [of ?s 0 "getFirstHeader ?s"]
    unfolding Let_def p_def [symmetric] hs_def [symmetric]
    by (simp add: p_def make_parser_def all_headers_def headersCount_def)
qed

section \<open>Reading from a stream\<close>

lemma block_append: "getHeadersBuffer s \<noteq> [] \<Longrightarrow> getHeadersBuffer (s @ t) = getHeadersBuffer s"
  using find_sub_append [of EndOfHeaders s _ t] find_sub_Some [of EndOfHeaders s]
  by (cases "find_sub EndOfHeaders s") (simp_all add: getHeadersBuffer_find)

lemma block_prefix: "getHeadersBuffer s \<noteq> [] \<Longrightarrow> \<exists>x. s = getHeadersBuffer s @ x"
  by (cases "find_sub EndOfHeaders s") (auto simp: getHeadersBuffer_find intro: append_take_drop_id [symmetric])

lemma read_loop:
  assumes "getHeadersBuffer (s @ concat chunks) = block" "p = \<lparr>m_buffer = block, m_contentLength = None\<rparr>"
  shows "block = [] \<Longrightarrow> readHttpPacket_loop s (make_parser s) chunks = (Inl Unexpected_end, [])"
    and "block \<noteq> [] \<Longrightarrow> \<exists>read rest. chunks = read @ rest \<and> getHeadersBuffer (s @ concat read) = block \<and>
      readHttpPacket_loop s (make_parser s) chunks =
        (if hasHeader p ''Content-Length'' then Inr \<lparr>buffer = s @ concat read, http = p\<rparr> else Inl No_content_length,
         rest)"
  using assms(1)
proof (induction chunks arbitrary: s)
  case Nil
  {
    case 1
    then show ?case by (subst readHttpPacket_loop.simps) (simp add: make_parser_def parser_given_def)
  next
    case 2
    then show ?case
      by (intro exI [of _ "[]"], subst readHttpPacket_loop.simps)
        (simp add: make_parser_def parser_given_def assms(2))
  }
next
  case (Cons c cs)
  have go: "readHttpPacket_loop s (make_parser s) (c # cs) =
      readHttpPacket_loop (s @ c) (make_parser (s @ c)) cs" if "getHeadersBuffer s = []" for s
    using that by (subst readHttpPacket_loop.simps) (simp add: make_parser_def parser_given_def)
  {
    case 1
    then have e: "getHeadersBuffer s = []" using block_append by fastforce
    show ?case using Cons.IH(1) [of "s @ c"] 1 unfolding go [OF e] by simp
  next
    case 2
    show ?case
    proof (cases "getHeadersBuffer s = []")
      case True
      obtain read rest where "cs = read @ rest" "getHeadersBuffer ((s @ c) @ concat read) = block"
        "readHttpPacket_loop (s @ c) (make_parser (s @ c)) cs =
          (if hasHeader p ''Content-Length'' then Inr \<lparr>buffer = (s @ c) @ concat read, http = p\<rparr>
           else Inl No_content_length, rest)"
        using Cons.IH(2) [of "s @ c"] 2 by auto
      then show ?thesis
        using go [OF True] by (intro exI [of _ "c # read"] exI [of _ rest]) simp
    next
      case False
      then have "make_parser s = p" using 2 block_append [OF False] assms(2) by (simp add: make_parser_def)
      then have "readHttpPacket_loop s (make_parser s) (c # cs) =
          (if hasHeader p ''Content-Length'' then Inr \<lparr>buffer = s, http = p\<rparr> else Inl No_content_length, c # cs)"
        using False by (subst readHttpPacket_loop.simps) (auto simp: parser_given_def make_parser_def)
      moreover have "getHeadersBuffer s = block" using 2 block_append [OF False] by simp
      ultimately have "c # cs = [] @ (c # cs) \<and> getHeadersBuffer (s @ concat []) = block \<and>
        readHttpPacket_loop s (make_parser s) (c # cs) =
          (if hasHeader p ''Content-Length'' then Inr \<lparr>buffer = s @ concat [], http = p\<rparr> else Inl No_content_length,
           c # cs)" by simp
      then show ?thesis by blast
    qed
  }
qed

lemma read_packet:
  assumes "getHeadersBuffer (concat chunks) = block" "p = \<lparr>m_buffer = block, m_contentLength = None\<rparr>" "block \<noteq> []"
    "hasHeader p ''Content-Length''"
  obtains read rest where "chunks = read @ rest" "getHeadersBuffer (concat read) = block"
    "readHttpPacket chunks = (Inr \<lparr>buffer = concat read, http = p\<rparr>, rest)"
proof -
  have "make_parser [] = \<lparr>m_buffer = [], m_contentLength = None\<rparr>" by (simp add: make_parser_def getHeadersBuffer_find EndOfHeaders_def crlf_def)
  then show ?thesis
    using read_loop(2) [of "[]" chunks block p] assms that by (auto simp: readHttpPacket_def)
qed

section \<open>A packet and its parts\<close>

abbreviation no_cr :: "string \<Rightarrow> bool" where
  "no_cr l \<equiv> CHR 0x0D \<notin> set l"

lemma starts_with_crlf_Cons: "starts_with (c # s) (crlf @ p) \<longleftrightarrow> c = CHR 0x0D \<and> starts_with s (CHR 0x0A # p)"
  by (auto simp: starts_with_iff crlf_def)

lemma find_line: "no_cr l \<Longrightarrow> find_sub crlf (l @ crlf @ r) = Some (length l)"
proof (induction l)
  case Nil
  show ?case by (simp add: crlf_def starts_with_def)
next
  case (Cons c l)
  then show ?case using starts_with_crlf_Cons [of c _ "[]"] by auto
qed

lemma find_end:
  "no_cr l \<Longrightarrow> find_sub EndOfHeaders (l @ crlf @ r) =
    (if starts_with r crlf then Some (length l) else map_option ((+) (length l + 2)) (find_sub EndOfHeaders r))"
proof (induction l)
  case Nil
  show ?case by (cases "find_sub EndOfHeaders r") (auto simp: EndOfHeaders_def crlf_def starts_with_def)
next
  case (Cons c l)
  then show ?case
    using starts_with_crlf_Cons [of c _ crlf]
    by (cases "find_sub EndOfHeaders r") (auto simp: EndOfHeaders_def)
qed

lemma ended_lines_Cons: "no_cr l \<Longrightarrow> ended_lines (l @ crlf @ r) = l # ended_lines r"
  using find_line [of l r] by (subst ended_lines_find) simp

lemma ended_lines_end: "ended_lines crlf = [[]]"
  using ended_lines_Cons [of "[]" "[]"] by (simp add: ended_lines_find [of "[]"] crlf_def)

text \<open>A block of lines without carriage returns, and its end.\<close>

definition block_of :: "string list \<Rightarrow> string" where
  "block_of ls = concat (map (\<lambda>l. l @ crlf) ls) @ crlf"

lemma not_starts_line: "no_cr l \<Longrightarrow> l \<noteq> [] \<Longrightarrow> \<not> starts_with (l @ r) crlf"
  by (cases l) (auto simp: starts_with_crlf_Cons [of _ _ "[]", simplified])

lemma block_of_lines:
  assumes "ls \<noteq> []" "\<And>l. l \<in> set ls \<Longrightarrow> no_cr l \<and> l \<noteq> []"
  shows "getHeadersBuffer (block_of ls @ r) = block_of ls" "ended_lines (block_of ls) = ls @ [[]]"
proof -
  have "find_sub EndOfHeaders (block_of ls @ r) = Some (length (block_of ls) - 4)"
    using assms
  proof (induction ls)
    case (Cons l ls)
    show ?case
    proof (cases ls)
      case Nil
      then show ?thesis using find_end [of l "crlf @ r"] Cons.prems by (simp add: block_of_def)
    next
      case (Cons m ms)
      have ih: "find_sub EndOfHeaders (block_of ls @ r) = Some (length (block_of ls) - 4)"
        using Cons.IH Cons.prems \<open>ls = _\<close> by simp
      have n: "\<not> starts_with (block_of ls @ r) crlf"
        using Cons.prems not_starts_line [of m] \<open>ls = _\<close> by (simp add: block_of_def)
      have "4 \<le> length (block_of ls)" using \<open>ls = _\<close> by (simp add: block_of_def)
      moreover have "block_of (l # ls) = l @ crlf @ block_of ls" by (simp add: block_of_def)
      ultimately show ?thesis using find_end [of l "block_of ls @ r"] Cons.prems ih n by simp
    qed
  qed simp
  moreover have "4 \<le> length (block_of ls)" using assms(1) by (cases ls) (auto simp: block_of_def)
  ultimately show "getHeadersBuffer (block_of ls @ r) = block_of ls" by (simp add: getHeadersBuffer_find)
  show "ended_lines (block_of ls) = ls @ [[]]"
    using assms(2) by (induction ls) (simp_all add: block_of_def ended_lines_end ended_lines_Cons)
qed

lemma show_nat_digits: "set (show_nat n) \<subseteq> {c. isdigit c} \<and> show_nat n \<noteq> []"
proof (induction n rule: show_nat.induct)
  case (1 n)
  have d: "isdigit (char_of (48 + k))" if "k < 10" for k :: nat
    using that by (simp add: isdigit_def)
  show ?case
  proof (cases "n < 10")
    case True
    then show ?thesis using d by (simp add: show_nat.simps [of n])
  next
    case False
    then show ?thesis using 1 [OF False] d [of "n mod 10"] by (subst (1 2) show_nat.simps) simp
  qed
qed

lemma number_show_nat: "number (show_nat n) = n"
proof (induction n rule: show_nat.induct)
  case (1 n)
  show ?case
  proof (cases "n < 10")
    case True
    then show ?thesis by (subst show_nat.simps) (simp add: number_def)
  next
    case False
    have "number (xs @ [char_of (48 + k)]) = 10 * number xs + k" if "k < 10" for xs and k :: nat
      using that by (simp add: number_def)
    then show ?thesis using 1 [OF False] False by (subst show_nat.simps) simp
  qed
qed

lemma digit_not: "isdigit c \<Longrightarrow> c \<noteq> CHR ''-'' \<and> c \<noteq> CHR ''+'' \<and> \<not> isspace c \<and> \<not> is_space c \<and> c \<noteq> CHR 0x0D"
  by (auto simp: isdigit_def isspace_def)

lemma stoul_show_nat: "n < 2 ^ w \<Longrightarrow> stoul w (show_nat n) = Inr n"
proof -
  assume n: "n < 2 ^ w"
  obtain c cs where s: "show_nat n = c # cs" using show_nat_digits [of n] by (cases "show_nat n") auto
  then have c: "isdigit c" "\<forall>x\<in>set cs. isdigit x" using show_nat_digits [of n] by auto
  then have all: "takeWhile isdigit cs = cs" unfolding takeWhile_eq_all_conv by blast
  show ?thesis
    using n s c(1) digit_not [of c] number_show_nat [of n] by (simp add: stoul_def Let_def all)
qed

lemma strip_digits: "strip (CHR '' '' # show_nat n) = show_nat n"
proof -
  obtain c cs where s: "show_nat n = c # cs" using show_nat_digits [of n] by (cases "show_nat n") auto
  have h: "\<not> is_space c" "\<not> is_space (last (show_nat n))"
    using show_nat_digits [of n] digit_not last_in_set [of "show_nat n"] s by (auto simp: subset_iff)
  have "dropWhile is_space (rev (CHR '' '' # show_nat n)) = rev (CHR '' '' # show_nat n)"
    using h(2) s by (auto simp: dropWhile_eq_self_iff hd_append hd_rev split: if_splits)
  then show ?thesis using s h by (simp add: strip_def)
qed

definition packet_head :: "string \<Rightarrow> nat \<Rightarrow> string list" where
  "packet_head path n =
     [''POST '' @ path @ '' HTTP/1.1'', ''Content-Type: application/json'', ''Content-Length: '' @ show_nat n]"

lemma packet_lines: "makeDapHttpResponsePacket path body = block_of (packet_head path (length body)) @ body"
  by (simp add: makeDapHttpResponsePacket_def block_of_def packet_head_def)

lemma strip_Cons: "\<not> is_space c \<Longrightarrow> \<exists>u. strip (c # t) = c # u"
proof -
  assume c: "\<not> is_space c"
  have "dropWhile is_space (rev t @ [c]) = dropWhile is_space (rev t) @ [c]"
    using c by (induction "rev t" arbitrary: t) (auto simp: dropWhile_append3)
  then show ?thesis using c by (simp add: strip_def)
qed

lemma head_headers:
  "line_header ''Content-Type: application/json'' = (''Content-Type'', ''application/json'')"
  "line_header (''Content-Length: '' @ show_nat n) = (''Content-Length'', show_nat n)"
  "\<not> icaseEqual (fst (line_header (CHR ''P'' # l))) ''Content-Length''"
proof -
  show "line_header ''Content-Type: application/json'' = (''Content-Type'', ''application/json'')"
    by code_simp
  show "line_header (''Content-Length: '' @ show_nat n) = (''Content-Length'', show_nat n)"
    using strip_digits [of n] by (simp add: line_header_def) (simp add: strip_def)
  show "\<not> icaseEqual (fst (line_header (CHR ''P'' # l))) ''Content-Length''"
  proof (cases "find_index (\<lambda>c. c = CHR '':'') l")
    case None
    then show ?thesis by (simp add: line_header_def icaseEqual_map)
  next
    case (Some i)
    obtain u where "strip (CHR ''P'' # take i l) = CHR ''P'' # u" using strip_Cons [of "CHR ''P''" "take i l"] by auto
    then show ?thesis using Some by (simp add: line_header_def icaseEqual_map lower_def)
  qed
qed

lemma packet_value:
  assumes "no_cr path"
  shows "getHeadersBuffer (block_of (packet_head path n) @ r) = block_of (packet_head path n)"
    "value_of ''Content-Length'' (headers_of (block_of (packet_head path n))) = show_nat n"
proof -
  let ?ls = "packet_head path n"
  have "no_cr (show_nat n)" using show_nat_digits [of n] digit_not by blast
  then have ok: "l \<in> set ?ls \<Longrightarrow> no_cr l \<and> l \<noteq> []" for l using assms(1) by (auto simp: packet_head_def)
  have ne: "?ls \<noteq> []" by (simp add: packet_head_def)
  show "getHeadersBuffer (block_of ?ls @ r) = block_of ?ls"
    using block_of_lines(1) [OF ne] ok by blast
  have "ended_lines (block_of ?ls) = ?ls @ [[]]"
    using block_of_lines(2) [OF ne] ok by blast
  moreover have "has_key (''Content-Length: '' @ show_nat n)" "has_key ''Content-Type: application/json''" "\<not> has_key []"
    unfolding has_key_def head_headers by (simp_all add: line_header_def)
  ultimately have h: "headers_of (block_of ?ls) =
      (if has_key (hd ?ls) then [line_header (hd ?ls)] else []) @
      [(''Content-Type'', ''application/json''), (''Content-Length'', show_nat n)]"
    using head_headers(1) head_headers(2) [of n] by (simp add: headers_of_def header_lines_def packet_head_def)
  obtain a b where ab: "line_header (hd ?ls) = (a, b)" by (cases "line_header (hd ?ls)")
  then have "\<not> icaseEqual a ''Content-Length''"
    using head_headers(3) [of "''OST '' @ path @ '' HTTP/1.1''"] by (simp add: packet_head_def)
  moreover have "\<not> icaseEqual ''Content-Type'' ''Content-Length''" "icaseEqual ''Content-Length'' ''Content-Length''"
    by code_simp+
  ultimately show "value_of ''Content-Length'' (headers_of (block_of ?ls)) = show_nat n"
    by (simp add: value_of_def h ab)
qed

lemma packet_content:
  assumes "no_cr path" "length body < 2 ^ w" "concat chunks = makeDapHttpResponsePacket path body @ after"
  shows "\<exists>q rest. readHttpPacket chunks = (Inr q, rest) \<and> buffer q @ concat rest = concat chunks \<and>
    content_view w q =
      (if length (makeDapHttpResponsePacket path body) \<le> length (buffer q) then Some (Inr body) else None)"
proof -
  let ?b = "block_of (packet_head path (length body))"
  let ?p = "\<lparr>m_buffer = ?b, m_contentLength = None\<rparr>"
  have c: "concat chunks = ?b @ (body @ after)" using assms(3) by (simp add: packet_lines)
  have b: "getHeadersBuffer (concat chunks) = ?b" unfolding c by (rule packet_value(1) [OF assms(1)])
  have b1: "getHeadersBuffer ?b = ?b" using packet_value(1) [OF assms(1), of _ "[]"] by simp
  have v: "header_value ?p ''Content-Length'' = show_nat (length body)"
    using headers_are_lines [of ?b 0 "''Content-Length''"] packet_value(2) [OF assms(1)]
    by (simp add: make_parser_def b1 Let_def)
  have "?b \<noteq> []" by (simp add: block_of_def)
  moreover have "hasHeader ?p ''Content-Length''" using v show_nat_digits by (simp add: hasHeader_def)
  ultimately obtain read rest where r: "chunks = read @ rest" "getHeadersBuffer (concat read) = ?b"
    "readHttpPacket chunks = (Inr \<lparr>buffer = concat read, http = ?p\<rparr>, rest)"
    using read_packet [OF b refl] by metis
  then obtain x where x: "concat read = ?b @ x" using block_prefix [of "concat read"] by (auto simp: block_of_def)
  have "x @ concat rest = body @ after" using c r(1) x by simp
  then have "take (length body) (x @ concat rest) = body" by simp
  then have t: "length body \<le> length x \<Longrightarrow> take (length body) x = body" by simp
  have "fst (contentLength w ?p) = Inr (length body)"
    using v show_nat_digits stoul_show_nat [OF assms(2)] by (simp add: contentLength_def)
  then have "content_view w \<lparr>buffer = concat read, http = ?p\<rparr> =
      (if length body \<le> length x then Some (Inr (take (length body) x)) else None)"
    by (simp add: content_view_def x headersLength_def)
  then show ?thesis using r(1,3) t x by (auto simp: packet_lines)
qed

text \<open>
  C33. A packet made for a path and a content, sent over a stream that delivers its bytes in any pieces, followed
  by anything: the reader takes some of the pieces, finds the header block and the length, and the content is
  read back exactly if the pieces taken hold the whole packet; otherwise, as the reader does not wait for the
  content, the view of it leaves the buffer.
\<close>
theorem packet_read:
  assumes "no_cr path" "length body < 2 ^ w" "concat chunks = makeDapHttpResponsePacket path body @ after"
  shows "\<exists>q rest. readHttpPacket chunks = (Inr q, rest) \<and> buffer q @ concat rest = concat chunks \<and>
    content_view w q =
      (if length (makeDapHttpResponsePacket path body) \<le> length (buffer q) then Some (Inr body) else None)"
  using assms by (rule packet_content)

text \<open>The content arrives after the header block: it is not read.\<close>

lemma late_content:
  assumes "no_cr path" "length body < 2 ^ w" "body \<noteq> []"
  shows "\<exists>q. readHttpPacket [block_of (packet_head path (length body)), body] = (Inr q, [body]) \<and> content_view w q = None"
proof -
  let ?b = "block_of (packet_head path (length body))"
  obtain q rest where q: "readHttpPacket [?b, body] = (Inr q, rest)" "content_view w q =
      (if length (makeDapHttpResponsePacket path body) \<le> length (buffer q) then Some (Inr body) else None)"
    using packet_content [of path body w "[?b, body]" "[]"] assms by (auto simp: packet_lines)
  have b: "getHeadersBuffer ?b = ?b" using packet_value(1) [OF assms(1), of _ "[]"] by simp
  have n: "?b \<noteq> []" by (simp add: block_of_def)
  have "readHttpPacket [?b, body] = readHttpPacket_loop ?b (make_parser ?b) [body]"
    unfolding readHttpPacket_def by (subst readHttpPacket_loop.simps) (simp add: parser_given_def)
  also have "\<dots> = (if \<not> hasHeader (make_parser ?b) ''Content-Length'' then Inl No_content_length
      else Inr \<lparr>buffer = ?b, http = make_parser ?b\<rparr>, [body])"
    using b n by (subst readHttpPacket_loop.simps) (simp add: parser_given_def make_parser_def)
  finally show ?thesis using q assms(3) by (auto simp: packet_lines split: if_splits)
qed

theorem packet_read_witness:
  "\<exists>q rest. readHttpPacket [makeDapHttpResponsePacket ''/dap'' ''{}''] = (Inr q, rest) \<and>
    content_view 32 q =
      (if length (makeDapHttpResponsePacket ''/dap'' ''{}'') \<le> length (buffer q) then Some (Inr ''{}'') else None)"
  using packet_read [of "''/dap''" "''{}''" 32 "[makeDapHttpResponsePacket ''/dap'' ''{}'']" "[]"] by auto

end
