(* ===== verification/CoreTaskPtr.thy ===== *)
theory CoreTaskPtr
  imports MemBase
begin

text \<open>
  Ownership of core tasks: the smart pointer \<open>CoreTaskPtr\<close> with the reference count of \<open>CoreTaskImpl\<close>, and
  the placement of a task and its client data in raw storage (\<open>CoreTask::create\<close>), both of
  \<open>src/async/core_task_impl.cpp\<close>.  Pointer objects are numbered; a pointer object that is not alive counts
  as null.  An operation is \<open>None\<close> where the code touches a task that no longer exists.
\<close>

section \<open>Reference counts\<close>

text \<open>
  \<open>counts\<close> holds the tasks that exist with their \<open>m_refsCount\<close>; \<open>raws\<close> are the raw pointers the program
  holds after \<open>giveUp\<close>; \<open>fresh\<close> names the next task.
\<close>

record ptr_state =
  slots :: "nat option list"
  raws :: "nat list"
  counts :: "nat \<rightharpoonup> u32"
  fresh :: nat

definition addRef :: "nat \<Rightarrow> ptr_state \<Rightarrow> ptr_state option" where
  "addRef t s =
     (case counts s t of None \<Rightarrow> None
      | Some n \<Rightarrow> if 0 < n then Some (s\<lparr> counts := (counts s)(t \<mapsto> n + 1) \<rparr>) else None)"

text \<open>\<open>releaseRef\<close> with the tasks it destroys.\<close>

definition releaseRef :: "nat \<Rightarrow> ptr_state \<Rightarrow> (ptr_state \<times> nat list) option" where
  "releaseRef t s =
     (case counts s t of None \<Rightarrow> None
      | Some n \<Rightarrow>
          if 1 < n then Some (s\<lparr> counts := (counts s)(t \<mapsto> n - 1) \<rparr>, [])
          else Some (s\<lparr> counts := (counts s)(t := None) \<rparr>, [t]))"

definition setSlot :: "nat \<Rightarrow> nat option \<Rightarrow> ptr_state \<Rightarrow> ptr_state" where
  "setSlot v p s = s\<lparr> slots := (slots s)[v := p] \<rparr>"

definition reset :: "nat \<Rightarrow> ptr_state \<Rightarrow> (ptr_state \<times> nat list) option" where
  "reset v s =
     (case slots s ! v of None \<Rightarrow> Some (setSlot v None s, [])
      | Some t \<Rightarrow> (case releaseRef t s of None \<Rightarrow> None | Some (s', gone) \<Rightarrow> Some (setSlot v None s', gone)))"

text \<open>Copying the raw pointer of \<open>src\<close> into \<open>dst\<close> and counting it: the end of the copy operations.\<close>

definition copySlot :: "nat \<Rightarrow> nat \<Rightarrow> ptr_state \<Rightarrow> ptr_state option" where
  "copySlot dst src s =
     (let s' = setSlot dst (slots s ! src) s
      in case slots s' ! dst of None \<Rightarrow> Some s' | Some t \<Rightarrow> addRef t s')"

datatype ptr_op =
    Create nat | CopyConstruct nat nat | MoveConstruct nat nat | CopyAssign nat nat | MoveAssign nat nat
  | NullAssign nat | Destroy nat | GiveUp nat | Adopt nat nat

definition quiet :: "ptr_state option \<Rightarrow> (ptr_state \<times> nat list) option" where
  "quiet r = map_option (\<lambda>s. (s, [])) r"

definition ptr_create :: "nat \<Rightarrow> ptr_state \<Rightarrow> ptr_state" where
  "ptr_create v s =
     setSlot v (Some (fresh s)) (s\<lparr> counts := (counts s)(fresh s \<mapsto> 1), fresh := Suc (fresh s) \<rparr>)"

definition move_construct :: "nat \<Rightarrow> nat \<Rightarrow> ptr_state \<Rightarrow> ptr_state" where
  "move_construct dst src s = setSlot src None (setSlot dst (slots s ! src) s)"

definition copy_assign :: "nat \<Rightarrow> nat \<Rightarrow> ptr_state \<Rightarrow> (ptr_state \<times> nat list) option" where
  "copy_assign dst src s =
     (case reset dst s of None \<Rightarrow> None
      | Some (s', gone) \<Rightarrow> (case copySlot dst src s' of None \<Rightarrow> None | Some s'' \<Rightarrow> Some (s'', gone)))"

definition move_assign :: "nat \<Rightarrow> nat \<Rightarrow> ptr_state \<Rightarrow> (ptr_state \<times> nat list) option" where
  "move_assign dst src s =
     (case reset dst s of None \<Rightarrow> None
      | Some (s', gone) \<Rightarrow>
          Some (s'\<lparr> slots := (slots s')[dst := slots s' ! src, src := slots s' ! dst] \<rparr>, gone))"

definition give_up :: "nat \<Rightarrow> ptr_state \<Rightarrow> ptr_state" where
  "give_up v s =
     setSlot v None (s\<lparr> raws := (case slots s ! v of None \<Rightarrow> raws s | Some t \<Rightarrow> t # raws s) \<rparr>)"

definition adopt :: "nat \<Rightarrow> nat \<Rightarrow> ptr_state \<Rightarrow> ptr_state" where
  "adopt v t s = setSlot v (Some t) (s\<lparr> raws := remove1 t (raws s) \<rparr>)"

fun ptr_exec :: "ptr_op \<Rightarrow> ptr_state \<Rightarrow> (ptr_state \<times> nat list) option" where
  "ptr_exec (Create v) s = Some (ptr_create v s, [])"
| "ptr_exec (CopyConstruct dst src) s = quiet (copySlot dst src s)"
| "ptr_exec (MoveConstruct dst src) s = Some (move_construct dst src s, [])"
| "ptr_exec (CopyAssign dst src) s = copy_assign dst src s"
| "ptr_exec (MoveAssign dst src) s = move_assign dst src s"
| "ptr_exec (NullAssign v) s = reset v s"
| "ptr_exec (Destroy v) s = reset v s"
| "ptr_exec (GiveUp v) s = Some (give_up v s, [])"
| "ptr_exec (Adopt v t) s = Some (adopt v t s, [])"

section \<open>Specification: shared ownership\<close>

text \<open>
  References are the pointer objects and raw pointers that name a task; a task is destroyed when its last
  reference goes.  A call is defined when its pointer objects exist, a constructed one is not yet alive, an
  adopted raw pointer was given up, and the count fits its 32 bits.  A pointer is not copy-assigned to
  itself.
\<close>

type_synonym spec_state = "nat option list \<times> nat list \<times> nat"

definition refs :: "spec_state \<Rightarrow> nat \<Rightarrow> nat" where
  "refs a t = count_list (fst a) (Some t) + count_list (fst (snd a)) t"

definition room :: "spec_state \<Rightarrow> nat \<Rightarrow> bool" where
  "room a v \<longleftrightarrow> (case fst a ! v of None \<Rightarrow> True | Some t \<Rightarrow> refs a t + 1 < 2 ^ 32)"

definition dropped :: "spec_state \<Rightarrow> nat \<Rightarrow> spec_state \<Rightarrow> spec_state \<times> nat list" where
  "dropped a v b =
     (b, case fst a ! v of None \<Rightarrow> [] | Some t \<Rightarrow> if refs a t = 1 then [t] else [])"

definition put :: "spec_state \<Rightarrow> nat \<Rightarrow> nat option \<Rightarrow> spec_state" where
  "put a v p = ((fst a)[v := p], snd a)"

fun ptr_spec :: "ptr_op \<Rightarrow> spec_state \<Rightarrow> (spec_state \<times> nat list) option" where
  "ptr_spec (Create v) a =
     (if v < length (fst a) \<and> fst a ! v = None
      then Some (((fst a)[v := Some (snd (snd a))], fst (snd a), Suc (snd (snd a))), []) else None)"
| "ptr_spec (CopyConstruct dst src) a =
     (if dst < length (fst a) \<and> src < length (fst a) \<and> fst a ! dst = None \<and> room a src
      then Some (put a dst (fst a ! src), []) else None)"
| "ptr_spec (MoveConstruct dst src) a =
     (if dst < length (fst a) \<and> src < length (fst a) \<and> fst a ! dst = None
      then Some (put (put a dst (fst a ! src)) src None, []) else None)"
| "ptr_spec (CopyAssign dst src) a =
     (if dst < length (fst a) \<and> src < length (fst a) \<and> dst \<noteq> src \<and> room a src
      then Some (put a dst (fst a ! src), if fst a ! dst = fst a ! src then [] else snd (dropped a dst a)) else None)"
| "ptr_spec (MoveAssign dst src) a =
     (if dst < length (fst a) \<and> src < length (fst a) \<and> dst \<noteq> src
      then Some (dropped a dst (put (put a dst (fst a ! src)) src None)) else None)"
| "ptr_spec (NullAssign v) a = (if v < length (fst a) then Some (dropped a v (put a v None)) else None)"
| "ptr_spec (Destroy v) a = (if v < length (fst a) then Some (dropped a v (put a v None)) else None)"
| "ptr_spec (GiveUp v) a =
     (if v < length (fst a)
      then Some (((fst a)[v := None], (case fst a ! v of None \<Rightarrow> fst (snd a) | Some t \<Rightarrow> t # fst (snd a)), snd (snd a)), [])
      else None)"
| "ptr_spec (Adopt v t) a =
     (if v < length (fst a) \<and> fst a ! v = None \<and> t \<in> set (fst (snd a))
      then Some (((fst a)[v := Some t], remove1 t (fst (snd a)), snd (snd a)), []) else None)"

text \<open>The representation: every existing task counts its references exactly.\<close>

definition ptr_rel :: "ptr_state \<Rightarrow> spec_state \<Rightarrow> bool" where
  "ptr_rel s a \<longleftrightarrow>
     a = (slots s, raws s, fresh s) \<and>
     (\<forall>t. counts s t = (if refs a t = 0 then None else Some (of_nat (refs a t)))) \<and>
     (\<forall>t. refs a t < 2 ^ 32) \<and> (\<forall>t\<ge>fresh s. refs a t = 0)"

section \<open>The code implements the specification\<close>

lemma count_list_remove1: "t \<in> set xs \<Longrightarrow> count_list (remove1 t xs) x + of_bool (x = t) = count_list xs x"
  by (induction xs) auto

text \<open>The counts agree with a number of references \<open>f\<close>.\<close>

definition counted :: "(nat \<rightharpoonup> u32) \<Rightarrow> (nat \<Rightarrow> nat) \<Rightarrow> bool" where
  "counted cts f \<longleftrightarrow> (\<forall>t. f t < 2 ^ 32 \<and> cts t = (if f t = 0 then None else Some (of_nat (f t))))"

lemma update_same: "xs ! i = y \<Longrightarrow> xs[i := y] = xs"
  by (metis list_update_id)

lemma unat_count: "n < 2 ^ 32 \<Longrightarrow> unat (of_nat n :: u32) = n"
  by (simp add: unsigned_of_nat take_bit_eq_mod)

lemma counted_add:
  assumes "counted (counts s) f" "0 < f t" "f t + 1 < 2 ^ 32"
  shows "\<exists>cts. addRef t s = Some (s\<lparr> counts := cts \<rparr>) \<and> counted cts (f(t := f t + 1))"
proof -
  have "0 < (of_nat (f t) :: u32)" using assms(2,3) unat_count [of "f t"] by (simp add: word_less_nat_alt)
  then show ?thesis using assms by (auto simp: addRef_def counted_def)
qed

lemma counted_release:
  assumes "counted (counts s) f" "0 < f t"
  shows "\<exists>cts. releaseRef t s = Some (s\<lparr> counts := cts \<rparr>, if f t = 1 then [t] else []) \<and>
    counted cts (f(t := f t - 1))"
proof -
  have lt: "f t < 2 ^ 32" using assms by (simp add: counted_def)
  have n: "counts s t = Some (of_nat (f t))" using assms by (simp add: counted_def)
  have "1 < (of_nat (f t) :: u32) \<longleftrightarrow> 1 < f t" using lt unat_count [of "f t"] by (simp add: word_less_nat_alt)
  moreover have "(of_nat (f t) :: u32) - 1 = of_nat (f t - 1)" using assms(2) by simp
  ultimately have r: "releaseRef t s = Some (s\<lparr> counts := (counts s)(t := if f t = 1 then None else Some (of_nat (f t - 1))) \<rparr>,
      if f t = 1 then [t] else [])"
    using assms(2) n by (auto simp: releaseRef_def)
  have "counted ((counts s)(t := if f t = 1 then None else Some (of_nat (f t - 1)))) (f(t := f t - 1))"
    using assms by (auto simp: counted_def intro: less_imp_diff_less)
  then show ?thesis using r by blast
qed

lemma rel_counted:
  "ptr_rel s a \<longleftrightarrow> a = (slots s, raws s, fresh s) \<and> counted (counts s) (refs a) \<and> (\<forall>t\<ge>fresh s. refs a t = 0)"
  by (auto simp: ptr_rel_def counted_def)

lemma counted_cong: "counted cts f \<Longrightarrow> (\<And>t. f t = g t) \<Longrightarrow> counted cts g"
  by (simp add: counted_def)

lemma refs_slot: "v < length (fst a) \<Longrightarrow> fst a ! v = Some t \<Longrightarrow> 0 < refs a t"
  unfolding refs_def by (metis add_gr_0 count_list_0_iff nth_mem neq0_conv)

lemma refs_put:
  "v < length (fst a) \<Longrightarrow>
    refs (put a v p) t + of_bool (fst a ! v = Some t) = refs a t + of_bool (p = Some t)"
  using count_list_update [of v "fst a" p "Some t"] by (simp add: refs_def put_def)

lemma put_simps [simp]: "fst (put a v p) = (fst a)[v := p]" "snd (put a v p) = snd a"
  by (simp_all add: put_def)

lemma reset_rel:
  assumes "ptr_rel s a" "v < length (fst a)"
  shows "\<exists>s'. reset v s = Some (s', snd (dropped a v b)) \<and> ptr_rel s' (put a v None)"
proof (cases "slots s ! v")
  case None
  have "put a v None = a" using assms None by (simp add: put_def ptr_rel_def) (metis list_update_id)
  then show ?thesis using assms None by (auto simp: reset_def setSlot_def dropped_def ptr_rel_def update_same)
next
  case (Some t)
  have a: "a = (slots s, raws s, fresh s)" "counted (counts s) (refs a)" "\<forall>t\<ge>fresh s. refs a t = 0"
    using assms(1) by (auto simp: rel_counted)
  have t: "fst a ! v = Some t" using Some a(1) by simp
  obtain cts where cts: "releaseRef t s = Some (s\<lparr> counts := cts \<rparr>, if refs a t = 1 then [t] else [])"
    "counted cts ((refs a)(t := refs a t - 1))"
    using counted_release [OF a(2) refs_slot [OF assms(2) t]] by blast
  have f: "refs (put a v None) x = ((refs a)(t := refs a t - 1)) x" for x
    using refs_put [OF assms(2), of None x] t by auto
  have "ptr_rel (setSlot v None (s\<lparr> counts := cts \<rparr>)) (put a v None)"
    unfolding rel_counted using counted_cong [OF cts(2), of "refs (put a v None)"] f a
    by (auto simp: setSlot_def put_def)
  then show ?thesis using Some cts(1) a(1) by (simp add: reset_def dropped_def)
qed

lemma copySlot_rel:
  assumes "ptr_rel s a" "dst < length (fst a)" "src < length (fst a)" "fst a ! dst = None" "room a src"
  shows "\<exists>s'. copySlot dst src s = Some s' \<and> ptr_rel s' (put a dst (fst a ! src))"
proof (cases "fst a ! src")
  case None
  have "put a dst None = a" using assms(4) by (simp add: put_def) (metis list_update_id prod.collapse)
  then show ?thesis using assms None by (auto simp: copySlot_def setSlot_def ptr_rel_def Let_def update_same)
next
  case (Some t)
  have a: "a = (slots s, raws s, fresh s)" "counted (counts s) (refs a)" "\<forall>t\<ge>fresh s. refs a t = 0"
    using assms(1) by (auto simp: rel_counted)
  let ?s = "setSlot dst (Some t) s"
  obtain cts where cts: "addRef t ?s = Some (?s\<lparr> counts := cts \<rparr>)" "counted cts ((refs a)(t := refs a t + 1))"
    using counted_add [of ?s "refs a" t] a(2) refs_slot [OF assms(3) Some] assms(5) Some
    by (auto simp: setSlot_def room_def)
  have f: "refs (put a dst (Some t)) x = ((refs a)(t := refs a t + 1)) x" for x
    using refs_put [OF assms(2), of "Some t" x] assms(4) by auto
  have "ptr_rel (?s\<lparr> counts := cts \<rparr>) (put a dst (Some t))"
    unfolding rel_counted using counted_cong [OF cts(2), of "refs (put a dst (Some t))"] f a refs_slot [OF assms(3) Some]
    by (auto simp: setSlot_def put_def)
  then show ?thesis using Some cts(1) a(1) assms(2) by (auto simp: copySlot_def setSlot_def Let_def)
qed

lemma ptr_step:
  assumes "ptr_rel s a" "ptr_spec x a = Some (a', r)"
  shows "\<exists>s'. ptr_exec x s = Some (s', r) \<and> ptr_rel s' a'"
proof -
  have a: "a = (slots s, raws s, fresh s)" "counted (counts s) (refs a)" "\<forall>t\<ge>fresh s. refs a t = 0"
    using assms(1) by (auto simp: rel_counted)
  show ?thesis
  proof (cases x)
    case (Create v)
    then have v: "v < length (fst a)" "fst a ! v = None"
      and a': "a' = ((fst a)[v := Some (fresh s)], raws s, Suc (fresh s))" "r = []"
      using assms(2) a(1) by (auto split: if_splits)
    have f: "refs a' t = ((refs a)(fresh s := 1)) t" for t
      using count_list_update [OF v(1), of "Some (fresh s)" "Some t"] v(2) a(1,3) by (auto simp: a' refs_def)
    show ?thesis using Create a a' f by (auto simp: rel_counted ptr_create_def setSlot_def counted_def)
  next
    case (CopyConstruct dst src)
    then show ?thesis using assms copySlot_rel [OF assms(1)] by (auto simp: quiet_def split: if_splits)
  next
    case (MoveConstruct dst src)
    then have v: "dst < length (fst a)" "src < length (fst a)" "fst a ! dst = None"
      and a': "a' = put (put a dst (fst a ! src)) src None" "r = []"
      using assms(2) by (auto split: if_splits)
    have f: "refs a' t = refs a t" for t
      using refs_put [of dst a "fst a ! src" t] refs_put [of src "put a dst (fst a ! src)" None t] v
      by (cases "dst = src") (auto simp: a' split: if_splits)
    show ?thesis using MoveConstruct a a' f
      by (auto simp: rel_counted move_construct_def setSlot_def put_def counted_def)
  next
    case (CopyAssign dst src)
    then have v: "dst < length (fst a)" "src < length (fst a)" "dst \<noteq> src" "room a src"
      and a': "a' = put a dst (fst a ! src)"
      "r = (if fst a ! dst = fst a ! src then [] else snd (dropped a dst a))"
      using assms(2) by (auto split: if_splits)
    obtain s1 where s1: "reset dst s = Some (s1, snd (dropped a dst a))" "ptr_rel s1 (put a dst None)"
      using reset_rel [OF assms(1) v(1)] by blast
    show ?thesis
    proof (cases "fst a ! src")
      case None
      obtain s2 where "copySlot dst src s1 = Some s2" "ptr_rel s2 (put (put a dst None) dst None)"
        using copySlot_rel [OF s1(2), of dst src] v None by (auto simp: room_def)
      then show ?thesis using CopyAssign s1 a' None by (auto simp: copy_assign_def put_def dropped_def)
    next
      case (Some t)
      have "room (put a dst None) src" using v Some refs_put [OF v(1), of None t] by (auto simp: room_def)
      then obtain s2 where s2: "copySlot dst src s1 = Some s2" "ptr_rel s2 (put (put a dst None) dst (Some t))"
        using copySlot_rel [OF s1(2), of dst src] v Some by auto
      have "snd (dropped a dst a) = []" if "fst a ! dst = Some t"
      proof -
        have "refs (put a dst None) t + 1 = refs a t" using refs_put [OF v(1), of None t] that by simp
        moreover have "0 < refs (put a dst None) t"
          by (rule refs_slot [of src]) (use v Some in auto)
        ultimately show ?thesis using that by (simp add: dropped_def)
      qed
      then show ?thesis using CopyAssign s1 s2 a' Some by (auto simp: copy_assign_def put_def)
    qed
  next
    case (MoveAssign dst src)
    then have v: "dst < length (fst a)" "src < length (fst a)" "dst \<noteq> src"
      and a': "a' = put (put a dst (fst a ! src)) src None" "r = snd (dropped a dst a')"
      using assms(2) by (auto simp: dropped_def split: if_splits)
    obtain s1 where s1: "reset dst s = Some (s1, r)" "ptr_rel s1 (put a dst None)"
      using reset_rel [OF assms(1) v(1), of a'] a' by auto
    have sl: "slots s1 = (fst a)[dst := None]" "raws s1 = raws s" "fresh s1 = fresh s"
      using s1(2) a(1) by (auto simp: rel_counted put_def)
    have f: "refs a' t = refs (put a dst None) t" for t
      using refs_put [of dst a "fst a ! src" t] refs_put [of src "put a dst (fst a ! src)" None t]
        refs_put [of dst a None t] v by (auto simp: a')
    have "ptr_rel (s1\<lparr> slots := (slots s1)[dst := slots s1 ! src, src := slots s1 ! dst] \<rparr>) a'"
      using s1(2) f v a(1) sl unfolding rel_counted by (auto simp: a' put_def counted_def)
    then show ?thesis using MoveAssign s1(1) by (simp add: move_assign_def)
  next
    case (NullAssign v)
    then show ?thesis using assms reset_rel [OF assms(1), of v] by (auto simp: dropped_def split: if_splits)
  next
    case (Destroy v)
    then show ?thesis using assms reset_rel [OF assms(1), of v] by (auto simp: dropped_def split: if_splits)
  next
    case (GiveUp v)
    then have v: "v < length (fst a)" and r: "r = []"
      and a': "a' = ((fst a)[v := None], (case fst a ! v of None \<Rightarrow> raws s | Some t \<Rightarrow> t # raws s), fresh s)"
      using assms(2) a(1) by (auto split: if_splits option.splits)
    have f: "refs a' t = refs a t" for t
      using count_list_update [OF v, of None "Some t"] a(1) by (auto simp: a' refs_def split: option.splits)
    show ?thesis using GiveUp a a' r f by (auto simp: rel_counted give_up_def setSlot_def counted_def)
  next
    case (Adopt v t)
    then have v: "v < length (fst a)" "fst a ! v = None" "t \<in> set (raws s)" and r: "r = []"
      and a': "a' = ((fst a)[v := Some t], remove1 t (raws s), fresh s)"
      using assms(2) a(1) by (auto split: if_splits)
    have f: "refs a' x = refs a x" for x
      using count_list_update [OF v(1), of "Some t" "Some x"] count_list_remove1 [OF v(3), of x] v(2) a(1)
      by (auto simp: a' refs_def split: if_splits)
    show ?thesis using Adopt a a' r f by (auto simp: rel_counted adopt_def setSlot_def counted_def)
  qed
qed

interpretation task_ptr: implements ptr_exec ptr_spec ptr_rel
  by unfold_locales (rule ptr_step)

definition null_pointers :: "nat \<Rightarrow> ptr_state" where
  "null_pointers n = \<lparr> slots = replicate n None, raws = [], counts = Map.empty, fresh = 0 \<rparr>"

lemma rel_null: "ptr_rel (null_pointers n) (replicate n None, [], 0)"
  by (simp add: ptr_rel_def null_pointers_def refs_def count_list_0_iff)

text \<open>
  C30. Every program of pointer operations that keeps its side of the contract runs without touching a
  destroyed task, each task counts its pointers exactly, and it is destroyed by the very call that drops its
  last reference, never earlier and never twice.
\<close>

theorem tasks_are_shared:
  assumes "run ptr_spec ops (replicate n None, [], 0) = Some (a, destroyed)"
  shows "\<exists>s. run ptr_exec ops (null_pointers n) = Some (s, destroyed) \<and>
    slots s = fst a \<and> (\<forall>t. counts s t = (if refs a t = 0 then None else Some (of_nat (refs a t))))"
proof -
  obtain s where "run ptr_exec ops (null_pointers n) = Some (s, destroyed)" "ptr_rel s a"
    using task_ptr.run_exec [OF rel_null assms] by blast
  then show ?thesis by (auto simp: ptr_rel_def)
qed

lemma tasks_are_shared_witness:
  "\<exists>s. run ptr_exec [Create 0, CopyConstruct 1 0, MoveAssign 2 0, GiveUp 1, NullAssign 2, Adopt 0 0, Destroy 0] (null_pointers 3) =
    Some (s, [[], [], [], [], [], [], [0]])"
  using tasks_are_shared [of "[Create 0, CopyConstruct 1 0, MoveAssign 2 0, GiveUp 1, NullAssign 2, Adopt 0 0, Destroy 0]" 3
      "([None, None, None], [], 1)" "[[], [], [], [], [], [], [0]]"]
  by (auto simp: dropped_def refs_def room_def put_def numeral_3_eq_3)

text \<open>
  Copy assignment releases the target before it reads the source: a pointer assigned to itself becomes
  null, and drops its task when it was the only reference.
\<close>

theorem self_assignment_empties:
  assumes "ptr_rel s a" "v < length (slots s)"
  shows "\<exists>s'. ptr_exec (CopyAssign v v) s = Some (s', snd (dropped a v a)) \<and> slots s' ! v = None"
proof -
  have len: "v < length (fst a)" using assms by (simp add: ptr_rel_def)
  obtain s1 where s1: "reset v s = Some (s1, snd (dropped a v a))" "ptr_rel s1 (put a v None)"
    using reset_rel [OF assms(1) len] by blast
  have n: "slots s1 ! v = None" using s1(2) len unfolding ptr_rel_def
    by (metis fst_conv nth_list_update_eq put_simps(1))
  then have "copySlot v v s1 = Some (setSlot v None s1)" by (simp add: copySlot_def Let_def setSlot_def update_same)
  then show ?thesis using s1 n by (auto simp: copy_assign_def setSlot_def update_same)
qed

lemma self_assignment_witness:
  "\<exists>s'. ptr_exec (CopyAssign 0 0) (null_pointers 1) = Some (s', []) \<and> slots s' ! 0 = None"
  using self_assignment_empties [OF rel_null [of 1], of 0] by (simp add: null_pointers_def dropped_def)

section \<open>Placement of a task\<close>

text \<open>
  \<open>CoreTask::create\<close>: the task object, of \<open>taskSize\<close> bytes (\<open>CoreTaskSize\<close>), is followed by the client
  data.  The allocator may return storage that is not aligned for the data, then the task moves up.
\<close>

definition getCoreTaskStorageSize :: "nat \<Rightarrow> nat \<Rightarrow> nat \<Rightarrow> nat \<Rightarrow> nat" where
  "getCoreTaskStorageSize defaultAlign taskSize dataSize dataAlignment =
     aligned_nat (taskSize + dataSize) (max defaultAlign dataAlignment) + dataAlignment"

definition placement :: "nat \<Rightarrow> nat \<Rightarrow> addr \<Rightarrow> addr" where
  "placement taskSize dataAlignment allocated =
     (let alignmentOffset = (allocated + taskSize) mod dataAlignment
      in if alignmentOffset > 0 then allocated + (dataAlignment - alignmentOffset) else allocated)"

definition getData :: "nat \<Rightarrow> addr \<Rightarrow> addr" where
  "getData taskSize task = task + taskSize"

text \<open>The block size of the allocator chosen for a request; \<open>None\<close> is the default allocator.\<close>

definition getAllocator :: "nat \<Rightarrow> nat option" where
  "getAllocator sz = List.find (\<lambda>blockSize. sz \<le> blockSize) [256, 512, 768, 1024]"

text \<open>
  C31. The storage requested for a task always holds the task and its client data, whatever address the
  allocator returns: the data is aligned as its type asks, the task is aligned for its members, both end
  inside the storage, and a block allocator is only asked for requests that fit its blocks.
\<close>

theorem task_storage_fits:
  assumes align: "dataAlignment = 2 ^ k" "defaultAlign = 2 ^ d"
    and bound: "taskSize + dataSize + max defaultAlign dataAlignment \<le> 2 ^ 64"
    and members: "8 dvd taskSize" "8 dvd allocated"
  defines "storage \<equiv> getCoreTaskStorageSize defaultAlign taskSize dataSize dataAlignment"
    and "task \<equiv> placement taskSize dataAlignment allocated"
  shows "dataAlignment dvd getData taskSize task \<and> 8 dvd task \<and> allocated \<le> task \<and>
    getData taskSize task + dataSize \<le> allocated + storage \<and>
    (\<forall>blockSize. getAllocator storage = Some blockSize \<longrightarrow> storage \<le> blockSize)"
proof -
  let ?c = "allocated + taskSize"
  have pos: "0 < dataAlignment" using align by simp
  have "max defaultAlign dataAlignment = 2 ^ max d k"
    using align by (auto simp: max_def)
  then have storage: "taskSize + dataSize + dataAlignment \<le> storage"
    using round_up_bounds(1) [of "2 ^ max d k" "taskSize + dataSize"] bound
    by (simp add: storage_def getCoreTaskStorageSize_def aligned_nat_round_up)
  have gap: "task = allocated + (dataAlignment - ?c mod dataAlignment) mod dataAlignment"
    using pos by (auto simp: task_def placement_def Let_def)
  have lt: "(dataAlignment - ?c mod dataAlignment) mod dataAlignment < dataAlignment" using pos by simp
  have "dataAlignment dvd getData taskSize task"
  proof (cases "?c mod dataAlignment = 0")
    case True
    then show ?thesis by (simp add: getData_def task_def placement_def Let_def mod_eq_0_iff_dvd)
  next
    case False
    have "getData taskSize task = ?c + (dataAlignment - ?c mod dataAlignment)"
      using False by (simp add: getData_def task_def placement_def Let_def)
    also have "\<dots> = (?c - ?c mod dataAlignment) + dataAlignment"
      using mod_less_divisor [OF pos, of ?c] mod_less_eq_dividend [of ?c dataAlignment] by linarith
    finally show ?thesis by (metis dvd_add dvd_minus_mod dvd_refl)
  qed
  moreover have "8 dvd task"
  proof (cases "k \<le> 3")
    case True
    then have "dataAlignment dvd 8" using align(1) le_imp_power_dvd [of k 3 "2 :: nat"] by simp
    then have "?c mod dataAlignment = 0" using members by (meson dvd_add dvd_trans mod_eq_0_iff_dvd)
    then show ?thesis using members by (simp add: task_def placement_def Let_def)
  next
    case False
    then have "8 dvd dataAlignment" using align(1) le_imp_power_dvd [of 3 k "2 :: nat"] by simp
    moreover from this have "8 dvd ?c mod dataAlignment" using members by (simp add: dvd_mod)
    ultimately show ?thesis using members by (auto simp: task_def placement_def Let_def)
  qed
  moreover have "storage \<le> blockSize" if "getAllocator storage = Some blockSize" for blockSize
    using that unfolding getAllocator_def by (fastforce split: if_splits)
  ultimately show ?thesis using gap lt storage by (auto simp: getData_def)
qed

lemma task_storage_fits_witness:
  "16 dvd getData 128 (placement 128 16 4104) \<and> 8 dvd placement 128 16 4104"
proof -
  have "16 = (2::nat) ^ 4" "128 + 24 + max 16 16 \<le> (2::nat) ^ 64" "8 dvd (128::nat)" "8 dvd (4104::nat)" by simp_all
  from task_storage_fits [OF this(1,1,2-4)] show ?thesis by blast
qed

end
