(* ===== verification/ObjectRegistry.thy ===== *)
theory ObjectRegistry
  imports Prelude "HOL-Library.Multiset"
begin

text \<open>
  The registry of runtime objects, \<open>src/runtime/runtime_object_registry.cpp\<close>: entries in a vector with
  swap-and-pop removal, weak and plain references, the visit that collects the live objects of a type, and
  the registration handles that own an entry.  Objects are numbers; what happens to them between the calls
  (which are alive, reference counted, of the type asked for) is given with each visit.
\<close>

section \<open>Entries\<close>

record object_entry =
  e_id :: nat
  e_ptr :: "nat option"
  e_weak :: bool

definition null_entry :: object_entry where
  "null_entry = \<lparr> e_id = 0, e_ptr = None, e_weak = False \<rparr>"

definition plain_entry :: "nat \<Rightarrow> nat \<Rightarrow> object_entry" where
  "plain_entry i ob = \<lparr> e_id = i, e_ptr = Some ob, e_weak = False \<rparr>"

definition weak_entry :: "nat \<Rightarrow> nat \<Rightarrow> object_entry" where
  "weak_entry i ob = \<lparr> e_id = i, e_ptr = Some ob, e_weak = True \<rparr>"

text \<open>\<open>reset\<close> gives the weak reference it releases, if any.\<close>

definition entry_reset :: "object_entry \<Rightarrow> object_entry \<times> nat list" where
  "entry_reset e =
     (e\<lparr> e_ptr := None, e_weak := False \<rparr>,
      case e_ptr e of None \<Rightarrow> [] | Some ob \<Rightarrow> if e_weak e then [ob] else [])"

text \<open>The move assignment: target and source afterwards, and the weak reference the target released.\<close>

definition entry_assign :: "object_entry \<Rightarrow> object_entry \<Rightarrow> object_entry \<times> object_entry \<times> nat list" where
  "entry_assign target source =
     (let (t, rel) = entry_reset target
      in (t\<lparr> e_id := e_id source, e_ptr := e_ptr source, e_weak := e_weak source \<rparr>,
          source\<lparr> e_id := 0, e_ptr := None, e_weak := False \<rparr>, rel))"

text \<open>What a visit finds: the objects alive, those that are reference counted, those of the type.\<close>

record env =
  alive :: "nat \<Rightarrow> bool"
  counted_obj :: "nat \<Rightarrow> bool"
  has_type :: "nat \<Rightarrow> bool"

definition isExpired :: "env \<Rightarrow> object_entry \<Rightarrow> bool" where
  "isExpired w e \<longleftrightarrow> (case e_ptr e of None \<Rightarrow> True | Some ob \<Rightarrow> e_weak e \<and> \<not> alive w ob)"

text \<open>\<open>lock\<close>: the instance, and whether a reference was added to it.\<close>

definition entry_lock :: "env \<Rightarrow> object_entry \<Rightarrow> (nat \<times> bool) option" where
  "entry_lock w e =
     (case e_ptr e of None \<Rightarrow> None
      | Some ob \<Rightarrow>
          if e_weak e then (if alive w ob then Some (ob, True) else None)
          else Some (ob, counted_obj w ob))"

section \<open>The registry\<close>

text \<open>\<open>released\<close> records the weak references given back, \<open>refs_log\<close> the strong ones taken and dropped.\<close>

record registry =
  m_objects :: "object_entry list"
  m_objectId :: nat
  released :: "nat list"

definition new_registry :: registry where
  "new_registry = \<lparr> m_objects = [], m_objectId = 0, released = [] \<rparr>"

definition fastRemoveObjectAt :: "object_entry list \<Rightarrow> nat \<Rightarrow> object_entry list \<times> nat list" where
  "fastRemoveObjectAt es i =
     (let lastIndex = length es - 1
      in if i \<noteq> lastIndex
         then (let (t, s, rel) = entry_assign (es ! i) (es ! lastIndex); es' = es[i := t, lastIndex := s]
               in (take lastIndex es', rel @ snd (entry_reset s)))
         else (take lastIndex es, snd (entry_reset (es ! lastIndex))))"

definition addWeak :: "nat \<Rightarrow> registry \<Rightarrow> registry \<times> nat" where
  "addWeak ob r =
     (let i = Suc (m_objectId r)
      in (r\<lparr> m_objectId := i, m_objects := m_objects r @ [weak_entry i ob] \<rparr>, i))"

definition addPlain :: "nat \<Rightarrow> registry \<Rightarrow> registry \<times> nat" where
  "addPlain ob r =
     (let i = Suc (m_objectId r)
      in (r\<lparr> m_objectId := i, m_objects := m_objects r @ [plain_entry i ob] \<rparr>, i))"

definition removeObject :: "nat \<Rightarrow> registry \<Rightarrow> registry" where
  "removeObject i r =
     (case find_index (\<lambda>e. e_id e = i) (m_objects r) of None \<Rightarrow> r
      | Some k \<Rightarrow>
          (let (es, rel) = fastRemoveObjectAt (m_objects r) k
           in r\<lparr> m_objects := es, released := released r @ rel \<rparr>))"

definition isAutoRemovable :: "nat \<Rightarrow> registry \<Rightarrow> bool" where
  "isAutoRemovable i r =
     (case List.find (\<lambda>e. e_id e = i) (m_objects r) of None \<Rightarrow> False | Some e \<Rightarrow> e_weak e)"

definition removeExpiredEntries :: "env \<Rightarrow> registry \<Rightarrow> registry" where
  "removeExpiredEntries w r =
     r\<lparr> m_objects := filter (\<lambda>e. \<not> isExpired w e) (m_objects r),
        released := released r @ concat (map (\<lambda>e. snd (entry_reset e)) (filter (isExpired w) (m_objects r))) \<rparr>"

text \<open>
  The collecting loop of \<open>visitObjects\<close> from index \<open>i\<close> on: the remaining entries, the weak references
  released, the instances collected, the strong references taken and those dropped at once.
\<close>

definition taken_ref :: "nat \<times> bool \<Rightarrow> nat list" where
  "taken_ref x = (if snd x then [fst x] else [])"

definition dropped_ref :: "env \<Rightarrow> nat \<Rightarrow> nat list" where
  "dropped_ref w ob = (if counted_obj w ob then [ob] else [])"

lemma length_fastRemove: "i < length es \<Longrightarrow> length (fst (fastRemoveObjectAt es i)) = length es - 1"
  by (auto simp: fastRemoveObjectAt_def Let_def split_def)

lemma removed_shorter:
  assumes "(es', rel) = fastRemoveObjectAt es i" "i < length es"
  shows "length es' - i < length es - i"
proof -
  have "length es' = length es - 1" using length_fastRemove [OF assms(2)] assms(1) by (metis fst_conv)
  then show ?thesis using assms(2) by linarith
qed

function collect :: "env \<Rightarrow> nat \<Rightarrow> object_entry list \<Rightarrow>
    object_entry list \<times> nat list \<times> nat list \<times> nat list \<times> nat list" where
  "collect w i es =
     (if i < length es then
        (case entry_lock w (es ! i) of
           None \<Rightarrow>
             (let (es', rel) = fastRemoveObjectAt es i; (es'', rel', ins, took, drp) = collect w i es'
              in (es'', rel @ rel', ins, took, drp))
         | Some x \<Rightarrow>
             (let (es', rel, ins, took, drp) = collect w (Suc i) es
              in (es', rel, (if has_type w (fst x) then fst x # ins else ins), taken_ref x @ took,
                  (if has_type w (fst x) then drp else dropped_ref w (fst x) @ drp))))
      else (es, [], [], [], []))"
  by pat_completeness auto

termination
  by (relation "measure (\<lambda>(w, i, es). length es - i)")
    (auto dest: removed_shorter)

declare collect.simps [simp del]

text \<open>
  \<open>visitObjects\<close>: the registry afterwards, the objects the callback was given (\<open>None\<close>: it was not called),
  and the strong references taken and dropped during the visit.
\<close>

definition visitObjects :: "env \<Rightarrow> registry \<Rightarrow> registry \<times> nat list option \<times> nat list \<times> nat list" where
  "visitObjects w r =
     (if m_objects r = [] then (r, None, [], [])
      else (let (es, rel, ins, took, drp) = collect w 0 (m_objects r)
            in (r\<lparr> m_objects := es, released := released r @ rel \<rparr>,
                (if ins = [] then None else Some ins), took, drp @ concat (map (dropped_ref w) ins))))"

section \<open>Removal and visit\<close>

lemma entry_assign_eq [simp]: "entry_assign t s = (s, null_entry, snd (entry_reset t))"
  by (cases s) (simp add: entry_assign_def entry_reset_def null_entry_def)

lemma reset_null [simp]: "snd (entry_reset null_entry) = []"
  by (simp add: entry_reset_def null_entry_def)

lemma fastRemove_eq:
  assumes "i < length es"
  shows "fastRemoveObjectAt es i = ((butlast es)[i := last es], snd (entry_reset (es ! i)))"
proof (cases "i = length es - 1")
  case True
  then show ?thesis using assms
    by (simp add: fastRemoveObjectAt_def Let_def butlast_conv_take list_update_beyond last_conv_nth)
next
  case False
  then have i: "i < length es - 1" using assms by simp
  have "es \<noteq> []" using assms by auto
  then have "take (length es - 1) (es[i := last es, length es - 1 := null_entry]) = (butlast es)[i := last es]"
    using i by (simp add: butlast_conv_take take_update_swap list_update_beyond)
  then show ?thesis using False \<open>es \<noteq> []\<close> by (simp add: fastRemoveObjectAt_def Let_def last_conv_nth)
qed

lemma fastRemove_take: "i < length es \<Longrightarrow> take i (fst (fastRemoveObjectAt es i)) = take i es"
  by (simp add: fastRemove_eq butlast_conv_take)

lemma fastRemove_mset:
  assumes "i < length es"
  shows "add_mset (es ! i) (mset (fst (fastRemoveObjectAt es i))) = mset es"
proof (cases "i = length es - 1")
  case True
  have es: "es = butlast es @ [last es]" using assms by (cases es) auto
  have n: "es ! i = last es" using True assms by (cases es) (auto simp: last_conv_nth)
  have "add_mset (last es) (mset (butlast es)) = mset es" by (subst (3) es) simp
  moreover have "(butlast es)[i := last es] = butlast es" using True by (simp add: list_update_beyond)
  ultimately show ?thesis unfolding fastRemove_eq [OF assms] fst_conv n by simp
next
  case False
  then have i: "i < length (butlast es)" using assms by simp
  have es: "es = butlast es @ [last es]" using assms by (cases es) auto
  have n: "butlast es ! i = es ! i" using i by (simp add: nth_butlast)
  have "mset ((butlast es)[i := last es]) = add_mset (last es) (mset (butlast es) - {#es ! i#})"
    using i n by (simp add: mset_update)
  moreover have "es ! i \<in># mset (butlast es)" using i n by (metis in_multiset_in_set nth_mem)
  ultimately have "add_mset (es ! i) (mset ((butlast es)[i := last es])) = add_mset (last es) (mset (butlast es))"
    by (simp add: add_mset_commute)
  also have "\<dots> = mset es" by (subst (3) es) simp
  finally show ?thesis using assms by (simp add: fastRemove_eq)
qed

lemma fastRemove_drop:
  assumes "i < length es"
  shows "add_mset (es ! i) (mset (drop i (fst (fastRemoveObjectAt es i)))) = mset (drop i es)"
proof -
  have "mset (take i es) + add_mset (es ! i) (mset (drop i (fst (fastRemoveObjectAt es i)))) =
      add_mset (es ! i) (mset (take i (fst (fastRemoveObjectAt es i)) @ drop i (fst (fastRemoveObjectAt es i))))"
    using assms by (simp only: mset_append fastRemove_take) simp
  also have "\<dots> = mset (take i es @ drop i es)" using assms by (simp add: fastRemove_mset)
  finally show ?thesis by (simp only: mset_append add_left_cancel)
qed

text \<open>The dead entries, and the objects of the entries a visit finds.\<close>

definition dead :: "env \<Rightarrow> object_entry \<Rightarrow> bool" where
  "dead w e \<longleftrightarrow> e_weak e \<and> \<not> alive w (the (e_ptr e))"

definition wanted :: "env \<Rightarrow> object_entry \<Rightarrow> bool" where
  "wanted w e \<longleftrightarrow> \<not> dead w e \<and> has_type w (the (e_ptr e))"

definition object_of :: "object_entry \<Rightarrow> nat" where
  "object_of e = the (e_ptr e)"

text \<open>Weakly registered objects are reference counted.\<close>

definition weak_counted :: "env \<Rightarrow> object_entry list \<Rightarrow> bool" where
  "weak_counted w es \<longleftrightarrow> (\<forall>e\<in>set es. e_weak e \<longrightarrow> counted_obj w (object_of e))"

lemma collect_spec:
  assumes "collect w i es = (es', rel, ins, took, drp)" "\<forall>e\<in>set (drop i es). e_ptr e \<noteq> None"
  shows "take i es' = take i es \<and>
    mset (drop i es') = filter_mset (\<lambda>e. \<not> dead w e) (mset (drop i es)) \<and>
    mset rel = image_mset object_of (filter_mset (dead w) (mset (drop i es))) \<and>
    mset ins = image_mset object_of (filter_mset (wanted w) (mset (drop i es))) \<and>
    (weak_counted w (drop i es) \<longrightarrow> mset took = mset drp + mset (concat (map (dropped_ref w) ins)))"
  using assms
proof (induction w i es arbitrary: es' rel ins took drp rule: collect.induct)
  case (1 w i es)
  show ?case
  proof (cases "i < length es")
    case False
    then show ?thesis using "1.prems"(1) collect.simps [of w i es] by simp
  next
    case True
    have ptr: "e_ptr (es ! i) \<noteq> None" using "1.prems"(2) True by (metis Cons_nth_drop_Suc list.set_intros(1))
    show ?thesis
    proof (cases "entry_lock w (es ! i)")
      case None
      then have d: "dead w (es ! i)" using ptr by (auto simp: entry_lock_def dead_def split: if_splits)
      let ?es1 = "fst (fastRemoveObjectAt es i)"
      obtain es2 rel2 ins2 took2 drp2 where rec: "collect w i ?es1 = (es2, rel2, ins2, took2, drp2)"
        by (cases "collect w i ?es1") auto
      have r: "snd (fastRemoveObjectAt es i) = [object_of (es ! i)]"
        using True d ptr by (auto simp: fastRemove_eq entry_reset_def dead_def object_of_def)
      have eqs: "es' = es2" "rel = object_of (es ! i) # rel2" "ins = ins2" "took = took2" "drp = drp2"
        using "1.prems"(1) collect.simps [of w i es] True None rec r by (simp_all add: split_def Let_def)
      have m: "mset (drop i es) = add_mset (es ! i) (mset (drop i ?es1))" using fastRemove_drop [OF True] by simp
      have sub: "set (drop i ?es1) \<subseteq> set (drop i es)" using arg_cong [OF m, of set_mset] by auto
      have "\<forall>e\<in>set (drop i ?es1). e_ptr e \<noteq> None" using "1.prems"(2) sub by blast
      note IH = "1.IH"(1) [OF True None refl prod.collapse rec this]
      have "\<not> wanted w (es ! i)" using d by (simp add: wanted_def)
      moreover have "weak_counted w (drop i ?es1)" if "weak_counted w (drop i es)"
        using that sub by (auto simp: weak_counted_def)
      ultimately show ?thesis using IH d unfolding eqs m fastRemove_take [OF True] by simp
    next
      case (Some x)
      then have d: "\<not> dead w (es ! i)" and x: "fst x = object_of (es ! i)"
        using ptr by (auto simp: entry_lock_def dead_def object_of_def split: if_splits)
      obtain es2 rel2 ins2 took2 drp2 where rec: "collect w (Suc i) es = (es2, rel2, ins2, took2, drp2)"
        by (cases "collect w (Suc i) es") auto
      have eq: "collect w i es = (es2, rel2, if has_type w (fst x) then fst x # ins2 else ins2, taken_ref x @ took2,
          if has_type w (fst x) then drp2 else dropped_ref w (fst x) @ drp2)"
        by (subst collect.simps) (simp add: True Some rec)
      have eqs: "es' = es2" "rel = rel2" "ins = (if has_type w (fst x) then fst x # ins2 else ins2)"
        "took = taken_ref x @ took2" "drp = (if has_type w (fst x) then drp2 else dropped_ref w (fst x) @ drp2)"
        using "1.prems"(1) unfolding eq by auto
      have dr: "drop i es = es ! i # drop (Suc i) es" using True by (simp add: Cons_nth_drop_Suc)
      have "\<forall>e\<in>set (drop (Suc i) es). e_ptr e \<noteq> None" using "1.prems"(2) dr by simp
      note IH = "1.IH"(2) [OF True Some rec this]
      have tk: "take (Suc i) es2 = take (Suc i) es" using IH by blast
      have len: "i < length es2" using arg_cong [OF tk, of length] True by (simp split: if_splits)
      have nth: "es2 ! i = es ! i" using arg_cong [OF tk, of "\<lambda>l. l ! i"] by simp
      have dr2: "drop i es2 = es ! i # drop (Suc i) es2" using Cons_nth_drop_Suc [OF len] nth by simp
      have tk': "take i es2 = take i es" using arg_cong [OF tk, of "take i"] by (simp add: min_def)
      have w: "wanted w (es ! i) \<longleftrightarrow> has_type w (fst x)" using d x by (simp add: wanted_def object_of_def)
      have ref: "taken_ref x = dropped_ref w (fst x)" if "e_weak (es ! i) \<longrightarrow> counted_obj w (object_of (es ! i))"
        using Some ptr that
        by (auto simp: entry_lock_def taken_ref_def dropped_ref_def object_of_def split: if_splits)
      have "mset took = mset drp + mset (concat (map (dropped_ref w) ins))" if wc: "weak_counted w (drop i es)"
      proof -
        have "taken_ref x = dropped_ref w (fst x)" "weak_counted w (drop (Suc i) es)"
          using wc ref by (auto simp: weak_counted_def dr)
        then show ?thesis using IH by (simp add: eqs)
      qed
      then show ?thesis using IH d x w tk' by (simp add: eqs dr dr2)
    qed
  qed
qed

section \<open>Contract: a table of objects\<close>

text \<open>
  The registry as the client sees it: a table from identifiers to objects (weak or plain), the last
  identifier given out, and the weak references given back.
\<close>

type_synonym table = "(nat \<rightharpoonup> nat \<times> bool) \<times> nat \<times> nat multiset"

datatype reg_op = AddWeak nat | AddPlain nat | Remove nat | AutoRemovable nat | Visit env | RemoveExpired env

text \<open>The result of a visit does not depend on the order of the entries: a multiset of objects.\<close>

datatype reg_result = Done | Identifier nat | Answer bool | Objects "nat multiset"

fun reg_exec :: "reg_op \<Rightarrow> registry \<Rightarrow> (registry \<times> reg_result) option" where
  "reg_exec (AddWeak ob) r = (let (r', i) = addWeak ob r in Some (r', Identifier i))"
| "reg_exec (AddPlain ob) r = (let (r', i) = addPlain ob r in Some (r', Identifier i))"
| "reg_exec (Remove i) r = Some (removeObject i r, Done)"
| "reg_exec (AutoRemovable i) r = Some (r, Answer (isAutoRemovable i r))"
| "reg_exec (Visit w) r =
     (let (r', seen, took, drp) = visitObjects w r
      in Some (r', Objects (case seen of None \<Rightarrow> {#} | Some obs \<Rightarrow> mset obs)))"
| "reg_exec (RemoveExpired w) r = Some (removeExpiredEntries w r, Done)"

definition live_ids :: "env \<Rightarrow> (nat \<rightharpoonup> nat \<times> bool) \<Rightarrow> nat set" where
  "live_ids w m = {i \<in> dom m. \<not> (snd (the (m i)) \<and> \<not> alive w (fst (the (m i))))}"

definition objects :: "(nat \<rightharpoonup> nat \<times> bool) \<Rightarrow> nat set \<Rightarrow> nat multiset" where
  "objects m A = image_mset (\<lambda>i. fst (the (m i))) (mset_set A)"

fun reg_spec :: "reg_op \<Rightarrow> table \<Rightarrow> (table \<times> reg_result) option" where
  "reg_spec (AddWeak ob) (m, n, rel) = Some ((m(Suc n \<mapsto> (ob, True)), Suc n, rel), Identifier (Suc n))"
| "reg_spec (AddPlain ob) (m, n, rel) = Some ((m(Suc n \<mapsto> (ob, False)), Suc n, rel), Identifier (Suc n))"
| "reg_spec (Remove i) (m, n, rel) =
     Some ((m(i := None), n, rel + (case m i of Some (ob, True) \<Rightarrow> {#ob#} | _ \<Rightarrow> {#})), Done)"
| "reg_spec (AutoRemovable i) (m, n, rel) =
     Some ((m, n, rel), Answer (case m i of Some (ob, wk) \<Rightarrow> wk | None \<Rightarrow> False))"
| "reg_spec (Visit w) (m, n, rel) =
     Some ((m |` live_ids w m, n, rel + objects m (dom m - live_ids w m)),
       Objects (objects m {i \<in> live_ids w m. has_type w (fst (the (m i)))}))"
| "reg_spec (RemoveExpired w) (m, n, rel) =
     Some ((m |` live_ids w m, n, rel + objects m (dom m - live_ids w m)), Done)"

definition reg_rel :: "registry \<Rightarrow> table \<Rightarrow> bool" where
  "reg_rel r a \<longleftrightarrow>
     distinct (map e_id (m_objects r)) \<and>
     (\<forall>e\<in>set (m_objects r). e_ptr e \<noteq> None \<and> 0 < e_id e \<and> e_id e \<le> m_objectId r) \<and>
     (\<forall>i v. fst a i = Some v \<longleftrightarrow>
       (\<exists>e\<in>set (m_objects r). e_id e = i \<and> v = (object_of e, e_weak e))) \<and>
     fst (snd a) = m_objectId r \<and> snd (snd a) = mset (released r)"

lemma rel_map:
  "reg_rel r a \<Longrightarrow> fst a i = Some v \<longleftrightarrow> (\<exists>e\<in>set (m_objects r). e_id e = i \<and> v = (object_of e, e_weak e))"
  unfolding reg_rel_def by blast

lemma rel_inj: "reg_rel r a \<Longrightarrow> e \<in> set (m_objects r) \<Longrightarrow> fst a (e_id e) = Some (object_of e, e_weak e)"
  by (auto simp: rel_map)

lemma rel_dom: "reg_rel r a \<Longrightarrow> dom (fst a) = e_id ` set (m_objects r)"
  by (auto simp: dom_def rel_map)

lemma rel_unique:
  "reg_rel r a \<Longrightarrow> e \<in> set (m_objects r) \<Longrightarrow> e' \<in> set (m_objects r) \<Longrightarrow> e_id e = e_id e' \<Longrightarrow> e = e'"
  unfolding reg_rel_def by (auto simp: distinct_map inj_on_def)

text \<open>Multisets of entries, selected by a property that the table can see, as multisets of identifiers.\<close>

lemma objects_filter:
  assumes "reg_rel r a" "\<And>e. e \<in> set (m_objects r) \<Longrightarrow> Q (e_id e) = P e"
  shows "image_mset object_of (filter_mset P (mset (m_objects r))) = objects (fst a) {i \<in> dom (fst a). Q i}"
proof -
  have d: "distinct (m_objects r)" "inj_on e_id (set (m_objects r))"
    using assms(1) by (auto simp: reg_rel_def distinct_map)
  let ?A = "{e \<in> set (m_objects r). P e}"
  have "filter_mset P (mset (m_objects r)) = mset_set ?A"
    using d(1) by (simp add: mset_set_set [symmetric])
  then have "image_mset object_of (filter_mset P (mset (m_objects r))) =
      image_mset (\<lambda>e. fst (the (fst a (e_id e)))) (mset_set ?A)"
    using rel_inj [OF assms(1)] by (auto intro!: image_mset_cong)
  also have "\<dots> = image_mset (\<lambda>i. fst (the (fst a i))) (image_mset e_id (mset_set ?A))"
    by (simp add: multiset.map_comp comp_def)
  also have "image_mset e_id (mset_set ?A) = mset_set (e_id ` ?A)"
    by (rule image_mset_mset_set) (use d(2) in \<open>auto intro: inj_on_subset\<close>)
  also have "e_id ` ?A = {i \<in> dom (fst a). Q i}" using assms(2) by (auto simp: rel_dom [OF assms(1)])
  finally show ?thesis by (simp add: objects_def)
qed

lemma live_dead:
  assumes "reg_rel r a" "e \<in> set (m_objects r)"
  shows "e_id e \<in> live_ids w (fst a) \<longleftrightarrow> \<not> dead w e"
  using rel_inj [OF assms] by (auto simp: live_ids_def dead_def object_of_def dom_def)

lemma distinct_le1: "distinct xs \<longleftrightarrow> (\<forall>x. count (mset xs) x \<le> 1)"
proof
  assume "\<forall>x. count (mset xs) x \<le> 1"
  then have "count (mset xs) x = (if x \<in> set xs then 1 else 0)" for x
    by (cases "x \<in> set xs") (simp_all add: le_antisym Suc_leI count_greater_zero_iff count_eq_zero_iff)
  then show "distinct xs" by (simp add: distinct_count_atmost_1)
qed (simp add: distinct_count_atmost_1)

text \<open>Any step that keeps a selection of the entries.\<close>

lemma rel_select:
  assumes "reg_rel r a" "mset es = filter_mset P (mset (m_objects r))"
    and "\<And>e. e \<in> set (m_objects r) \<Longrightarrow> e_id e \<in> A \<longleftrightarrow> P e" "mset rel' = snd (snd a) + R"
  shows "reg_rel (r\<lparr> m_objects := es, released := rel' \<rparr>) (fst a |` A, fst (snd a), snd (snd a) + R)"
proof -
  have set: "set es = {e \<in> set (m_objects r). P e}" using arg_cong [OF assms(2), of set_mset] by auto
  have "mset (map e_id es) = image_mset e_id (filter_mset P (mset (m_objects r)))" using assms(2) by simp
  then have "mset (map e_id es) \<subseteq># mset (map e_id (m_objects r))"
    by (simp add: image_mset_subseteq_mono)
  then have d: "distinct (map e_id es)"
    using assms(1) unfolding reg_rel_def by (meson distinct_le1 le_trans mset_subset_eq_count)
  have m: "(fst a |` A) i = Some v \<longleftrightarrow> (\<exists>e\<in>set es. e_id e = i \<and> v = (object_of e, e_weak e))" for i v
    using assms(3) by (auto simp: rel_map [OF assms(1)] set restrict_map_def)
  show ?thesis using assms(1,4) d m unfolding reg_rel_def by (auto simp: set)
qed

section \<open>The registry keeps the table\<close>

lemma rel_new:
  assumes "reg_rel r a" "e_id e = Suc (m_objectId r)" "e_ptr e \<noteq> None"
  shows "reg_rel (r\<lparr> m_objectId := Suc (m_objectId r), m_objects := m_objects r @ [e] \<rparr>)
    ((fst a)(e_id e \<mapsto> (object_of e, e_weak e)), Suc (m_objectId r), snd (snd a))"
proof -
  have n: "e_id x \<noteq> e_id e" if "x \<in> set (m_objects r)" for x using that assms(1,2) by (force simp: reg_rel_def)
  have m: "((fst a)(e_id e \<mapsto> (object_of e, e_weak e))) i = Some v \<longleftrightarrow>
      (\<exists>x\<in>set (m_objects r @ [e]). e_id x = i \<and> v = (object_of x, e_weak x))" for i v
    using n by (auto simp: rel_map [OF assms(1)])
  show ?thesis using assms n m unfolding reg_rel_def by (auto simp: image_iff le_SucI)
qed

lemma rel_remove:
  assumes "reg_rel r a"
  shows "reg_rel (removeObject i r) ((fst a)(i := None), fst (snd a),
    snd (snd a) + (case fst a i of Some (ob, True) \<Rightarrow> {#ob#} | _ \<Rightarrow> {#}))"
proof (cases "find_index (\<lambda>e. e_id e = i) (m_objects r)")
  case None
  then have "\<forall>e\<in>set (m_objects r). e_id e \<noteq> i" by (simp add: find_index_None)
  then have "fst a i = None" using rel_map [OF assms, of i] by (metis option.exhaust)
  then have "((fst a)(i := None), fst (snd a), snd (snd a) + (case fst a i of Some (ob, True) \<Rightarrow> {#ob#} | _ \<Rightarrow> {#})) = a"
    by (simp add: fun_upd_idem)
  then show ?thesis using assms None by (simp add: removeObject_def)
next
  case (Some k)
  then have k: "k < length (m_objects r)" "e_id (m_objects r ! k) = i" by (auto simp: find_index_Some)
  let ?e = "m_objects r ! k"
  let ?es = "fst (fastRemoveObjectAt (m_objects r) k)"
  have e: "?e \<in> set (m_objects r)" "e_ptr ?e \<noteq> None" using k(1) assms by (auto simp: reg_rel_def)
  have d: "distinct (m_objects r)" using assms by (auto simp: reg_rel_def distinct_map)
  have "filter_mset (\<lambda>e. e_id e \<noteq> i) (mset (m_objects r)) = mset (m_objects r) - {#?e#}"
  proof -
    have "filter_mset (\<lambda>e. e_id e \<noteq> i) (mset (m_objects r)) = filter_mset (\<lambda>e. ?e \<noteq> e) (mset (m_objects r))"
      using rel_unique [OF assms] e(1) k(2) by (auto intro!: filter_mset_cong)
    also have "\<dots> = mset (remove1 ?e (m_objects r))"
      by (simp only: distinct_remove1_removeAll [OF d] removeAll_filter_not_eq mset_filter)
    finally show ?thesis using e(1) by simp
  qed
  then have es: "mset ?es = filter_mset (\<lambda>e. e_id e \<noteq> i) (mset (m_objects r))"
    using fastRemove_mset [OF k(1)] by (metis add_mset_remove_trivial)
  have fa: "fst a i = Some (object_of ?e, e_weak ?e)" using rel_inj [OF assms e(1)] k(2) by simp
  have rel: "mset (snd (fastRemoveObjectAt (m_objects r) k)) = (case fst a i of Some (ob, True) \<Rightarrow> {#ob#} | _ \<Rightarrow> {#})"
    using k(1) e(2) fa by (auto simp: fastRemove_eq entry_reset_def object_of_def)
  have "reg_rel (r\<lparr> m_objects := ?es, released := released r @ snd (fastRemoveObjectAt (m_objects r) k) \<rparr>)
    (fst a |` (- {i}), fst (snd a), snd (snd a) + (case fst a i of Some (ob, True) \<Rightarrow> {#ob#} | _ \<Rightarrow> {#}))"
    by (rule rel_select [OF assms es]) (use assms rel in \<open>auto simp: reg_rel_def\<close>)
  moreover have "fst a |` (- {i}) = (fst a)(i := None)" by (auto simp: restrict_map_def)
  ultimately show ?thesis using Some by (simp add: removeObject_def split_def Let_def)
qed

lemma dead_objects:
  assumes "reg_rel r a"
  shows "image_mset object_of (filter_mset (dead w) (mset (m_objects r))) =
    objects (fst a) (dom (fst a) - live_ids w (fst a))"
proof -
  have "dom (fst a) - live_ids w (fst a) = {i \<in> dom (fst a). i \<notin> live_ids w (fst a)}" by auto
  then show ?thesis using objects_filter [OF assms, of "\<lambda>i. i \<notin> live_ids w (fst a)" "dead w"] live_dead [OF assms]
    by simp
qed

lemma rel_live:
  assumes "reg_rel r a" "mset es = filter_mset (\<lambda>e. \<not> dead w e) (mset (m_objects r))"
    and "mset rel = image_mset object_of (filter_mset (dead w) (mset (m_objects r)))"
  shows "reg_rel (r\<lparr> m_objects := es, released := released r @ rel \<rparr>)
    (fst a |` live_ids w (fst a), fst (snd a), snd (snd a) + objects (fst a) (dom (fst a) - live_ids w (fst a)))"
  by (rule rel_select [OF assms(1,2)])
    (use assms live_dead [OF assms(1)] dead_objects [OF assms(1)] in \<open>auto simp: reg_rel_def\<close>)

lemma expired_dead: "e_ptr e \<noteq> None \<Longrightarrow> isExpired w e = dead w e"
  by (auto simp: isExpired_def dead_def)

lemma rel_expired:
  assumes "reg_rel r a"
  shows "reg_rel (removeExpiredEntries w r)
    (fst a |` live_ids w (fst a), fst (snd a), snd (snd a) + objects (fst a) (dom (fst a) - live_ids w (fst a)))"
proof -
  have ptr: "\<forall>e\<in>set (m_objects r). e_ptr e \<noteq> None" using assms by (simp add: reg_rel_def)
  have "concat (map (\<lambda>e. snd (entry_reset e)) (filter (isExpired w) es)) = map object_of (filter (dead w) es)"
    if "\<forall>e\<in>set es. e_ptr e \<noteq> None" for es
    using that by (induction es) (auto simp: expired_dead entry_reset_def dead_def object_of_def)
  moreover have "filter (\<lambda>e. \<not> isExpired w e) (m_objects r) = filter (\<lambda>e. \<not> dead w e) (m_objects r)"
    using ptr by (auto simp: expired_dead intro!: filter_cong)
  ultimately show ?thesis
    unfolding removeExpiredEntries_def using ptr by (intro rel_live [OF assms, THEN back_subst [of "\<lambda>r. reg_rel r _"]]) auto
qed

lemma visit_rel:
  assumes "reg_rel r a"
  shows "\<exists>r' seen took drp. visitObjects w r = (r', seen, took, drp) \<and>
    reg_rel r' (fst a |` live_ids w (fst a), fst (snd a), snd (snd a) + objects (fst a) (dom (fst a) - live_ids w (fst a))) \<and>
    (case seen of None \<Rightarrow> {#} | Some obs \<Rightarrow> mset obs) =
      objects (fst a) {i \<in> live_ids w (fst a). has_type w (fst (the (fst a i)))} \<and>
    (weak_counted w (m_objects r) \<longrightarrow> mset took = mset drp)"
proof (cases "m_objects r = []")
  case True
  then have "dom (fst a) = {}" using rel_dom [OF assms] by simp
  then have "fst a = Map.empty" "live_ids w (fst a) = {}" by (auto simp: live_ids_def)
  then show ?thesis using True assms
    by (cases a) (simp add: visitObjects_def objects_def)
next
  case False
  have ptr: "\<forall>e\<in>set (drop 0 (m_objects r)). e_ptr e \<noteq> None" using assms by (simp add: reg_rel_def)
  obtain es rel ins took drp where c: "collect w 0 (m_objects r) = (es, rel, ins, took, drp)"
    by (cases "collect w 0 (m_objects r)") auto
  note sp = collect_spec [OF c ptr, unfolded drop_0]
  have "reg_rel (r\<lparr> m_objects := es, released := released r @ rel \<rparr>)
    (fst a |` live_ids w (fst a), fst (snd a), snd (snd a) + objects (fst a) (dom (fst a) - live_ids w (fst a)))"
    by (rule rel_live [OF assms]) (use sp in auto)
  moreover have "mset ins = objects (fst a) {i \<in> live_ids w (fst a). has_type w (fst (the (fst a i)))}"
  proof -
    have "{i \<in> dom (fst a). i \<in> live_ids w (fst a) \<and> has_type w (fst (the (fst a i)))} =
        {i \<in> live_ids w (fst a). has_type w (fst (the (fst a i)))}" by (auto simp: live_ids_def)
    then show ?thesis
      using sp objects_filter [OF assms, of "\<lambda>i. i \<in> live_ids w (fst a) \<and> has_type w (fst (the (fst a i)))" "wanted w"]
        live_dead [OF assms] rel_inj [OF assms]
      by (simp add: wanted_def object_of_def)
  qed
  ultimately show ?thesis using False c sp by (auto simp: visitObjects_def)
qed

lemma auto_rel: "reg_rel r a \<Longrightarrow> isAutoRemovable i r = (case fst a i of Some (ob, wk) \<Rightarrow> wk | None \<Rightarrow> False)"
proof (cases "List.find (\<lambda>e. e_id e = i) (m_objects r)")
  case None
  assume rel: "reg_rel r a"
  have "fst a i \<noteq> Some v" for v using None by (auto simp: rel_map [OF rel] find_None_iff)
  then have "fst a i = None" by (cases "fst a i") auto
  then show ?thesis using None by (simp add: isAutoRemovable_def)
next
  case (Some e)
  assume rel: "reg_rel r a"
  have "e \<in> set (m_objects r)" "e_id e = i" using Some by (auto simp: find_Some_iff)
  then show ?thesis using rel_inj [OF rel] Some by (auto simp: isAutoRemovable_def)
qed

lemma reg_step:
  assumes "reg_rel r a"
  shows "same_step reg_rel (reg_exec x r) (reg_spec x a)"
proof -
  obtain m n R where a: "a = (m, n, R)" by (cases a)
  have n: "n = m_objectId r" using assms by (simp add: reg_rel_def a)
  show ?thesis
  proof (cases x)
    case (AddWeak ob)
    then show ?thesis using rel_new [OF assms, of "weak_entry (Suc n) ob"]
      by (auto simp: a n addWeak_def Let_def weak_entry_def object_of_def)
  next
    case (AddPlain ob)
    then show ?thesis using rel_new [OF assms, of "plain_entry (Suc n) ob"]
      by (auto simp: a n addPlain_def Let_def plain_entry_def object_of_def)
  next
    case (Remove i)
    then show ?thesis using rel_remove [OF assms, of i] by (auto simp: a)
  next
    case (AutoRemovable i)
    then show ?thesis using assms auto_rel [OF assms, of i] by (auto simp: a)
  next
    case (Visit w)
    obtain r' seen took drp where v: "visitObjects w r = (r', seen, took, drp)"
      "reg_rel r' (fst a |` live_ids w (fst a), fst (snd a), snd (snd a) + objects (fst a) (dom (fst a) - live_ids w (fst a)))"
      "(case seen of None \<Rightarrow> {#} | Some obs \<Rightarrow> mset obs) =
        objects (fst a) {i \<in> live_ids w (fst a). has_type w (fst (the (fst a i)))}"
      using visit_rel [OF assms, of w] by blast
    then show ?thesis using Visit by (auto simp: a)
  next
    case (RemoveExpired w)
    then show ?thesis using rel_expired [OF assms, of w] by (auto simp: a)
  qed
qed

interpretation object_table: simulation reg_exec reg_spec reg_rel
  by unfold_locales (rule reg_step)

lemma rel_empty: "reg_rel new_registry (Map.empty, 0, {#})"
  by (simp add: reg_rel_def new_registry_def)

text \<open>
  C13. The registry is a table of objects: under any calls every identifier is new, removal takes exactly its
  entry although it moves the last one, and a visit hands out each live object of the type once per
  registration, whatever the order of the entries, dropping exactly the expired weak ones.
\<close>

theorem registry_is_table:
  "observe (run reg_exec ops new_registry) = observe (run reg_spec ops (Map.empty, 0, {#}))"
  by (rule object_table.observe_same [OF rel_empty])

text \<open>
  A visit keeps the reference counts: every strong reference it takes on an object, to pass it to the
  callback or just to look at its type, is dropped before the visit returns, as long as the weakly
  registered objects are reference counted; and an entry's weak reference is given back exactly when the
  entry is dropped.
\<close>

theorem visit_balances_references:
  assumes "run reg_exec ops new_registry = Some (r, res)" "visitObjects w r = (r', seen, took, drp)"
    and "weak_counted w (m_objects r)"
  shows "mset took = mset drp \<and>
    mset (released r') = mset (released r) + image_mset object_of (filter_mset (dead w) (mset (m_objects r)))"
proof -
  obtain a where rel: "reg_rel r a" using object_table.run_rel [OF rel_empty assms(1)] by blast
  obtain r2 seen2 took2 drp2 where v: "visitObjects w r = (r2, seen2, took2, drp2)"
    "reg_rel r2 (fst a |` live_ids w (fst a), fst (snd a), snd (snd a) + objects (fst a) (dom (fst a) - live_ids w (fst a)))"
    "weak_counted w (m_objects r) \<longrightarrow> mset took2 = mset drp2"
    using visit_rel [OF rel, of w] by blast
  then show ?thesis using assms(2,3) rel dead_objects [OF rel, of w] by (auto simp: reg_rel_def)
qed

definition demo_env :: env where
  "demo_env = \<lparr> alive = (\<lambda>ob. ob \<noteq> 5), counted_obj = (\<lambda>ob. True), has_type = (\<lambda>ob. ob \<noteq> 7) \<rparr>"

definition demo_registry :: registry where
  "demo_registry =
     \<lparr> m_objects = [weak_entry 1 5, weak_entry 2 6, plain_entry 3 7], m_objectId = 3, released = [] \<rparr>"

lemma demo_registry_run:
  "run reg_exec [AddWeak 5, AddWeak 6, AddPlain 7] new_registry =
    Some (demo_registry, [Identifier 1, Identifier 2, Identifier 3])"
  by (simp add: addWeak_def addPlain_def Let_def new_registry_def demo_registry_def eval_nat_numeral)

lemma visit_balances_references_witness:
  "\<exists>r' seen took drp. visitObjects demo_env demo_registry = (r', seen, took, drp) \<and>
    mset took = mset drp \<and> mset (released r') = {#5#}"
proof -
  obtain r' seen took drp where v: "visitObjects demo_env demo_registry = (r', seen, took, drp)"
    by (cases "visitObjects demo_env demo_registry") auto
  have w: "weak_counted demo_env (m_objects demo_registry)" by (simp add: weak_counted_def demo_env_def)
  have d: "image_mset object_of (filter_mset (dead demo_env) (mset (m_objects demo_registry))) = {#5#}"
    by (simp add: demo_registry_def weak_entry_def plain_entry_def dead_def demo_env_def object_of_def)
  show ?thesis using visit_balances_references [OF demo_registry_run v w] v d by (simp add: demo_registry_def)
qed

section \<open>Registration handles\<close>

text \<open>
  \<open>RuntimeObjectRegistration\<close>: a handle holds the identifier of its entry, 0 when it holds none; handle
  objects that are not alive count as 0.  There is one registry while handles exist.  \<open>plain\<close> records which
  object each identifier was given to by a plain registration.
\<close>

record registrations =
  reg :: registry
  handles :: "nat list"
  plain :: "nat \<rightharpoonup> nat"

definition register_weak :: "nat \<Rightarrow> nat \<Rightarrow> registrations \<Rightarrow> registrations" where
  "register_weak h ob s =
     (let (r, i) = addWeak ob (reg s) in s\<lparr> reg := r, handles := (handles s)[h := i] \<rparr>)"

definition register_plain :: "nat \<Rightarrow> nat \<Rightarrow> registrations \<Rightarrow> registrations" where
  "register_plain h ob s =
     (let (r, i) = addPlain ob (reg s)
      in s\<lparr> reg := r, handles := (handles s)[h := i], plain := (plain s)(i \<mapsto> ob) \<rparr>)"

definition handle_reset :: "nat \<Rightarrow> registrations \<Rightarrow> registrations" where
  "handle_reset h s =
     (if handles s ! h \<noteq> 0
      then s\<lparr> handles := (handles s)[h := 0], reg := removeObject (handles s ! h) (reg s) \<rparr> else s)"

definition handle_move :: "nat \<Rightarrow> nat \<Rightarrow> registrations \<Rightarrow> registrations" where
  "handle_move dst src s = s\<lparr> handles := (handles s)[dst := handles s ! src, src := 0] \<rparr>"

definition handle_assign :: "nat \<Rightarrow> nat \<Rightarrow> registrations \<Rightarrow> registrations" where
  "handle_assign dst src s =
     (let s' = handle_reset dst s
      in if dst = src then s'\<lparr> handles := (handles s')[dst := handles s' ! src] \<rparr> else handle_move dst src s')"

definition setAutoRemove :: "nat \<Rightarrow> registrations \<Rightarrow> registrations" where
  "setAutoRemove h s =
     (if handles s ! h = 0 then s
      else if isAutoRemovable (handles s ! h) (reg s) then s\<lparr> handles := (handles s)[h := 0] \<rparr> else s)"

datatype handle_op =
    RegisterWeak nat nat | RegisterPlain nat nat | MoveHandle nat nat | AssignHandle nat nat
  | ResetHandle nat | SetAutoRemove nat | VisitAll env

text \<open>A handle is constructed where none is alive; all handles named exist.\<close>

fun handle_exec :: "handle_op \<Rightarrow> registrations \<Rightarrow> (registrations \<times> nat list option) option" where
  "handle_exec (RegisterWeak h ob) s =
     (if h < length (handles s) \<and> handles s ! h = 0 then Some (register_weak h ob s, None) else None)"
| "handle_exec (RegisterPlain h ob) s =
     (if h < length (handles s) \<and> handles s ! h = 0 then Some (register_plain h ob s, None) else None)"
| "handle_exec (MoveHandle dst src) s =
     (if dst < length (handles s) \<and> src < length (handles s) \<and> handles s ! dst = 0 \<and> dst \<noteq> src
      then Some (handle_move dst src s, None) else None)"
| "handle_exec (AssignHandle dst src) s =
     (if dst < length (handles s) \<and> src < length (handles s) then Some (handle_assign dst src s, None) else None)"
| "handle_exec (ResetHandle h) s =
     (if h < length (handles s) then Some (handle_reset h s, None) else None)"
| "handle_exec (SetAutoRemove h) s =
     (if h < length (handles s) then Some (setAutoRemove h s, None) else None)"
| "handle_exec (VisitAll w) s =
     (let (r, seen, took, drp) = visitObjects w (reg s) in Some (s\<lparr> reg := r \<rparr>, seen))"

definition new_registrations :: "nat \<Rightarrow> registrations" where
  "new_registrations n = \<lparr> reg = new_registry, handles = replicate n 0, plain = Map.empty \<rparr>"

definition handles_inv :: "registrations \<Rightarrow> bool" where
  "handles_inv s \<longleftrightarrow>
     (\<exists>a. reg_rel (reg s) a \<and>
       (\<forall>h<length (handles s). handles s ! h \<le> m_objectId (reg s)) \<and>
       (\<forall>h<length (handles s). \<forall>h'<length (handles s).
         handles s ! h = handles s ! h' \<and> handles s ! h \<noteq> 0 \<longrightarrow> h = h') \<and>
       (\<forall>i ob. fst a i = Some (ob, False) \<longleftrightarrow> i \<in> set (handles s) \<and> i \<noteq> 0 \<and> plain s i = Some ob) \<and>
       (\<forall>i>m_objectId (reg s). plain s i = None))"

lemma handlesI:
  assumes "reg_rel (reg s) a" "\<forall>h<length (handles s). handles s ! h \<le> m_objectId (reg s)"
    "\<forall>h<length (handles s). \<forall>h'<length (handles s).
      handles s ! h = handles s ! h' \<and> handles s ! h \<noteq> 0 \<longrightarrow> h = h'"
    "\<And>i ob. fst a i = Some (ob, False) \<longleftrightarrow> i \<in> set (handles s) \<and> i \<noteq> 0 \<and> plain s i = Some ob"
    "\<And>i. i > m_objectId (reg s) \<Longrightarrow> plain s i = None"
  shows "handles_inv s"
  using assms unfolding handles_inv_def by blast

lemma set_update_iff:
  assumes "h < length xs" "\<forall>k<length xs. \<forall>k'<length xs. xs ! k = xs ! k' \<and> xs ! k \<noteq> 0 \<longrightarrow> k = k'"
  shows "(i :: nat) \<noteq> 0 \<Longrightarrow> i \<in> set (xs[h := y]) \<longleftrightarrow> i = y \<or> i \<in> set xs \<and> i \<noteq> xs ! h"
  using assms by (auto simp: in_set_conv_nth nth_list_update split: if_splits)

lemma distinct_update:
  assumes "\<forall>k<length xs. \<forall>k'<length xs. xs ! k = xs ! k' \<and> xs ! k \<noteq> (0::nat) \<longrightarrow> k = k'"
    and "y = 0 \<or> y \<notin> set xs" "h < length xs"
  shows "\<forall>k<length (xs[h := y]). \<forall>k'<length (xs[h := y]).
    xs[h := y] ! k = xs[h := y] ! k' \<and> xs[h := y] ! k \<noteq> 0 \<longrightarrow> k = k'"
  using assms by (auto simp: nth_list_update in_set_conv_nth split: if_splits)

lemma inv_register:
  assumes "handles_inv s" "h < length (handles s)" "handles s ! h = 0"
  shows "handles_inv (register_weak h ob s)" "handles_inv (register_plain h ob s)"
proof -
  obtain a where a: "reg_rel (reg s) a" and le: "\<forall>h<length (handles s). handles s ! h \<le> m_objectId (reg s)"
    and un: "\<forall>h<length (handles s). \<forall>h'<length (handles s).
      handles s ! h = handles s ! h' \<and> handles s ! h \<noteq> 0 \<longrightarrow> h = h'"
    and pl: "\<And>i ob. fst a i = Some (ob, False) \<longleftrightarrow> i \<in> set (handles s) \<and> i \<noteq> 0 \<and> plain s i = Some ob"
    and fr: "\<And>i. i > m_objectId (reg s) \<Longrightarrow> plain s i = None"
    using assms(1) unfolding handles_inv_def by blast
  let ?n = "Suc (m_objectId (reg s))"
  have new: "?n \<notin> set (handles s)" using le by (auto simp: in_set_conv_nth Suc_le_eq)
  have le': "\<forall>k<length ((handles s)[h := ?n]). (handles s)[h := ?n] ! k \<le> ?n"
    using le assms(2) by (auto simp: nth_list_update le_SucI)
  note un' = distinct_update [OF un _ assms(2), of ?n]
  note st = set_update_iff [OF assms(2) un]
  show "handles_inv (register_weak h ob s)"
    by (rule handlesI [of _ "((fst a)(?n \<mapsto> (ob, True)), ?n, snd (snd a))"])
      (use rel_new [OF a, of "weak_entry ?n ob"] le' un' new pl fr assms(3) in
        \<open>auto simp: register_weak_def addWeak_def Let_def weak_entry_def object_of_def st simp del: not_None_eq\<close>)
  show "handles_inv (register_plain h ob s)"
    by (rule handlesI [of _ "((fst a)(?n \<mapsto> (ob, False)), ?n, snd (snd a))"])
      (use rel_new [OF a, of "plain_entry ?n ob"] le' un' new pl fr assms(3) in
        \<open>auto simp: register_plain_def addPlain_def Let_def plain_entry_def object_of_def st simp del: not_None_eq\<close>)
qed

lemma removeObject_id [simp]: "m_objectId (removeObject i r) = m_objectId r"
  by (simp add: removeObject_def split_def Let_def split: option.splits)

lemma inv_reset:
  assumes "handles_inv s" "h < length (handles s)"
  shows "handles_inv (handle_reset h s)"
proof (cases "handles s ! h = 0")
  case False
  obtain a where a: "reg_rel (reg s) a" and le: "\<forall>h<length (handles s). handles s ! h \<le> m_objectId (reg s)"
    and un: "\<forall>h<length (handles s). \<forall>h'<length (handles s).
      handles s ! h = handles s ! h' \<and> handles s ! h \<noteq> 0 \<longrightarrow> h = h'"
    and pl: "\<And>i ob. fst a i = Some (ob, False) \<longleftrightarrow> i \<in> set (handles s) \<and> i \<noteq> 0 \<and> plain s i = Some ob"
    and fr: "\<And>i. i > m_objectId (reg s) \<Longrightarrow> plain s i = None"
    using assms(1) unfolding handles_inv_def by blast
  have s': "handle_reset h s = s\<lparr> handles := (handles s)[h := 0], reg := removeObject (handles s ! h) (reg s) \<rparr>"
    using False by (simp add: handle_reset_def)
  note st = set_update_iff [OF assms(2) un, of _ 0]
  show ?thesis
  proof (rule handlesI)
    show "reg_rel (reg (handle_reset h s)) ((fst a)(handles s ! h := None), fst (snd a),
        snd (snd a) + (case fst a (handles s ! h) of Some (ob, True) \<Rightarrow> {#ob#} | _ \<Rightarrow> {#}))"
      unfolding s' using rel_remove [OF a, of "handles s ! h"] by simp
    show "\<forall>k<length (handles (handle_reset h s)). handles (handle_reset h s) ! k \<le> m_objectId (reg (handle_reset h s))"
      unfolding s' using le assms(2) by (simp add: nth_list_update)
    show "\<forall>k<length (handles (handle_reset h s)). \<forall>k'<length (handles (handle_reset h s)).
        handles (handle_reset h s) ! k = handles (handle_reset h s) ! k' \<and> handles (handle_reset h s) ! k \<noteq> 0 \<longrightarrow> k = k'"
      unfolding s' using distinct_update [OF un _ assms(2), of 0] by simp
    show "fst ((fst a)(handles s ! h := None), fst (snd a),
        snd (snd a) + (case fst a (handles s ! h) of Some (ob, True) \<Rightarrow> {#ob#} | _ \<Rightarrow> {#})) i = Some (ob, False) \<longleftrightarrow>
        i \<in> set (handles (handle_reset h s)) \<and> i \<noteq> 0 \<and> plain (handle_reset h s) i = Some ob" for i ob
      unfolding s' using st [of i] pl [of i ob] by (cases "i = 0") auto
    show "plain (handle_reset h s) i = None" if "i > m_objectId (reg (handle_reset h s))" for i
      using that fr [of i] unfolding s' by simp
  qed
qed (use assms in \<open>simp add: handle_reset_def\<close>)

lemma inv_move:
  assumes "handles_inv s" "dst < length (handles s)" "src < length (handles s)" "handles s ! dst = 0" "dst \<noteq> src"
  shows "handles_inv (handle_move dst src s)"
proof -
  obtain a where a: "reg_rel (reg s) a" and le: "\<forall>h<length (handles s). handles s ! h \<le> m_objectId (reg s)"
    and un: "\<forall>h<length (handles s). \<forall>h'<length (handles s).
      handles s ! h = handles s ! h' \<and> handles s ! h \<noteq> 0 \<longrightarrow> h = h'"
    and pl: "\<And>i ob. fst a i = Some (ob, False) \<longleftrightarrow> i \<in> set (handles s) \<and> i \<noteq> 0 \<and> plain s i = Some ob"
    and fr: "\<And>i. i > m_objectId (reg s) \<Longrightarrow> plain s i = None"
    using assms(1) unfolding handles_inv_def by blast
  let ?hs = "(handles s)[dst := handles s ! src, src := 0]"
  have nth: "?hs ! k = (if k = src then 0 else if k = dst then handles s ! src else handles s ! k)"
    if "k < length (handles s)" for k using that assms(2,3) by (simp add: nth_list_update)
  have in': "i \<in> set ?hs \<longleftrightarrow> i \<in> set (handles s)" if "i \<noteq> 0" for i
  proof
    assume "i \<in> set ?hs"
    then obtain k where "k < length (handles s)" "?hs ! k = i" by (auto simp: in_set_conv_nth)
    then show "i \<in> set (handles s)" using that nth [of k] assms(3) by (auto split: if_splits)
  next
    assume "i \<in> set (handles s)"
    then obtain k where k: "k < length (handles s)" "handles s ! k = i" by (auto simp: in_set_conv_nth)
    show "i \<in> set ?hs"
    proof (cases "k = src")
      case True
      then have "?hs ! dst = i" using k nth [OF assms(2)] assms(5) by simp
      then show ?thesis using assms(2) by (metis length_list_update nth_mem)
    next
      case False
      then have "?hs ! k = i" using k nth [of k] assms(4) that by auto
      then show ?thesis using k(1) by (metis length_list_update nth_mem)
    qed
  qed
  show ?thesis
  proof (rule handlesI [of _ a])
    show "\<forall>k<length (handles (handle_move dst src s)). \<forall>k'<length (handles (handle_move dst src s)).
        handles (handle_move dst src s) ! k = handles (handle_move dst src s) ! k' \<and>
        handles (handle_move dst src s) ! k \<noteq> 0 \<longrightarrow> k = k'"
    proof -
      have "x = y" if "x < length (handles s)" "y < length (handles s)" "handles s ! x = handles s ! y" "handles s ! x \<noteq> 0"
        for x y using un that by blast
      note un' = this [of _ src] this [of src] this
      show ?thesis using assms(2-5) nth un' by (auto simp: handle_move_def split: if_splits)
    qed
  qed (use a le pl fr nth in' assms(3) in \<open>auto simp: handle_move_def simp del: not_None_eq\<close>)
qed

lemma inv_auto:
  assumes "handles_inv s" "h < length (handles s)"
  shows "handles_inv (setAutoRemove h s)"
proof (cases "handles s ! h \<noteq> 0 \<and> isAutoRemovable (handles s ! h) (reg s)")
  case True
  obtain a where a: "reg_rel (reg s) a" and le: "\<forall>h<length (handles s). handles s ! h \<le> m_objectId (reg s)"
    and un: "\<forall>h<length (handles s). \<forall>h'<length (handles s).
      handles s ! h = handles s ! h' \<and> handles s ! h \<noteq> 0 \<longrightarrow> h = h'"
    and pl: "\<And>i ob. fst a i = Some (ob, False) \<longleftrightarrow> i \<in> set (handles s) \<and> i \<noteq> 0 \<and> plain s i = Some ob"
    and fr: "\<And>i. i > m_objectId (reg s) \<Longrightarrow> plain s i = None"
    using assms(1) unfolding handles_inv_def by blast
  have s': "setAutoRemove h s = s\<lparr> handles := (handles s)[h := 0] \<rparr>" using True by (simp add: setAutoRemove_def)
  have weak: "fst a (handles s ! h) \<noteq> Some (ob, False)" for ob
    using True auto_rel [OF a, of "handles s ! h"] by (auto split: option.splits)
  show ?thesis
  proof (rule handlesI [of _ a])
    show "fst a i = Some (ob, False) \<longleftrightarrow>
        i \<in> set (handles (setAutoRemove h s)) \<and> i \<noteq> 0 \<and> plain (setAutoRemove h s) i = Some ob" for i ob
      unfolding s' using set_update_iff [OF assms(2) un, of i 0] pl [of i ob] weak [of ob] by (cases "i = 0") auto
    show "\<forall>k<length (handles (setAutoRemove h s)). \<forall>k'<length (handles (setAutoRemove h s)).
        handles (setAutoRemove h s) ! k = handles (setAutoRemove h s) ! k' \<and>
        handles (setAutoRemove h s) ! k \<noteq> 0 \<longrightarrow> k = k'"
      unfolding s' using distinct_update [OF un _ assms(2), of 0] by simp
  qed (use a le fr assms(2) in \<open>auto simp: s' nth_list_update\<close>)
qed (use assms in \<open>auto simp: setAutoRemove_def\<close>)

lemma visit_id: "visitObjects w r = (r', seen, took, drp) \<Longrightarrow> m_objectId r' = m_objectId r"
  by (auto simp: visitObjects_def split_def Let_def split: if_splits)

lemma live_plain: "(m |` live_ids w m) i = Some (ob, False) \<longleftrightarrow> m i = Some (ob, False)"
  by (auto simp: restrict_map_def live_ids_def)

lemma inv_visit:
  assumes "handles_inv s" "visitObjects w (reg s) = (r, seen, took, drp)"
  shows "handles_inv (s\<lparr> reg := r \<rparr>)"
proof -
  obtain a where a: "reg_rel (reg s) a" and rest: "\<forall>h<length (handles s). handles s ! h \<le> m_objectId (reg s)"
    "\<forall>h<length (handles s). \<forall>h'<length (handles s). handles s ! h = handles s ! h' \<and> handles s ! h \<noteq> 0 \<longrightarrow> h = h'"
    "\<And>i ob. fst a i = Some (ob, False) \<longleftrightarrow> i \<in> set (handles s) \<and> i \<noteq> 0 \<and> plain s i = Some ob"
    "\<And>i. i > m_objectId (reg s) \<Longrightarrow> plain s i = None"
    using assms(1) unfolding handles_inv_def by blast
  have rel: "reg_rel r (fst a |` live_ids w (fst a), fst (snd a), snd (snd a) + objects (fst a) (dom (fst a) - live_ids w (fst a)))"
    using visit_rel [OF a, of w] assms(2) by auto
  show ?thesis
    by (rule handlesI [OF _ _ _ _ _])
      (use rel rest visit_id [OF assms(2)] in \<open>auto simp: live_plain simp del: not_None_eq\<close>)
qed

lemma inv_exec:
  assumes "handles_inv s" "handle_exec x s = Some (s', r)"
  shows "handles_inv s'"
proof (cases x)
  case (AssignHandle dst src)
  let ?s = "handle_reset dst s"
  have len: "dst < length (handles s)" "src < length (handles s)" using assms(2) AssignHandle by (auto split: if_splits)
  have inv: "handles_inv ?s" by (rule inv_reset [OF assms(1) len(1)])
  have hs: "handles ?s = (handles s)[dst := 0]" using len by (auto simp: handle_reset_def) (metis list_update_id)
  show ?thesis
  proof (cases "dst = src")
    case True
    have "(handles ?s)[dst := handles ?s ! src] = handles ?s" using True by simp
    then have "handle_assign dst src s = ?s" using True by (simp add: handle_assign_def Let_def)
    then show ?thesis using assms(2) AssignHandle inv by (auto split: if_splits)
  next
    case False
    then have "handle_assign dst src s = handle_move dst src ?s" by (simp add: handle_assign_def Let_def)
    then show ?thesis using assms(2) AssignHandle inv_move [OF inv, of dst src] len False hs
      by (auto split: if_splits)
  qed
qed (use assms inv_register inv_move inv_reset inv_auto inv_visit in \<open>auto split: if_splits prod.splits\<close>)

lemma inv_run: "handles_inv s \<Longrightarrow> run handle_exec ops s = Some (s', rs) \<Longrightarrow> handles_inv s'"
proof (induction ops arbitrary: s rs)
  case (Cons x xs)
  then obtain s1 r rs' where s1: "handle_exec x s = Some (s1, r)" "run handle_exec xs s1 = Some (s', rs')"
    by (auto split: option.splits)
  show ?case using Cons.IH [OF inv_exec [OF Cons.prems(1) s1(1)] s1(2)] .
qed simp

lemma inv_new: "handles_inv (new_registrations n)"
  by (rule handlesI [of _ "(Map.empty, 0, {#})"]) (auto simp: new_registrations_def rel_empty)

text \<open>
  A plainly registered object is in the registry exactly as long as the handle of its registration
  lives, through any moves of handles, visits and removals of others; so a handle that goes with its object
  leaves no dangling entry behind.
\<close>

theorem registered_while_handle_lives:
  assumes "run handle_exec ops (new_registrations n) = Some (s, rs)"
  shows "(\<exists>e\<in>set (m_objects (reg s)). e_id e = i \<and> e_ptr e = Some ob \<and> \<not> e_weak e) \<longleftrightarrow>
      i \<in> set (handles s) \<and> i \<noteq> 0 \<and> plain s i = Some ob"
proof -
  obtain a where a: "reg_rel (reg s) a"
    and pl: "\<And>i ob. fst a i = Some (ob, False) \<longleftrightarrow> i \<in> set (handles s) \<and> i \<noteq> 0 \<and> plain s i = Some ob"
    using inv_run [OF inv_new assms] unfolding handles_inv_def by blast
  have "(\<exists>e\<in>set (m_objects (reg s)). e_id e = i \<and> e_ptr e = Some ob \<and> \<not> e_weak e) \<longleftrightarrow> fst a i = Some (ob, False)"
  proof -
    have "e_ptr e = Some (object_of e)" if "e \<in> set (m_objects (reg s))" for e
      using a that by (auto simp: reg_rel_def object_of_def)
    then show ?thesis by (auto simp: rel_map [OF a])
  qed
  then show ?thesis using pl by simp
qed

lemma registered_while_handle_lives_witness:
  "\<exists>s rs. run handle_exec [RegisterPlain 0 5, RegisterWeak 1 6, MoveHandle 2 0, SetAutoRemove 1, ResetHandle 2]
      (new_registrations 3) = Some (s, rs) \<and> \<not> (\<exists>e\<in>set (m_objects (reg s)). e_id e = 1 \<and> e_ptr e = Some 5 \<and> \<not> e_weak e)"
proof -
  obtain s rs where r: "run handle_exec [RegisterPlain 0 5, RegisterWeak 1 6, MoveHandle 2 0, SetAutoRemove 1, ResetHandle 2]
      (new_registrations 3) = Some (s, rs)" "handles s = [0, 0, 0]"
    by (simp add: new_registrations_def register_plain_def register_weak_def handle_move_def handle_reset_def
        setAutoRemove_def addPlain_def addWeak_def Let_def numeral_3_eq_3 isAutoRemovable_def plain_entry_def
        weak_entry_def new_registry_def)
  show ?thesis using r(1) registered_while_handle_lives [OF r(1), of 1 5] r(2) by auto
qed

end
