(* ===== verification/HostMemory.thy ===== *)
theory HostMemory
  imports MemBase
begin

text \<open>
  Page memory: the regions of \<open>src/memory/host_memory.cpp\<close> and the reserved address range of
  \<open>src/platform/windows/memory/host_virtual_memory.cpp\<close>.  Addresses are natural numbers, \<open>0\<close> is the null
  pointer.  The locales state what the allocators above rely on; the virtual memory is their model.
\<close>

section \<open>Regions\<close>

record mem_region =
  m_basePtr :: addr
  m_size :: size_t

definition null_region :: mem_region where
  "null_region = \<lparr>m_basePtr = 0, m_size = 0\<rparr>"

definition make_region :: "addr \<Rightarrow> size_t \<Rightarrow> mem_region option" where
  "make_region p n = do {
     require (p = 0 \<or> 0 < n);
     Some \<lparr>m_basePtr = p, m_size = n\<rparr> }"

text \<open>\<open>operator bool\<close>, the ordering with its assertion, and equality.\<close>

definition region_given :: "mem_region \<Rightarrow> bool" where
  "region_given r \<longleftrightarrow> m_basePtr r \<noteq> 0"

datatype ordering = Less | Equal | Greater

definition region_compare :: "mem_region \<Rightarrow> mem_region \<Rightarrow> ordering option" where
  "region_compare l r = do {
     require (m_basePtr l \<noteq> m_basePtr r \<or> m_size l = m_size r);
     Some (if m_basePtr l < m_basePtr r then Less else if m_basePtr l = m_basePtr r then Equal else Greater) }"

definition region_equal :: "mem_region \<Rightarrow> mem_region \<Rightarrow> bool option" where
  "region_equal l r = do {
     require (m_basePtr l \<noteq> m_basePtr r \<or> m_size l = m_size r);
     Some (m_basePtr l = m_basePtr r) }"

definition isAdjacent :: "mem_region \<Rightarrow> mem_region \<Rightarrow> bool option" where
  "isAdjacent l r =
     (if \<not> region_given l \<or> \<not> region_given r then Some False
      else do {
        res \<leftarrow> region_compare l r;
        Some (case res of
                Greater \<Rightarrow> m_basePtr r + m_size r = m_basePtr l
              | Less \<Rightarrow> m_basePtr l + m_size l = m_basePtr r
              | Equal \<Rightarrow> False) })"

text \<open>Move construction and assignment leave the null region behind; the pair is the target and the source.\<close>

definition region_move :: "mem_region \<Rightarrow> mem_region \<times> mem_region" where
  "region_move other = (other, other\<lparr>m_basePtr := 0, m_size := 0\<rparr>)"

text \<open>\<open>operator+=\<close>: the extended region and what is left of the other one.\<close>

definition region_append :: "mem_region \<Rightarrow> mem_region \<Rightarrow> (mem_region \<times> mem_region) option" where
  "region_append l r = do {
     require (region_given r);
     adj \<leftarrow> isAdjacent l r;
     require adj;
     require (m_basePtr l < m_basePtr r);
     Some (l\<lparr>m_size := m_size l + m_size r\<rparr>, r\<lparr>m_size := 0, m_basePtr := 0\<rparr>) }"

lemma region_append_next:
  assumes "m_basePtr l \<noteq> 0" "0 < m_size l" "m_basePtr r = m_basePtr l + m_size l"
  shows "isAdjacent l r = Some True"
    and "region_append l r = Some (l\<lparr>m_size := m_size l + m_size r\<rparr>, r\<lparr>m_size := 0, m_basePtr := 0\<rparr>)"
  using assms by (auto simp: isAdjacent_def region_append_def region_given_def region_compare_def)

section \<open>Virtual memory\<close>

definition PageSize :: nat where "PageSize = 4 * 1024"
definition HostGranularity :: nat where "HostGranularity = 64 * 1024"

text \<open>
  \<open>WindowsHostVirtualMemory\<close>: an address range of \<open>vm_size\<close> bytes from \<open>vm_base\<close>, reserved by the operating
  system, of which a prefix is committed; \<open>vm_offset\<close> is the start of what is not handed out yet.
\<close>

record vm =
  vm_size :: size_t
  vm_commited :: size_t
  vm_offset :: size_t
  vm_base :: addr

text \<open>The constructor, with the address the operating system reserves.\<close>

definition vm_create :: "addr \<Rightarrow> size_t \<Rightarrow> vm option" where
  "vm_create base n = do {
     require (base \<noteq> 0);
     Some \<lparr>vm_size = aligned_nat n HostGranularity, vm_commited = 0, vm_offset = 0, vm_base = base\<rparr> }"

text \<open>
  \<open>allocPages\<close>.  The exchange loop on the offset is one step: the offset only grows, so the exchange succeeds
  exactly when no other thread moved it since it was read.
\<close>

definition vm_allocPages :: "size_t \<Rightarrow> vm \<Rightarrow> (mem_region \<times> vm) option" where
  "vm_allocPages n m =
     (let len = aligned_nat n PageSize;
          allocOffset = vm_offset m;
          m = m\<lparr>vm_offset := allocOffset + len\<rparr>;
          requiredCommitedSize = allocOffset + len;
          currentCommitedSize = vm_commited m
      in if currentCommitedSize < requiredCommitedSize
         then let commitSize = requiredCommitedSize - currentCommitedSize;
                  newCommitedSize = currentCommitedSize + commitSize
              in do {
                require (commitSize mod PageSize = 0);
                if newCommitedSize > vm_size m then Some (null_region, m)
                else do {
                  r \<leftarrow> make_region (vm_base m + allocOffset) len;
                  Some (r, m\<lparr>vm_commited := newCommitedSize\<rparr>) } }
         else do {
           r \<leftarrow> make_region (vm_base m + allocOffset) len;
           Some (r, m) })"

section \<open>The contract of page memory\<close>

text \<open>
  What \<open>IHostMemory\<close> promises its clients: a request is answered by fresh, page aligned addresses and their
  number, or by the null region when fewer bytes are left.  A request that cannot be met takes its bytes all
  the same, so that what is left afterwards can be less than what would still fit.
\<close>

definition pages :: "size_t \<Rightarrow> size_t" where
  "pages n = round_up n PageSize"

definition request_ok :: "size_t \<Rightarrow> bool" where
  "request_ok n \<longleftrightarrow> 0 < n \<and> n + PageSize \<le> 2 ^ 64"

locale page_memory =
  fixes allocPages :: "size_t \<Rightarrow> 'm \<Rightarrow> (mem_region \<times> 'm) option"
    and unused :: "'m \<Rightarrow> addr set"
    and bytes_left :: "'m \<Rightarrow> size_t"
    and valid :: "'m \<Rightarrow> bool"
  assumes enough: "valid m \<Longrightarrow> request_ok n \<Longrightarrow> pages n \<le> bytes_left m \<Longrightarrow>
      \<exists>r m'. allocPages n m = Some (r, m') \<and> valid m' \<and> bytes_left m' = bytes_left m - pages n \<and>
        m_basePtr r \<noteq> 0 \<and> PageSize dvd m_basePtr r \<and> m_size r = pages n \<and>
        {m_basePtr r ..< m_basePtr r + m_size r} \<subseteq> unused m \<and>
        unused m' \<subseteq> unused m - {m_basePtr r ..< m_basePtr r + m_size r}"
    and exhausted: "valid m \<Longrightarrow> request_ok n \<Longrightarrow> bytes_left m < pages n \<Longrightarrow>
      \<exists>m'. allocPages n m = Some (null_region, m') \<and> valid m' \<and> bytes_left m' = 0 \<and> unused m' \<subseteq> unused m"

text \<open>Memory that hands out one address range from its beginning: every region starts where the last one ended.\<close>

locale consecutive_memory = page_memory +
  fixes top :: "'a \<Rightarrow> addr"
  assumes consecutive: "valid m \<Longrightarrow> request_ok n \<Longrightarrow> pages n \<le> bytes_left m \<Longrightarrow>
      allocPages n m = Some (r, m') \<Longrightarrow> m_basePtr r = top m \<and> top m' = top m + pages n"

definition vm_valid :: "vm \<Rightarrow> bool" where
  "vm_valid m \<longleftrightarrow> vm_base m \<noteq> 0 \<and> PageSize dvd vm_base m \<and> PageSize dvd vm_offset m \<and>
     PageSize dvd vm_commited m \<and> vm_commited m \<le> vm_offset m \<and>
     (vm_offset m \<le> vm_size m \<longrightarrow> vm_commited m = vm_offset m)"

definition vm_top :: "vm \<Rightarrow> addr" where
  "vm_top m = vm_base m + vm_offset m"

definition vm_unused :: "vm \<Rightarrow> addr set" where
  "vm_unused m = {vm_top m ..}"

definition vm_left :: "vm \<Rightarrow> size_t" where
  "vm_left m = vm_size m - vm_offset m"

lemma PageSize_power: "PageSize = 2 ^ 12"
  by (simp add: PageSize_def)

lemma pages_aligned: "request_ok n \<Longrightarrow> aligned_nat n PageSize = pages n"
  unfolding pages_def PageSize_power request_ok_def by (rule aligned_nat_round_up) simp

lemma pages_bounds: "n \<le> pages n" "pages n < n + PageSize" "PageSize dvd pages n"
  unfolding pages_def by (rule round_up_bounds; simp add: PageSize_def)+

lemma vm_allocPages_fits:
  assumes "vm_valid m" "request_ok n" "pages n \<le> vm_left m"
  shows "vm_allocPages n m =
    Some (\<lparr>m_basePtr = vm_top m, m_size = pages n\<rparr>,
      m\<lparr>vm_offset := vm_offset m + pages n, vm_commited := vm_offset m + pages n\<rparr>)"
proof -
  have pos: "0 < pages n" using assms(2) pages_bounds(1) [of n] by (simp add: request_ok_def)
  then have "vm_offset m + pages n \<le> vm_size m" using assms(3) by (simp add: vm_left_def)
  then have eq: "vm_commited m = vm_offset m" using assms(1) by (auto simp: vm_valid_def split: if_splits)
  have "pages n mod PageSize = 0" using pages_bounds(3) [of n] by (simp add: dvd_eq_mod_eq_0)
  then show ?thesis
    using pos eq \<open>vm_offset m + pages n \<le> vm_size m\<close>
    by (simp add: vm_allocPages_def Let_def pages_aligned [OF assms(2)] make_region_def vm_top_def)
qed

lemma vm_allocPages_exhausted:
  assumes "vm_valid m" "request_ok n" "vm_left m < pages n"
  shows "vm_allocPages n m = Some (null_region, m\<lparr>vm_offset := vm_offset m + pages n\<rparr>)"
proof -
  have pos: "0 < pages n" using assms(2) pages_bounds(1) [of n] by (simp add: request_ok_def)
  have "vm_size m < vm_offset m + pages n" using assms(3) by (simp add: vm_left_def)
  moreover have "vm_commited m \<le> vm_offset m" using assms(1) by (simp add: vm_valid_def)
  moreover have "(vm_offset m + pages n - vm_commited m) mod PageSize = 0"
    using assms(1) pages_bounds(3) [of n] by (simp add: vm_valid_def dvd_diff_nat dvd_eq_mod_eq_0 [symmetric])
  ultimately show ?thesis
    using pos by (simp add: vm_allocPages_def Let_def pages_aligned [OF assms(2)] null_region_def)
qed

interpretation host: consecutive_memory vm_allocPages vm_unused vm_left vm_valid vm_top
proof
  fix m n
  assume ok: "vm_valid m" "request_ok n"
  have pos: "0 < pages n" using ok(2) pages_bounds(1) [of n] by (simp add: request_ok_def)
  {
    assume fits: "pages n \<le> vm_left m"
    then have "vm_offset m + pages n \<le> vm_size m" using pos by (simp add: vm_left_def)
    then show "\<exists>r m'. vm_allocPages n m = Some (r, m') \<and> vm_valid m' \<and> vm_left m' = vm_left m - pages n \<and>
        m_basePtr r \<noteq> 0 \<and> PageSize dvd m_basePtr r \<and> m_size r = pages n \<and>
        {m_basePtr r ..< m_basePtr r + m_size r} \<subseteq> vm_unused m \<and>
        vm_unused m' \<subseteq> vm_unused m - {m_basePtr r ..< m_basePtr r + m_size r}"
      using ok(1) pages_bounds(3) [of n]
      by (auto simp: vm_allocPages_fits [OF ok fits] vm_valid_def vm_left_def vm_unused_def vm_top_def)
  }
  {
    assume short: "vm_left m < pages n"
    then show "\<exists>m'. vm_allocPages n m = Some (null_region, m') \<and> vm_valid m' \<and> vm_left m' = 0 \<and>
        vm_unused m' \<subseteq> vm_unused m"
      using ok(1) pages_bounds(3) [of n]
      by (auto simp: vm_allocPages_exhausted [OF ok short] vm_valid_def vm_left_def vm_unused_def vm_top_def)
  }
  {
    fix r m'
    assume fits: "pages n \<le> vm_left m" and alloc: "vm_allocPages n m = Some (r, m')"
    then show "m_basePtr r = vm_top m \<and> vm_top m' = vm_top m + pages n"
      by (auto simp: vm_allocPages_fits [OF ok fits] vm_top_def)
  }
qed

end
