(* ===== verification/BlockAllocator.thy ===== *)
theory BlockAllocator
  imports HostMemory
begin

text \<open>
  The allocator of blocks of one size, \<open>src/memory/fixed_size_block_allocator.cpp\<close>, over any page memory:
  new blocks are cut from the last region, freed blocks are chained through their own first word.  Several
  allocators share one page memory, as those of \<open>buffer.cpp\<close> do.  The mutex makes each call one step.
\<close>

section \<open>The pool\<close>

text \<open>
  Memory is a map from the addresses of its 8-byte words to their values: every access below is one word at
  a multiple of 8.  A pool's last region is the last of \<open>m_pages\<close>.
\<close>

type_synonym word_memory = "addr \<Rightarrow> nat"

record pool =
  m_pages :: "(mem_region \<times> size_t) list"
  m_blockSize :: size_t
  m_freeBlocksBegin :: addr

definition BlockAlignment :: nat where "BlockAlignment = 16"
definition PreAllocateBlockCount :: nat where "PreAllocateBlockCount = 10"
definition UnspecifiedValue :: nat where "UnspecifiedValue = 2 ^ 64 - 1"

text \<open>The page memory is the parameter \<open>alloc\<close> of the definitions: the code calls \<open>IHostMemory::allocPages\<close>.\<close>

definition pool_create :: "(size_t \<Rightarrow> 'm \<Rightarrow> (mem_region \<times> 'm) option) \<Rightarrow> size_t \<Rightarrow> 'm \<Rightarrow> (pool \<times> 'm) option" where
  "pool_create alloc blockSize h = do {
     (r, h) \<leftarrow> alloc (blockSize * PreAllocateBlockCount) h;
     Some (\<lparr>m_pages = [(r, 0)], m_blockSize = blockSize, m_freeBlocksBegin = 0\<rparr>, h) }"

text \<open>\<open>allocateNewBlock\<close>; without pages the assertion on the new region stops the program.\<close>

definition allocateNewBlock :: "(size_t \<Rightarrow> 'm \<Rightarrow> (mem_region \<times> 'm) option) \<Rightarrow> pool \<Rightarrow> 'm \<Rightarrow> (addr \<times> pool \<times> 'm) option" where
  "allocateNewBlock alloc p h = do {
     require (m_pages p \<noteq> []);
     let (r, off) = last (m_pages p);
     (p, h) \<leftarrow>
       (if m_size r - off < m_blockSize p
        then do {
          (new, h) \<leftarrow> alloc (m_blockSize p) h;
          require (region_given new);
          Some (p\<lparr>m_pages := m_pages p @ [(new, 0)]\<rparr>, h) }
        else Some (p, h));
     let (r, off) = last (m_pages p);
     require (m_size r \<ge> m_blockSize p);
     Some (m_basePtr r + off, p\<lparr>m_pages := butlast (m_pages p) @ [(r, off + m_blockSize p)]\<rparr>, h) }"

definition fill_zero :: "addr \<Rightarrow> size_t \<Rightarrow> word_memory \<Rightarrow> word_memory" where
  "fill_zero ptr n mem = (\<lambda>a. if ptr \<le> a \<and> a < ptr + n then 0 else mem a)"

text \<open>\<open>Pool::allocate\<close> with its \<open>memset\<close>, and \<open>Pool::free\<close>.\<close>

definition pool_allocate :: "(size_t \<Rightarrow> 'm \<Rightarrow> (mem_region \<times> 'm) option) \<Rightarrow> pool \<Rightarrow> word_memory \<Rightarrow> 'm \<Rightarrow>
    (addr \<times> pool \<times> word_memory \<times> 'm) option" where
  "pool_allocate alloc p mem h = do {
     (ptr, p, h) \<leftarrow>
       (if m_freeBlocksBegin p = 0 then allocateNewBlock alloc p h
        else (let block = m_freeBlocksBegin p in Some (block, p\<lparr>m_freeBlocksBegin := mem block\<rparr>, h)));
     Some (ptr, p, if ptr \<noteq> 0 then fill_zero ptr (m_blockSize p) mem else mem, h) }"

definition pool_free :: "addr \<Rightarrow> pool \<Rightarrow> word_memory \<Rightarrow> pool \<times> word_memory" where
  "pool_free ptr p mem = (p\<lparr>m_freeBlocksBegin := ptr\<rparr>, mem(ptr := m_freeBlocksBegin p))"

section \<open>The allocator\<close>

definition checkAllocAlignment :: "size_t \<Rightarrow> size_t \<Rightarrow> bool" where
  "checkAllocAlignment align maxAlign \<longleftrightarrow>
     align = UnspecifiedValue \<or> (align \<le> maxAlign \<and> isPowerOf2 (of_nat align))"

definition block_alloc :: "(size_t \<Rightarrow> 'm \<Rightarrow> (mem_region \<times> 'm) option) \<Rightarrow> size_t \<Rightarrow> size_t \<Rightarrow> pool \<Rightarrow> word_memory \<Rightarrow> 'm \<Rightarrow>
    (addr \<times> pool \<times> word_memory \<times> 'm) option" where
  "block_alloc alloc n align p mem h = do {
     require (n \<le> m_blockSize p);
     require (checkAllocAlignment align BlockAlignment);
     (ptr, p, mem, h) \<leftarrow> pool_allocate alloc p mem h;
     require (ptr mod BlockAlignment = 0);
     Some (ptr, p, mem, h) }"

definition block_realloc :: "(size_t \<Rightarrow> 'm \<Rightarrow> (mem_region \<times> 'm) option) \<Rightarrow> addr \<Rightarrow> size_t \<Rightarrow> size_t \<Rightarrow> pool \<Rightarrow> word_memory \<Rightarrow> 'm \<Rightarrow>
    (addr \<times> pool \<times> word_memory \<times> 'm) option" where
  "block_realloc alloc oldPtr n align p mem h = do {
     require (n \<le> m_blockSize p);
     require (checkAllocAlignment align BlockAlignment);
     if oldPtr \<noteq> 0 then Some (oldPtr, p, mem, h)
     else do {
       (ptr, p, mem, h) \<leftarrow> pool_allocate alloc p mem h;
       require (ptr mod BlockAlignment = 0);
       Some (ptr, p, mem, h) } }"

definition block_free :: "addr \<Rightarrow> size_t \<Rightarrow> size_t \<Rightarrow> pool \<Rightarrow> word_memory \<Rightarrow> (pool \<times> word_memory) option" where
  "block_free ptr n align p mem = do {
     require (n = UnspecifiedValue \<or> n \<le> m_blockSize p);
     require (checkAllocAlignment align BlockAlignment);
     Some (if ptr \<noteq> 0 then pool_free ptr p mem else (p, mem)) }"

definition createFixedSizeBlockAllocator :: "(size_t \<Rightarrow> 'm \<Rightarrow> (mem_region \<times> 'm) option) \<Rightarrow> size_t \<Rightarrow> 'm \<Rightarrow> (pool \<times> 'm) option" where
  "createFixedSizeBlockAllocator alloc blockSize h =
     (let alignedBlockSize = aligned_nat blockSize BlockAlignment in pool_create alloc alignedBlockSize h)"

section \<open>Programs over several allocators\<close>

text \<open>
  A client has numbered pointers.  It creates allocators, allocates into pointers that are null, reads and
  writes words of its blocks and frees them, after which the pointer is null again.
\<close>

datatype block_op =
    NewAllocator size_t
  | Alloc nat nat size_t size_t
  | Realloc nat nat size_t size_t
  | Free nat nat size_t size_t
  | Store nat nat nat
  | Load nat nat

record 'm block_state =
  host :: 'm
  memory :: word_memory
  pools :: "pool list"
  ptrs :: "nat \<Rightarrow> addr"

definition with_pool :: "nat \<Rightarrow> pool \<Rightarrow> 'm block_state \<Rightarrow> 'm block_state" where
  "with_pool i p s = s\<lparr>pools := (pools s)[i := p]\<rparr>"

fun block_exec :: "(size_t \<Rightarrow> 'm \<Rightarrow> (mem_region \<times> 'm) option) \<Rightarrow> block_op \<Rightarrow> 'm block_state \<Rightarrow>
    ('m block_state \<times> nat option) option" where
  "block_exec alloc (NewAllocator n) s = do {
     (p, h) \<leftarrow> createFixedSizeBlockAllocator alloc n (host s);
     Some (s\<lparr>host := h, pools := pools s @ [p]\<rparr>, None) }"
| "block_exec alloc (Alloc i v n align) s = do {
     require (i < length (pools s));
     (ptr, p, mem, h) \<leftarrow> block_alloc alloc n align (pools s ! i) (memory s) (host s);
     Some ((with_pool i p s)\<lparr>host := h, memory := mem, ptrs := (ptrs s)(v := ptr)\<rparr>, None) }"
| "block_exec alloc (Realloc i v n align) s = do {
     require (i < length (pools s));
     (ptr, p, mem, h) \<leftarrow> block_realloc alloc (ptrs s v) n align (pools s ! i) (memory s) (host s);
     Some ((with_pool i p s)\<lparr>host := h, memory := mem, ptrs := (ptrs s)(v := ptr)\<rparr>, None) }"
| "block_exec alloc (Free i v n align) s = do {
     require (i < length (pools s));
     (p, mem) \<leftarrow> block_free (ptrs s v) n align (pools s ! i) (memory s);
     Some ((with_pool i p s)\<lparr>memory := mem, ptrs := (ptrs s)(v := 0)\<rparr>, None) }"
| "block_exec alloc (Store v i x) s =
     Some (s\<lparr>memory := (memory s)(ptrs s v + 8 * i := x)\<rparr>, None)"
| "block_exec alloc (Load v i) s = Some (s, Some (memory s (ptrs s v + 8 * i)))"

definition block_start :: "'m \<Rightarrow> 'm block_state" where
  "block_start h = \<lparr>host = h, memory = (\<lambda>_. 0), pools = [], ptrs = (\<lambda>_. 0)\<rparr>"

section \<open>The specification\<close>

text \<open>
  Each block is an array of words of its own, zero when it is handed out; an allocator is its block size with
  the number of free blocks and of blocks that still fit the last region; the page memory is the number of
  bytes left.  The specification is undefined where the client breaks its obligations (freeing a block to
  another allocator, accessing beyond the block, overwriting a pointer to a live block) and where the memory
  is used up.
\<close>

record pool_spec =
  spec_block :: size_t
  spec_free :: nat
  spec_room :: nat

record spec_state =
  spec_left :: size_t
  spec_pools :: "pool_spec list"
  arrays :: "nat \<Rightarrow> (nat \<times> (nat \<Rightarrow> nat)) option"

definition pool_size_ok :: "size_t \<Rightarrow> bool" where
  "pool_size_ok n \<longleftrightarrow> 0 < n \<and> n \<le> 2 ^ 48"

definition take_block :: "pool_spec \<Rightarrow> size_t \<Rightarrow> (pool_spec \<times> size_t) option" where
  "take_block q left =
     (if 0 < spec_free q then Some (q\<lparr>spec_free := spec_free q - 1\<rparr>, left)
      else if 0 < spec_room q then Some (q\<lparr>spec_room := spec_room q - 1\<rparr>, left)
      else if pages (spec_block q) \<le> left
      then Some (q\<lparr>spec_room := pages (spec_block q) div spec_block q - 1\<rparr>, left - pages (spec_block q))
      else None)"

definition spec_alloc :: "nat \<Rightarrow> nat \<Rightarrow> size_t \<Rightarrow> size_t \<Rightarrow> spec_state \<Rightarrow> spec_state option" where
  "spec_alloc i v n align a = do {
     require (i < length (spec_pools a));
     require (n \<le> spec_block (spec_pools a ! i));
     require (checkAllocAlignment align BlockAlignment);
     require (arrays a v = None);
     (q, left) \<leftarrow> take_block (spec_pools a ! i) (spec_left a);
     Some (a\<lparr>spec_left := left, spec_pools := (spec_pools a)[i := q],
             arrays := (arrays a)(v \<mapsto> (i, \<lambda>_. 0))\<rparr>) }"

fun block_spec :: "block_op \<Rightarrow> spec_state \<Rightarrow> (spec_state \<times> nat option) option" where
  "block_spec (NewAllocator n) a = do {
     require (pool_size_ok n);
     let b = round_up n BlockAlignment;
     let need = pages (b * PreAllocateBlockCount);
     Some (a\<lparr>spec_left := spec_left a - need,
             spec_pools := spec_pools a @
               [\<lparr>spec_block = b, spec_free = 0, spec_room = (if need \<le> spec_left a then need div b else 0)\<rparr>]\<rparr>, None) }"
| "block_spec (Alloc i v n align) a = do { a' \<leftarrow> spec_alloc i v n align a; Some (a', None) }"
| "block_spec (Realloc i v n align) a =
     (case arrays a v of
        None \<Rightarrow> do { a' \<leftarrow> spec_alloc i v n align a; Some (a', None) }
      | Some _ \<Rightarrow> do {
          require (i < length (spec_pools a));
          require (n \<le> spec_block (spec_pools a ! i));
          require (checkAllocAlignment align BlockAlignment);
          Some (a, None) })"
| "block_spec (Free i v n align) a = do {
     require (i < length (spec_pools a));
     let q = spec_pools a ! i;
     require (n = UnspecifiedValue \<or> n \<le> spec_block q);
     require (checkAllocAlignment align BlockAlignment);
     (case arrays a v of
        None \<Rightarrow> Some (a, None)
      | Some (j, _) \<Rightarrow> do {
          require (j = i);
          Some (a\<lparr>spec_pools := (spec_pools a)[i := q\<lparr>spec_free := spec_free q + 1\<rparr>],
                  arrays := (arrays a)(v := None)\<rparr>, None) }) }"
| "block_spec (Store v k x) a =
     (case arrays a v of
        None \<Rightarrow> None
      | Some (i, c) \<Rightarrow> do {
          require (8 * k + 8 \<le> spec_block (spec_pools a ! i));
          Some (a\<lparr>arrays := (arrays a)(v \<mapsto> (i, c(k := x)))\<rparr>, None) })"
| "block_spec (Load v k) a =
     (case arrays a v of
        None \<Rightarrow> None
      | Some (i, c) \<Rightarrow> do {
          require (8 * k + 8 \<le> spec_block (spec_pools a ! i));
          Some (a, Some (c k)) })"

definition spec_start :: "size_t \<Rightarrow> spec_state" where
  "spec_start left = \<lparr>spec_left = left, spec_pools = [], arrays = (\<lambda>_. None)\<rparr>"

section \<open>Ownership of addresses\<close>

text \<open>
  Every address belongs to the page memory, to the rest of a pool's last region, to a free block or to the
  live block of a client pointer.  Blocks cannot overlap because an address has one owner.
\<close>

datatype owner = Unused | Rest nat | FreeBlk nat addr | Live nat

definition owned :: "(addr \<Rightarrow> owner) \<Rightarrow> addr \<Rightarrow> size_t \<Rightarrow> owner \<Rightarrow> bool" where
  "owned own b n t \<longleftrightarrow> (\<forall>a. b \<le> a \<and> a < b + n \<longrightarrow> own a = t)"

definition give :: "(addr \<Rightarrow> owner) \<Rightarrow> addr \<Rightarrow> size_t \<Rightarrow> owner \<Rightarrow> addr \<Rightarrow> owner" where
  "give own b n t = (\<lambda>a. if b \<le> a \<and> a < b + n then t else own a)"

fun chain :: "word_memory \<Rightarrow> addr \<Rightarrow> addr list \<Rightarrow> bool" where
  "chain mem x [] \<longleftrightarrow> x = 0"
| "chain mem x (b # bs) \<longleftrightarrow> x = b \<and> b \<noteq> 0 \<and> chain mem (mem b) bs"

definition free_ok :: "(addr \<Rightarrow> owner) \<Rightarrow> word_memory \<Rightarrow> nat \<Rightarrow> pool \<Rightarrow> addr list \<Rightarrow> bool" where
  "free_ok own mem i p bs \<longleftrightarrow> chain mem (m_freeBlocksBegin p) bs \<and> distinct bs \<and>
     (\<forall>b\<in>set bs. owned own b (m_blockSize p) (FreeBlk i b) \<and> BlockAlignment dvd b)"

definition room_ok :: "(addr \<Rightarrow> owner) \<Rightarrow> nat \<Rightarrow> size_t \<Rightarrow> nat \<Rightarrow> mem_region \<Rightarrow> size_t \<Rightarrow> bool" where
  "room_ok own i bs room r off \<longleftrightarrow> off \<le> m_size r \<and> room = (m_size r - off) div bs \<and>
     BlockAlignment dvd m_basePtr r + off \<and> (0 < m_size r \<longrightarrow> m_basePtr r \<noteq> 0) \<and>
     owned own (m_basePtr r + off) (m_size r - off) (Rest i)"

definition pool_ok :: "(addr \<Rightarrow> owner) \<Rightarrow> word_memory \<Rightarrow> nat \<Rightarrow> pool \<Rightarrow> pool_spec \<Rightarrow> bool" where
  "pool_ok own mem i p q \<longleftrightarrow> m_blockSize p = spec_block q \<and> BlockAlignment dvd m_blockSize p \<and>
     0 < m_blockSize p \<and> request_ok (m_blockSize p) \<and>
     (\<exists>ps r off. m_pages p = ps @ [(r, off)] \<and> room_ok own i (m_blockSize p) (spec_room q) r off) \<and>
     (\<exists>bs. length bs = spec_free q \<and> free_ok own mem i p bs)"

definition ptr_ok :: "(addr \<Rightarrow> owner) \<Rightarrow> word_memory \<Rightarrow> pool_spec list \<Rightarrow> nat \<Rightarrow> addr \<Rightarrow> (nat \<times> (nat \<Rightarrow> nat)) option \<Rightarrow> bool" where
  "ptr_ok own mem qs v x c \<longleftrightarrow>
     (case c of None \<Rightarrow> x = 0
      | Some (i, f) \<Rightarrow> i < length qs \<and> x \<noteq> 0 \<and> BlockAlignment dvd x \<and> owned own x (spec_block (qs ! i)) (Live v) \<and>
          (\<forall>k. 8 * k + 8 \<le> spec_block (qs ! i) \<longrightarrow> mem (x + 8 * k) = f k))"

text \<open>Free blocks change only with their pool, live ones only with their pointer.\<close>

lemma chain_agree: "chain mem x bs \<Longrightarrow> (\<And>b. b \<in> set bs \<Longrightarrow> mem' b = mem b) \<Longrightarrow> chain mem' x bs"
  by (induction mem x bs rule: chain.induct) auto

lemma owned_agree: "owned own b n t \<Longrightarrow> (\<And>a. own a = t \<Longrightarrow> own' a = t) \<Longrightarrow> owned own' b n t"
  by (auto simp: owned_def)

lemma owned_first: "owned own b n t \<Longrightarrow> 0 < n \<Longrightarrow> own b = t"
  by (simp add: owned_def)

lemma owned_give [simp]: "owned (give own b n t) b n t"
  by (simp add: owned_def give_def)

lemma free_ok_agree:
  assumes "free_ok own mem i p bs" "0 < m_blockSize p"
    and "\<And>a b. own a = FreeBlk i b \<Longrightarrow> b \<in> set bs \<Longrightarrow> own' a = FreeBlk i b \<and> mem' a = mem a"
  shows "free_ok own' mem' i p bs"
proof -
  have at: "own b = FreeBlk i b" if "b \<in> set bs" for b
    using assms(1,2) that by (auto simp: free_ok_def intro: owned_first)
  have "chain mem' (m_freeBlocksBegin p) bs"
    by (rule chain_agree [of mem]) (use assms(1,3) at in \<open>auto simp: free_ok_def\<close>)
  moreover have "owned own' b (m_blockSize p) (FreeBlk i b)" if "b \<in> set bs" for b
    by (rule owned_agree [of own]) (use assms(1,3) that in \<open>auto simp: free_ok_def\<close>)
  ultimately show ?thesis using assms(1) by (simp add: free_ok_def)
qed

lemma room_ok_agree:
  "room_ok own i bs room r off \<Longrightarrow> (\<And>a. own a = Rest i \<Longrightarrow> own' a = Rest i) \<Longrightarrow> room_ok own' i bs room r off"
  by (auto simp: room_ok_def intro: owned_agree)

lemma pool_ok_agree:
  assumes "pool_ok own mem i p q"
    and "\<And>a. own a = Rest i \<Longrightarrow> own' a = Rest i"
    and "\<And>a b. own a = FreeBlk i b \<Longrightarrow> own' a = FreeBlk i b \<and> mem' a = mem a"
  shows "pool_ok own' mem' i p q"
  using assms(1) room_ok_agree [OF _ assms(2)] free_ok_agree [OF _ _ assms(3)] unfolding pool_ok_def by meson

lemma ptr_ok_agree:
  assumes "ptr_ok own mem qs v x c"
    and "\<And>a. own a = Live v \<Longrightarrow> own' a = Live v \<and> mem' a = mem a"
    and "\<And>i f. c = Some (i, f) \<Longrightarrow> i < length qs \<Longrightarrow> i < length qs' \<and> spec_block (qs' ! i) = spec_block (qs ! i)"
  shows "ptr_ok own' mem' qs' v x c"
proof (cases c)
  case (Some d)
  obtain i f where d: "d = (i, f)" by (cases d)
  have x: "i < length qs" "x \<noteq> 0" "BlockAlignment dvd x" "owned own x (spec_block (qs ! i)) (Live v)"
      "\<forall>k. 8 * k + 8 \<le> spec_block (qs ! i) \<longrightarrow> mem (x + 8 * k) = f k"
    using assms(1) by (auto simp: ptr_ok_def Some d)
  have "own (x + 8 * k) = Live v" if "8 * k + 8 \<le> spec_block (qs ! i)" for k
    using x(4) that by (simp add: owned_def)
  then have "mem' (x + 8 * k) = f k" if "8 * k + 8 \<le> spec_block (qs ! i)" for k
    using x(5) assms(2) that by metis
  moreover have "owned own' x (spec_block (qs ! i)) (Live v)" using owned_agree [OF x(4)] assms(2) by blast
  ultimately show ?thesis using x assms(3) [of i f] by (simp add: ptr_ok_def Some d)
qed (use assms(1) in \<open>simp add: ptr_ok_def\<close>)

section \<open>Allocation\<close>

lemma div_diff_self: "0 < (b :: nat) \<Longrightarrow> b \<le> n \<Longrightarrow> (n - b) div b = n div b - 1"
  by (simp add: le_div_geq)

lemma div_pos: "0 < (b :: nat) \<Longrightarrow> (0 < n div b) = (b \<le> n)"
  by (simp add: div_greater_zero_iff)

text \<open>Cutting a block from the last region.\<close>

lemma cut_block:
  assumes "room_ok own i bs room r off" "0 < bs" "bs \<le> m_size r - off" "BlockAlignment dvd bs" "bs' = bs"
  shows "room_ok (give own (m_basePtr r + off) bs' t) i bs (room - 1) r (off + bs)"
    and "m_basePtr r + off \<noteq> 0" "BlockAlignment dvd m_basePtr r + off"
    and "owned own (m_basePtr r + off) bs (Rest i)"
  using assms div_diff_self [of bs "m_size r - off"]
  by (auto simp: room_ok_def owned_def give_def algebra_simps)

lemma allocateNewBlock_room:
  assumes "m_pages p = ps @ [(r, off)]" "m_blockSize p \<le> m_size r - off"
  shows "allocateNewBlock alloc p h =
    Some (m_basePtr r + off, p\<lparr>m_pages := ps @ [(r, off + m_blockSize p)]\<rparr>, h)"
  using assms by (simp add: allocateNewBlock_def)

lemma allocateNewBlock_grow:
  assumes "m_pages p = ps @ [(r, off)]" "m_size r - off < m_blockSize p"
    and "alloc (m_blockSize p) h = Some (new, h')" "m_basePtr new \<noteq> 0" "m_blockSize p \<le> m_size new"
  shows "allocateNewBlock alloc p h =
    Some (m_basePtr new, p\<lparr>m_pages := ps @ [(r, off), (new, m_blockSize p)]\<rparr>, h')"
  using assms by (simp add: allocateNewBlock_def region_given_def butlast_append)

text \<open>What an allocation from pool \<open>i\<close> into pointer \<open>v\<close> does to memory: only bytes of the pool change hands.\<close>

definition handed :: "(addr \<Rightarrow> owner) \<Rightarrow> (addr \<Rightarrow> owner) \<Rightarrow> word_memory \<Rightarrow> word_memory \<Rightarrow> nat \<Rightarrow> nat \<Rightarrow> addr \<Rightarrow> size_t \<Rightarrow> bool" where
  "handed own own' mem mem' i v ptr n \<longleftrightarrow> ptr \<noteq> 0 \<and> BlockAlignment dvd ptr \<and> owned own' ptr n (Live v) \<and>
     (\<forall>a. ptr \<le> a \<and> a < ptr + n \<longrightarrow> mem' a = 0) \<and>
     (\<forall>a. own a \<notin> {Unused, Rest i} \<and> own a \<notin> range (FreeBlk i) \<longrightarrow> own' a = own a \<and> mem' a = mem a)"

lemma handedI:
  assumes "ptr \<noteq> 0" "BlockAlignment dvd ptr"
    and "\<And>a. own1 a \<noteq> own a \<Longrightarrow> own a = Unused"
    and "\<And>a. ptr \<le> a \<Longrightarrow> a < ptr + n \<Longrightarrow> own1 a = Rest i \<or> (\<exists>b. own1 a = FreeBlk i b)"
  shows "handed own (give own1 ptr n (Live v)) mem (fill_zero ptr n mem) i v ptr n"
proof -
  have "give own1 ptr n (Live v) a = own a \<and> fill_zero ptr n mem a = mem a"
    if "own a \<notin> {Unused, Rest i}" "own a \<notin> range (FreeBlk i)" for a
  proof -
    have "own1 a = own a" using assms(3) that(1) by blast
    then have "\<not> (ptr \<le> a \<and> a < ptr + n)" using assms(4) [of a] that by (metis insertCI rangeI)
    then show ?thesis using \<open>own1 a = own a\<close> by (auto simp: give_def fill_zero_def)
  qed
  then show ?thesis using assms(1,2) by (auto simp: handed_def fill_zero_def)
qed

text \<open>A free block is taken out of the chain.\<close>

lemma pop_free:
  assumes "free_ok own mem i p (b # bs)" "0 < m_blockSize p"
  shows "free_ok (give own b (m_blockSize p) (Live v)) (fill_zero b (m_blockSize p) mem) i
      (p\<lparr>m_freeBlocksBegin := mem b\<rparr>) bs"
    and "m_freeBlocksBegin p = b" "b \<noteq> 0" "BlockAlignment dvd b" "owned own b (m_blockSize p) (FreeBlk i b)"
proof -
  show b: "m_freeBlocksBegin p = b" "b \<noteq> 0" "BlockAlignment dvd b" "owned own b (m_blockSize p) (FreeBlk i b)"
    using assms(1) by (auto simp: free_ok_def)
  have "free_ok own mem i (p\<lparr>m_freeBlocksBegin := mem b\<rparr>) bs" using assms(1) by (simp add: free_ok_def)
  moreover have "give own b (m_blockSize p) (Live v) a = FreeBlk i c \<and> fill_zero b (m_blockSize p) mem a = mem a"
    if "own a = FreeBlk i c" "c \<in> set bs" for a c
  proof -
    have "c \<noteq> b" using assms(1) that(2) by (auto simp: free_ok_def)
    then have "\<not> (b \<le> a \<and> a < b + m_blockSize p)" using b(4) that(1) by (auto simp: owned_def)
    then show ?thesis using that(1) by (auto simp: give_def fill_zero_def)
  qed
  ultimately show "free_ok (give own b (m_blockSize p) (Live v)) (fill_zero b (m_blockSize p) mem) i
      (p\<lparr>m_freeBlocksBegin := mem b\<rparr>) bs"
    using free_ok_agree [of own mem i "p\<lparr>m_freeBlocksBegin := mem b\<rparr>" bs] assms(2) by simp
qed

lemma free_ok_rest:
  assumes "free_ok own mem i p bs" "0 < m_blockSize p" "owned own1 ptr n (Rest i)"
    and "\<And>a. own1 a \<noteq> own a \<Longrightarrow> own a = Unused" "m_freeBlocksBegin p' = m_freeBlocksBegin p" "m_blockSize p' = m_blockSize p"
  shows "free_ok (give own1 ptr n t) (fill_zero ptr n mem) i p' bs"
proof -
  have "give own1 ptr n t a = FreeBlk i b \<and> fill_zero ptr n mem a = mem a" if "own a = FreeBlk i b" for a b
  proof -
    have "own1 a = FreeBlk i b" using assms(4) [of a] that by (cases "own1 a = own a") auto
    then show ?thesis using assms(3) by (auto simp: owned_def give_def fill_zero_def)
  qed
  then have "free_ok (give own1 ptr n t) (fill_zero ptr n mem) i p bs" by (rule free_ok_agree [OF assms(1,2)])
  then show ?thesis using assms(5,6) by (simp add: free_ok_def)
qed

context page_memory
begin

definition host_ok :: "(addr \<Rightarrow> owner) \<Rightarrow> size_t \<Rightarrow> 'm \<Rightarrow> bool" where
  "host_ok own left h \<longleftrightarrow> valid h \<and> bytes_left h = left \<and> (\<forall>a\<in>unused h. own a = Unused)"

lemma grow:
  assumes "host_ok own left h" "request_ok n" "pages n \<le> left"
  obtains r h' where "allocPages n h = Some (r, h')" "m_basePtr r \<noteq> 0" "BlockAlignment dvd m_basePtr r"
    "m_size r = pages n" "host_ok (give own (m_basePtr r) (m_size r) t) (left - pages n) h'"
    "owned own (m_basePtr r) (m_size r) Unused"
proof -
  have page: "BlockAlignment dvd a" if "PageSize dvd a" for a
    using dvd_trans [OF _ that] by (simp add: BlockAlignment_def PageSize_def)
  obtain r h' where "allocPages n h = Some (r, h')" "valid h'" "bytes_left h' = left - pages n"
      "m_basePtr r \<noteq> 0" "PageSize dvd m_basePtr r" "m_size r = pages n"
      "{m_basePtr r ..< m_basePtr r + m_size r} \<subseteq> unused h"
      "unused h' \<subseteq> unused h - {m_basePtr r ..< m_basePtr r + m_size r}"
    using enough [of h n] assms by (auto simp: host_ok_def)
  then show ?thesis
    using that [of r h'] page [of "m_basePtr r"] assms(1)
    by (fastforce simp: host_ok_def give_def owned_def)
qed

lemma host_ok_give: "host_ok own left h \<Longrightarrow> owned own b n s \<Longrightarrow> s \<noteq> Unused \<Longrightarrow> host_ok (give own b n t) left h"
  by (fastforce simp: host_ok_def owned_def give_def)

lemma pool_allocate_ok:
  assumes host: "host_ok own left h" and pool: "pool_ok own mem i p q" and take: "take_block q left = Some (q', left')"
  shows "\<exists>ptr p' mem' h' own'. pool_allocate allocPages p mem h = Some (ptr, p', mem', h') \<and>
    host_ok own' left' h' \<and> pool_ok own' mem' i p' q' \<and> handed own own' mem mem' i v ptr (m_blockSize p) \<and>
    spec_block q' = spec_block q"
proof -
  define b where "b = m_blockSize p"
  have b: "spec_block q = b" "BlockAlignment dvd b" "0 < b" "request_ok b" using pool by (auto simp: pool_ok_def b_def)
  obtain ps r off where pages: "m_pages p = ps @ [(r, off)]" and room: "room_ok own i b (spec_room q) r off"
    using pool by (auto simp: pool_ok_def b_def)
  obtain bs where bs: "length bs = spec_free q" "free_ok own mem i p bs" using pool by (auto simp: pool_ok_def)
  have rooms: "(0 < spec_room q) = (b \<le> m_size r - off)" using room b(3) by (auto simp: room_ok_def div_pos)
  show ?thesis
  proof (cases bs)
    case (Cons c cs)
    note pop = pop_free [OF bs(2) [unfolded Cons] b(3) [unfolded b_def], folded b_def]
    have q': "q' = q\<lparr>spec_free := spec_free q - 1\<rparr>" "left' = left"
      using take bs(1) Cons by (auto simp: take_block_def split: if_splits)
    let ?own = "give own c b (Live v)"
    have "room_ok ?own i b (spec_room q) r off"
      using room pop(5) by (auto simp: room_ok_def owned_def give_def)
    then have "pool_ok ?own (fill_zero c b mem) i (p\<lparr>m_freeBlocksBegin := mem c\<rparr>) q'"
      using pop(1) bs(1) b pages q' Cons by (auto simp: pool_ok_def b_def intro!: exI [of _ cs])
    moreover have "handed own ?own mem (fill_zero c b mem) i v c b"
      using pop(3-5) by (intro handedI) (auto simp: owned_def)
    moreover have "host_ok ?own left h" using host pop(5) by (rule host_ok_give) simp
    ultimately show ?thesis
      using pop(2,3) q' by (auto simp: pool_allocate_def b_def)
  next
    case Nil
    then have nil: "m_freeBlocksBegin p = 0" "spec_free q = 0" using bs by (auto simp: free_ok_def)
    show ?thesis
    proof (cases "0 < spec_room q")
      case True
      then have fits: "b \<le> m_size r - off" using rooms by simp
      let ?ptr = "m_basePtr r + off" and ?p = "p\<lparr>m_pages := ps @ [(r, off + b)]\<rparr>"
      let ?own = "give own ?ptr b (Live v)" and ?mem = "fill_zero ?ptr b mem"
      note cut = cut_block [OF room b(3) fits b(2) refl]
      have q': "q' = q\<lparr>spec_room := spec_room q - 1\<rparr>" "left' = left"
        using take True nil(2) by (auto simp: take_block_def split: if_splits)
      then have block: "spec_block q' = spec_block q" by simp
      have "free_ok ?own ?mem i ?p bs" by (rule free_ok_rest [OF bs(2) _ cut(4)]) (use b(3) in \<open>auto simp: b_def\<close>)
      then have "pool_ok ?own ?mem i ?p q'" using cut(1) b bs(1) q' by (auto simp: pool_ok_def b_def)
      moreover have "handed own ?own mem ?mem i v ?ptr b"
        using cut(2-4) by (intro handedI) (auto simp: owned_def)
      moreover have "host_ok ?own left h" using host cut(4) by (rule host_ok_give) simp
      moreover have "pool_allocate allocPages p mem h = Some (?ptr, ?p, ?mem, h)"
        using nil(1) allocateNewBlock_room [OF pages, of allocPages h] fits cut(2)
        by (simp add: pool_allocate_def b_def)
      ultimately show ?thesis unfolding q'(2) b_def using block by blast
    next
      case False
      then have small: "m_size r - off < b" using rooms by simp
      have q': "q' = q\<lparr>spec_room := pages b div b - 1\<rparr>" "left' = left - pages b" and le: "pages b \<le> left"
        using take False nil(2) b(1) by (auto simp: take_block_def split: if_splits)
      then have block: "spec_block q' = spec_block q" by simp
      obtain new h' where new: "allocPages b h = Some (new, h')" "m_basePtr new \<noteq> 0" "BlockAlignment dvd m_basePtr new"
        "m_size new = pages b" "host_ok (give own (m_basePtr new) (m_size new) (Rest i)) (left - pages b) h'"
        "owned own (m_basePtr new) (m_size new) Unused"
        using grow [OF host b(4) le] by metis
      let ?own1 = "give own (m_basePtr new) (m_size new) (Rest i)"
      let ?ptr = "m_basePtr new" and ?p = "p\<lparr>m_pages := ps @ [(r, off), (new, b)]\<rparr>"
      let ?own = "give ?own1 ?ptr b (Live v)" and ?mem = "fill_zero ?ptr b mem"
      have fits: "b \<le> m_size new - 0" using new(4) pages_bounds(1) [of b] by simp
      have "room_ok ?own1 i b (pages b div b) new 0" using new by (simp add: room_ok_def)
      note cut = cut_block [OF this b(3) fits b(2) refl, simplified]
      have only: "own a = Unused" if "?own1 a \<noteq> own a" for a
        using that new(6) by (auto simp: give_def owned_def split: if_splits)
      have "free_ok ?own ?mem i ?p bs"
        by (rule free_ok_rest [OF bs(2) _ cut(4) only]) (use b(3) in \<open>auto simp: b_def\<close>)
      then have "pool_ok ?own ?mem i ?p q'"
        using cut(1) b bs(1) q' by (auto simp: pool_ok_def b_def intro!: exI [of _ "ps @ [(r, off)]"])
      moreover have "handed own ?own mem ?mem i v ?ptr b"
        by (rule handedI [OF new(2,3) only]) (use cut(4) in \<open>auto simp: owned_def\<close>)
      moreover have "host_ok ?own (left - pages b) h'" using new(5) cut(4) by (rule host_ok_give) simp
      moreover have "pool_allocate allocPages p mem h = Some (?ptr, ?p, ?mem, h')"
        using nil(1) allocateNewBlock_grow [OF pages, of allocPages h new h'] new(1,2) fits small
        by (simp add: pool_allocate_def b_def)
      ultimately show ?thesis unfolding q'(2) b_def using block by blast
    qed
  qed
qed

text \<open>The state of a program against its specification.\<close>

definition block_rel :: "'m block_state \<Rightarrow> spec_state \<Rightarrow> bool" where
  "block_rel s a \<longleftrightarrow> length (pools s) = length (spec_pools a) \<and>
     (\<exists>own. host_ok own (spec_left a) (host s) \<and>
        (\<forall>i<length (pools s). pool_ok own (memory s) i (pools s ! i) (spec_pools a ! i)) \<and>
        (\<forall>v. ptr_ok own (memory s) (spec_pools a) v (ptrs s v) (arrays a v)))"

lemma block_relE:
  assumes "block_rel s a"
  obtains own where "length (pools s) = length (spec_pools a)" "host_ok own (spec_left a) (host s)"
    "\<And>i. i < length (spec_pools a) \<Longrightarrow> pool_ok own (memory s) i (pools s ! i) (spec_pools a ! i)"
    "\<And>v. ptr_ok own (memory s) (spec_pools a) v (ptrs s v) (arrays a v)"
  using assms by (auto simp: block_rel_def)

lemma block_relI:
  assumes "length (pools s) = length (spec_pools a)" "host_ok own (spec_left a) (host s)"
    and "\<And>i. i < length (spec_pools a) \<Longrightarrow> pool_ok own (memory s) i (pools s ! i) (spec_pools a ! i)"
    and "\<And>v. ptr_ok own (memory s) (spec_pools a) v (ptrs s v) (arrays a v)"
  shows "block_rel s a"
  using assms by (auto simp: block_rel_def)

lemma alloc_rel:
  assumes rel: "block_rel s a" and spec: "spec_alloc i v n align a = Some a'"
  shows "\<exists>ptr p mem h. pool_allocate allocPages (pools s ! i) (memory s) (host s) = Some (ptr, p, mem, h) \<and>
    ptr mod BlockAlignment = 0 \<and>
    block_rel ((with_pool i p s)\<lparr>host := h, memory := mem, ptrs := (ptrs s)(v := ptr)\<rparr>) a'"
proof -
  obtain own where own: "length (pools s) = length (spec_pools a)" "host_ok own (spec_left a) (host s)"
    "\<And>i. i < length (spec_pools a) \<Longrightarrow> pool_ok own (memory s) i (pools s ! i) (spec_pools a ! i)"
    "\<And>v. ptr_ok own (memory s) (spec_pools a) v (ptrs s v) (arrays a v)"
    using rel by (rule block_relE) (rule that)
  obtain q left where i: "i < length (spec_pools a)" and q: "take_block (spec_pools a ! i) (spec_left a) = Some (q, left)"
    and a': "a' = a\<lparr>spec_left := left, spec_pools := (spec_pools a)[i := q], arrays := (arrays a)(v \<mapsto> (i, \<lambda>_. 0))\<rparr>"
    using spec by (auto simp: spec_alloc_def bind_eq_Some_conv split: if_splits)
  obtain ptr p mem h own' where alloc: "pool_allocate allocPages (pools s ! i) (memory s) (host s) = Some (ptr, p, mem, h)"
    and host: "host_ok own' left h" and pool: "pool_ok own' mem i p q"
    and handed: "handed own own' (memory s) mem i v ptr (m_blockSize (pools s ! i))"
    and block: "spec_block q = spec_block (spec_pools a ! i)"
    using pool_allocate_ok [OF own(2) own(3) [OF i] q, of v] by blast
  have bs: "m_blockSize (pools s ! i) = spec_block q" using own(3) [OF i] block by (simp add: pool_ok_def)
  have same: "own' x = own x \<and> mem x = memory s x" if "own x \<notin> {Unused, Rest i}" "own x \<notin> range (FreeBlk i)" for x
    using handed that by (simp add: handed_def)
  have others: "pool_ok own' mem j (pools s ! j) (spec_pools a ! j)" if "j < length (spec_pools a)" "j \<noteq> i" for j
    using own(3) [OF that(1)]
  proof (rule pool_ok_agree)
    show "own' x = Rest j" if "own x = Rest j" for x using same [of x] that \<open>j \<noteq> i\<close> by auto
    show "own' x = FreeBlk j b \<and> mem x = memory s x" if "own x = FreeBlk j b" for x b
      using same [of x] that \<open>j \<noteq> i\<close> by auto
  qed
  have live: "ptr_ok own' mem ((spec_pools a)[i := q]) w (ptrs s w) (arrays a w)" for w
    using own(4)
  proof (rule ptr_ok_agree)
    show "own' x = Live w \<and> mem x = memory s x" if "own x = Live w" for x using same [of x] that by auto
  qed (use block i in \<open>auto simp: nth_list_update\<close>)
  have new: "ptr_ok own' mem ((spec_pools a)[i := q]) v ptr (Some (i, \<lambda>_. 0))"
    using handed i bs by (auto simp: ptr_ok_def handed_def)
  have updated: "pool_ok own' mem j ((pools s)[i := p] ! j) ((spec_pools a)[i := q] ! j)" if "j < length (spec_pools a)" for j
    by (cases "j = i") (use i own(1) pool others that in auto)
  have "block_rel ((with_pool i p s)\<lparr>host := h, memory := mem, ptrs := (ptrs s)(v := ptr)\<rparr>) a'"
    by (rule block_relI [where own = own'])
      (use own(1) host updated live new in \<open>auto simp: a' with_pool_def\<close>)
  moreover have "ptr mod BlockAlignment = 0" using handed by (simp add: handed_def dvd_eq_mod_eq_0)
  ultimately show ?thesis using alloc by (intro exI conjI)
qed

lemma create_rel:
  assumes rel: "block_rel s a" and n: "pool_size_ok n"
  shows "\<exists>s' a'. block_exec allocPages (NewAllocator n) s = Some (s', None) \<and>
    block_spec (NewAllocator n) a = Some (a', None) \<and> block_rel s' a'"
proof -
  obtain own where own: "length (pools s) = length (spec_pools a)" "host_ok own (spec_left a) (host s)"
    "\<And>i. i < length (spec_pools a) \<Longrightarrow> pool_ok own (memory s) i (pools s ! i) (spec_pools a ! i)"
    "\<And>v. ptr_ok own (memory s) (spec_pools a) v (ptrs s v) (arrays a v)"
    using rel by (rule block_relE) (rule that)
  define b where "b = round_up n BlockAlignment"
  have b: "n \<le> b" "b < n + BlockAlignment" "BlockAlignment dvd b"
    unfolding b_def by (rule round_up_bounds; simp add: BlockAlignment_def)+
  have "aligned_nat n (2 ^ 4) = round_up n (2 ^ 4)"
    by (rule aligned_nat_round_up) (use n in \<open>simp add: pool_size_ok_def\<close>)
  then have al: "aligned_nat n BlockAlignment = b" by (simp add: b_def BlockAlignment_def)
  have req: "0 < b" "request_ok b" "request_ok (b * PreAllocateBlockCount)"
    using b n by (auto simp: pool_size_ok_def request_ok_def BlockAlignment_def PageSize_def PreAllocateBlockCount_def)
  let ?need = "pages (b * PreAllocateBlockCount)"
  let ?i = "length (spec_pools a)"
  let ?room = "if ?need \<le> spec_left a then ?need div b else 0"
  have "\<exists>r h own'. allocPages (b * PreAllocateBlockCount) (host s) = Some (r, h) \<and>
      host_ok own' (spec_left a - ?need) h \<and> room_ok own' ?i b ?room r 0 \<and>
      (\<forall>x. own' x \<noteq> own x \<longrightarrow> own x = Unused)"
  proof (cases "?need \<le> spec_left a")
    case True
    obtain r h where r: "allocPages (b * PreAllocateBlockCount) (host s) = Some (r, h)" "m_basePtr r \<noteq> 0"
      "BlockAlignment dvd m_basePtr r" "m_size r = ?need"
      "host_ok (give own (m_basePtr r) (m_size r) (Rest ?i)) (spec_left a - ?need) h"
      "owned own (m_basePtr r) (m_size r) Unused"
      using grow [OF own(2) req(3) True] by metis
    have "room_ok (give own (m_basePtr r) (m_size r) (Rest ?i)) ?i b ?room r 0"
      using r True by (simp add: room_ok_def)
    moreover have "own x = Unused" if "give own (m_basePtr r) (m_size r) (Rest ?i) x \<noteq> own x" for x
      using that r(6) by (auto simp: give_def owned_def split: if_splits)
    ultimately show ?thesis using r(1,5) by blast
  next
    case False
    then obtain h where "allocPages (b * PreAllocateBlockCount) (host s) = Some (null_region, h)"
      "host_ok own (spec_left a - ?need) h"
      using exhausted [of "host s" "b * PreAllocateBlockCount"] own(2) req(3) by (fastforce simp: host_ok_def)
    then show ?thesis using False by (intro exI [of _ null_region]) (auto simp: null_region_def room_ok_def owned_def)
  qed
  then obtain r h own' where r: "allocPages (b * PreAllocateBlockCount) (host s) = Some (r, h)"
    and host: "host_ok own' (spec_left a - ?need) h" and room: "room_ok own' ?i b ?room r 0"
    and only: "\<And>x. own' x \<noteq> own x \<Longrightarrow> own x = Unused" by blast
  have keep: "own' x = t" if "own x = t" "t \<noteq> Unused" for x t using only [of x] that by auto
  let ?p = "\<lparr>m_pages = [(r, 0)], m_blockSize = b, m_freeBlocksBegin = 0\<rparr>"
  let ?q = "\<lparr>spec_block = b, spec_free = 0, spec_room = ?room\<rparr>"
  have new: "pool_ok own' (memory s) ?i ?p ?q"
    using room req b(3) by (auto simp: pool_ok_def free_ok_def)
  have others: "pool_ok own' (memory s) j (pools s ! j) (spec_pools a ! j)" if "j < length (spec_pools a)" for j
    using own(3) [OF that] by (rule pool_ok_agree) (auto intro: keep)
  have live: "ptr_ok own' (memory s) (spec_pools a @ [?q]) w (ptrs s w) (arrays a w)" for w
    using own(4) by (rule ptr_ok_agree) (auto intro: keep simp: nth_append)
  let ?s = "s\<lparr>host := h, pools := pools s @ [?p]\<rparr>"
  let ?a = "a\<lparr>spec_left := spec_left a - ?need, spec_pools := spec_pools a @ [?q]\<rparr>"
  have "block_rel ?s ?a"
    by (rule block_relI [where own = own'])
      (use own(1) host new others live in \<open>auto simp: nth_append less_Suc_eq\<close>)
  moreover have "block_exec allocPages (NewAllocator n) s = Some (?s, None)"
    using r by (simp add: createFixedSizeBlockAllocator_def pool_create_def al)
  moreover have "block_spec (NewAllocator n) a = Some (?a, None)"
    using n by (simp add: b_def Let_def)
  ultimately show ?thesis by blast
qed

lemma free_rel:
  assumes rel: "block_rel s a" and i: "i < length (spec_pools a)" and v: "arrays a v = Some (i, f)"
  shows "block_rel (let (p, mem) = pool_free (ptrs s v) (pools s ! i) (memory s)
      in (with_pool i p s)\<lparr>memory := mem, ptrs := (ptrs s)(v := 0)\<rparr>)
    (a\<lparr>spec_pools := (spec_pools a)[i := (spec_pools a ! i)\<lparr>spec_free := spec_free (spec_pools a ! i) + 1\<rparr>],
       arrays := (arrays a)(v := None)\<rparr>)"
proof -
  obtain own where own: "length (pools s) = length (spec_pools a)" "host_ok own (spec_left a) (host s)"
    "\<And>i. i < length (spec_pools a) \<Longrightarrow> pool_ok own (memory s) i (pools s ! i) (spec_pools a ! i)"
    "\<And>v. ptr_ok own (memory s) (spec_pools a) v (ptrs s v) (arrays a v)"
    using rel by (rule block_relE) (rule that)
  define x p q where "x = ptrs s v" and "p = pools s ! i" and "q = spec_pools a ! i"
  let ?own = "give own x (m_blockSize p) (FreeBlk i x)"
  let ?mem = "(memory s)(x := m_freeBlocksBegin p)"
  let ?p = "p\<lparr>m_freeBlocksBegin := x\<rparr>" and ?q = "q\<lparr>spec_free := spec_free q + 1\<rparr>"
  have pool: "pool_ok own (memory s) i p q" using own(3) [OF i] by (simp add: p_def q_def)
  then have bs: "m_blockSize p = spec_block q" "0 < m_blockSize p" by (auto simp: pool_ok_def)
  have x: "x \<noteq> 0" "BlockAlignment dvd x" "owned own x (m_blockSize p) (Live v)"
    using own(4) [of v] bs(1) by (auto simp: ptr_ok_def v x_def q_def)
  have at: "own x = Live v" using x(3) bs(2) by (rule owned_first)
  have same: "?own y = own y \<and> ?mem y = memory s y" if "own y \<noteq> Live v" for y
    using that x(3) at by (auto simp: give_def owned_def)
  obtain bs' where chain: "length bs' = spec_free q" "free_ok own (memory s) i p bs'" using pool by (auto simp: pool_ok_def)
  have "free_ok ?own ?mem i p bs'" by (rule free_ok_agree [OF chain(2) bs(2)]) (use same in auto)
  moreover have "x \<notin> set bs'"
  proof
    assume "x \<in> set bs'"
    then have "owned own x (m_blockSize p) (FreeBlk i x)" using chain(2) by (simp add: free_ok_def)
    from owned_first [OF this bs(2)] show False using at by simp
  qed
  ultimately have "free_ok ?own ?mem i ?p (x # bs')" using x by (auto simp: free_ok_def)
  moreover obtain ps r off where "m_pages p = ps @ [(r, off)]" "room_ok own i (m_blockSize p) (spec_room q) r off"
    using pool by (auto simp: pool_ok_def)
  moreover have "room_ok ?own i (m_blockSize p) (spec_room q) r off"
    using \<open>room_ok own i _ _ r off\<close> by (rule room_ok_agree) (use same in auto)
  ultimately have new: "pool_ok ?own ?mem i ?p ?q"
    using pool chain(1) unfolding pool_ok_def by (auto intro!: exI [of _ "x # bs'"])
  have others: "pool_ok ?own ?mem j (pools s ! j) (spec_pools a ! j)" if "j < length (spec_pools a)" for j
    using own(3) [OF that] by (rule pool_ok_agree) (use same in auto)
  have live: "ptr_ok ?own ?mem ((spec_pools a)[i := ?q]) w (ptrs s w) (arrays a w)" if "w \<noteq> v" for w
    using own(4)
  proof (rule ptr_ok_agree)
    show "?own y = Live w \<and> ?mem y = memory s y" if "own y = Live w" for y using same [of y] that \<open>w \<noteq> v\<close> by auto
  qed (use i in \<open>auto simp: nth_list_update q_def\<close>)
  have updated: "pool_ok ?own ?mem j ((pools s)[i := ?p] ! j) ((spec_pools a)[i := ?q] ! j)"
    if "j < length (spec_pools a)" for j
    by (cases "j = i") (use i own(1) new others that in auto)
  have "host_ok ?own (spec_left a) (host s)" using own(2) x(3) by (rule host_ok_give) simp
  then show ?thesis
    unfolding pool_free_def with_pool_def Let_def prod.case x_def [symmetric] p_def [symmetric] q_def [symmetric]
    by (intro block_relI [where own = ?own]) (use own(1) updated live in \<open>auto simp: ptr_ok_def\<close>)
qed

lemma store_rel:
  assumes rel: "block_rel s a" and v: "arrays a v = Some (i, f)" and k: "8 * k + 8 \<le> spec_block (spec_pools a ! i)"
  shows "block_rel (s\<lparr>memory := (memory s)(ptrs s v + 8 * k := y)\<rparr>) (a\<lparr>arrays := (arrays a)(v \<mapsto> (i, f(k := y)))\<rparr>)"
    and "memory s (ptrs s v + 8 * k) = f k"
proof -
  obtain own where own: "length (pools s) = length (spec_pools a)" "host_ok own (spec_left a) (host s)"
    "\<And>i. i < length (spec_pools a) \<Longrightarrow> pool_ok own (memory s) i (pools s ! i) (spec_pools a ! i)"
    "\<And>v. ptr_ok own (memory s) (spec_pools a) v (ptrs s v) (arrays a v)"
    using rel by (rule block_relE) (rule that)
  let ?mem = "(memory s)(ptrs s v + 8 * k := y)"
  have v': "i < length (spec_pools a)" "owned own (ptrs s v) (spec_block (spec_pools a ! i)) (Live v)"
    "ptrs s v \<noteq> 0" "BlockAlignment dvd ptrs s v"
    "\<forall>k. 8 * k + 8 \<le> spec_block (spec_pools a ! i) \<longrightarrow> memory s (ptrs s v + 8 * k) = f k"
    using own(4) [of v] by (auto simp: ptr_ok_def v)
  then show "memory s (ptrs s v + 8 * k) = f k" using k by simp
  have at: "own (ptrs s v + 8 * k) = Live v" using v'(2) k by (simp add: owned_def)
  have pools: "pool_ok own ?mem j (pools s ! j) (spec_pools a ! j)" if "j < length (spec_pools a)" for j
    using own(3) [OF that] by (rule pool_ok_agree) (use at in auto)
  have live: "ptr_ok own ?mem (spec_pools a) w (ptrs s w) (arrays a w)" if "w \<noteq> v" for w
    using own(4) by (rule ptr_ok_agree) (use at that in auto)
  have "ptr_ok own ?mem (spec_pools a) v (ptrs s v) (Some (i, f(k := y)))" using v' by (auto simp: ptr_ok_def)
  then show "block_rel (s\<lparr>memory := ?mem\<rparr>) (a\<lparr>arrays := (arrays a)(v \<mapsto> (i, f(k := y)))\<rparr>)"
    by (intro block_relI [where own = own]) (use own pools live in auto)
qed

lemma pool_sizes:
  assumes "block_rel s a"
  shows "length (pools s) = length (spec_pools a)"
    and "i < length (spec_pools a) \<Longrightarrow> m_blockSize (pools s ! i) = spec_block (spec_pools a ! i)"
    and "arrays a v = None \<longleftrightarrow> ptrs s v = 0"
proof -
  obtain own where own: "length (pools s) = length (spec_pools a)"
    "\<And>i. i < length (spec_pools a) \<Longrightarrow> pool_ok own (memory s) i (pools s ! i) (spec_pools a ! i)"
    "\<And>v. ptr_ok own (memory s) (spec_pools a) v (ptrs s v) (arrays a v)"
    using assms by (rule block_relE) (rule that)
  show "length (pools s) = length (spec_pools a)" by (rule own(1))
  show "m_blockSize (pools s ! i) = spec_block (spec_pools a ! i)" if "i < length (spec_pools a)"
    using own(2) [OF that] by (simp add: pool_ok_def)
  show "arrays a v = None \<longleftrightarrow> ptrs s v = 0" using own(3) [of v] by (auto simp: ptr_ok_def split: option.splits)
qed

lemma alloc_step:
  assumes rel: "block_rel s a" and spec: "spec_alloc i v n align a = Some a'"
  shows "\<exists>s'. block_exec allocPages (Alloc i v n align) s = Some (s', None) \<and> block_rel s' a'"
    and "\<exists>s'. block_exec allocPages (Realloc i v n align) s = Some (s', None) \<and> block_rel s' a'"
proof -
  have ok: "i < length (pools s)" "n \<le> m_blockSize (pools s ! i)" "checkAllocAlignment align BlockAlignment" "ptrs s v = 0"
    using spec pool_sizes [OF rel] by (auto simp: spec_alloc_def bind_eq_Some_conv split: if_splits)
  obtain ptr p mem h where "pool_allocate allocPages (pools s ! i) (memory s) (host s) = Some (ptr, p, mem, h)"
    "ptr mod BlockAlignment = 0" "block_rel ((with_pool i p s)\<lparr>host := h, memory := mem, ptrs := (ptrs s)(v := ptr)\<rparr>) a'"
    using alloc_rel [OF rel spec] by (elim exE conjE) (rule that)
  then show "\<exists>s'. block_exec allocPages (Alloc i v n align) s = Some (s', None) \<and> block_rel s' a'"
    "\<exists>s'. block_exec allocPages (Realloc i v n align) s = Some (s', None) \<and> block_rel s' a'"
    using ok by (auto simp: block_alloc_def block_realloc_def)
qed

lemma block_step:
  assumes rel: "block_rel s a" and spec: "block_spec x a = Some (a', r)"
  shows "\<exists>s'. block_exec allocPages x s = Some (s', r) \<and> block_rel s' a'"
proof (cases x)
  case (NewAllocator n)
  then have "pool_size_ok n" using spec by (simp split: if_splits)
  then show ?thesis using create_rel [OF rel, of n] spec NewAllocator by auto
next
  case (Alloc i v n align)
  then have "spec_alloc i v n align a = Some a'" "r = None" using spec by (auto simp: bind_eq_Some_conv)
  then show ?thesis using alloc_step(1) [OF rel] Alloc by blast
next
  case (Realloc i v n align)
  show ?thesis
  proof (cases "arrays a v")
    case None
    then have "spec_alloc i v n align a = Some a'" "r = None" using spec Realloc by (auto simp: bind_eq_Some_conv)
    then show ?thesis using alloc_step(2) [OF rel] Realloc by blast
  next
    case (Some y)
    then have ok: "i < length (spec_pools a)" "n \<le> spec_block (spec_pools a ! i)"
      "checkAllocAlignment align BlockAlignment" "a' = a" "r = None"
      using spec Realloc by (auto split: if_splits)
    have "ptrs s v \<noteq> 0" using pool_sizes(3) [OF rel, of v] Some by simp
    moreover have "with_pool i (pools s ! i) s\<lparr>host := host s, memory := memory s, ptrs := (ptrs s)(v := ptrs s v)\<rparr> = s"
      by (simp add: with_pool_def)
    ultimately show ?thesis using ok pool_sizes(1,2) [OF rel] Realloc rel by (auto simp: block_realloc_def)
  qed
next
  case (Free i v n align)
  have ok: "i < length (spec_pools a)" "n = UnspecifiedValue \<or> n \<le> spec_block (spec_pools a ! i)"
    "checkAllocAlignment align BlockAlignment"
    using spec Free by (auto simp: Let_def split: if_splits)
  show ?thesis
  proof (cases "arrays a v")
    case None
    then have "ptrs s v = 0" using pool_sizes(3) [OF rel] by blast
    moreover have "with_pool i (pools s ! i) s\<lparr>memory := memory s, ptrs := (ptrs s)(v := 0)\<rparr> = s"
      using \<open>ptrs s v = 0\<close> by (simp add: with_pool_def fun_upd_idem)
    ultimately show ?thesis using ok pool_sizes(1,2) [OF rel] Free rel spec None by (auto simp: block_free_def)
  next
    case (Some y)
    obtain j f where y: "y = (j, f)" by (cases y)
    have "j = i" using spec Free ok Some y by (auto simp: Let_def split: if_splits)
    moreover have "ptrs s v \<noteq> 0" using pool_sizes(3) [OF rel, of v] Some by simp
    ultimately show ?thesis
      using free_rel [OF rel ok(1), of v f] ok pool_sizes(1,2) [OF rel] Free spec Some y
      by (auto simp: block_free_def Let_def split_def)
  qed
next
  case (Store v k y)
  then obtain i f where "arrays a v = Some (i, f)" "8 * k + 8 \<le> spec_block (spec_pools a ! i)"
    using spec by (auto split: option.splits if_splits)
  then show ?thesis using store_rel(1) [OF rel] Store spec by auto
next
  case (Load v k)
  then obtain i f where "arrays a v = Some (i, f)" "8 * k + 8 \<le> spec_block (spec_pools a ! i)"
    using spec by (auto split: option.splits if_splits)
  then show ?thesis using store_rel(2) [OF rel] Load spec rel by auto
qed

end

text \<open>Over the virtual memory of the host.\<close>

interpretation block_pools: implements "block_exec vm_allocPages" block_spec host.block_rel
  by unfold_locales (rule host.block_step)

lemma block_rel_start:
  assumes "vm_valid m"
  shows "host.block_rel (block_start m) (spec_start (vm_left m))"
proof -
  have "host.host_ok (\<lambda>_. Unused) (vm_left m) m" using assms by (simp add: host.host_ok_def)
  then show ?thesis
    by (intro host.block_relI [where own = "\<lambda>_. Unused"]) (auto simp: block_start_def spec_start_def ptr_ok_def)
qed

lemma vm_create_valid:
  "vm_create base n = Some m \<Longrightarrow> PageSize dvd base \<Longrightarrow>
    vm_valid m \<and> vm_left m = aligned_nat n HostGranularity \<and> vm_top m = base"
  by (auto simp: vm_create_def vm_valid_def vm_left_def vm_top_def split: if_splits)

section \<open>Properties\<close>


definition block_demo :: "block_op list" where
  "block_demo = [NewAllocator 100, NewAllocator 3000, Alloc 0 0 100 8, Alloc 1 1 3000 16, Store 0 0 7, Store 1 0 8,
     Free 0 0 100 8, Alloc 0 2 50 UnspecifiedValue, Load 2 0, Store 2 13 9, Realloc 0 2 60 8, Realloc 0 3 1 1,
     Load 2 13, Load 1 0]"


end
