(* ===== verification/RuntimeStack.thy ===== *)
theory RuntimeStack
  imports BlockAllocator
begin

text \<open>
  The stack allocator of a thread, \<open>src/memory/runtime_stack.cpp\<close>: allocations bump an offset, nothing is
  reused until the innermost \<open>RuntimeStackGuard\<close> ends and puts the offset back.  The build is the one with
  assertions and debug checks.
\<close>

section \<open>The allocator\<close>

record stack_allocator =
  m_pageAllocator :: vm
  m_allocatedRegion :: mem_region
  m_allocOffset :: nat

definition MaxAlignment :: nat where "MaxAlignment = 16"

text \<open>The constructor: the host reserves \<open>kb\<close> kilobytes at \<open>base\<close>.\<close>

definition stack_create :: "addr \<Rightarrow> nat \<Rightarrow> stack_allocator option" where
  "stack_create base kb = do {
     h \<leftarrow> vm_create base (kb * 1024);
     Some \<lparr>m_pageAllocator = h, m_allocatedRegion = null_region, m_allocOffset = 0\<rparr> }"

definition stack_alloc :: "size_t \<Rightarrow> size_t \<Rightarrow> stack_allocator \<Rightarrow> (addr \<times> stack_allocator) option" where
  "stack_alloc n targetAlignment A = do {
     require (checkAllocAlignment targetAlignment MaxAlignment);
     let allocationSize = aligned_nat n MaxAlignment;
     let newAllocOffset = m_allocOffset A + allocationSize;
     A \<leftarrow>
       (if \<not> region_given (m_allocatedRegion A) then do {
          (r, h) \<leftarrow> vm_allocPages allocationSize (m_pageAllocator A);
          require (region_given r);
          Some (A\<lparr>m_allocatedRegion := r, m_pageAllocator := h\<rparr>) }
        else if m_size (m_allocatedRegion A) < newAllocOffset then do {
          (nextRegion, h) \<leftarrow> vm_allocPages allocationSize (m_pageAllocator A);
          require (region_given nextRegion);
          adj \<leftarrow> isAdjacent (m_allocatedRegion A) nextRegion;
          require adj;
          (r, _) \<leftarrow> region_append (m_allocatedRegion A) nextRegion;
          Some (A\<lparr>m_allocatedRegion := r, m_pageAllocator := h\<rparr>) }
        else Some A);
     let newPtr = m_basePtr (m_allocatedRegion A) + m_allocOffset A;
     let A = A\<lparr>m_allocOffset := newAllocOffset\<rparr>;
     require (newPtr mod MaxAlignment = 0);
     require (m_allocOffset A mod MaxAlignment = 0);
     Some (newPtr, A) }"

text \<open>\<open>free\<close> only checks that the pointer is of this stack.\<close>

definition stack_free_check :: "addr \<Rightarrow> size_t \<Rightarrow> stack_allocator \<Rightarrow> unit option" where
  "stack_free_check ptr alignment A = do {
     require (checkAllocAlignment alignment MaxAlignment);
     require (ptr = 0 \<or> (m_basePtr (m_allocatedRegion A) \<le> ptr \<and>
        ptr < m_basePtr (m_allocatedRegion A) + m_size (m_allocatedRegion A))) }"

definition stack_restore :: "nat \<Rightarrow> stack_allocator \<Rightarrow> word_memory \<Rightarrow> (stack_allocator \<times> word_memory) option" where
  "stack_restore offset A mem = do {
     require (m_allocOffset A \<ge> offset);
     let n = m_allocOffset A - offset;
     Some (A\<lparr>m_allocOffset := offset\<rparr>,
           if n > 0 then fill_zero (m_basePtr (m_allocatedRegion A) + offset) n mem else mem) }"

section \<open>Guards\<close>

text \<open>
  The guards of a thread, the current one first (\<open>s_currentStackGuard\<close> and its chain of \<open>m_prev\<close>).  An
  allocator is named by the number of guards below the one that created it; the guards inside it share it.
  \<open>tracked\<close> is \<open>s_trackedAllocations\<close>, pointers with the start of the guard they were allocated under.
\<close>

record stack_guard =
  m_allocator :: "nat option"
  m_top :: nat

record stack_state =
  guards :: "stack_guard list"
  allocators :: "nat \<Rightarrow> stack_allocator option"
  tracked :: "(addr \<times> nat) list"
  words :: word_memory
  pointers :: "nat \<Rightarrow> addr"

definition current_allocator :: "stack_state \<Rightarrow> (nat \<times> stack_allocator) option" where
  "current_allocator s =
     (case guards s of
        [] \<Rightarrow> None
      | g # _ \<Rightarrow> (case m_allocator g of None \<Rightarrow> None | Some i \<Rightarrow> map_option (Pair i) (allocators s i)))"

definition notifyAllocation :: "addr \<Rightarrow> stack_state \<Rightarrow> stack_state option" where
  "notifyAllocation ptr s =
     (case guards s of
        [] \<Rightarrow> Some s
      | g # _ \<Rightarrow> do {
          require (ptr \<notin> fst ` set (tracked s));
          Some (s\<lparr>tracked := (ptr, m_top g) # tracked s\<rparr>) })"

definition notifyFree :: "addr \<Rightarrow> stack_state \<Rightarrow> stack_state option" where
  "notifyFree ptr s = do {
     require (length (filter (\<lambda>e. fst e = ptr) (tracked s)) = 1);
     Some (s\<lparr>tracked := filter (\<lambda>e. fst e \<noteq> ptr) (tracked s)\<rparr>) }"

definition checkNonFreedPointers :: "nat \<Rightarrow> stack_state \<Rightarrow> stack_state option" where
  "checkNonFreedPointers marker s = do {
     require (length (filter (\<lambda>e. snd e = marker) (tracked s)) = 0);
     Some (s\<lparr>tracked := filter (\<lambda>e. snd e \<noteq> marker) (tracked s)\<rparr>) }"

text \<open>The two constructors of \<open>RuntimeStackGuard\<close> and its destructor.\<close>

definition guard_nested :: "stack_state \<Rightarrow> stack_state" where
  "guard_nested s =
     (let top = (case current_allocator s of None \<Rightarrow> 0 | Some (_, A) \<Rightarrow> m_allocOffset A);
          allocator = (case guards s of [] \<Rightarrow> None | prev # _ \<Rightarrow> m_allocator prev)
      in s\<lparr>guards := \<lparr>m_allocator = allocator, m_top = top\<rparr> # guards s\<rparr>)"

definition guard_init :: "addr \<Rightarrow> nat \<Rightarrow> stack_state \<Rightarrow> stack_state option" where
  "guard_init base kb s = do {
     A \<leftarrow> stack_create base kb;
     let i = length (guards s);
     Some (s\<lparr>guards := \<lparr>m_allocator = Some i, m_top = m_allocOffset A\<rparr> # guards s,
             allocators := (allocators s)(i \<mapsto> A)\<rparr>) }"

definition release_allocator :: "nat \<Rightarrow> stack_state \<Rightarrow> stack_state" where
  "release_allocator i s =
     (if Some i \<in> m_allocator ` set (guards s) then s else s\<lparr>allocators := (allocators s)(i := None)\<rparr>)"

definition guard_destroy :: "stack_state \<Rightarrow> stack_state option" where
  "guard_destroy s =
     (case guards s of
        [] \<Rightarrow> None
      | g # prev \<Rightarrow> do {
          s \<leftarrow> checkNonFreedPointers (m_top g) s;
          (case m_allocator g of
             None \<Rightarrow> Some (s\<lparr>guards := prev\<rparr>)
           | Some i \<Rightarrow> do {
               A \<leftarrow> allocators s i;
               (A, mem) \<leftarrow> stack_restore (m_top g) A (words s);
               Some (release_allocator i (s\<lparr>allocators := (allocators s)(i \<mapsto> A), words := mem, guards := prev\<rparr>)) }) })"

datatype stack_op =
    InitStack addr nat | Scope | Leave
  | StackAlloc nat size_t size_t | StackFree nat size_t | StackStore nat nat nat | StackLoad nat nat | Offset

text \<open>
  A thread runs guards and allocates through \<open>GetRtStackAllocator\<close>.  Outside every stack that is the default
  allocator, which is not modelled.  The address of \<open>InitStack\<close> is the one the operating system chooses.
\<close>

fun stack_exec :: "stack_op \<Rightarrow> stack_state \<Rightarrow> (stack_state \<times> nat option) option" where
  "stack_exec (InitStack base kb) s = do { s \<leftarrow> guard_init base kb s; Some (s, None) }"
| "stack_exec Scope s = Some (guard_nested s, None)"
| "stack_exec Leave s = do { s \<leftarrow> guard_destroy s; Some (s, None) }"
| "stack_exec (StackAlloc v n align) s = do {
     (i, A) \<leftarrow> current_allocator s;
     (ptr, A) \<leftarrow> stack_alloc n align A;
     s \<leftarrow> notifyAllocation ptr s;
     Some (s\<lparr>allocators := (allocators s)(i \<mapsto> A), pointers := (pointers s)(v := ptr)\<rparr>, None) }"
| "stack_exec (StackFree v align) s = do {
     (i, A) \<leftarrow> current_allocator s;
     stack_free_check (pointers s v) align A;
     s \<leftarrow> (if pointers s v = 0 then Some s else notifyFree (pointers s v) s);
     Some (s\<lparr>pointers := (pointers s)(v := 0)\<rparr>, None) }"
| "stack_exec (StackStore v k x) s = Some (s\<lparr>words := (words s)(pointers s v + 8 * k := x)\<rparr>, None)"
| "stack_exec (StackLoad v k) s = Some (s, Some (words s (pointers s v + 8 * k)))"
| "stack_exec Offset s = Some (s, map_option (\<lambda>(_, A). m_allocOffset A) (current_allocator s))"

definition stack_start :: "word_memory \<Rightarrow> stack_state" where
  "stack_start mem = \<lparr>guards = [], allocators = (\<lambda>_. None), tracked = [], words = mem, pointers = (\<lambda>_. 0)\<rparr>"

section \<open>The specification\<close>

text \<open>
  A thread has stacks, the current one first, and a stack has scopes, the innermost first, each with the bytes
  it has allocated.  \<open>st_range\<close> is the address range of the stack; the scopes outside every stack have none.  A
  block is an array whose words are unknown until they are written.  It remembers its stack and its scope (both
  counted from the outermost) and the offset at which its scope began.
\<close>

record spec_stack =
  st_range :: "(addr \<times> size_t) option"
  scopes :: "nat list"

record block =
  b_stack :: nat
  b_scope :: nat
  b_start :: nat
  b_size :: nat
  b_words :: "nat \<rightharpoonup> nat"

record spec_thread =
  stacks :: "spec_stack list"
  blocks :: "nat \<rightharpoonup> block"
  vars :: "nat list"

definition stack_bytes :: "nat \<Rightarrow> nat" where
  "stack_bytes n = round_up n MaxAlignment"

definition disjoint_ranges :: "addr \<times> size_t \<Rightarrow> addr \<times> size_t \<Rightarrow> bool" where
  "disjoint_ranges x y \<longleftrightarrow> fst x + snd x \<le> fst y \<or> fst y + snd y \<le> fst x"

text \<open>
  The allocation is promised when the stack has room for the block and for the pages a request of its size takes.
  A block is freed while its stack is the current one, and a scope is left when its blocks are freed.  The
  condition of \<open>Leave\<close> is stronger, by an obligation nobody states: no live block of an outer stack may have been
  allocated in a scope that began at the same offset either.
\<close>

fun stack_spec :: "stack_op \<Rightarrow> spec_thread \<Rightarrow> (spec_thread \<times> nat option) option" where
  "stack_spec (InitStack base kb) a = do {
     require (0 < kb \<and> kb \<le> 2 ^ 32 \<and> base \<noteq> 0 \<and> PageSize dvd base);
     let r = (base, round_up (kb * 1024) HostGranularity);
     require (\<forall>st\<in>set (stacks a). case st_range st of None \<Rightarrow> True | Some r' \<Rightarrow> disjoint_ranges r r');
     Some (a\<lparr>stacks := \<lparr>st_range = Some r, scopes = [0]\<rparr> # stacks a\<rparr>, None) }"
| "stack_spec Scope a =
     Some (a\<lparr>stacks := (case stacks a of
              [] \<Rightarrow> [\<lparr>st_range = None, scopes = [0]\<rparr>]
            | st # sts \<Rightarrow> st\<lparr>scopes := 0 # scopes st\<rparr> # sts)\<rparr>, None)"
| "stack_spec Leave a =
     (case stacks a of
        [] \<Rightarrow> None
      | st # sts \<Rightarrow> do {
          require (\<forall>v\<in>set (vars a). case blocks a v of None \<Rightarrow> True | Some b \<Rightarrow> b_start b \<noteq> sum_list (tl (scopes st)));
          Some (a\<lparr>stacks := (if tl (scopes st) = [] then sts else st\<lparr>scopes := tl (scopes st)\<rparr> # sts)\<rparr>, None) })"
| "stack_spec (StackAlloc v n align) a =
     (case stacks a of
        [] \<Rightarrow> None
      | st # sts \<Rightarrow>
          (case st_range st of
             None \<Rightarrow> None
           | Some (base, cap) \<Rightarrow> do {
               require (checkAllocAlignment align MaxAlignment \<and> blocks a v = None \<and> 0 < n \<and> n \<le> 2 ^ 48);
               require (sum_list (scopes st) + stack_bytes n + pages (stack_bytes n) \<le> cap);
               Some (a\<lparr>stacks := st\<lparr>scopes := (hd (scopes st) + stack_bytes n) # tl (scopes st)\<rparr> # sts,
                       vars := v # vars a,
                       blocks := (blocks a)(v \<mapsto>
                         \<lparr>b_stack = length (stacks a), b_scope = length (scopes st), b_start = sum_list (tl (scopes st)),
                          b_size = stack_bytes n, b_words = Map.empty\<rparr>)\<rparr>, None) }))"
| "stack_spec (StackFree v align) a =
     (case stacks a of
        [] \<Rightarrow> None
      | st # sts \<Rightarrow> do {
          require (st_range st \<noteq> None \<and> checkAllocAlignment align MaxAlignment);
          require (case blocks a v of None \<Rightarrow> True | Some b \<Rightarrow> b_stack b = length (stacks a));
          Some (a\<lparr>blocks := (blocks a)(v := None)\<rparr>, None) })"
| "stack_spec (StackStore v k x) a =
     (case blocks a v of
        None \<Rightarrow> None
      | Some b \<Rightarrow> do {
          require (8 * k + 8 \<le> b_size b);
          Some (a\<lparr>blocks := (blocks a)(v \<mapsto> b\<lparr>b_words := (b_words b)(k \<mapsto> x)\<rparr>)\<rparr>, None) })"
| "stack_spec (StackLoad v k) a = do {
     b \<leftarrow> blocks a v;
     x \<leftarrow> b_words b k;
     Some (a, Some x) }"
| "stack_spec Offset a =
     Some (a, (case stacks a of [] \<Rightarrow> None | st # _ \<Rightarrow> (case st_range st of None \<Rightarrow> None | Some _ \<Rightarrow> Some (sum_list (scopes st)))))"

definition spec_thread_start :: spec_thread where
  "spec_thread_start = \<lparr>stacks = [], blocks = Map.empty, vars = []\<rparr>"

section \<open>What the stack keeps\<close>

fun scope_guards :: "nat option \<Rightarrow> nat list \<Rightarrow> stack_guard list" where
  "scope_guards i [] = []"
| "scope_guards i (u # us) = \<lparr>m_allocator = i, m_top = sum_list us\<rparr> # scope_guards i us"

definition depth :: "spec_stack list \<Rightarrow> nat" where
  "depth sts = sum_list (map (\<lambda>st. length (scopes st)) sts)"

fun guards_of :: "spec_stack list \<Rightarrow> stack_guard list" where
  "guards_of [] = []"
| "guards_of (st # sts) =
     scope_guards (if st_range st = None then None else Some (depth sts)) (scopes st) @ guards_of sts"

fun all_stacks :: "(spec_stack \<Rightarrow> spec_stack list \<Rightarrow> bool) \<Rightarrow> spec_stack list \<Rightarrow> bool" where
  "all_stacks P [] \<longleftrightarrow> True"
| "all_stacks P (st # sts) \<longleftrightarrow> P st sts \<and> all_stacks P sts"

text \<open>An allocator whose stack has used \<open>off\<close> bytes: the region is what the pages handed out cover.\<close>

definition alloc_ok :: "stack_allocator \<Rightarrow> addr \<Rightarrow> size_t \<Rightarrow> nat \<Rightarrow> bool" where
  "alloc_ok A base cap off \<longleftrightarrow> (\<exists>h. m_pageAllocator A = h \<and> vm_valid h \<and> vm_base h = base \<and> vm_size h = cap \<and>
     vm_offset h \<le> cap \<and> off \<le> vm_offset h \<and> MaxAlignment dvd off \<and> m_allocOffset A = off \<and>
     m_allocatedRegion A = (if vm_offset h = 0 then null_region else \<lparr>m_basePtr = base, m_size = vm_offset h\<rparr>))"

definition placed :: "spec_stack \<Rightarrow> block \<Rightarrow> addr \<Rightarrow> bool" where
  "placed st b x \<longleftrightarrow>
     (case st_range st of None \<Rightarrow> False
      | Some (base, cap) \<Rightarrow> 1 \<le> b_scope b \<and> b_scope b \<le> length (scopes st) \<and>
          b_start b = sum_list (drop (Suc (length (scopes st)) - b_scope b) (scopes st)) \<and>
          base \<le> x \<and> x + b_size b \<le> base + sum_list (drop (length (scopes st) - b_scope b) (scopes st)))"

definition apart_ranges :: "(addr \<times> size_t) option \<Rightarrow> (addr \<times> size_t) option \<Rightarrow> bool" where
  "apart_ranges x y \<longleftrightarrow> (case (x, y) of (Some r, Some r') \<Rightarrow> disjoint_ranges r r' | _ \<Rightarrow> True)"

definition stack_ok :: "(nat \<Rightarrow> stack_allocator option) \<Rightarrow> (nat \<rightharpoonup> block) \<Rightarrow> (nat \<Rightarrow> addr) \<Rightarrow> spec_stack \<Rightarrow> spec_stack list \<Rightarrow> bool" where
  "stack_ok al bl xs st sts \<longleftrightarrow> scopes st \<noteq> [] \<and> (\<forall>u\<in>set (scopes st). MaxAlignment dvd u) \<and>
     (case st_range st of None \<Rightarrow> sum_list (scopes st) = 0
      | Some (base, cap) \<Rightarrow> \<exists>A. al (depth sts) = Some A \<and> alloc_ok A base cap (sum_list (scopes st))) \<and>
     (\<forall>st'\<in>set sts. apart_ranges (st_range st) (st_range st')) \<and>
     (\<forall>v b. bl v = Some b \<longrightarrow> b_stack b = Suc (length sts) \<longrightarrow> placed st b (xs v))"

definition var_ok :: "word_memory \<Rightarrow> nat \<Rightarrow> addr \<Rightarrow> block option \<Rightarrow> bool" where
  "var_ok mem n x bl \<longleftrightarrow>
     (case bl of None \<Rightarrow> x = 0
      | Some b \<Rightarrow> x \<noteq> 0 \<and> MaxAlignment dvd x \<and> 0 < b_size b \<and> 1 \<le> b_stack b \<and> b_stack b \<le> n \<and>
          (\<forall>k w. b_words b k = Some w \<longrightarrow> 8 * k + 8 \<le> b_size b \<and> mem (x + 8 * k) = w))"

definition apart :: "(nat \<rightharpoonup> block) \<Rightarrow> (nat \<Rightarrow> addr) \<Rightarrow> bool" where
  "apart bl xs \<longleftrightarrow> (\<forall>v w b c. v \<noteq> w \<longrightarrow> bl v = Some b \<longrightarrow> bl w = Some c \<longrightarrow>
     disjoint_ranges (xs v, b_size b) (xs w, b_size c))"

definition tracked_ok :: "(addr \<times> nat) list \<Rightarrow> (nat \<rightharpoonup> block) \<Rightarrow> (nat \<Rightarrow> addr) \<Rightarrow> bool" where
  "tracked_ok es bl xs \<longleftrightarrow> distinct (map fst es) \<and>
     (\<forall>e. e \<in> set es \<longleftrightarrow> (\<exists>v b. bl v = Some b \<and> e = (xs v, b_start b)))"

definition thread_rel :: "stack_state \<Rightarrow> spec_thread \<Rightarrow> bool" where
  "thread_rel s a \<longleftrightarrow> guards s = guards_of (stacks a) \<and>
     all_stacks (stack_ok (allocators s) (blocks a) (pointers s)) (stacks a) \<and>
     (\<forall>v. var_ok (words s) (length (stacks a)) (pointers s v) (blocks a v)) \<and>
     apart (blocks a) (pointers s) \<and> tracked_ok (tracked s) (blocks a) (pointers s) \<and>
     dom (blocks a) \<subseteq> set (vars a)"

lemma all_stacks_mono:
  assumes "all_stacks P sts"
    and "\<And>st post. length post < length sts \<Longrightarrow> depth (st # post) \<le> depth sts \<Longrightarrow> st \<in> set sts \<Longrightarrow>
      P st post \<Longrightarrow> Q st post"
  shows "all_stacks Q sts"
  using assms
proof (induction sts)
  case (Cons st sts)
  have "depth sts \<le> depth (st # sts)" by (simp add: depth_def)
  then have "all_stacks Q sts" using Cons by (force intro: Cons.IH)
  then show ?case using Cons by simp
qed simp

lemma all_stacks_at:
  assumes "all_stacks P sts" "1 \<le> k" "k \<le> length sts"
  shows "\<exists>st post. st \<in> set sts \<and> Suc (length post) = k \<and> P st post"
  using assms by (induction sts) (auto simp: le_Suc_eq)

lemma length_scope_guards [simp]: "length (scope_guards i us) = length us"
  by (induction us) auto

lemma length_guards_of: "length (guards_of sts) = depth sts"
  by (induction sts) (auto simp: depth_def)

lemma depth_Cons [simp]: "depth (st # sts) = length (scopes st) + depth sts"
  by (simp add: depth_def)

lemma scope_guards_allocator: "g \<in> set (scope_guards i us) \<Longrightarrow> m_allocator g = i"
  by (induction us) auto

lemma guards_of_allocator:
  "all_stacks (\<lambda>st post. scopes st \<noteq> []) sts \<Longrightarrow> g \<in> set (guards_of sts) \<Longrightarrow> m_allocator g = Some i \<Longrightarrow> i < depth sts"
  by (induction sts) (auto dest!: scope_guards_allocator split: if_splits)

section \<open>Allocation in one stack\<close>

lemma stack_bytes_bounds: "n \<le> stack_bytes n" "stack_bytes n < n + 16" "MaxAlignment dvd stack_bytes n"
  unfolding stack_bytes_def MaxAlignment_def by (rule round_up_bounds; simp)+

lemma stack_alloc_ok:
  assumes ok: "alloc_ok A base cap off" and align: "checkAllocAlignment align MaxAlignment"
    and n: "0 < n" "n \<le> 2 ^ 48" and fits: "off + stack_bytes n + pages (stack_bytes n) \<le> cap"
  shows "\<exists>A'. stack_alloc n align A = Some (base + off, A') \<and> alloc_ok A' base cap (off + stack_bytes n)"
proof -
  obtain h where h: "m_pageAllocator A = h" "vm_valid h" "vm_base h = base" "vm_size h = cap" "vm_offset h \<le> cap"
    "off \<le> vm_offset h" "MaxAlignment dvd off" "m_allocOffset A = off"
    "m_allocatedRegion A = (if vm_offset h = 0 then null_region else \<lparr>m_basePtr = base, m_size = vm_offset h\<rparr>)"
    using ok by (auto simp: alloc_ok_def)
  let ?b = "stack_bytes n"
  have "aligned_nat n (2 ^ 4) = round_up n (2 ^ 4)" by (rule aligned_nat_round_up) (use n in simp)
  then have al: "aligned_nat n MaxAlignment = ?b" by (simp add: stack_bytes_def MaxAlignment_def)
  have req: "request_ok ?b" using n stack_bytes_bounds(1,2) [of n] by (auto simp: request_ok_def PageSize_def)
  have b: "?b \<le> pages ?b" by (rule pages_bounds(1))
  have page: "MaxAlignment dvd x" if "PageSize dvd x" for x
    using dvd_trans [OF _ that] by (simp add: MaxAlignment_def PageSize_def)
  have base: "base \<noteq> 0" "MaxAlignment dvd base" using h(2,3) page by (auto simp: vm_valid_def)
  have aligned: "(base + off) mod MaxAlignment = 0" "(off + ?b) mod MaxAlignment = 0"
    using base(2) h(7) stack_bytes_bounds(3) [of n] by (simp_all add: dvd_eq_mod_eq_0 [symmetric] dvd_add)
  let ?h = "h\<lparr>vm_offset := vm_offset h + pages ?b, vm_commited := vm_offset h + pages ?b\<rparr>"
  have grown: "vm_allocPages ?b h = Some (\<lparr>m_basePtr = base + vm_offset h, m_size = pages ?b\<rparr>, ?h)"
    "vm_valid ?h" if "vm_offset h < off + ?b"
  proof -
    have fit: "pages ?b \<le> vm_left h" using that fits h(4) by (simp add: vm_left_def)
    show "vm_allocPages ?b h = Some (\<lparr>m_basePtr = base + vm_offset h, m_size = pages ?b\<rparr>, ?h)"
      using vm_allocPages_fits [OF h(2) req fit] h(3) by (simp add: vm_top_def)
    show "vm_valid ?h" using h(2) pages_bounds(3) [of ?b] by (auto simp: vm_valid_def)
  qed
  show ?thesis
  proof (cases "vm_offset h < off + ?b")
    case True
    note g = grown [OF True]
    let ?A = "A\<lparr>m_allocatedRegion := \<lparr>m_basePtr = base, m_size = vm_offset h + pages ?b\<rparr>, m_pageAllocator := ?h,
      m_allocOffset := off + ?b\<rparr>"
    have "alloc_ok ?A base cap (off + ?b)"
      using h g(2) True fits b req aligned(2) by (auto simp: alloc_ok_def request_ok_def dvd_eq_mod_eq_0)
    moreover have "stack_alloc n align A = Some (base + off, ?A)"
    proof (cases "vm_offset h = 0")
      case True
      then show ?thesis
        using h align al g(1) base aligned by (simp add: stack_alloc_def region_given_def null_region_def Let_def)
    next
      case False
      note step = region_append_next [of "\<lparr>m_basePtr = base, m_size = vm_offset h\<rparr>" "\<lparr>m_basePtr = base + vm_offset h, m_size = pages ?b\<rparr>"]
      show ?thesis
        using False True h align al g(1) base aligned step by (simp add: stack_alloc_def region_given_def Let_def)
    qed
    ultimately show ?thesis by blast
  next
    case False
    then have pos: "vm_offset h \<noteq> 0" using req by (auto simp: request_ok_def)
    let ?A = "A\<lparr>m_allocOffset := off + ?b\<rparr>"
    have "alloc_ok ?A base cap (off + ?b)" using h False pos aligned(2) by (auto simp: alloc_ok_def dvd_eq_mod_eq_0)
    moreover have "stack_alloc n align A = Some (base + off, ?A)"
      using h align al False pos base aligned by (simp add: stack_alloc_def region_given_def Let_def)
    ultimately show ?thesis by blast
  qed
qed

section \<open>The current stack\<close>

lemma thread_relD:
  assumes "thread_rel s a"
  shows "guards s = guards_of (stacks a)" "all_stacks (stack_ok (allocators s) (blocks a) (pointers s)) (stacks a)"
    "var_ok (words s) (length (stacks a)) (pointers s v) (blocks a v)"
    "apart (blocks a) (pointers s)" "tracked_ok (tracked s) (blocks a) (pointers s)" "dom (blocks a) \<subseteq> set (vars a)"
  using assms by (auto simp: thread_rel_def)

lemma tracked_iff:
  "thread_rel s a \<Longrightarrow> e \<in> set (tracked s) \<longleftrightarrow> (\<exists>v b. blocks a v = Some b \<and> e = (pointers s v, b_start b))"
  using thread_relD(5) [of s a] unfolding tracked_ok_def by blast

lemma current_some:
  assumes "thread_rel s a" "stacks a = st # sts" "st_range st = Some (base, cap)"
  obtains A where "current_allocator s = Some (depth sts, A)" "allocators s (depth sts) = Some A"
    "alloc_ok A base cap (sum_list (scopes st))"
proof -
  have g: "guards s = scope_guards (Some (depth sts)) (scopes st) @ guards_of sts"
    and ok: "stack_ok (allocators s) (blocks a) (pointers s) st sts"
    using thread_relD(1,2) [OF assms(1)] assms(2,3) by auto
  obtain A where A: "allocators s (depth sts) = Some A" "alloc_ok A base cap (sum_list (scopes st))" "scopes st \<noteq> []"
    using ok assms(3) by (auto simp: stack_ok_def)
  then have "current_allocator s = Some (depth sts, A)"
    using g by (cases "scopes st") (auto simp: current_allocator_def)
  then show ?thesis using A that by blast
qed

lemma current_none:
  assumes "thread_rel s a" "stacks a = [] \<or> st_range (hd (stacks a)) = None"
  shows "current_allocator s = None"
proof (cases "stacks a")
  case (Cons st sts)
  then have "guards s = scope_guards None (scopes st) @ guards_of sts" "scopes st \<noteq> []"
    using thread_relD(1,2) [OF assms(1)] assms(2) by (auto simp: stack_ok_def)
  then show ?thesis by (cases "scopes st") (auto simp: current_allocator_def)
qed (use thread_relD(1) [OF assms(1)] in \<open>simp add: current_allocator_def\<close>)

lemma sum_list_drop_le: "sum_list (drop n xs) \<le> (sum_list xs :: nat)"
  by (metis append_take_drop_id le_add2 sum_list_append)

lemma placed_inside:
  assumes "placed st b x" "st_range st = Some (base, cap)"
  shows "base \<le> x" "x + b_size b \<le> base + sum_list (scopes st)"
  using assms sum_list_drop_le [of "length (scopes st) - b_scope b" "scopes st"] by (auto simp: placed_def)

text \<open>A block lies in the current stack, where it is placed, or apart from its whole range.\<close>

lemma block_home:
  assumes rel: "thread_rel s a" and st: "stacks a = st # sts" "st_range st = Some (base, cap)"
    and b: "blocks a v = Some b"
  shows "b_stack b = Suc (length sts) \<and> placed st b (pointers s v) \<or>
    b_stack b \<le> length sts \<and> disjoint_ranges (pointers s v, b_size b) (base, cap)"
proof (cases "b_stack b = Suc (length sts)")
  case True
  then show ?thesis using thread_relD(2) [OF rel] st b by (auto simp: stack_ok_def)
next
  case False
  have all: "all_stacks (stack_ok (allocators s) (blocks a) (pointers s)) (st # sts)"
    and var: "var_ok (words s) (length (st # sts)) (pointers s v) (blocks a v)"
    using thread_relD(2,3) [OF rel] st by auto
  then have lev: "1 \<le> b_stack b" "b_stack b \<le> length sts" using False b by (auto simp: var_ok_def)
  obtain st' sts' where st': "st' \<in> set sts" "Suc (length sts') = b_stack b" "stack_ok (allocators s) (blocks a) (pointers s) st' sts'"
    using all_stacks_at [of "stack_ok (allocators s) (blocks a) (pointers s)" sts, OF _ lev] all by auto
  then have pl: "placed st' b (pointers s v)" using b by (simp add: stack_ok_def)
  then obtain base' cap' where r: "st_range st' = Some (base', cap')" by (auto simp: placed_def split: option.splits)
  have "sum_list (scopes st') \<le> cap'" using st'(3) r by (auto simp: stack_ok_def alloc_ok_def)
  moreover have "disjoint_ranges (base, cap) (base', cap')"
    using all st'(1) st(2) r by (auto simp: stack_ok_def apart_ranges_def)
  ultimately show ?thesis using placed_inside [OF pl r] lev by (auto simp: disjoint_ranges_def)
qed

definition same_place :: "block \<Rightarrow> block \<Rightarrow> bool" where
  "same_place b c \<longleftrightarrow> b_stack b = b_stack c \<and> b_scope b = b_scope c \<and> b_start b = b_start c \<and> b_size b = b_size c"

lemma stacks_frame:
  assumes "all_stacks (stack_ok al bl xs) sts"
    and al: "\<And>i. i < depth sts \<Longrightarrow> al' i = al i"
    and bl: "\<And>v b. bl' v = Some b \<Longrightarrow> b_stack b \<le> length sts \<Longrightarrow>
      \<exists>c. bl v = Some c \<and> same_place b c \<and> xs' v = xs v"
  shows "all_stacks (stack_ok al' bl' xs') sts"
  using assms(1)
proof (rule all_stacks_mono)
  fix st post
  assume post: "length post < length sts" "depth (st # post) \<le> depth sts" and ok: "stack_ok al bl xs st post"
  then have "depth post < depth sts" by (cases "scopes st") (auto simp: stack_ok_def)
  then have "al' (depth post) = al (depth post)" by (rule al)
  moreover have "placed st b (xs' v)" if b: "bl' v = Some b" and n: "b_stack b = Suc (length post)" for v b
  proof -
    obtain c where c: "bl v = Some c" "same_place b c" "xs' v = xs v" using bl [OF b] n post(1) by auto
    then have "placed st c (xs v)" using ok n by (auto simp: stack_ok_def same_place_def)
    then show ?thesis using c by (auto simp: placed_def same_place_def split: option.splits)
  qed
  ultimately show "stack_ok al' bl' xs' st post" using ok unfolding stack_ok_def by metis
qed

lemma stack_okI:
  assumes "scopes st \<noteq> []" "\<And>u. u \<in> set (scopes st) \<Longrightarrow> MaxAlignment dvd u" "\<And>st'. st' \<in> set sts \<Longrightarrow> apart_ranges (st_range st) (st_range st')"
    and "st_range st = None \<Longrightarrow> sum_list (scopes st) = 0"
    and "\<And>base cap. st_range st = Some (base, cap) \<Longrightarrow> \<exists>A. al (depth sts) = Some A \<and> alloc_ok A base cap (sum_list (scopes st))"
    and "\<And>v b. bl v = Some b \<Longrightarrow> b_stack b = Suc (length sts) \<Longrightarrow> placed st b (xs v)"
  shows "stack_ok al bl xs st sts"
  using assms by (auto simp: stack_ok_def split: option.splits)

section \<open>Guards and allocations keep the relation\<close>

lemma init_step:
  assumes rel: "thread_rel s a" and spec: "stack_spec (InitStack base kb) a = Some (a', r)"
  shows "\<exists>s'. stack_exec (InitStack base kb) s = Some (s', r) \<and> thread_rel s' a'"
proof -
  let ?cap = "round_up (kb * 1024) HostGranularity"
  let ?st = "\<lparr>st_range = Some (base, ?cap), scopes = [0]\<rparr>"
  have kb: "0 < kb" "kb \<le> 2 ^ 32" "base \<noteq> 0" "PageSize dvd base"
    and apart: "\<forall>st\<in>set (stacks a). case st_range st of None \<Rightarrow> True | Some r' \<Rightarrow> disjoint_ranges (base, ?cap) r'"
    and a': "a' = a\<lparr>stacks := ?st # stacks a\<rparr>" "r = None"
    using spec by (auto simp: Let_def split: if_splits)
  have "aligned_nat (kb * 1024) (2 ^ 16) = round_up (kb * 1024) (2 ^ 16)"
    by (rule aligned_nat_round_up) (use kb in simp)
  then have cap: "aligned_nat (kb * 1024) HostGranularity = ?cap" by (simp add: HostGranularity_def)
  let ?h = "\<lparr>vm_size = ?cap, vm_commited = 0, vm_offset = 0, vm_base = base\<rparr>"
  let ?A = "\<lparr>m_pageAllocator = ?h, m_allocatedRegion = null_region, m_allocOffset = 0\<rparr>"
  let ?d = "length (guards s)"
  let ?s = "s\<lparr>guards := \<lparr>m_allocator = Some ?d, m_top = 0\<rparr> # guards s, allocators := (allocators s)(?d \<mapsto> ?A)\<rparr>"
  have exec: "stack_exec (InitStack base kb) s = Some (?s, None)"
    using kb(3) by (simp add: guard_init_def stack_create_def vm_create_def cap Let_def)
  have d: "?d = depth (stacks a)" using thread_relD(1) [OF rel] by (simp add: length_guards_of)
  have ok: "alloc_ok ?A base ?cap 0" using kb by (simp add: alloc_ok_def vm_valid_def)
  have none: "b_stack b \<le> length (stacks a)" if "blocks a v = Some b" for v b
    using thread_relD(3) [OF rel, of v] that by (simp add: var_ok_def)
  have "stack_ok (allocators ?s) (blocks a) (pointers s) ?st (stacks a)"
  proof (rule stack_okI)
    show "apart_ranges (st_range ?st) (st_range st')" if "st' \<in> set (stacks a)" for st'
      using apart that by (auto simp: apart_ranges_def split: option.splits)
    show "placed ?st b (pointers s v)" if "blocks a v = Some b" "b_stack b = Suc (length (stacks a))" for v b
      using none [OF that(1)] that(2) by simp
  qed (use ok d in auto)
  moreover have "all_stacks (stack_ok (allocators ?s) (blocks a) (pointers s)) (stacks a)"
    using thread_relD(2) [OF rel] by (rule stacks_frame) (use d in \<open>auto simp: same_place_def\<close>)
  moreover have "var_ok (words s) (Suc (length (stacks a))) (pointers s v) (blocks a v)" for v
    using thread_relD(3) [OF rel, of v] by (auto simp: var_ok_def split: option.splits)
  ultimately have "thread_rel ?s a'"
    using rel d unfolding thread_rel_def a' by simp
  then show ?thesis using exec a'(2) by blast
qed

lemma scope_step:
  assumes rel: "thread_rel s a" and spec: "stack_spec Scope a = Some (a', r)"
  shows "\<exists>s'. stack_exec Scope s = Some (s', r) \<and> thread_rel s' a'"
proof -
  have r: "r = None" using spec by auto
  have var: "var_ok (words s) (length (stacks a)) (pointers s v) (blocks a v)" for v by (rule thread_relD(3) [OF rel])
  show ?thesis
  proof (cases "stacks a")
    case Nil
    then have "blocks a v = None" for v using var [of v] by (auto simp: var_ok_def split: option.splits)
    moreover have "guards s = []" using thread_relD(1) [OF rel] Nil by simp
    ultimately show ?thesis
      using rel spec Nil r by (auto simp: thread_rel_def guard_nested_def current_allocator_def stack_ok_def var_ok_def depth_def)
  next
    case (Cons st sts)
    let ?st = "st\<lparr>scopes := 0 # scopes st\<rparr>"
    have a': "a' = a\<lparr>stacks := ?st # sts\<rparr>" using spec Cons by simp
    have ok: "stack_ok (allocators s) (blocks a) (pointers s) st sts"
      and all: "all_stacks (stack_ok (allocators s) (blocks a) (pointers s)) sts"
      using thread_relD(2) [OF rel] Cons by auto
    let ?i = "if st_range st = None then None else Some (depth sts)"
    have gs: "guards s = scope_guards ?i (scopes st) @ guards_of sts" using thread_relD(1) [OF rel] Cons by simp
    have ne: "scopes st \<noteq> []" using ok by (simp add: stack_ok_def)
    have top: "(case current_allocator s of None \<Rightarrow> 0 | Some (_, A) \<Rightarrow> m_allocOffset A) = sum_list (scopes st)"
    proof (cases "st_range st")
      case None
      then show ?thesis using current_none [OF rel] Cons ok by (simp add: stack_ok_def)
    next
      case (Some rc)
      obtain base cap where "rc = (base, cap)" by (cases rc)
      then obtain A where "current_allocator s = Some (depth sts, A)" "alloc_ok A base cap (sum_list (scopes st))"
        using current_some [OF rel Cons] Some by metis
      then show ?thesis by (auto simp: alloc_ok_def)
    qed
    have "(case guards s of [] \<Rightarrow> None | prev # _ \<Rightarrow> m_allocator prev) = ?i" using gs ne by (cases "scopes st") auto
    then have "guard_nested s = s\<lparr>guards := guards_of (?st # sts)\<rparr>" using gs top by (simp add: guard_nested_def)
    moreover have "stack_ok (allocators s) (blocks a) (pointers s) ?st sts"
    proof (rule stack_okI)
      fix v b assume "blocks a v = Some b" "b_stack b = Suc (length sts)"
      then have "placed st b (pointers s v)" using ok by (simp add: stack_ok_def)
      then show "placed ?st b (pointers s v)"
        by (auto simp: placed_def Suc_diff_le split: option.splits)
    qed (use ok in \<open>auto simp: stack_ok_def\<close>)
    ultimately show ?thesis using rel all a' r Cons unfolding thread_rel_def by auto
  qed
qed

lemma live_apart:
  assumes rel: "thread_rel s a" and st: "stacks a = st # sts" "st_range st = Some (base, cap)"
    and b: "blocks a w = Some b" and n: "sum_list (scopes st) + n \<le> cap" "0 < n"
  shows "disjoint_ranges (pointers s w, b_size b) (base + sum_list (scopes st), n)"
    and "pointers s w \<noteq> base + sum_list (scopes st)"
proof -
  have pos: "0 < b_size b" using thread_relD(3) [OF rel, of w] b by (simp add: var_ok_def)
  show dis: "disjoint_ranges (pointers s w, b_size b) (base + sum_list (scopes st), n)"
    using block_home [OF rel st b] placed_inside(2) [OF _ st(2), of b "pointers s w"] n pos
    by (auto simp: disjoint_ranges_def)
  then show "pointers s w \<noteq> base + sum_list (scopes st)" using pos n(2) by (auto simp: disjoint_ranges_def)
qed

lemma placed_grow:
  assumes "placed st b x" "scopes st = u # us"
  shows "placed (st\<lparr>scopes := (u + n) # us\<rparr>) b x"
  using assms by (cases "Suc (length us) - b_scope b") (auto simp: placed_def Suc_diff_le split: option.splits)

lemma stack_alloc_step:
  assumes rel: "thread_rel s a" and spec: "stack_spec (StackAlloc v n align) a = Some (a', r)"
  shows "\<exists>s'. stack_exec (StackAlloc v n align) s = Some (s', r) \<and> thread_rel s' a'"
proof -
  obtain st sts base cap where st: "stacks a = st # sts" "st_range st = Some (base, cap)"
    using spec by (auto split: list.splits option.splits)
  let ?b = "stack_bytes n" and ?off = "sum_list (scopes st)"
  let ?blk = "\<lparr>b_stack = Suc (length sts), b_scope = length (scopes st), b_start = sum_list (tl (scopes st)),
    b_size = ?b, b_words = Map.empty\<rparr>"
  let ?st = "st\<lparr>scopes := (hd (scopes st) + ?b) # tl (scopes st)\<rparr>"
  have pre: "checkAllocAlignment align MaxAlignment" "blocks a v = None" "0 < n" "n \<le> 2 ^ 48"
    "?off + ?b + pages ?b \<le> cap" "r = None"
    and a': "a' = a\<lparr>stacks := ?st # sts, vars := v # vars a, blocks := (blocks a)(v \<mapsto> ?blk)\<rparr>"
    using spec st by (auto split: if_splits)
  have pos: "0 < ?b" using pre(3) stack_bytes_bounds(1) [of n] by simp
  have room: "?off + ?b \<le> cap" using pre(5) by simp
  have ok: "stack_ok (allocators s) (blocks a) (pointers s) st sts"
    and all: "all_stacks (stack_ok (allocators s) (blocks a) (pointers s)) sts"
    using thread_relD(2) [OF rel] st by auto
  obtain u us where us: "scopes st = u # us" using ok by (cases "scopes st") (auto simp: stack_ok_def)
  obtain A where cur: "current_allocator s = Some (depth sts, A)" and A: "alloc_ok A base cap ?off"
    using current_some [OF rel st] by metis
  let ?ptr = "base + ?off"
  obtain A' where A': "stack_alloc n align A = Some (?ptr, A')" "alloc_ok A' base cap (?off + ?b)"
    using stack_alloc_ok [OF A pre(1,3,4,5)] by blast
  have base: "0 < base" "MaxAlignment dvd ?ptr"
    using A dvd_trans [of MaxAlignment PageSize base] by (auto simp: alloc_ok_def vm_valid_def MaxAlignment_def PageSize_def dvd_add)
  have new: "?ptr \<notin> fst ` set (tracked s)"
    using thread_relD(5) [OF rel] live_apart(2) [OF rel st _ room pos] by (fastforce simp: tracked_ok_def)
  obtain g gs where g: "guards s = g # gs" "m_top g = sum_list us"
    using thread_relD(1) [OF rel] st us by simp
  let ?s = "s\<lparr>tracked := (?ptr, sum_list us) # tracked s, allocators := (allocators s)(depth sts \<mapsto> A'),
    pointers := (pointers s)(v := ?ptr)\<rparr>"
  have exec: "stack_exec (StackAlloc v n align) s = Some (?s, None)"
    using cur A'(1) new g by (simp add: notifyAllocation_def)
  have other: "\<exists>c. blocks a w = Some c \<and> same_place b c \<and> (pointers ?s) w = pointers s w"
    if "((blocks a)(v \<mapsto> ?blk)) w = Some b" "b_stack b \<le> length sts" for w b
    using that by (auto simp: same_place_def split: if_splits)
  have all': "all_stacks (stack_ok (allocators ?s) ((blocks a)(v \<mapsto> ?blk)) (pointers ?s)) sts"
    using all by (rule stacks_frame) (use other in auto)
  have ok': "stack_ok (allocators ?s) ((blocks a)(v \<mapsto> ?blk)) (pointers ?s) ?st sts"
  proof (rule stack_okI)
    show "MaxAlignment dvd x" if "x \<in> set (scopes ?st)" for x
      using that ok us stack_bytes_bounds(3) [of n] by (auto simp: stack_ok_def)
    show "placed ?st b ((pointers ?s) w)" if "((blocks a)(v \<mapsto> ?blk)) w = Some b" "b_stack b = Suc (length sts)" for w b
    proof (cases "w = v")
      case True
      then show ?thesis using that(1) st(2) us by (auto simp: placed_def)
    next
      case False
      then have "placed st b (pointers s w)" using that ok by (simp add: stack_ok_def)
      then show ?thesis using placed_grow [OF _ us] us False by simp
    qed
  qed (use ok A'(2) st(2) us in \<open>auto simp: stack_ok_def add.assoc add.commute add.left_commute\<close>)
  have var': "var_ok (words s) (length (stacks a)) ((pointers ?s) w) (((blocks a)(v \<mapsto> ?blk)) w)" for w
    using thread_relD(3) [OF rel, of w] base pos st(1) by (auto simp: var_ok_def)
  have apart': "apart ((blocks a)(v \<mapsto> ?blk)) (pointers ?s)"
    unfolding apart_def
  proof (intro allI impI)
    fix x y b c
    assume b: "x \<noteq> y" "((blocks a)(v \<mapsto> ?blk)) x = Some b" "((blocks a)(v \<mapsto> ?blk)) y = Some c"
    show "disjoint_ranges ((pointers ?s) x, b_size b) ((pointers ?s) y, b_size c)"
    proof (cases "x = v \<or> y = v")
      case True
      then show ?thesis
        using b live_apart(1) [OF rel st _ room pos, of x b] live_apart(1) [OF rel st _ room pos, of y c]
        by (auto simp: disjoint_ranges_def)
    qed (use b thread_relD(4) [OF rel] in \<open>simp add: apart_def\<close>)
  qed
  have tracked': "tracked_ok (tracked ?s) ((blocks a)(v \<mapsto> ?blk)) (pointers ?s)"
    unfolding tracked_ok_def
  proof (intro conjI allI)
    show "distinct (map fst (tracked ?s))" using thread_relD(5) [OF rel] new by (simp add: tracked_ok_def)
    have "(\<exists>w c. blocks a w = Some c \<and> e = (pointers s w, b_start c)) \<longleftrightarrow>
        (\<exists>w c. w \<noteq> v \<and> blocks a w = Some c \<and> e = (pointers s w, b_start c))" for e
      using pre(2) by (metis option.distinct(1))
    then show "e \<in> set (tracked ?s) \<longleftrightarrow> (\<exists>w c. ((blocks a)(v \<mapsto> ?blk)) w = Some c \<and> e = ((pointers ?s) w, b_start c))" for e
      using tracked_iff [OF rel, of e] us by auto
  qed
  have "thread_rel ?s a'"
    using thread_relD(1,6) [OF rel] all' ok' var' apart' tracked' st us by (auto simp: thread_rel_def a')
  then show ?thesis using exec pre(6) by blast
qed

lemma one_entry:
  "distinct (map fst es) \<Longrightarrow> (x, t) \<in> set es \<Longrightarrow> length (filter (\<lambda>e. fst e = x) es) = 1"
  by (induction es) (force simp: filter_empty_conv)+

lemma live_distinct:
  assumes "thread_rel s a" "blocks a v = Some b" "blocks a w = Some c" "v \<noteq> w"
  shows "pointers s v \<noteq> pointers s w"
proof -
  have "0 < b_size b" "0 < b_size c"
    using thread_relD(3) [OF assms(1), of v] thread_relD(3) [OF assms(1), of w] assms(2,3) by (auto simp: var_ok_def)
  moreover have "disjoint_ranges (pointers s v, b_size b) (pointers s w, b_size c)"
    using thread_relD(4) [OF assms(1)] assms(2-4) by (simp add: apart_def)
  ultimately show ?thesis by (auto simp: disjoint_ranges_def)
qed

lemma stack_free_step:
  assumes rel: "thread_rel s a" and spec: "stack_spec (StackFree v align) a = Some (a', r)"
  shows "\<exists>s'. stack_exec (StackFree v align) s = Some (s', r) \<and> thread_rel s' a'"
proof -
  obtain st sts base cap where st: "stacks a = st # sts" "st_range st = Some (base, cap)"
    and pre: "checkAllocAlignment align MaxAlignment" "\<And>b. blocks a v = Some b \<Longrightarrow> b_stack b = Suc (length sts)"
    and a': "a' = a\<lparr>blocks := (blocks a)(v := None)\<rparr>" and r: "r = None"
    using spec by (auto split: list.splits if_splits option.splits)
  obtain A where cur: "current_allocator s = Some (depth sts, A)" and A: "alloc_ok A base cap (sum_list (scopes st))"
    using current_some [OF rel st] by metis
  show ?thesis
  proof (cases "blocks a v")
    case None
    then have "pointers s v = 0" using thread_relD(3) [OF rel, of v] by (simp add: var_ok_def)
    moreover have "s\<lparr>pointers := (pointers s)(v := 0)\<rparr> = s" using \<open>pointers s v = 0\<close> by (simp add: fun_upd_idem)
    moreover have "a' = a" using None by (simp add: a' fun_upd_idem)
    ultimately show ?thesis using cur pre(1) rel r by (simp add: stack_free_check_def)
  next
    case (Some b)
    let ?x = "pointers s v"
    have var: "var_ok (words s) (length (stacks a)) ?x (Some b)" using thread_relD(3) [OF rel, of v] Some by simp
    then have x: "?x \<noteq> 0" "0 < b_size b" by (auto simp: var_ok_def)
    have "placed st b ?x" using block_home [OF rel st Some] pre(2) [OF Some] by auto
    note inside = placed_inside [OF this st(2)]
    have check: "stack_free_check ?x align A = Some ()"
      using A inside x pre(1) by (auto simp: alloc_ok_def stack_free_check_def require_def null_region_def)
    have tr: "distinct (map fst (tracked s))" "(?x, b_start b) \<in> set (tracked s)"
      using thread_relD(5) [OF rel] Some by (auto simp: tracked_ok_def)
    let ?s = "s\<lparr>tracked := filter (\<lambda>e. fst e \<noteq> ?x) (tracked s), pointers := (pointers s)(v := 0)\<rparr>"
    have exec: "stack_exec (StackFree v align) s = Some (?s, None)"
      using cur check one_entry [OF tr] x(1) by (simp add: notifyFree_def)
    have all: "all_stacks (stack_ok (allocators s) ((blocks a)(v := None)) (pointers ?s)) (stacks a)"
      using thread_relD(2) [OF rel] by (rule stacks_frame) (auto simp: same_place_def split: if_splits)
    have tracked': "tracked_ok (tracked ?s) ((blocks a)(v := None)) (pointers ?s)"
      unfolding tracked_ok_def
    proof (intro conjI allI)
      show "distinct (map fst (tracked ?s))" using tr(1) by (simp add: distinct_map_filter)
      show "e \<in> set (tracked ?s) \<longleftrightarrow> (\<exists>w c. ((blocks a)(v := None)) w = Some c \<and> e = ((pointers ?s) w, b_start c))" for e
      proof -
        have "e \<in> set (tracked ?s) \<longleftrightarrow> fst e \<noteq> ?x \<and> (\<exists>w c. blocks a w = Some c \<and> e = (pointers s w, b_start c))"
          using tracked_iff [OF rel, of e] by auto
        also have "\<dots> \<longleftrightarrow> (\<exists>w c. w \<noteq> v \<and> blocks a w = Some c \<and> e = (pointers s w, b_start c))"
          using live_distinct [OF rel _ Some] by (metis fst_conv)
        finally show ?thesis by auto
      qed
    qed
    have var': "var_ok (words s) (length (stacks a)) ((pointers ?s) w) (((blocks a)(v := None)) w)" for w
      using thread_relD(3) [OF rel, of w] by (auto simp: var_ok_def)
    have apart': "apart ((blocks a)(v := None)) (pointers ?s)" using thread_relD(4) [OF rel] by (auto simp: apart_def)
    have "thread_rel ?s a'"
      using thread_relD(1,6) [OF rel] all tracked' var' apart' unfolding thread_rel_def a' by auto
    then show ?thesis using exec r by blast
  qed
qed

lemma store_step:
  assumes rel: "thread_rel s a" and spec: "stack_spec (StackStore v k x) a = Some (a', r)"
  shows "\<exists>s'. stack_exec (StackStore v k x) s = Some (s', r) \<and> thread_rel s' a'"
proof -
  obtain b where b: "blocks a v = Some b" "8 * k + 8 \<le> b_size b" "r = None"
    and a': "a' = a\<lparr>blocks := (blocks a)(v \<mapsto> b\<lparr>b_words := (b_words b)(k \<mapsto> x)\<rparr>)\<rparr>"
    using spec by (auto split: option.splits if_splits)
  let ?at = "pointers s v + 8 * k"
  let ?bl = "(blocks a)(v \<mapsto> b\<lparr>b_words := (b_words b)(k \<mapsto> x)\<rparr>)"
  have all: "all_stacks (stack_ok (allocators s) ?bl (pointers s)) (stacks a)"
    using thread_relD(2) [OF rel] by (rule stacks_frame) (use b(1) in \<open>auto simp: same_place_def split: if_splits\<close>)
  have var': "var_ok ((words s)(?at := x)) (length (stacks a)) (pointers s w) (?bl w)" for w
  proof (cases "w = v")
    case True
    then show ?thesis using thread_relD(3) [OF rel, of v] b by (auto simp: var_ok_def)
  next
    case False
    show ?thesis
    proof (cases "blocks a w")
      case None
      then show ?thesis using thread_relD(3) [OF rel, of w] False by (simp add: var_ok_def)
    next
      case (Some c)
      have "disjoint_ranges (pointers s w, b_size c) (pointers s v, b_size b)"
        using thread_relD(4) [OF rel] Some b(1) False by (simp add: apart_def)
      then have "pointers s w + 8 * j \<noteq> ?at" if "8 * j + 8 \<le> b_size c" for j
        using that b(2) by (auto simp: disjoint_ranges_def)
      then show ?thesis using thread_relD(3) [OF rel, of w] Some False by (auto simp: var_ok_def)
    qed
  qed
  have "(\<exists>c. ?bl w = Some c \<and> e = (pointers s w, b_start c)) \<longleftrightarrow> (\<exists>c. blocks a w = Some c \<and> e = (pointers s w, b_start c))" for w e
    using b(1) by auto
  then have tracked': "tracked_ok (tracked s) ?bl (pointers s)"
    using thread_relD(5) [OF rel] unfolding tracked_ok_def by metis
  have "apart ?bl (pointers s)" using thread_relD(4) [OF rel] b(1) by (auto simp: apart_def)
  then have "thread_rel (s\<lparr>words := (words s)(?at := x)\<rparr>) a'"
    using thread_relD(1,6) [OF rel] all var' tracked' b(1) unfolding thread_rel_def a' by auto
  then show ?thesis using b(3) by simp
qed

section \<open>The end of a scope\<close>

lemma dvd_all: "(\<And>u. u \<in> set us \<Longrightarrow> (k :: nat) dvd u) \<Longrightarrow> k dvd sum_list us"
  by (induction us) auto

lemma placed_shrink:
  assumes "placed st b x" "scopes st = u # us" "b_start b \<noteq> sum_list us"
  shows "placed (st\<lparr>scopes := us\<rparr>) b x" "us \<noteq> []"
    and "st_range st = Some (base, cap) \<Longrightarrow> x + b_size b \<le> base + sum_list us"
proof -
  obtain base' cap' where r: "st_range st = Some (base', cap')" using assms(1) by (auto simp: placed_def split: option.splits)
  have "b_scope b \<noteq> Suc (length us)" using assms r by (auto simp: placed_def)
  then have lt: "1 \<le> b_scope b" "b_scope b \<le> length us" using assms(1,2) r by (auto simp: placed_def)
  then show "us \<noteq> []" by auto
  show pl: "placed (st\<lparr>scopes := us\<rparr>) b x" using assms(1,2) r lt by (auto simp: placed_def Suc_diff_le)
  show "x + b_size b \<le> base + sum_list us" if "st_range st = Some (base, cap)"
    using placed_inside(2) [OF pl] that by simp
qed

text \<open>The memory that is given back holds no live block.\<close>

lemma restored_apart:
  assumes rel: "thread_rel s a" and st: "stacks a = st # sts" "scopes st = u # us" "st_range st = Some (base, cap)"
    and b: "blocks a v = Some b" "b_start b \<noteq> sum_list us" and k: "8 * k + 8 \<le> b_size b"
  shows "\<not> (base + sum_list us \<le> pointers s v + 8 * k \<and> pointers s v + 8 * k < base + sum_list us + u)"
proof -
  have le: "sum_list us + u \<le> cap" using thread_relD(2) [OF rel] st by (auto simp: stack_ok_def alloc_ok_def)
  from block_home [OF rel st(1,3) b(1)] show ?thesis
  proof (elim disjE conjE)
    assume "placed st b (pointers s v)"
    then have "pointers s v + b_size b \<le> base + sum_list us" using placed_shrink(3) st(2,3) b(2) by blast
    then show ?thesis using k by auto
  qed (use le k in \<open>auto simp: disjoint_ranges_def\<close>)
qed

lemma leave_step:
  assumes rel: "thread_rel s a" and spec: "stack_spec Leave a = Some (a', r)"
  shows "\<exists>s'. stack_exec Leave s = Some (s', r) \<and> thread_rel s' a'"
proof -
  obtain st sts where st: "stacks a = st # sts" using spec by (auto split: list.splits)
  have ok: "stack_ok (allocators s) (blocks a) (pointers s) st sts"
    and all: "all_stacks (stack_ok (allocators s) (blocks a) (pointers s)) sts"
    using thread_relD(2) [OF rel] st by auto
  obtain u us where us: "scopes st = u # us" using ok by (cases "scopes st") (auto simp: stack_ok_def)
  let ?st = "st\<lparr>scopes := us\<rparr>"
  let ?sts = "if us = [] then sts else ?st # sts"
  have r: "r = None" and a': "a' = a\<lparr>stacks := ?sts\<rparr>"
    and start: "\<And>v b. blocks a v = Some b \<Longrightarrow> b_start b \<noteq> sum_list us"
    using spec st us thread_relD(6) [OF rel] by (auto split: if_splits) fastforce+
  have home: "b_stack b \<le> length sts \<or> b_stack b = Suc (length sts) \<and> placed ?st b (pointers s v) \<and> us \<noteq> []"
    if "blocks a v = Some b" for v b
  proof -
    have "b_stack b \<le> Suc (length sts)" using thread_relD(3) [OF rel, of v] that st by (simp add: var_ok_def)
    moreover have "placed st b (pointers s v)" if "b_stack b = Suc (length sts)"
      using ok that \<open>blocks a v = Some b\<close> by (simp add: stack_ok_def)
    ultimately show ?thesis using placed_shrink(1,2) [OF _ us start [OF that]] by (metis le_Suc_eq)
  qed
  let ?i = "if st_range st = None then None else Some (depth sts)"
  let ?prev = "scope_guards ?i us @ guards_of sts"
  have gs: "guards s = \<lparr>m_allocator = ?i, m_top = sum_list us\<rparr> # ?prev" using thread_relD(1) [OF rel] st us by simp
  have prev: "guards_of ?sts = ?prev" by simp
  have check: "checkNonFreedPointers (sum_list us) s = Some s"
  proof -
    have "snd e \<noteq> sum_list us" if "e \<in> set (tracked s)" for e
      using tracked_iff [OF rel, of e] start that by auto
    then show ?thesis by (simp add: checkNonFreedPointers_def filter_id_conv filter_empty_conv)
  qed
  have var': "var_ok mem (length ?sts) (pointers s v) (blocks a v)"
    if mem: "\<And>b k. blocks a v = Some b \<Longrightarrow> 8 * k + 8 \<le> b_size b \<Longrightarrow> mem (pointers s v + 8 * k) = words s (pointers s v + 8 * k)" for mem v
  proof (cases "blocks a v")
    case (Some b)
    then show ?thesis using thread_relD(3) [OF rel, of v] home [OF Some] mem [OF Some] by (auto simp: var_ok_def)
  qed (use thread_relD(3) [OF rel, of v] in \<open>simp add: var_ok_def\<close>)
  have result: "thread_rel (s\<lparr>guards := ?prev, allocators := al, words := mem\<rparr>) a'"
    if al: "\<And>i. i < depth sts \<Longrightarrow> al i = allocators s i"
      and own: "\<And>base cap. st_range st = Some (base, cap) \<Longrightarrow> us \<noteq> [] \<Longrightarrow>
        \<exists>A. al (depth sts) = Some A \<and> alloc_ok A base cap (sum_list us)"
      and mem: "\<And>v b k. blocks a v = Some b \<Longrightarrow> 8 * k + 8 \<le> b_size b \<Longrightarrow>
        mem (pointers s v + 8 * k) = words s (pointers s v + 8 * k)" for al mem
  proof -
    have all': "all_stacks (stack_ok al (blocks a) (pointers s)) sts"
      using all by (rule stacks_frame) (use al in \<open>auto simp: same_place_def\<close>)
    have "stack_ok al (blocks a) (pointers s) ?st sts" if "us \<noteq> []"
    proof (rule stack_okI)
      show "placed ?st b (pointers s v)" if "blocks a v = Some b" "b_stack b = Suc (length sts)" for v b
        using home [OF that(1)] that(2) by auto
    qed (use ok us own that in \<open>auto simp: stack_ok_def\<close>)
    then show ?thesis
      using all' thread_relD(4-6) [OF rel] var' [OF mem] prev unfolding thread_rel_def a' by auto
  qed
  show ?thesis
  proof (cases "st_range st")
    case None
    then have "stack_exec Leave s = Some (s\<lparr>guards := ?prev\<rparr>, None)"
      using gs check by (simp add: guard_destroy_def)
    then show ?thesis using result [of "allocators s" "words s"] None r by auto
  next
    case (Some rc)
    obtain base cap where rc: "st_range st = Some (base, cap)" using Some by (cases rc) auto
    obtain A where A: "allocators s (depth sts) = Some A" "alloc_ok A base cap (u + sum_list us)"
      using ok us rc by (auto simp: stack_ok_def)
    let ?A = "A\<lparr>m_allocOffset := sum_list us\<rparr>"
    let ?mem = "if u > 0 then fill_zero (base + sum_list us) u (words s) else words s"
    have restore: "stack_restore (sum_list us) A (words s) = Some (?A, ?mem)"
      using A(2) by (auto simp: alloc_ok_def stack_restore_def null_region_def)
    have "MaxAlignment dvd sum_list us" using ok us by (auto simp: stack_ok_def intro: dvd_all)
    then have ok': "alloc_ok ?A base cap (sum_list us)" using A(2) by (auto simp: alloc_ok_def)
    let ?al = "if us = [] then (allocators s)(depth sts := None) else (allocators s)(depth sts \<mapsto> ?A)"
    have nonempty: "all_stacks (\<lambda>st post. scopes st \<noteq> []) sts" using all by (rule all_stacks_mono) (simp add: stack_ok_def)
    have used: "Some (depth sts) \<in> m_allocator ` set ?prev \<longleftrightarrow> us \<noteq> []"
    proof (cases us)
      case Nil
      have "m_allocator g \<noteq> Some (depth sts)" if "g \<in> set (guards_of sts)" for g
        using guards_of_allocator [OF nonempty that] by auto
      then have "Some (depth sts) \<notin> m_allocator ` set (guards_of sts)" by force
      then show ?thesis using Nil by simp
    qed (use rc in simp)
    have "stack_exec Leave s = Some (s\<lparr>guards := ?prev, allocators := ?al, words := ?mem\<rparr>, None)"
      using gs check A(1) restore used rc by (auto simp: guard_destroy_def release_allocator_def)
    moreover have "?mem (pointers s v + 8 * k) = words s (pointers s v + 8 * k)"
      if "blocks a v = Some b" "8 * k + 8 \<le> b_size b" for v b k
      using restored_apart [OF rel st us rc that(1) start [OF that(1)] that(2)] by (auto simp: fill_zero_def)
    ultimately show ?thesis using result [of ?al ?mem] ok' rc r by auto
  qed
qed

lemma stack_step:
  assumes rel: "thread_rel s a" and spec: "stack_spec x a = Some (a', r)"
  shows "\<exists>s'. stack_exec x s = Some (s', r) \<and> thread_rel s' a'"
proof (cases x)
  case (StackLoad v k)
  then obtain b w where "blocks a v = Some b" "b_words b k = Some w" "a' = a" "r = Some w"
    using spec by (auto simp: bind_eq_Some_conv)
  then show ?thesis using thread_relD(3) [OF rel, of v] StackLoad rel by (auto simp: var_ok_def)
next
  case Offset
  show ?thesis
  proof (cases "stacks a = [] \<or> st_range (hd (stacks a)) = None")
    case True
    then show ?thesis using current_none [OF rel True] Offset spec rel by (auto split: list.splits)
  next
    case False
    then obtain st sts base cap where st: "stacks a = st # sts" "st_range st = Some (base, cap)"
      by (cases "stacks a") auto
    then obtain A where "current_allocator s = Some (depth sts, A)" "alloc_ok A base cap (sum_list (scopes st))"
      using current_some [OF rel] by metis
    then show ?thesis using Offset spec rel st by (auto simp: alloc_ok_def)
  qed
next
  case (InitStack base kb)
  then show ?thesis using init_step [OF rel] spec by simp
next
  case Scope
  then show ?thesis using scope_step [OF rel] spec by simp
next
  case Leave
  then show ?thesis using leave_step [OF rel] spec by simp
next
  case (StackAlloc v n align)
  then show ?thesis using stack_alloc_step [OF rel] spec by metis
next
  case (StackFree v align)
  then show ?thesis using stack_free_step [OF rel] spec by metis
next
  case (StackStore v k y)
  then show ?thesis using store_step [OF rel] spec by metis
qed

interpretation runtime_stack: implements stack_exec stack_spec thread_rel
  by unfold_locales (rule stack_step)

lemma thread_rel_start: "thread_rel (stack_start mem) spec_thread_start"
  by (simp add: thread_rel_def stack_start_def spec_thread_start_def var_ok_def apart_def tracked_ok_def)

section \<open>Properties\<close>


definition stack_demo :: "stack_op list" where
  "stack_demo = [InitStack 65536 64, StackAlloc 0 100 8, StackFree 0 8, Offset, Scope, StackAlloc 1 20 16, StackStore 1 3 5,
     Scope, StackAlloc 2 1 8, StackStore 2 0 6, Offset, StackFree 2 8, Leave, InitStack 262144 1, Scope,
     StackAlloc 3 5000 4, StackStore 3 600 4, StackAlloc 4 8 8, StackLoad 3 600, StackFree 3 4, StackFree 4 8,
     Leave, Leave, StackLoad 1 3, Offset, StackFree 1 16, Leave, Offset, Leave, Offset]"


text \<open>
  A second stack inside one that is in use cannot be left: the tracked blocks are searched by the offset at
  which their scope began, which is 0 for both stacks, so the live block of the outer stack is reported as not
  freed and the assertion fails, although the program freed all it allocated inside.
\<close>

theorem nested_stack_asserts:
  assumes "stack_exec (InitStack base kb) (stack_start mem) = Some (s1, r1)"
    and "stack_exec (StackAlloc v n align) s1 = Some (s2, r2)"
    and "stack_exec (InitStack base' kb') s2 = Some (s3, r3)"
  shows "stack_exec Leave s3 = None"
proof -
  obtain A where s1: "s1 = (stack_start mem)\<lparr>guards := [\<lparr>m_allocator = Some 0, m_top = 0\<rparr>], allocators := [0 \<mapsto> A]\<rparr>"
    using assms(1) by (auto simp: guard_init_def stack_create_def bind_eq_Some_conv stack_start_def Let_def)
  obtain ptr where s2: "guards s2 = guards s1" "tracked s2 = [(ptr, 0)]"
    using assms(2) s1
    by (auto simp: bind_eq_Some_conv notifyAllocation_def stack_start_def split: if_splits)
  obtain g where "guards s3 = g # guards s2" "m_top g = 0" "tracked s3 = tracked s2"
    using assms(3) by (auto simp: guard_init_def stack_create_def bind_eq_Some_conv Let_def)
  then show ?thesis using s2 by (simp add: guard_destroy_def checkNonFreedPointers_def)
qed

definition nested_demo :: "stack_op list" where
  "nested_demo = [InitStack 65536 64, StackAlloc 0 100 8, InitStack 262144 1]"

lemma nested_demo_runs: "observe (run stack_exec nested_demo (stack_start (\<lambda>_. 0))) = Some [None, None, None]"
  by (rule runtime_stack.observe_exec [OF thread_rel_start])
    (simp add: nested_demo_def spec_thread_start_def observe_def Let_def stack_bytes_def pages_def round_up_def
      PageSize_def MaxAlignment_def HostGranularity_def checkAllocAlignment_def isPowerOf2_def disjoint_ranges_def)

lemma nested_stack_asserts_witness:
  "\<exists>s. run stack_exec nested_demo (stack_start (\<lambda>_. 0)) = Some (s, [None, None, None]) \<and> stack_exec Leave s = None"
proof -
  obtain s where s: "run stack_exec nested_demo (stack_start (\<lambda>_. 0)) = Some (s, [None, None, None])"
    using nested_demo_runs by (auto simp: observe_def)
  obtain s1 r1 s2 r2 r3 where
    "stack_exec (InitStack 65536 64) (stack_start (\<lambda>_. 0)) = Some (s1, r1)"
    "stack_exec (StackAlloc 0 100 8) s1 = Some (s2, r2)" "stack_exec (InitStack 262144 1) s2 = Some (s, r3)"
    using s unfolding nested_demo_def by (auto simp del: stack_exec.simps split: option.splits)
  then show ?thesis using s nested_stack_asserts by blast
qed

end
