(* ===== verification/RuntimeValue.thy ===== *)
theory RuntimeValue
  imports Strings "HOL-Library.AList" "HOL-Library.List_Lexorder" "HOL-Library.Char_ord"
begin

text \<open>
  Runtime values: reading and writing of C++ values through their type-erased representation,
  \<open>src/serialization/runtime_value.cpp\<close> with the native values of
  \<open>include/my/serialization/native_runtime_value\<close>.  \<open>makeValueRef\<close> picks the representation by the C++ type,
  so a value is a type with a value of it; \<open>RuntimeValue::assign\<close> gives the new target and, where it stops,
  the error.  The target is mutable and shares no storage with the source.
\<close>

section \<open>Types and values\<close>

text \<open>
  Integers with signedness and bytes, floats with bytes, optionals, vectors and lists, tuples and arrays, maps
  with string keys, classes with their fields, and \<open>RuntimeValuePtr\<close>.
\<close>

datatype ctype =
    IntT bool nat | FloatT nat | BoolT | StringT
  | OptT ctype | VectorT ctype | TupleT "ctype list" | MapT ctype | ObjectT "(string \<times> ctype) list" | AnyT

datatype 'f val =
    IntV int | FloatV 'f | BoolV bool | StringV string
  | OptV "'f val option" | ListV "'f val list" | MapV "(string \<times> 'f val) list"
  | AnyV "(ctype \<times> 'f val) option"

text \<open>
  The floating point conversions of the language, and the default value of a type, which for a class is what its
  constructor does: parameters of the model.
\<close>

record 'f floats =
  to_single :: "'f \<Rightarrow> 'f"
  of_integer :: "int \<Rightarrow> 'f"
  floor_int64 :: "'f \<Rightarrow> int"
  show_float :: "'f \<Rightarrow> string"
  read_float :: "string \<Rightarrow> 'f"
  default_of :: "ctype \<Rightarrow> 'f val"

text \<open>\<open>static_cast\<close> to an integer type of so many bytes.\<close>

definition wrap :: "bool \<Rightarrow> nat \<Rightarrow> int \<Rightarrow> int" where
  "wrap sg b i =
     (if sg then (i + 2 ^ (8 * b - 1)) mod 2 ^ (8 * b) - 2 ^ (8 * b - 1) else i mod 2 ^ (8 * b))"

definition int_in :: "bool \<Rightarrow> nat \<Rightarrow> int \<Rightarrow> bool" where
  "int_in sg b i \<longleftrightarrow> (if sg then - (2 ^ (8 * b - 1)) \<le> i \<and> i < 2 ^ (8 * b - 1) else 0 \<le> i \<and> i < 2 ^ (8 * b))"

inductive typed :: "'f floats \<Rightarrow> ctype \<Rightarrow> 'f val \<Rightarrow> bool" for e where
  "b \<in> {1, 2, 4, 8} \<Longrightarrow> int_in sg b i \<Longrightarrow> typed e (IntT sg b) (IntV i)"
| "b = 8 \<or> b = 4 \<and> to_single e f = f \<Longrightarrow> typed e (FloatT b) (FloatV f)"
| "typed e BoolT (BoolV x)"
| "typed e StringT (StringV s)"
| "typed e (OptT t) (OptV None)"
| "typed e t v \<Longrightarrow> typed e (OptT t) (OptV (Some v))"
| "list_all (typed e t) vs \<Longrightarrow> typed e (VectorT t) (ListV vs)"
| "list_all2 (typed e) ts vs \<Longrightarrow> typed e (TupleT ts) (ListV vs)"
| "sorted_wrt (<) (map fst kvs) \<Longrightarrow> list_all (\<lambda>x. typed e t (snd x)) kvs \<Longrightarrow> typed e (MapT t) (MapV kvs)"
| "list_all2 (\<lambda>x v. typed e (snd x) v) fs vs \<Longrightarrow> typed e (ObjectT fs) (ListV vs)"
| "typed e AnyT (AnyV None)"
| "typed e s v \<Longrightarrow> typed e AnyT (AnyV (Some (s, v)))"

inductive_simps typed_simps [simp]:
  "typed e (IntT sg b) v" "typed e (FloatT b) v" "typed e BoolT v" "typed e StringT v" "typed e (OptT t) v"
  "typed e (VectorT t) v" "typed e (TupleT ts) v" "typed e (MapT t) v" "typed e (ObjectT fs) v" "typed e AnyT v"

section \<open>Reading values\<close>

text \<open>
  \<open>ReadonlyCollection\<close> and \<open>ReadonlyDictionary\<close> of a source: its elements and its entries with their types, and
  \<open>getValue(key)\<close>, which compares the keys of a map exactly and the field names of an object without case.
\<close>

fun elements :: "ctype \<Rightarrow> 'f val \<Rightarrow> (ctype \<times> 'f val) list option" where
  "elements (VectorT t) (ListV vs) = Some (map (Pair t) vs)"
| "elements (TupleT ts) (ListV vs) = Some (zip ts vs)"
| "elements _ _ = None"

definition find_field :: "(string \<times> ctype) list \<Rightarrow> string \<Rightarrow> nat option" where
  "find_field fs key = find_index (\<lambda>f. icaseEqual (fst f) key) fs"

fun dict_value :: "ctype \<Rightarrow> 'f val \<Rightarrow> string \<Rightarrow> (ctype \<times> 'f val) option" where
  "dict_value (MapT t) (MapV kvs) key = map_option (Pair t) (map_of kvs key)"
| "dict_value (ObjectT fs) (ListV vs) key =
     (case find_field fs key of None \<Rightarrow> None
      | Some i \<Rightarrow> if i < length vs then Some (snd (fs ! i), vs ! i) else None)"
| "dict_value _ _ _ = None"

fun dict_keys :: "ctype \<Rightarrow> 'f val \<Rightarrow> string list option" where
  "dict_keys (MapT t) (MapV kvs) = Some (map fst kvs)"
| "dict_keys (ObjectT fs) (ListV vs) = Some (map fst fs)"
| "dict_keys _ _ = None"

section \<open>Primitive values\<close>

datatype assign_error =
    NotString | NotBool | NotFloat | NotInteger | NotPrimitive | NotCollection | NotDictionary | NoField | Unsupported

text \<open>
  \<open>strings::lexicalCast\<close> for \<open>int64_t\<close>: the digits at the front with an optional minus sign, 0 when there are
  none and when the number is out of range; and \<open>std::to_string\<close>.
\<close>

fun digits_value :: "int \<Rightarrow> string \<Rightarrow> int" where
  "digits_value n [] = n"
| "digits_value n (c # cs) =
     (if CHR ''0'' \<le> c \<and> c \<le> CHR ''9'' then digits_value (10 * n + (of_char c - 48)) cs else n)"

definition lexicalCast_int64 :: "string \<Rightarrow> int" where
  "lexicalCast_int64 s =
     (let n = (case s of [] \<Rightarrow> 0 | c # cs \<Rightarrow> if c = CHR ''-'' then - digits_value 0 cs else digits_value 0 s)
      in if int_in True 8 n then n else 0)"

definition show_int :: "int \<Rightarrow> string" where
  "show_int i = (if i < 0 then CHR ''-'' # show_nat (nat (- i)) else show_nat (nat i))"

definition getInt64 :: "int \<Rightarrow> int" where "getInt64 i = wrap True 8 i"
definition getUint64 :: "int \<Rightarrow> int" where "getUint64 i = wrap False 8 i"

definition setInt64 :: "bool \<Rightarrow> nat \<Rightarrow> int \<Rightarrow> 'f val" where
  "setInt64 sg b i = IntV (wrap sg b i)"

definition setDouble :: "'f floats \<Rightarrow> nat \<Rightarrow> 'f \<Rightarrow> 'f val" where
  "setDouble e b x = FloatV (if b = 8 then x else to_single e x)"

text \<open>\<open>lexical_cast\<close> in both directions, for the string on the other side.\<close>

fun lexical_cast_from :: "'f floats \<Rightarrow> ctype \<Rightarrow> 'f val \<Rightarrow> string option" where
  "lexical_cast_from e (IntT _ _) (IntV i) = Some (show_int (getInt64 i))"
| "lexical_cast_from e (FloatT _) (FloatV x) = Some (show_float e (to_single e x))"
| "lexical_cast_from e BoolT (BoolV b) = Some (lexicalCast_of_bool b)"
| "lexical_cast_from e _ _ = None"

fun lexical_cast_to :: "'f floats \<Rightarrow> ctype \<Rightarrow> string \<Rightarrow> 'f val option" where
  "lexical_cast_to e (IntT sg b) s = Some (setInt64 sg b (if s = [] then 0 else lexicalCast_int64 s))"
| "lexical_cast_to e (FloatT b) s = Some (setDouble e b (if s = [] then of_integer e 0 else read_float e s))"
| "lexical_cast_to e BoolT s = Some (BoolV (if s = [] then False else lexicalCast_bool s))"
| "lexical_cast_to e _ _ = None"

definition implicit_cast :: "'f floats \<Rightarrow> ctype \<Rightarrow> 'f val \<Rightarrow> ctype \<Rightarrow> 'f val \<Rightarrow> assign_error \<Rightarrow> 'f val \<times> assign_error option" where
  "implicit_cast e T d S s err =
     (case (S, s) of
        (StringT, StringV str) \<Rightarrow>
          (case lexical_cast_to e T str of Some d' \<Rightarrow> (d', None) | None \<Rightarrow> (d, Some err))
      | _ \<Rightarrow> (d, Some err))"

fun assignStringValue :: "'f floats \<Rightarrow> 'f val \<Rightarrow> ctype \<Rightarrow> 'f val \<Rightarrow> 'f val \<times> assign_error option" where
  "assignStringValue e d StringT (StringV s) = (StringV s, None)"
| "assignStringValue e d S s =
     (case lexical_cast_from e S s of Some str \<Rightarrow> (StringV str, None) | None \<Rightarrow> (d, Some NotString))"

fun assignPrimitiveValue :: "'f floats \<Rightarrow> ctype \<Rightarrow> 'f val \<Rightarrow> ctype \<Rightarrow> 'f val \<Rightarrow> 'f val \<times> assign_error option" where
  "assignPrimitiveValue e StringT d S s = assignStringValue e d S s"
| "assignPrimitiveValue e BoolT d S s =
     (case (S, s) of
        (BoolT, BoolV b) \<Rightarrow> (BoolV b, None)
      | _ \<Rightarrow> implicit_cast e BoolT d S s NotBool)"
| "assignPrimitiveValue e (FloatT b) d S s =
     (case (S, s) of
        (FloatT _, FloatV x) \<Rightarrow> (setDouble e b x, None)
      | (IntT _ _, IntV i) \<Rightarrow>
          (if b = 8 then (FloatV (of_integer e (getInt64 i)), None)
           else (FloatV (to_single e (of_integer e (getInt64 i))), None))
      | _ \<Rightarrow> implicit_cast e (FloatT b) d S s NotFloat)"
| "assignPrimitiveValue e (IntT sg b) d S s =
     (case (S, s) of
        (IntT _ _, IntV i) \<Rightarrow> (setInt64 sg b (if sg then getInt64 i else getUint64 i), None)
      | (FloatT _, FloatV x) \<Rightarrow> (setInt64 sg b (floor_int64 e (to_single e x)), None)
      | _ \<Rightarrow> implicit_cast e (IntT sg b) d S s NotInteger)"
| "assignPrimitiveValue e T d S s = (d, Some NotPrimitive)"

fun is_primitive :: "ctype \<Rightarrow> bool" where
  "is_primitive (IntT _ _) \<longleftrightarrow> True"
| "is_primitive (FloatT _) \<longleftrightarrow> True"
| "is_primitive BoolT \<longleftrightarrow> True"
| "is_primitive StringT \<longleftrightarrow> True"
| "is_primitive _ \<longleftrightarrow> False"

section \<open>Assignment\<close>

text \<open>The target of a null source (\<open>clearDstIfOptionalSrcIsNull\<close>).\<close>

fun clear_value :: "ctype \<Rightarrow> 'f val \<Rightarrow> 'f val" where
  "clear_value (OptT t) d = OptV None"
| "clear_value StringT d = StringV []"
| "clear_value (VectorT t) d = ListV []"
| "clear_value (MapT t) d = MapV []"
| "clear_value _ d = d"

fun put_key :: "string \<Rightarrow> 'v \<Rightarrow> (string \<times> 'v) list \<Rightarrow> (string \<times> 'v) list" where
  "put_key k v [] = [(k, v)]"
| "put_key k v ((k', v') # kvs) =
     (if k = k' then (k, v) # kvs else if k < k' then (k, v) # (k', v') # kvs else (k', v') # put_key k v kvs)"

fun list_items :: "'f val \<Rightarrow> 'f val list" where
  "list_items (ListV vs) = vs"
| "list_items _ = []"

fun map_items :: "'f val \<Rightarrow> (string \<times> 'f val) list" where
  "map_items (MapV kvs) = kvs"
| "map_items _ = []"

lemma element_size: "x \<in> set xs \<Longrightarrow> size x \<le> size_list size xs"
  by (induction xs) auto

lemma elements_smaller: "elements S s = Some xs \<Longrightarrow> (t, x) \<in> set xs \<Longrightarrow> size x < size s"
proof (induction S s rule: elements.induct)
  case (1 t' vs)
  then show ?case using element_size [of x vs] by auto
next
  case (2 ts vs)
  then show ?case using element_size [of x vs] by (auto dest: set_zip_rightD)
qed auto

lemma dict_value_smaller: "dict_value S s k = Some (t, x) \<Longrightarrow> size x < size s"
proof (induction S s k rule: dict_value.induct)
  case (1 t kvs key)
  then have "(key, x) \<in> set kvs" by (auto dest: map_of_SomeD)
  then have "size_prod (\<lambda>_. 0) size (key, x) \<le> size_list (size_prod (\<lambda>_. 0) size) kvs"
    by (rule size_list_estimation') simp
  then show ?case by simp
next
  case (2 fs vs key)
  then obtain i where "i < length vs" "x = vs ! i" by (auto split: option.splits if_splits)
  then have "size x \<le> size_list size vs" by (auto intro: element_size)
  then show ?case by simp
qed auto

text \<open>
  \<open>RuntimeValue::assign\<close> and the loops it runs over collections (\<open>append_all\<close>), tuples (\<open>set_elements\<close>), objects
  (\<open>assignObject\<close>) and dictionaries (\<open>assignDictionary\<close>).  A loop stops at the first error and keeps what it
  has done.  Where an inner call passes no options, \<open>merge\<close> is \<open>False\<close>.
\<close>

lemma field_smaller: "find_field fs k = Some i \<Longrightarrow> size (snd (fs ! i)) < size (ObjectT fs)"
proof -
  assume "find_field fs k = Some i"
  then have "fs ! i \<in> set fs" by (auto simp: find_field_def dest: find_index_less)
  then have "size_prod (\<lambda>_. 0) size (fs ! i) \<le> size_list (size_prod (\<lambda>_. 0) size) fs"
    by (rule size_list_estimation') simp
  then show ?thesis by (cases "fs ! i") auto
qed

function assign :: "'f floats \<Rightarrow> bool \<Rightarrow> ctype \<Rightarrow> 'f val \<Rightarrow> ctype \<Rightarrow> 'f val \<Rightarrow> 'f val \<times> assign_error option"
  and assign_target :: "'f floats \<Rightarrow> bool \<Rightarrow> ctype \<Rightarrow> 'f val \<Rightarrow> ctype \<Rightarrow> 'f val \<Rightarrow> 'f val \<times> assign_error option"
  and append_all :: "'f floats \<Rightarrow> ctype \<Rightarrow> 'f val list \<Rightarrow> (ctype \<times> 'f val) list \<Rightarrow> 'f val list \<times> assign_error option"
  and set_elements :: "'f floats \<Rightarrow> ctype list \<Rightarrow> 'f val list \<Rightarrow> (ctype \<times> 'f val) list \<Rightarrow> 'f val list \<times> assign_error option"
  and assignObject :: "'f floats \<Rightarrow> (string \<times> ctype) list \<Rightarrow> 'f val list \<Rightarrow> string list \<Rightarrow> ctype \<Rightarrow> 'f val \<Rightarrow>
      'f val list \<times> assign_error option"
  and assignDictionary :: "'f floats \<Rightarrow> ctype \<Rightarrow> (string \<times> 'f val) list \<Rightarrow> string list \<Rightarrow> ctype \<Rightarrow> 'f val \<Rightarrow>
      (string \<times> 'f val) list \<times> assign_error option"
where
  "assign e merge T d S s =
     (if T = AnyT then (AnyV (Some (S, s)), None)
      else (case (S, s) of
              (AnyT, AnyV (Some (S', s'))) \<Rightarrow> assign e False T d S' s'
            | (AnyT, _) \<Rightarrow> (clear_value T d, None)
            | (OptT S', OptV (Some s')) \<Rightarrow> assign e False T d S' s'
            | (OptT S', _) \<Rightarrow> (clear_value T d, None)
            | _ \<Rightarrow> assign_target e merge T d S s))"
| "assign_target e merge T d S s =
     (case T of
        OptT t \<Rightarrow>
          (let d0 = (case d of OptV (Some x) \<Rightarrow> x | _ \<Rightarrow> default_of e t);
               (d1, r) = assign e False t d0 S s
           in (OptV (Some d1), r))
      | VectorT t \<Rightarrow>
          (case elements S s of
             None \<Rightarrow> (d, Some NotCollection)
           | Some xs \<Rightarrow> let (ds, r) = append_all e t (if merge then list_items d else []) xs in (ListV ds, r))
      | TupleT ts \<Rightarrow>
          (case elements S s of
             None \<Rightarrow> (d, Some Unsupported)
           | Some xs \<Rightarrow> let (ds, r) = set_elements e ts (list_items d) xs in (ListV ds, r))
      | ObjectT fs \<Rightarrow>
          (case dict_keys S s of
             None \<Rightarrow> (d, Some NotDictionary)
           | Some _ \<Rightarrow> let (ds, r) = assignObject e fs (list_items d) (map fst fs) S s in (ListV ds, r))
      | MapT t \<Rightarrow>
          (case dict_keys S s of
             None \<Rightarrow> (d, Some NotDictionary)
           | Some keys \<Rightarrow> let (kvs, r) = assignDictionary e t (if merge then map_items d else []) keys S s in (MapV kvs, r))
      | _ \<Rightarrow> if is_primitive S then assignPrimitiveValue e T d S s else (d, Some NotPrimitive))"
| "append_all e t ds xs =
     (case xs of [] \<Rightarrow> (ds, None) | (S, s) # xs \<Rightarrow>
      let (x, r) = assign e False t (default_of e t) S s
      in case r of None \<Rightarrow> append_all e t (ds @ [x]) xs | Some err \<Rightarrow> (ds @ [x], Some err))"
| "set_elements e ts ds xs =
     (case (ts, ds, xs) of
        (t # ts, d # ds, (S, s) # xs) \<Rightarrow>
          (let (x, r) = assign e False t d S s
           in case r of
                None \<Rightarrow> (let (ds', r') = set_elements e ts ds xs in (x # ds', r'))
              | Some err \<Rightarrow> (x # ds, Some err))
      | _ \<Rightarrow> (ds, None))"
| "assignObject e fs ds keys S s =
     (case keys of [] \<Rightarrow> (ds, None) | k # ks \<Rightarrow>
      case dict_value S s k of
        None \<Rightarrow> assignObject e fs ds ks S s
      | Some (S', s') \<Rightarrow>
          (case find_field fs k of
             None \<Rightarrow> (ds, Some NoField)
           | Some i \<Rightarrow>
               (let (x, r) = assign e False (snd (fs ! i)) (ds ! i) S' s'
                in case r of
                     None \<Rightarrow> assignObject e fs (ds[i := x]) ks S s
                   | Some err \<Rightarrow> (ds[i := x], Some err))))"
| "assignDictionary e t kvs keys S s =
     (case keys of [] \<Rightarrow> (kvs, None) | k # ks \<Rightarrow>
      case dict_value S s k of
        None \<Rightarrow> assignDictionary e t kvs ks S s
      | Some (S', s') \<Rightarrow>
          (let d = (case map_of kvs k of Some d \<Rightarrow> d | None \<Rightarrow> default_of e t);
               (x, r) = assign e False t d S' s'
           in case r of
                None \<Rightarrow> assignDictionary e t (put_key k x kvs) ks S s
              | Some err \<Rightarrow> (put_key k x kvs, Some err)))"
  by pat_completeness auto


termination
proof (relation "measures
    [\<lambda>x. case x of
        Inl (Inl (e, m, T, d, S, s)) \<Rightarrow> size T | Inl (Inr (Inl (e, m, T, d, S, s))) \<Rightarrow> size T
      | Inl (Inr (Inr (e, t, ds, xs))) \<Rightarrow> size t | Inr (Inl (e, ts, ds, xs)) \<Rightarrow> size_list size ts
      | Inr (Inr (Inl (e, fs, ds, ks, S, s))) \<Rightarrow> size (ObjectT fs) | Inr (Inr (Inr (e, t, kvs, ks, S, s))) \<Rightarrow> size t,
     \<lambda>x. case x of
        Inl (Inl (e, m, T, d, S, s)) \<Rightarrow> size s | Inl (Inr (Inl (e, m, T, d, S, s))) \<Rightarrow> size s
      | Inl (Inr (Inr (e, t, ds, xs))) \<Rightarrow> size_list (\<lambda>y. size (snd y)) xs
      | Inr (Inl (e, ts, ds, xs)) \<Rightarrow> size_list (\<lambda>y. size (snd y)) xs
      | Inr (Inr (Inl (e, fs, ds, ks, S, s))) \<Rightarrow> size s | Inr (Inr (Inr (e, t, kvs, ks, S, s))) \<Rightarrow> size s,
     \<lambda>x. case x of
        Inl (Inl (e, m, T, d, S, s)) \<Rightarrow> 2 + (case T of ObjectT fs \<Rightarrow> length fs | _ \<Rightarrow> 0)
      | Inl (Inr (Inl (e, m, T, d, S, s))) \<Rightarrow> 1 + (case T of ObjectT fs \<Rightarrow> length fs | _ \<Rightarrow> 0)
      | Inl (Inr (Inr (e, t, ds, xs))) \<Rightarrow> 0 | Inr (Inl (e, ts, ds, xs)) \<Rightarrow> 0
      | Inr (Inr (Inl (e, fs, ds, ks, S, s))) \<Rightarrow> length ks | Inr (Inr (Inr (e, t, kvs, ks, S, s))) \<Rightarrow> length ks]")
qed (auto dest: dict_value_smaller field_smaller)

declare assign.simps [simp del] assign_target.simps [simp del] append_all.simps [simp del]
  set_elements.simps [simp del] assignObject.simps [simp del] assignDictionary.simps [simp del]

section \<open>Well-formed types\<close>

lemma field_type_size: "f \<in> set fs \<Longrightarrow> size (snd f) < size (ObjectT fs)"
proof -
  assume "f \<in> set fs"
  then have "size_prod (\<lambda>_. 0) size f \<le> size_list (size_prod (\<lambda>_. 0) size) fs"
    by (rule size_list_estimation') simp
  then show ?thesis by (cases f) auto
qed

lemma tuple_type_size: "t \<in> set ts \<Longrightarrow> size t < size (TupleT ts)"
  using element_size [of t ts] by simp

function ctype_ok :: "ctype \<Rightarrow> bool" where
  "ctype_ok (IntT sg b) \<longleftrightarrow> b \<in> {1, 2, 4, 8}"
| "ctype_ok (FloatT b) \<longleftrightarrow> b \<in> {4, 8}"
| "ctype_ok BoolT \<longleftrightarrow> True"
| "ctype_ok StringT \<longleftrightarrow> True"
| "ctype_ok AnyT \<longleftrightarrow> True"
| "ctype_ok (OptT t) \<longleftrightarrow> ctype_ok t"
| "ctype_ok (VectorT t) \<longleftrightarrow> ctype_ok t"
| "ctype_ok (MapT t) \<longleftrightarrow> ctype_ok t"
| "ctype_ok (TupleT ts) \<longleftrightarrow> (\<forall>t\<in>set ts. ctype_ok t)"
| "ctype_ok (ObjectT fs) \<longleftrightarrow> (\<forall>f\<in>set fs. ctype_ok (snd f))"
  by pat_completeness auto

termination by (relation "measure size") (auto dest: field_type_size tuple_type_size)

text \<open>
  What the floating point conversions and default values are taken to satisfy: rounding to \<open>float\<close> twice is
  rounding once, and a default value is a value of its type.
\<close>

definition floats_ok :: "'f floats \<Rightarrow> bool" where
  "floats_ok e \<longleftrightarrow> (\<forall>x. to_single e (to_single e x) = to_single e x) \<and> (\<forall>t. ctype_ok t \<longrightarrow> typed e t (default_of e t))"

lemma two_power: "0 < b \<Longrightarrow> (2 :: int) ^ (8 * b) = 2 * 2 ^ (8 * b - 1)"
  using power_Suc [of "2 :: int" "8 * b - 1"] by simp

lemma wrap_in: "0 < b \<Longrightarrow> int_in sg b (wrap sg b i)"
proof -
  assume "0 < b"
  then have two: "(2 :: int) ^ (8 * b) = 2 * 2 ^ (8 * b - 1)" by (rule two_power)
  have "0 \<le> (i + 2 ^ (8 * b - 1)) mod 2 ^ (8 * b)" "(i + 2 ^ (8 * b - 1)) mod 2 ^ (8 * b) < 2 ^ (8 * b)"
    "0 \<le> i mod 2 ^ (8 * b)" "i mod 2 ^ (8 * b) < 2 ^ (8 * b)" by simp_all
  then show ?thesis using two by (simp add: wrap_def int_in_def)
qed

lemma wrap_id: "0 < b \<Longrightarrow> int_in sg b i \<Longrightarrow> wrap sg b i = i"
proof -
  assume "0 < b" "int_in sg b i"
  moreover have "(2 :: int) ^ (8 * b) = 2 * 2 ^ (8 * b - 1)" using \<open>0 < b\<close> by (rule two_power)
  ultimately show ?thesis by (cases sg) (auto simp: wrap_def int_in_def)
qed

lemma int_in_8: "b \<in> {1, 2, 4, 8} \<Longrightarrow> int_in sg b i \<Longrightarrow> int_in sg 8 i"
  by (auto simp: int_in_def split: if_splits)

section \<open>Assignment keeps the type\<close>

lemma elements_typed: "typed e S s \<Longrightarrow> elements S s = Some xs \<Longrightarrow> (t, x) \<in> set xs \<Longrightarrow> typed e t x"
  by (induction S s rule: elements.induct) (auto simp: list_all_iff list_all2_iff)

lemma dict_value_typed: "typed e S s \<Longrightarrow> dict_value S s k = Some (t, x) \<Longrightarrow> typed e t x"
proof (induction S s k rule: dict_value.induct)
  case (1 t' kvs key)
  then show ?case by (force simp: list_all_iff dest: map_of_SomeD)
next
  case (2 fs vs key)
  then show ?case by (auto simp: list_all2_conv_all_nth split: option.splits if_splits)
qed auto

lemma put_key_set: "set (put_key k v kvs) \<subseteq> insert (k, v) (set kvs)"
  by (induction kvs) (auto split: if_splits)

lemma put_key_keys: "fst ` set (put_key k v kvs) = insert k (fst ` set kvs)"
proof (induction kvs)
  case (Cons kv kvs)
  then show ?case by (cases kv) (simp add: insert_commute)
qed simp

lemma put_key_sorted: "sorted_wrt (<) (map fst kvs) \<Longrightarrow> sorted_wrt (<) (map fst (put_key k v kvs))"
proof (induction kvs)
  case (Cons kv kvs)
  obtain k' v' where kv: "kv = (k', v')" by (cases kv)
  have "\<forall>x\<in>fst ` set (put_key k v kvs). k' < x" if "k' < k" using Cons.prems kv that by (simp add: put_key_keys)
  then show ?case using Cons kv by (auto simp: not_less_iff_gr_or_eq)
qed simp

lemma put_key_typed: "list_all (\<lambda>x. P (snd x)) kvs \<Longrightarrow> P v \<Longrightarrow> list_all (\<lambda>x. P (snd x)) (put_key k v kvs)"
  using put_key_set [of k v kvs] by (auto simp: list_all_iff)

lemma clear_typed: "typed e T d \<Longrightarrow> typed e T (clear_value T d)"
  by (cases T) auto

lemma implicit_cast_typed:
  assumes "floats_ok e" "ctype_ok T" "typed e T d"
  shows "typed e T (fst (implicit_cast e T d S s err))"
  using assms by (cases T) (auto simp: implicit_cast_def setInt64_def setDouble_def floats_ok_def wrap_in split: ctype.splits val.splits)

lemma primitive_typed:
  assumes "floats_ok e" "ctype_ok T" "typed e T d" "is_primitive T"
  shows "typed e T (fst (assignPrimitiveValue e T d S s))"
proof (cases T)
  case StringT
  then show ?thesis using assms(3) by (cases "(e, d, S, s)" rule: assignStringValue.cases) (auto split: option.splits)
next
  case (IntT sg b)
  then show ?thesis
    using assms implicit_cast_typed [OF assms(1-3), of S s]
    by (auto simp: setInt64_def wrap_in split: ctype.splits val.splits)
next
  case (FloatT b)
  then show ?thesis
    using assms implicit_cast_typed [OF assms(1-3), of S s]
    by (auto simp: setDouble_def floats_ok_def split: ctype.splits val.splits)
next
  case BoolT
  then show ?thesis
    using assms implicit_cast_typed [OF assms(1-3), of S s] by (auto split: ctype.splits val.splits)
qed (use assms in auto)

lemma append_unfold:
  "append_all e t ds [] = (ds, None)"
  "append_all e t ds (x # xs) =
     (case assign e False t (default_of e t) (fst x) (snd x) of
        (y, None) \<Rightarrow> append_all e t (ds @ [y]) xs | (y, Some err) \<Rightarrow> (ds @ [y], Some err))"
  by (subst append_all.simps; cases x; simp split: prod.splits option.splits)+

lemma set_unfold:
  "set_elements e [] ds xs = (ds, None)" "set_elements e ts [] xs = ([], None)" "set_elements e ts ds [] = (ds, None)"
  "set_elements e (t # ts) (d # ds) (x # xs) =
     (case assign e False t d (fst x) (snd x) of
        (y, None) \<Rightarrow> (y # fst (set_elements e ts ds xs), snd (set_elements e ts ds xs))
      | (y, Some err) \<Rightarrow> (y # ds, Some err))"
  by (subst set_elements.simps; cases x; simp split: prod.splits option.splits list.splits)+

lemma object_unfold:
  "assignObject e fs ds [] S s = (ds, None)"
  "assignObject e fs ds (k # ks) S s =
     (case dict_value S s k of
        None \<Rightarrow> assignObject e fs ds ks S s
      | Some v \<Rightarrow>
          (case find_field fs k of
             None \<Rightarrow> (ds, Some NoField)
           | Some i \<Rightarrow>
               (case assign e False (snd (fs ! i)) (ds ! i) (fst v) (snd v) of
                  (y, None) \<Rightarrow> assignObject e fs (ds[i := y]) ks S s | (y, Some err) \<Rightarrow> (ds[i := y], Some err))))"
  by (subst assignObject.simps; simp split: prod.splits option.splits)+

lemma dictionary_unfold:
  "assignDictionary e t kvs [] S s = (kvs, None)"
  "assignDictionary e t kvs (k # ks) S s =
     (case dict_value S s k of
        None \<Rightarrow> assignDictionary e t kvs ks S s
      | Some v \<Rightarrow>
          (case assign e False t (case map_of kvs k of Some d \<Rightarrow> d | None \<Rightarrow> default_of e t) (fst v) (snd v) of
             (y, None) \<Rightarrow> assignDictionary e t (put_key k y kvs) ks S s | (y, Some err) \<Rightarrow> (put_key k y kvs, Some err)))"
  by (subst assignDictionary.simps; simp split: prod.splits option.splits)+

lemmas loops_unfold = append_unfold set_unfold object_unfold dictionary_unfold

text \<open>The loops keep types when the calls on the values inside the source do.\<close>

lemma append_typed:
  assumes "\<And>S s d. (S, s) \<in> set xs \<Longrightarrow> typed e t d \<Longrightarrow> typed e t (fst (assign e False t d S s))"
    and "typed e t (default_of e t)" "list_all (typed e t) ds"
  shows "list_all (typed e t) (fst (append_all e t ds xs))"
  using assms(1,3)
proof (induction xs arbitrary: ds)
  case (Cons x xs)
  have "typed e t (fst (assign e False t (default_of e t) (fst x) (snd x)))"
    using Cons.prems(1) [of "fst x" "snd x"] assms(2) by simp
  then show ?case
    using Cons by (cases "assign e False t (default_of e t) (fst x) (snd x)") (auto simp: loops_unfold split: option.splits)
qed (simp add: loops_unfold)

lemma set_typed:
  assumes "\<And>t S s d. t \<in> set ts \<Longrightarrow> (S, s) \<in> set xs \<Longrightarrow> typed e t d \<Longrightarrow> typed e t (fst (assign e False t d S s))"
    and "list_all2 (typed e) ts ds"
  shows "list_all2 (typed e) ts (fst (set_elements e ts ds xs))"
  using assms(2,1)
proof (induction ts ds arbitrary: xs rule: list_all2_induct)
  case (Cons t ts d ds)
  show ?case
  proof (cases xs)
    case (Cons x xs')
    have "typed e t (fst (assign e False t d (fst x) (snd x)))"
      using Cons.prems [of t "fst x" "snd x" d] Cons.hyps(1) \<open>xs = x # xs'\<close> by simp
    moreover have "list_all2 (typed e) ts (fst (set_elements e ts ds xs'))"
      using Cons.IH Cons.prems \<open>xs = x # xs'\<close> by auto
    ultimately show ?thesis
      using \<open>xs = x # xs'\<close> Cons.hyps by (cases "assign e False t d (fst x) (snd x)") (auto simp: loops_unfold split: option.splits)
  qed (use Cons.hyps in \<open>simp add: loops_unfold\<close>)
qed (simp add: loops_unfold)

lemma object_typed:
  assumes "\<And>f S' s' d k. f \<in> set fs \<Longrightarrow> dict_value S s k = Some (S', s') \<Longrightarrow> typed e (snd f) d \<Longrightarrow>
      typed e (snd f) (fst (assign e False (snd f) d S' s'))"
    and "list_all2 (\<lambda>f v. typed e (snd f) v) fs ds"
  shows "list_all2 (\<lambda>f v. typed e (snd f) v) fs (fst (assignObject e fs ds ks S s))"
  using assms(2)
proof (induction ks arbitrary: ds)
  case (Cons k ks)
  show ?case
  proof (cases "dict_value S s k")
    case (Some v)
    show ?thesis
    proof (cases "find_field fs k")
      case (Some i)
      then have i: "i < length fs" "i < length ds"
        using list_all2_lengthD [OF Cons.prems] by (auto simp: find_field_def dest!: find_index_less)
      have "typed e (snd (fs ! i)) (fst (assign e False (snd (fs ! i)) (ds ! i) (fst v) (snd v)))"
        using assms(1) [of "fs ! i" k "fst v" "snd v" "ds ! i"] Cons.prems i \<open>dict_value S s k = Some v\<close>
        by (auto simp: list_all2_conv_all_nth)
      then have "list_all2 (\<lambda>f v. typed e (snd f) v) fs (ds[i := fst (assign e False (snd (fs ! i)) (ds ! i) (fst v) (snd v))])"
        using Cons.prems i by (auto simp: list_all2_conv_all_nth nth_list_update)
      then show ?thesis
        using \<open>dict_value S s k = Some v\<close> Some Cons.IH
        by (cases "assign e False (snd (fs ! i)) (ds ! i) (fst v) (snd v)") (auto simp: loops_unfold split: option.splits)
    qed (use Cons.prems \<open>dict_value S s k = Some v\<close> in \<open>simp add: loops_unfold\<close>)
  qed (use Cons in \<open>simp add: loops_unfold\<close>)
qed (simp add: loops_unfold)

lemma dictionary_typed:
  assumes "\<And>S' s' d k. dict_value S s k = Some (S', s') \<Longrightarrow> typed e t d \<Longrightarrow> typed e t (fst (assign e False t d S' s'))"
    and "typed e t (default_of e t)" "typed e (MapT t) (MapV kvs)"
  shows "typed e (MapT t) (MapV (fst (assignDictionary e t kvs ks S s)))"
  using assms(3)
proof (induction ks arbitrary: kvs)
  case (Cons k ks)
  show ?case
  proof (cases "dict_value S s k")
    case (Some v)
    let ?d = "case map_of kvs k of Some d \<Rightarrow> d | None \<Rightarrow> default_of e t"
    have "typed e t ?d" using assms(2) Cons.prems by (force simp: list_all_iff split: option.splits dest: map_of_SomeD)
    then have "typed e t (fst (assign e False t ?d (fst v) (snd v)))" using assms(1) [of k "fst v" "snd v"] Some by simp
    then have "typed e (MapT t) (MapV (put_key k (fst (assign e False t ?d (fst v) (snd v))) kvs))"
      using Cons.prems by (auto intro: put_key_sorted put_key_typed)
    then show ?thesis
      using Some Cons.IH by (cases "assign e False t ?d (fst v) (snd v)") (auto simp: loops_unfold split: option.splits)
  qed (use Cons in \<open>simp add: loops_unfold\<close>)
qed (simp add: loops_unfold)

text \<open>A type before the source, by the size of both.\<close>

lemma assign_typed:
  assumes e: "floats_ok e"
  shows "ctype_ok T \<Longrightarrow> typed e T d \<Longrightarrow> typed e S s \<Longrightarrow> typed e T (fst (assign e m T d S s))"
proof (induction "size T + size s" arbitrary: T d S s m rule: less_induct)
  case less
  have inner: "typed e t (fst (assign e m' t d' S' s'))"
    if "size t + size s' < size T + size s" "ctype_ok t" "typed e t d'" "typed e S' s'" for t d' S' s' m'
    using less.hyps [OF that(1) that(2-4)] .
  have default: "typed e t (default_of e t)" if "ctype_ok t" for t using e that by (simp add: floats_ok_def)
  have target: "typed e T (fst (assign_target e m T d S s))" if "T \<noteq> AnyT"
  proof (cases T)
    case (OptT t)
    have "typed e t (case d of OptV (Some x) \<Rightarrow> x | _ \<Rightarrow> default_of e t)"
      using less.prems OptT default by auto
    then have "typed e t (fst (assign e False t (case d of OptV (Some x) \<Rightarrow> x | _ \<Rightarrow> default_of e t) S s))"
      using inner less.prems OptT by simp
    then show ?thesis
      by (subst assign_target.simps) (auto simp: OptT split: prod.splits)
  next
    case (VectorT t)
    have "list_all (typed e t) (fst (append_all e t (if m then list_items d else []) xs))" if xs: "elements S s = Some xs" for xs
    proof (rule append_typed)
      show "typed e t (fst (assign e False t d' S' s'))" if "(S', s') \<in> set xs" "typed e t d'" for S' s' d'
        using inner [of t s' d' S' False] that less.prems VectorT
          elements_smaller [OF xs that(1)] elements_typed [OF less.prems(3) xs that(1)] by simp
    qed (use less.prems VectorT default in auto)
    then show ?thesis
      using less.prems VectorT by (subst assign_target.simps) (auto split: option.splits prod.splits)
  next
    case (TupleT ts)
    have "list_all2 (typed e) ts (fst (set_elements e ts (list_items d) xs))" if xs: "elements S s = Some xs" for xs
    proof (rule set_typed)
      show "typed e t (fst (assign e False t d' S' s'))" if "t \<in> set ts" "(S', s') \<in> set xs" "typed e t d'" for t S' s' d'
        using inner [of t s' d' S' False] that less.prems TupleT tuple_type_size [OF that(1)]
          elements_smaller [OF xs that(2)] elements_typed [OF less.prems(3) xs that(2)] by simp
    qed (use less.prems TupleT in auto)
    then show ?thesis
      using less.prems TupleT by (subst assign_target.simps) (auto split: option.splits prod.splits)
  next
    case (ObjectT fs)
    have "list_all2 (\<lambda>f v. typed e (snd f) v) fs (fst (assignObject e fs (list_items d) (map fst fs) S s))"
    proof (rule object_typed)
      show "typed e (snd f) (fst (assign e False (snd f) d' S' s'))"
        if "f \<in> set fs" "dict_value S s k = Some (S', s')" "typed e (snd f) d'" for f S' s' d' k
        using inner [of "snd f" s' d' S' False] that less.prems ObjectT field_type_size [OF that(1)]
          dict_value_smaller [OF that(2)] dict_value_typed [OF less.prems(3) that(2)] by simp
    qed (use less.prems ObjectT in auto)
    then show ?thesis
      using less.prems ObjectT by (subst assign_target.simps) (auto split: option.splits prod.splits)
  next
    case (MapT t)
    have "typed e (MapT t) (MapV (fst (assignDictionary e t (if m then map_items d else []) ks S s)))" for ks
    proof (rule dictionary_typed)
      show "typed e t (fst (assign e False t d' S' s'))" if "dict_value S s k = Some (S', s')" "typed e t d'" for S' s' d' k
        using inner [of t s' d' S' False] that less.prems MapT
          dict_value_smaller [OF that(1)] dict_value_typed [OF less.prems(3) that(1)] by simp
    qed (use less.prems MapT default in auto)
    note kept = this
    show ?thesis
    proof (cases "dict_keys S s")
      case (Some ks)
      then have "fst (assign_target e m T d S s) =
          MapV (fst (assignDictionary e t (if m then map_items d else []) ks S s))"
        by (subst assign_target.simps) (simp add: MapT split: prod.splits)
      then show ?thesis using kept MapT by simp
    qed (use less.prems MapT in \<open>subst assign_target.simps, simp\<close>)
  qed (use that less.prems primitive_typed [OF e less.prems(1,2)] in \<open>subst assign_target.simps, simp\<close>)+
  show ?case
    using target less.prems(2) less.prems(3) clear_typed [OF less.prems(2)] inner [OF _ less.prems(1,2)]
    by (subst assign.simps) (auto split: ctype.splits val.splits option.splits)
qed

section \<open>Copies\<close>

text \<open>
  The types whose values survive an assignment: no \<open>RuntimeValuePtr\<close> inside, no optional directly inside another
  one, and classes whose field names differ not only in case.
\<close>

fun is_opt :: "ctype \<Rightarrow> bool" where
  "is_opt (OptT t) \<longleftrightarrow> True"
| "is_opt _ \<longleftrightarrow> False"

function plain :: "ctype \<Rightarrow> bool" where
  "plain (IntT sg b) \<longleftrightarrow> b \<in> {1, 2, 4, 8}"
| "plain (FloatT b) \<longleftrightarrow> b \<in> {4, 8}"
| "plain BoolT \<longleftrightarrow> True"
| "plain StringT \<longleftrightarrow> True"
| "plain AnyT \<longleftrightarrow> False"
| "plain (OptT t) \<longleftrightarrow> plain t \<and> \<not> is_opt t"
| "plain (VectorT t) \<longleftrightarrow> plain t"
| "plain (MapT t) \<longleftrightarrow> plain t"
| "plain (TupleT ts) \<longleftrightarrow> (\<forall>t\<in>set ts. plain t)"
| "plain (ObjectT fs) \<longleftrightarrow> distinct (map (\<lambda>f. map lower (fst f)) fs) \<and> (\<forall>f\<in>set fs. plain (snd f))"
  by pat_completeness auto

termination by (relation "measure size") (auto dest: field_type_size tuple_type_size)

lemma plain_ok: "plain T \<Longrightarrow> ctype_ok T"
  by (induction T rule: plain.induct) auto

lemma assign_direct: "T \<noteq> AnyT \<Longrightarrow> S \<noteq> AnyT \<Longrightarrow> \<not> is_opt S \<Longrightarrow> assign e m T d S s = assign_target e m T d S s"
  by (subst assign.simps) (cases S; simp)

lemma append_copies:
  assumes "\<And>v. v \<in> set vs \<Longrightarrow> assign e False t (default_of e t) t v = (v, None)"
  shows "append_all e t ds (map (Pair t) vs) = (ds @ vs, None)"
  using assms by (induction vs arbitrary: ds) (simp_all add: loops_unfold)

lemma set_copies:
  assumes "list_all2 (typed e) ts ds" "list_all2 (typed e) ts vs"
    and "\<And>t d v. t \<in> set ts \<Longrightarrow> typed e t d \<Longrightarrow> typed e t v \<Longrightarrow> assign e False t d t v = (v, None)"
  shows "set_elements e ts ds (zip ts vs) = (vs, None)"
  using assms
proof (induction ts ds arbitrary: vs rule: list_all2_induct)
  case (Cons t ts d ds)
  then show ?case by (auto simp: loops_unfold list_all2_Cons1)
qed (simp add: loops_unfold)

lemma put_key_last: "(\<And>x. x \<in> fst ` set kvs \<Longrightarrow> x < k) \<Longrightarrow> put_key k v kvs = kvs @ [(k, v)]"
proof (induction kvs)
  case (Cons a kvs)
  have "fst a < k" using Cons.prems by simp
  then have "k \<noteq> fst a" "\<not> k < fst a" using order.asym by auto
  then show ?case using Cons by (cases a) simp
qed simp

lemma dictionary_copies:
  assumes "sorted_wrt (<) (map fst (xs @ ys))"
    and "\<And>k v. (k, v) \<in> set ys \<Longrightarrow> dict_value S s k = Some (t, v) \<and> assign e False t (default_of e t) t v = (v, None)"
  shows "assignDictionary e t xs (map fst ys) S s = (xs @ ys, None)"
  using assms
proof (induction ys arbitrary: xs)
  case (Cons y ys)
  obtain k v where y: "y = (k, v)" by (cases y)
  have less: "x < k" if "x \<in> fst ` set xs" for x using Cons.prems(1) that y by (auto simp: sorted_wrt_append)
  then have "map_of xs k = None" by (metis less_irrefl map_of_eq_None_iff)
  moreover have "put_key k v xs = xs @ [(k, v)]" using less by (rule put_key_last)
  moreover have "dict_value S s k = Some (t, v)" "assign e False t (default_of e t) t v = (v, None)"
    using Cons.prems(2) [of k v] y by auto
  moreover have "assignDictionary e t (xs @ [(k, v)]) (map fst ys) S s = ((xs @ [(k, v)]) @ ys, None)"
    by (rule Cons.IH) (use Cons.prems y in auto)
  ultimately show ?case using y by (simp add: loops_unfold)
qed (simp add: loops_unfold)

lemma find_field_nth:
  assumes "distinct (map (\<lambda>f. map lower (fst f)) fs)" "i < length fs"
  shows "find_field fs (fst (fs ! i)) = Some i"
  using assms nth_eq_iff_index_eq [OF assms(1)]
  by (fastforce simp: find_field_def find_index_Some icaseEqual_map)

lemma object_copies:
  assumes fs: "distinct (map (\<lambda>f. map lower (fst f)) fs)" "length vs = length fs"
    and step: "\<And>i d. i < length fs \<Longrightarrow> typed e (snd (fs ! i)) d \<Longrightarrow>
      assign e False (snd (fs ! i)) d (snd (fs ! i)) (vs ! i) = (vs ! i, None)"
  shows "j \<le> length fs \<Longrightarrow> length ds = length fs \<Longrightarrow> take j ds = take j vs \<Longrightarrow>
    (\<And>i. j \<le> i \<Longrightarrow> i < length fs \<Longrightarrow> typed e (snd (fs ! i)) (ds ! i)) \<Longrightarrow>
    assignObject e fs ds (map fst (drop j fs)) (ObjectT fs) (ListV vs) = (vs, None)"
proof (induction "length fs - j" arbitrary: j ds)
  case 0
  then show ?case using fs(2) by (simp add: loops_unfold)
next
  case (Suc n)
  then have j: "j < length fs" by simp
  have "take (Suc j) (ds[j := vs ! j]) = take (Suc j) vs"
    using Suc.prems(2,3) j fs(2) by (simp add: take_Suc_conv_app_nth)
  then have "assignObject e fs (ds[j := vs ! j]) (map fst (drop (Suc j) fs)) (ObjectT fs) (ListV vs) = (vs, None)"
    using Suc.prems Suc.hyps(2) j by (intro Suc.hyps(1)) (auto simp: nth_list_update)
  then show ?case
    using find_field_nth [OF fs(1) j] step [OF j Suc.prems(4) [OF order_refl j]] fs(2) j
    by (simp add: Cons_nth_drop_Suc [symmetric] loops_unfold)
qed

lemma primitive_copies:
  assumes "plain T" "is_primitive T" "typed e T d" "typed e T s"
  shows "assignPrimitiveValue e T d T s = (s, None)"
proof (cases T)
  case (IntT sg b)
  then obtain i where i: "s = IntV i" "int_in sg b i" "b \<in> {1, 2, 4, 8}" using assms(4) by auto
  then have "wrap sg 8 i = i" "wrap sg b i = i" using wrap_id int_in_8 by fastforce+
  then show ?thesis using IntT i(1) by (auto simp: setInt64_def getInt64_def getUint64_def)
qed (use assms in \<open>auto simp: setDouble_def\<close>)

lemma assign_copies:
  assumes e: "floats_ok e"
  shows "plain T \<Longrightarrow> typed e T d \<Longrightarrow> typed e T s \<Longrightarrow> assign e False T d T s = (s, None)"
proof (induction "size T" arbitrary: T d s rule: less_induct)
  case less
  have default: "typed e t (default_of e t)" if "plain t" for t using e plain_ok [OF that] by (simp add: floats_ok_def)
  have direct: "assign e False T d T s = assign_target e False T d T s" if "T \<noteq> AnyT" "\<not> is_opt T"
    using that by (intro assign_direct)
  show ?case
  proof (cases T)
    case (OptT t)
    show ?thesis
    proof (cases "s = OptV None")
      case False
      then obtain v where v: "s = OptV (Some v)" "typed e t v" using less.prems OptT by auto
      have t: "plain t" "t \<noteq> AnyT" "\<not> is_opt t" using less.prems(1) OptT by auto
      let ?d = "case d of OptV (Some x) \<Rightarrow> x | _ \<Rightarrow> default_of e t"
      have "assign e False t ?d t v = (v, None)"
        using less.hyps [of t ?d v] t v(2) less.prems(2) default OptT by auto
      then have "assign_target e False T d t v = (OptV (Some v), None)"
        by (subst assign_target.simps) (simp add: OptT)
      moreover have "assign e False T d T s = assign e False T d t v"
        by (subst assign.simps) (simp add: OptT v(1))
      moreover have "assign e False T d t v = assign_target e False T d t v" using t OptT by (intro assign_direct) auto
      ultimately show ?thesis using v by simp
    qed (use OptT in \<open>subst assign.simps, simp\<close>)
  next
    case (VectorT t)
    then obtain vs where vs: "s = ListV vs" "list_all (typed e t) vs" using less.prems by auto
    have "append_all e t [] (map (Pair t) vs) = ([] @ vs, None)"
      by (rule append_copies) (use less.hyps [of t] less.prems VectorT vs default in \<open>auto simp: list_all_iff\<close>)
    then show ?thesis using direct VectorT vs(1) by (simp add: assign_target.simps)
  next
    case (TupleT ts)
    then obtain vs ds where vs: "s = ListV vs" "d = ListV ds" "list_all2 (typed e) ts vs" "list_all2 (typed e) ts ds"
      using less.prems by auto
    have "set_elements e ts ds (zip ts vs) = (vs, None)"
      by (rule set_copies [OF vs(4,3)]) (use less.hyps tuple_type_size less.prems(1) TupleT in auto)
    then show ?thesis using direct TupleT vs(1,2) by (simp add: assign_target.simps)
  next
    case (ObjectT fs)
    then obtain vs ds where vs: "s = ListV vs" "d = ListV ds" "list_all2 (\<lambda>x v. typed e (snd x) v) fs vs"
      "list_all2 (\<lambda>x v. typed e (snd x) v) fs ds"
      using less.prems by auto
    have "assignObject e fs ds (map fst (drop 0 fs)) (ObjectT fs) (ListV vs) = (vs, None)"
    proof (rule object_copies)
      show "assign e False (snd (fs ! i)) d' (snd (fs ! i)) (vs ! i) = (vs ! i, None)"
        if "i < length fs" "typed e (snd (fs ! i)) d'" for i d'
        using less.hyps [of "snd (fs ! i)" d' "vs ! i"] field_type_size [of "fs ! i" fs] that vs(3) less.prems(1) ObjectT
        by (auto simp: list_all2_conv_all_nth)
    qed (use vs(3,4) less.prems(1) ObjectT in \<open>auto simp: list_all2_conv_all_nth\<close>)
    then show ?thesis using direct ObjectT vs(1,2) by (simp add: assign_target.simps)
  next
    case (MapT t)
    then obtain kvs where kvs: "s = MapV kvs" "sorted_wrt (<) (map fst kvs)" "list_all (\<lambda>x. typed e t (snd x)) kvs"
      using less.prems by auto
    have "distinct (map fst kvs)" using kvs(2) strict_sorted_iff by blast
    then have "assignDictionary e t [] (map fst kvs) T s = ([] @ kvs, None)"
      by (intro dictionary_copies)
        (use kvs less.hyps [of t] less.prems(1) MapT default in \<open>auto simp: list_all_iff map_of_eq_Some_iff\<close>)
    then show ?thesis using direct MapT kvs(1) by (simp add: assign_target.simps)
  qed (use direct less.prems primitive_copies [OF less.prems(1)] in \<open>simp_all add: assign_target.simps\<close>)
qed

section \<open>Merging dictionaries\<close>

lemma map_of_put_key [simp]: "map_of (put_key k v kvs) = (map_of kvs)(k \<mapsto> v)"
  by (induction kvs) (auto simp: fun_eq_iff)

definition merged :: "'f floats \<Rightarrow> ctype \<Rightarrow> (string \<rightharpoonup> 'f val) \<Rightarrow> string set \<Rightarrow> ctype \<Rightarrow> 'f val \<Rightarrow> string \<rightharpoonup> 'f val" where
  "merged e t old ks S s =
     (\<lambda>k. case (if k \<in> ks then dict_value S s k else None) of
            None \<Rightarrow> old k
          | Some (S', s') \<Rightarrow>
              Some (fst (assign e False t (case old k of Some d \<Rightarrow> d | None \<Rightarrow> default_of e t) S' s')))"

lemma dictionary_merges:
  assumes "distinct ks" "assignDictionary e t kvs ks S s = (kvs', None)"
  shows "map_of kvs' = merged e t (map_of kvs) (set ks) S s"
  using assms
proof (induction ks arbitrary: kvs)
  case Nil
  then show ?case by (simp add: loops_unfold merged_def)
next
  case (Cons k ks)
  show ?case
  proof (cases "dict_value S s k")
    case None
    then show ?thesis using Cons by (auto simp: loops_unfold merged_def fun_eq_iff)
  next
    case (Some v)
    let ?d = "case map_of kvs k of Some d \<Rightarrow> d | None \<Rightarrow> default_of e t"
    obtain y where y: "assign e False t ?d (fst v) (snd v) = (y, None)"
      using Cons.prems(2) Some by (cases "assign e False t ?d (fst v) (snd v)") (auto simp: loops_unfold split: option.splits)
    then have "assignDictionary e t (put_key k y kvs) ks S s = (kvs', None)"
      using Cons.prems(2) Some by (simp add: loops_unfold)
    then have "map_of kvs' = merged e t ((map_of kvs)(k \<mapsto> y)) (set ks) S s" using Cons by simp
    moreover have "merged e t ((map_of kvs)(k \<mapsto> y)) (set ks) S s x = merged e t (map_of kvs) (set (k # ks)) S s x" for x
      using Cons.prems(1) Some y by (cases "x = k"; cases "dict_value S s x") (auto simp: merged_def split: prod.splits)
    ultimately show ?thesis by (simp add: fun_eq_iff)
  qed
qed

section \<open>An instance of the parameters\<close>

text \<open>Floats as integers of which a \<open>float\<close> keeps the multiples of 4, and members initialised with zero.\<close>

function default_value :: "'f \<Rightarrow> ctype \<Rightarrow> 'f val" where
  "default_value z (IntT sg b) = IntV 0"
| "default_value z (FloatT b) = FloatV z"
| "default_value z BoolT = BoolV False"
| "default_value z StringT = StringV []"
| "default_value z (OptT t) = OptV None"
| "default_value z (VectorT t) = ListV []"
| "default_value z (MapT t) = MapV []"
| "default_value z (TupleT ts) = ListV (map (default_value z) ts)"
| "default_value z (ObjectT fs) = ListV (map (\<lambda>f. default_value z (snd f)) fs)"
| "default_value z AnyT = AnyV None"
  by pat_completeness auto

termination by (relation "measure (\<lambda>(z, t). size t)") (auto dest: field_type_size tuple_type_size)

definition int_floats :: "int floats" where
  "int_floats = \<lparr>to_single = (\<lambda>x. x div 4 * 4), of_integer = (\<lambda>i. i), floor_int64 = (\<lambda>x. x), show_float = show_int,
     read_float = lexicalCast_int64, default_of = default_value 0\<rparr>"

lemma int_floats_simps [simp]:
  "to_single int_floats x = x div 4 * 4" "of_integer int_floats i = i" "floor_int64 int_floats x = x"
  "default_of int_floats = default_value 0"
  by (simp_all add: int_floats_def)

lemma default_typed: "ctype_ok t \<Longrightarrow> typed int_floats t (default_value 0 t)"
proof (induction t rule: ctype_ok.induct)
  case (1 sg b)
  then show ?case by (auto simp: int_in_def)
next
  case (9 ts)
  then show ?case by (auto simp: list_all2_conv_all_nth)
next
  case (10 fs)
  then show ?case by (auto simp: list_all2_conv_all_nth)
qed auto

lemma int_floats_ok: "floats_ok int_floats"
  using default_typed by (simp add: floats_ok_def)

section \<open>Properties\<close>

text \<open>
  Assignment is type safe: whatever the source is, and also where it stops with an error, the target is
  afterwards a value of its type, every integer inside it in the range of its type.
\<close>

theorem assign_keeps_type:
  assumes "floats_ok e" "ctype_ok T" "typed e T d" "typed e S s" "assign e m T d S s = (d', r)"
  shows "typed e T d'"
  using assign_typed [OF assms(1-4), of m] assms(5) by simp

lemma assign_keeps_type_witness:
  "typed int_floats (VectorT (IntT True 2)) (ListV [IntV 4464, IntV 0]) \<and>
   assign int_floats False (VectorT (IntT True 2)) (ListV [IntV 5]) (TupleT [IntT False 8, BoolT, IntT True 4])
     (ListV [IntV 70000, BoolV True, IntV 1]) = (ListV [IntV 4464, IntV 0], Some NotInteger)"
proof
  let ?S = "TupleT [IntT False 8, BoolT, IntT True 4]" and ?s = "ListV [IntV 70000, BoolV True, IntV 1] :: int val"
  show run: "assign int_floats False (VectorT (IntT True 2)) (ListV [IntV 5]) ?S ?s = (ListV [IntV 4464, IntV 0], Some NotInteger)"
    by (simp add: assign.simps assign_target.simps append_unfold implicit_cast_def setInt64_def getInt64_def wrap_def)
  show "typed int_floats (VectorT (IntT True 2)) (ListV [IntV 4464, IntV 0])"
    by (rule assign_keeps_type [OF int_floats_ok _ _ _ run]) (auto simp: int_in_def)
qed



text \<open>
  Merging into a dictionary: after a successful assignment a key of the source holds what assigning its
  value to the old one (or to a default value) gives, and, when merging, the other keys are as before.  The
  inner assignments never merge: a dictionary below the top level is replaced.
\<close>

theorem assign_merges:
  assumes "S \<noteq> AnyT" "\<not> is_opt S" "dict_keys S s = Some ks" "distinct ks"
    and "assign e m (MapT t) (MapV kvs) S s = (MapV kvs', None)"
  shows "map_of kvs' = merged e t (if m then map_of kvs else Map.empty) (set ks) S s"
proof -
  have "assignDictionary e t (if m then kvs else []) ks S s = (kvs', None)"
    using assms(3,5) assign_direct [of "MapT t" S e m "MapV kvs" s] assms(1,2)
    by (cases m) (simp_all add: assign_target.simps split: prod.splits)
  from dictionary_merges [OF assms(4) this] show ?thesis by (cases m) auto
qed

lemma assign_merges_witness:
  "let kvs = [(''a'', IntV 1), (''b'', IntV 5), (''c'', IntV 44)];
       old = [(''a'', IntV 1), (''c'', IntV 3)];
       S = MapT (IntT False 8); s = MapV [(''b'', IntV 5), (''c'', IntV 300)]
   in assign int_floats True (MapT (IntT False 1)) (MapV old) S s = (MapV kvs, None) \<and>
      map_of kvs = merged int_floats (IntT False 1) (map_of old) {''b'', ''c''} S s"
proof -
  have run: "assign int_floats True (MapT (IntT False 1)) (MapV [(''a'', IntV 1), (''c'', IntV 3)])
      (MapT (IntT False 8)) (MapV [(''b'', IntV 5), (''c'', IntV 300)]) =
    (MapV [(''a'', IntV 1), (''b'', IntV 5), (''c'', IntV 44)], None)"
    by (simp add: assign.simps assign_target.simps dictionary_unfold setInt64_def getUint64_def wrap_def less_char_def)
  show ?thesis
    using assign_merges [OF _ _ _ _ run, of "[''b'', ''c'']"] run by simp
qed

end
