(* ===== verification/ServiceOrder.thy ===== *)
theory ServiceOrder
  imports Prelude "HOL-Library.Multiset"
begin

text \<open>
  The order in which services are initialised and shut down: \<open>OrderedServiceListBuilder\<close>,
  \<open>makeInitOrderedServiceList\<close> and \<open>makeShutdownOrderedServiceList\<close> of
  \<open>src/service/service_provider_impl.cpp\<close>.  Services and run-time types are numbers; which types a service is
  of, and which types it declares as its dependencies, is the environment.  The list of entries is built by a
  depth-first search and then sorted with a comparison that is no weak order: services that do not depend on each
  other are incomparable, and that is not transitive.  The lemmas show that merging sorts such a list nevertheless,
  because the search leaves it in an order in which what lies between a service and a dependency behind it are
  dependencies of the service as well.
\<close>

section \<open>The entries\<close>

record services =
  is_type :: "nat \<Rightarrow> nat \<Rightarrow> bool"
  getServiceDependencies :: "nat \<Rightarrow> nat list"

record ServiceEntry =
  service :: nat
  collectingDependencies :: bool
  dependencies :: "nat set"

datatype order_error = Cyclic | Out_of_fuel | Duplicate

definition new_entry :: "nat \<Rightarrow> ServiceEntry" where
  "new_entry s = \<lparr>service = s, collectingDependencies = True, dependencies = {}\<rparr>"

definition isDependsOn :: "services \<Rightarrow> ServiceEntry \<Rightarrow> ServiceEntry \<Rightarrow> bool" where
  "isDependsOn E e other =
     (if dependencies e = {} \<or> service other = service e then False
      else \<exists>t\<in>dependencies e. is_type E (service other) t)"

definition isDependencyFor :: "services \<Rightarrow> nat \<Rightarrow> nat list \<Rightarrow> bool" where
  "isDependencyFor E s types \<longleftrightarrow> (\<exists>t\<in>set types. is_type E s t)"

definition find_entry :: "nat \<Rightarrow> ServiceEntry list \<Rightarrow> ServiceEntry option" where
  "find_entry s m = find (\<lambda>e. service e = s) m"

text \<open>The entry of a service is a reference into the list: changing it changes the list.\<close>

definition change_entry :: "nat \<Rightarrow> (ServiceEntry \<Rightarrow> ServiceEntry) \<Rightarrow> ServiceEntry list \<Rightarrow> ServiceEntry list" where
  "change_entry s f m = map (\<lambda>e. if service e = s then f e else e) m"

definition appendDependencies :: "nat set \<Rightarrow> ServiceEntry \<Rightarrow> ServiceEntry" where
  "appendDependencies ts e = e\<lparr>dependencies := dependencies e \<union> ts\<rparr>"

text \<open>
  \<open>getServiceEntry\<close> recurses over the services that provide a direct dependency; \<open>collect\<close> is its loop over all
  services.  A dependency that is still being collected is a cycle, which is fatal.
\<close>

fun collect :: "services \<Rightarrow> (nat \<Rightarrow> ServiceEntry list \<Rightarrow> order_error + ServiceEntry list) \<Rightarrow> nat \<Rightarrow> nat list \<Rightarrow>
    ServiceEntry list \<Rightarrow> order_error + ServiceEntry list" where
  "collect E entry s [] m = Inr m"
| "collect E entry s (otherService # rest) m =
     (if otherService = s then collect E entry s rest m
      else if isDependencyFor E otherService (getServiceDependencies E s)
      then (case entry otherService m of
              Inl e \<Rightarrow> Inl e
            | Inr m' \<Rightarrow>
                (case find_entry otherService m' of
                   Some other \<Rightarrow> collect E entry s rest (change_entry s (appendDependencies (dependencies other)) m')
                 | None \<Rightarrow> Inl Out_of_fuel))
      else collect E entry s rest m)"

primrec getServiceEntry :: "services \<Rightarrow> nat list \<Rightarrow> nat \<Rightarrow> nat \<Rightarrow> ServiceEntry list \<Rightarrow> order_error + ServiceEntry list"
where
  "getServiceEntry E allServices 0 s m = Inl Out_of_fuel"
| "getServiceEntry E allServices (Suc n) s m =
     (case find_entry s m of
        None \<Rightarrow>
          (let m1 = m @ [new_entry s];
               direct = getServiceDependencies E s
           in case (if direct = [] then Inr m1
                    else collect E (getServiceEntry E allServices n) s allServices
                      (change_entry s (appendDependencies (set direct)) m1)) of
                Inl e \<Rightarrow> Inl e
              | Inr m2 \<Rightarrow> Inr (change_entry s (\<lambda>e. e\<lparr>collectingDependencies := False\<rparr>) m2))
      | Some e \<Rightarrow> if collectingDependencies e then Inl Cyclic else Inr m)"

fun build :: "services \<Rightarrow> nat list \<Rightarrow> nat list \<Rightarrow> ServiceEntry list \<Rightarrow> order_error + ServiceEntry list" where
  "build E allServices [] m = Inr m"
| "build E allServices (s # rest) m =
     (case getServiceEntry E allServices (Suc (length allServices)) s m of
        Inl e \<Rightarrow> Inl e
      | Inr m' \<Rightarrow> build E allServices rest m')"

text \<open>
  \<open>std::list::sort\<close>: merging of sorted halves; of two incomparable elements the left one comes first.
\<close>

fun merge :: "('a \<Rightarrow> 'a \<Rightarrow> bool) \<Rightarrow> 'a list \<Rightarrow> 'a list \<Rightarrow> 'a list" where
  "merge lt (x # xs) (y # ys) = (if lt y x then y # merge lt (x # xs) ys else x # merge lt xs (y # ys))"
| "merge lt [] ys = ys"
| "merge lt xs [] = xs"

function list_sort :: "('a \<Rightarrow> 'a \<Rightarrow> bool) \<Rightarrow> 'a list \<Rightarrow> 'a list" where
  "list_sort lt xs =
     (if length xs \<le> 1 then xs
      else merge lt (list_sort lt (take (length xs div 2) xs)) (list_sort lt (drop (length xs div 2) xs)))"
  by pat_completeness auto
termination by (relation "measure (length \<circ> snd)") auto

declare list_sort.simps [simp del]

definition takeOutServiceList ::
  "services \<Rightarrow> nat list \<Rightarrow> order_error + ServiceEntry list \<times> ServiceEntry list" where
  "takeOutServiceList E allServices =
     (case build E allServices allServices [] of
        Inl e \<Rightarrow> Inl e
      | Inr m \<Rightarrow>
          if length m \<noteq> length allServices then Inl Duplicate
          else let sorted = list_sort (\<lambda>left right. isDependsOn E right left) m
               in Inr (filter (\<lambda>e. dependencies e = {}) sorted, filter (\<lambda>e. dependencies e \<noteq> {}) sorted))"

definition makeInitOrderedServiceList ::
  "services \<Rightarrow> nat list \<Rightarrow> order_error + nat list \<times> nat list" where
  "makeInitOrderedServiceList E allServices =
     (case takeOutServiceList E allServices of
        Inl e \<Rightarrow> Inl e
      | Inr (independent, dependent) \<Rightarrow> Inr (map service independent, map service dependent))"

text \<open>
  Services that shut down; those of \<open>initialized\<close> have the initialization interface too.  The result are the
  independent services and the dependent ones.
\<close>

definition makeShutdownOrderedServiceList ::
  "services \<Rightarrow> (nat \<Rightarrow> bool) \<Rightarrow> nat list \<Rightarrow> order_error + nat list \<times> nat list" where
  "makeShutdownOrderedServiceList E initialized unordered =
     (let initializationList = filter initialized unordered;
          others = filter (\<lambda>s. \<not> initialized s) unordered
      in if initializationList = [] then Inr (others, [])
         else case makeInitOrderedServiceList E initializationList of
           Inl e \<Rightarrow> Inl e
         | Inr (independent, dependent) \<Rightarrow> Inr (rev independent @ others, rev dependent))"

section \<open>Initialisation and shutdown\<close>

text \<open>
  What the call of a service gives: no task, a task that is ready, or one that ends later; a task may be rejected.
  \<open>Start s i\<close> is the call for the service \<open>s\<close> on the object \<open>i\<close>, which is the service or its proxy.
\<close>

datatype task = Null | Ready bool | Pending bool

datatype event = Start nat nat | WaitAll "nat list" | Wait nat

definition rejected :: "task \<Rightarrow> bool" where
  "rejected t \<longleftrightarrow> t = Ready False \<or> t = Pending False"

definition pending :: "task \<Rightarrow> bool" where
  "pending t \<longleftrightarrow> t = Pending True \<or> t = Pending False"

definition getInitializationInstance :: "(nat \<rightharpoonup> nat) \<Rightarrow> nat \<Rightarrow> nat" where
  "getInitializationInstance proxies instance' = (case proxies instance' of Some proxy \<Rightarrow> proxy | None \<Rightarrow> instance')"

text \<open>The debug assertion is that the source has no proxy yet.\<close>

definition setInitializationProxy :: "nat \<Rightarrow> nat option \<Rightarrow> (nat \<rightharpoonup> nat) \<Rightarrow> (nat \<rightharpoonup> nat) option" where
  "setInitializationProxy source proxy proxies =
     (case proxy of
        Some p \<Rightarrow> do { require (proxies source = None); Some (proxies(source \<mapsto> p)) }
      | None \<Rightarrow> Some (proxies(source := None)))"

fun one_by_one :: "(nat \<rightharpoonup> nat) \<Rightarrow> (nat \<Rightarrow> task) \<Rightarrow> nat list \<Rightarrow> event list \<times> bool" where
  "one_by_one proxies call [] = ([], True)"
| "one_by_one proxies call (s # rest) =
     (let start = Start s (getInitializationInstance proxies s)
      in if call s = Null then (let (es, ok) = one_by_one proxies call rest in (start # es, ok))
         else if rejected (call s) then ([start, Wait s], False)
         else (let (es, ok) = one_by_one proxies call rest in (start # Wait s # es, ok)))"

definition all_at_once :: "(nat \<rightharpoonup> nat) \<Rightarrow> (nat \<Rightarrow> task) \<Rightarrow> nat list \<Rightarrow> event list" where
  "all_at_once proxies call ss =
     map (\<lambda>s. Start s (getInitializationInstance proxies s)) ss @ [WaitAll (filter (\<lambda>s. pending (call s)) ss)]"

definition initServicesInternal ::
  "services \<Rightarrow> (nat \<rightharpoonup> nat) \<Rightarrow> (nat \<Rightarrow> task) \<Rightarrow> nat list \<Rightarrow> order_error + event list" where
  "initServicesInternal E proxies call allServices =
     (case makeInitOrderedServiceList E allServices of
        Inl err \<Rightarrow> Inl err
      | Inr (independent, dependent) \<Rightarrow>
          Inr (all_at_once proxies call independent @ fst (one_by_one proxies call dependent)))"

text \<open>\<open>shutdownServices\<close>, up to the disposing of all services that follows it.\<close>

definition shutdownServices ::
  "services \<Rightarrow> (nat \<Rightarrow> bool) \<Rightarrow> (nat \<rightharpoonup> nat) \<Rightarrow> (nat \<Rightarrow> task) \<Rightarrow> nat list \<Rightarrow> order_error + event list" where
  "shutdownServices E initialized proxies call unordered =
     (case makeShutdownOrderedServiceList E initialized unordered of
        Inl err \<Rightarrow> Inl err
      | Inr (independent, dependent) \<Rightarrow>
          (let (es, ok) = one_by_one proxies call dependent
           in Inr (if ok then es @ all_at_once proxies call independent else es)))"

section \<open>Merging\<close>

text \<open>
  What the list to be sorted is like: \<open>dep x y\<close> is the comparison of \<open>y\<close> with \<open>x\<close>, \<open>bf\<close> the order of the
  list before sorting.
\<close>

definition block_order :: "('a \<Rightarrow> 'a \<Rightarrow> bool) \<Rightarrow> ('a \<Rightarrow> 'a \<Rightarrow> bool) \<Rightarrow> 'a set \<Rightarrow> bool" where
  "block_order dep bf A \<longleftrightarrow>
     (\<forall>x\<in>A. \<forall>y\<in>A. dep x y \<longrightarrow> \<not> dep y x) \<and>
     (\<forall>x\<in>A. \<forall>y\<in>A. \<forall>z\<in>A. dep x y \<longrightarrow> dep y z \<longrightarrow> dep x z) \<and>
     (\<forall>x\<in>A. \<forall>y\<in>A. x \<noteq> y \<longrightarrow> bf x y \<noteq> bf y x) \<and>
     (\<forall>x\<in>A. \<forall>y\<in>A. \<forall>z\<in>A. bf x y \<longrightarrow> bf y z \<longrightarrow> dep x z \<longrightarrow> dep x y)"

definition good :: "('a \<Rightarrow> 'a \<Rightarrow> bool) \<Rightarrow> ('a \<Rightarrow> 'a \<Rightarrow> bool) \<Rightarrow> 'a list \<Rightarrow> bool" where
  "good dep bf = sorted_wrt (\<lambda>x y. \<not> dep x y \<and> (bf y x \<longrightarrow> dep y x))"

lemma good_Cons: "good dep bf (x # xs) \<longleftrightarrow> (\<forall>y\<in>set xs. \<not> dep x y \<and> (bf y x \<longrightarrow> dep y x)) \<and> good dep bf xs"
  by (simp add: good_def)

lemma block_orderD:
  assumes "block_order dep bf A" "x \<in> A" "y \<in> A"
  shows "dep x y \<Longrightarrow> \<not> dep y x" and "x \<noteq> y \<Longrightarrow> bf x y \<noteq> bf y x"
    and "z \<in> A \<Longrightarrow> dep x y \<Longrightarrow> dep y z \<Longrightarrow> dep x z" and "z \<in> A \<Longrightarrow> bf x y \<Longrightarrow> bf y z \<Longrightarrow> dep x z \<Longrightarrow> dep x y"
  using assms unfolding block_order_def by blast+

lemma set_merge [simp]: "set (merge lt xs ys) = set xs \<union> set ys"
  by (induction lt xs ys rule: merge.induct) auto

lemma mset_merge [simp]: "mset (merge lt xs ys) = mset xs + mset ys"
  by (induction lt xs ys rule: merge.induct) auto

lemma merge_good:
  assumes "block_order dep bf A" "good dep bf ls" "good dep bf rs" "set ls \<subseteq> A" "set rs \<subseteq> A"
    "distinct (ls @ rs)" "\<And>l r. l \<in> set ls \<Longrightarrow> r \<in> set rs \<Longrightarrow> bf l r"
  shows "good dep bf (merge (\<lambda>left right. dep right left) ls rs)"
  using assms(2-)
proof (induction "\<lambda>left right. dep right left" ls rs rule: merge.induct)
  case (1 l ls r rs)
  note B = block_orderD [OF assms(1)]
  have in_A: "l \<in> A" "r \<in> A" "\<And>x. x \<in> set ls \<Longrightarrow> x \<in> A" "\<And>x. x \<in> set rs \<Longrightarrow> x \<in> A" using 1(5,6) by auto
  have L: "x \<in> set ls \<Longrightarrow> \<not> dep l x" "x \<in> set ls \<Longrightarrow> bf x l \<Longrightarrow> dep x l" and R: "x \<in> set rs \<Longrightarrow> \<not> dep r x"
    "x \<in> set rs \<Longrightarrow> bf x r \<Longrightarrow> dep x r" for x
    using 1(3,4) by (auto simp: good_Cons)
  show ?case
  proof (cases "dep l r")
    case True
    have x: "dep x r" if "x \<in> set ls" for x
    proof -
      have "x \<noteq> l" using 1(7) that by auto
      have "\<not> bf l x" using B(4) [of l x r] L(1) [OF that] 1(8) [of x r] True in_A that by auto
      then have "dep x l" using B(2) [of x l] L(2) [OF that] \<open>x \<noteq> l\<close> in_A that by auto
      then show ?thesis using B(3) [of x l r] True in_A that by blast
    qed
    have "good dep bf (merge (\<lambda>left right. dep right left) (l # ls) rs)"
      using 1 True by (auto simp: good_Cons)
    moreover have "\<not> dep r y \<and> (bf y r \<longrightarrow> dep y r)" if "y \<in> insert l (set ls) \<union> set rs" for y
      using that x [of y] R [of y] True B(1) [of l r] B(1) [of y r] in_A by auto
    ultimately show ?thesis using True by (simp add: good_Cons)
  next
    case False
    have "\<not> dep l x" if "x \<in> set rs" for x
    proof
      assume d: "dep l x"
      have "x \<noteq> r" using 1(7) that by auto
      have "\<not> bf r x" using B(4) [of l r x] d False 1(8) [of l r] in_A that by auto
      then have "dep x r" using B(2) [of x r] R(2) [OF that] \<open>x \<noteq> r\<close> in_A that by auto
      then show False using B(3) [of l x r] d False in_A that by blast
    qed
    moreover have "\<not> bf x l" if "x \<in> insert r (set rs)" for x
      using 1(7,8) B(2) [of l x] that in_A by fastforce
    moreover have "good dep bf (merge (\<lambda>left right. dep right left) ls (r # rs))"
      using 1 False by (auto simp: good_Cons)
    ultimately show ?thesis using False L by (auto simp: good_Cons)
  qed
qed auto

lemma mset_list_sort [simp]: "mset (list_sort lt xs) = mset xs"
proof (induction lt xs rule: list_sort.induct)
  case (1 lt xs)
  show ?case
  proof (cases "length xs \<le> 1")
    case False
    then have "mset (list_sort lt xs) = mset (take (length xs div 2) xs) + mset (drop (length xs div 2) xs)"
      using 1 by (subst list_sort.simps) simp
    then show ?thesis by (simp flip: mset_append)
  qed (simp add: list_sort.simps)
qed

lemma set_list_sort [simp]: "set (list_sort lt xs) = set xs"
  by (rule mset_eq_setD) simp

lemma list_sort_good:
  assumes "block_order dep bf A" "sorted_wrt bf xs" "set xs \<subseteq> A" "distinct xs"
  shows "good dep bf (list_sort (\<lambda>left right. dep right left) xs)"
  using assms(2-)
proof (induction "\<lambda>left right. dep right left" xs rule: list_sort.induct)
  case (1 xs)
  let ?n = "length xs div 2" and ?lt = "\<lambda>left right. dep right left"
  show ?case
  proof (cases "length xs \<le> 1")
    case True
    then show ?thesis by (cases xs) (auto simp: list_sort.simps good_def)
  next
    case False
    have s: "set (take ?n xs) \<subseteq> A" "set (drop ?n xs) \<subseteq> A"
      using 1(4) set_take_subset set_drop_subset by fast+
    have d: "distinct (take ?n xs @ drop ?n xs)" using 1(5) by simp
    have w: "sorted_wrt bf (take ?n xs @ drop ?n xs)" using 1(3) by simp
    have "distinct (list_sort ?lt (take ?n xs) @ list_sort ?lt (drop ?n xs))"
      using d by (metis mset_list_sort mset_append mset_eq_imp_distinct_iff)
    then have "good dep bf (merge ?lt (list_sort ?lt (take ?n xs)) (list_sort ?lt (drop ?n xs)))"
      using 1(1,2) [OF False] s d w
      by (intro merge_good [OF assms(1)]) (auto simp: sorted_wrt_append simp del: append_take_drop_id)
    then show ?thesis using False by (subst list_sort.simps) simp
  qed
qed

section \<open>The search\<close>

text \<open>A service needs another one directly; and all types it needs, directly or not.\<close>

definition edge :: "services \<Rightarrow> nat list \<Rightarrow> nat \<Rightarrow> nat \<Rightarrow> bool" where
  "edge E allServices s u \<longleftrightarrow>
     u \<in> set allServices \<and> u \<noteq> s \<and> isDependencyFor E u (getServiceDependencies E s)"

definition needs :: "services \<Rightarrow> nat list \<Rightarrow> nat \<Rightarrow> nat set" where
  "needs E allServices s = {t. \<exists>x. (edge E allServices)\<^sup>*\<^sup>* s x \<and> t \<in> set (getServiceDependencies E x)}"

lemma needs_unfold:
  "needs E A s = set (getServiceDependencies E s) \<union> (\<Union>u\<in>{u. edge E A s u}. needs E A u)"
  unfolding needs_def by (auto elim: converse_rtranclpE intro: converse_rtranclp_into_rtranclp)

text \<open>What lies between an element and one it reaches is reached by it as well.\<close>

fun blocks :: "('a \<Rightarrow> 'a \<Rightarrow> bool) \<Rightarrow> 'a list \<Rightarrow> bool" where
  "blocks P [] = True"
| "blocks P (x # xs) \<longleftrightarrow> blocks P xs \<and> (\<forall>z\<in>set (dropWhile (P x) xs). \<not> P x z)"

lemma blocks_append:
  "blocks P xs \<Longrightarrow> blocks P ys \<Longrightarrow> (\<And>x z. x \<in> set xs \<Longrightarrow> z \<in> set ys \<Longrightarrow> \<not> P x z) \<Longrightarrow> blocks P (xs @ ys)"
proof (induction xs)
  case (Cons x xs)
  have "set (dropWhile (P x) (xs @ ys)) \<subseteq> set (dropWhile (P x) xs) \<union> set ys"
    by (auto simp: dropWhile_append dest: set_dropWhileD)
  then show ?case using Cons by fastforce
qed simp

lemma blocks_Cons_all: "blocks P xs \<Longrightarrow> \<forall>y\<in>set xs. P x y \<Longrightarrow> blocks P (x # xs)"
  by (simp add: dropWhile_eq_Nil_conv [THEN iffD2])

lemma blocks_nth:
  "blocks P xs \<Longrightarrow> i < j \<Longrightarrow> j < k \<Longrightarrow> k < length xs \<Longrightarrow> P (xs ! i) (xs ! k) \<Longrightarrow> P (xs ! i) (xs ! j)"
proof (induction xs arbitrary: i j k)
  case (Cons x xs)
  show ?case
  proof (cases i)
    case 0
    obtain j' k' where jk: "j = Suc j'" "k = Suc k'" "j' < k'" "k' < length xs"
      using Cons.prems by (cases j; cases k) auto
    show ?thesis
    proof (rule ccontr)
      let ?n = "length (takeWhile (P x) xs)"
      assume "\<not> ?thesis"
      then have "\<not> P x (xs ! j')" using 0 jk by simp
      then have "?n \<le> j'" using nth_length_takeWhile takeWhile_nth [of j' "P x" xs] set_takeWhileD nth_mem
        by (metis not_le)
      then have "drop ?n xs ! (k' - ?n) = xs ! k'" "k' - ?n < length (drop ?n xs)" using jk by auto
      then have "xs ! k' \<in> set (drop ?n xs)" by (metis nth_mem)
      then have "xs ! k' \<in> set (dropWhile (P x) xs)" by (simp add: dropWhile_eq_drop)
      then show False using Cons.prems 0 jk by auto
    qed
  next
    case (Suc i')
    then show ?thesis
      using Cons.prems Cons.IH [of i' "j - 1" "k - 1"] by (cases j; cases k) auto
  qed
qed simp

definition complete :: "ServiceEntry list \<Rightarrow> nat \<Rightarrow> bool" where
  "complete m s \<longleftrightarrow> (\<exists>e\<in>set m. service e = s \<and> \<not> collectingDependencies e)"

definition closed :: "services \<Rightarrow> nat list \<Rightarrow> ServiceEntry list \<Rightarrow> bool" where
  "closed E A m \<longleftrightarrow>
     distinct (map service m) \<and> service ` set m \<subseteq> set A \<and>
     (\<forall>e\<in>set m. \<not> collectingDependencies e \<longrightarrow>
        dependencies e = needs E A (service e) \<and> \<not> (edge E A)\<^sup>+\<^sup>+ (service e) (service e) \<and>
        (\<forall>u. edge E A (service e) u \<longrightarrow> complete m u))"

lemma complete_append [simp]: "complete (m @ n) s \<longleftrightarrow> complete m s \<or> complete n s"
  by (auto simp: complete_def)

lemma complete_reach:
  assumes "closed E A m" "(edge E A)\<^sup>*\<^sup>* s u" "complete m s"
  shows "complete m u"
  using assms(2,3)
proof induction
  case (step u v)
  then show ?case using assms(1) unfolding closed_def complete_def by blast
qed

lemma find_complete:
  assumes "closed E A m" "complete m s"
  shows "\<exists>e. find_entry s m = Some e \<and> dependencies e = needs E A s \<and> \<not> collectingDependencies e"
proof -
  obtain e where e: "e \<in> set m" "service e = s" "\<not> collectingDependencies e" using assms(2) by (auto simp: complete_def)
  obtain f where f: "find_entry s m = Some f"
    using e by (cases "find_entry s m") (auto simp: find_entry_def find_None_iff)
  then have "f \<in> set m" "service f = s" by (auto simp: find_entry_def find_Some_iff)
  moreover have "distinct (map service m)" using assms(1) by (simp add: closed_def)
  ultimately have "f = e" using e by (metis distinct_map inj_onD)
  then show ?thesis using f e assms(1) by (auto simp: closed_def)
qed

lemma change_entry_mid:
  assumes "distinct (map service (m @ e # n))" "service e = s" "\<And>e. service (f e) = service e"
  shows "change_entry s f (m @ e # n) = m @ f e # n"
proof -
  have "service x \<noteq> s" if "x \<in> set m \<union> set n" for x
    using assms(1,2) that by (force simp: image_iff)
  then have "change_entry s f m = m" "change_entry s f n = n" by (auto simp: change_entry_def map_idI)
  then show ?thesis using assms(2) by (simp add: change_entry_def)
qed

text \<open>The entry of the service whose dependencies are collected, among the entries before and behind it.\<close>

definition collecting_at :: "services \<Rightarrow> nat list \<Rightarrow> nat \<Rightarrow> ServiceEntry list \<Rightarrow> ServiceEntry \<Rightarrow> ServiceEntry list \<Rightarrow> bool"
where
  "collecting_at E A s m e n \<longleftrightarrow>
     closed E A (m @ e # n) \<and> service e = s \<and> collectingDependencies e \<and>
     (\<forall>c\<in>set m. collectingDependencies c \<longrightarrow> (edge E A)\<^sup>+\<^sup>+ (service c) s) \<and>
     (\<forall>x\<in>set n. \<not> collectingDependencies x \<and> (edge E A)\<^sup>+\<^sup>+ s (service x)) \<and>
     blocks (edge E A)\<^sup>+\<^sup>+ (map service n)"

text \<open>What a call of \<open>getServiceEntry\<close> does to the list.\<close>

definition entered :: "services \<Rightarrow> nat list \<Rightarrow> nat \<Rightarrow> ServiceEntry list \<Rightarrow> order_error + ServiceEntry list \<Rightarrow> bool" where
  "entered E A s m r \<longleftrightarrow>
     (case r of
        Inl err \<Rightarrow> err = Cyclic \<and> (\<exists>x. (edge E A)\<^sup>+\<^sup>+ x x)
      | Inr m' \<Rightarrow> \<exists>n. m' = m @ n \<and> closed E A m' \<and> complete m' s \<and> blocks (edge E A)\<^sup>+\<^sup>+ (map service n) \<and>
          (\<forall>x\<in>set n. \<not> collectingDependencies x \<and> (edge E A)\<^sup>*\<^sup>* s (service x)))"

lemma closed_change:
  assumes "closed E A (m @ e # n)" "service e' = service e" "collectingDependencies e" "collectingDependencies e'"
  shows "closed E A (m @ e' # n)"
proof -
  have "complete (m @ e' # n) u \<longleftrightarrow> complete (m @ e # n) u" for u
    using assms(3,4) by (auto simp: complete_def)
  then show ?thesis using assms by (auto simp: closed_def)
qed

lemma collect_entered:
  assumes rec: "\<And>u m. closed E A m \<Longrightarrow> u \<in> set A \<Longrightarrow> card (set A - service ` set m) < k \<Longrightarrow>
      \<forall>c\<in>set m. collectingDependencies c \<longrightarrow> (edge E A)\<^sup>+\<^sup>+ (service c) u \<Longrightarrow> entered E A u m (entry u m)"
    and at: "collecting_at E A s m e n" and few: "card (set A - service ` set (m @ [e])) < k" and us: "set us \<subseteq> set A"
  shows "case collect E entry s us (m @ e # n) of
      Inl err \<Rightarrow> err = Cyclic \<and> (\<exists>x. (edge E A)\<^sup>+\<^sup>+ x x)
    | Inr m' \<Rightarrow> \<exists>e' n'. m' = m @ e' # n' \<and> collecting_at E A s m e' n' \<and>
        dependencies e' = dependencies e \<union> (\<Union>u\<in>{u \<in> set us. edge E A s u}. needs E A u) \<and>
        (\<forall>u\<in>set us. edge E A s u \<longrightarrow> complete m' u) \<and> (\<forall>v. complete (m @ e # n) v \<longrightarrow> complete m' v)"
  using at us few
proof (induction us arbitrary: e n)
  case Nil
  then show ?case by auto
next
  case (Cons u us)
  have few: "card (set A - service ` set (m @ [e'])) < k" if "service e' = service e" for e'
    using Cons.prems(3) that by simp
  show ?case
  proof (cases "edge E A s u")
    case False
    then have "collect E entry s (u # us) (m @ e # n) = collect E entry s us (m @ e # n)"
      using Cons.prems(2) by (auto simp: edge_def)
    moreover have "{v \<in> set (u # us). edge E A s v} = {v \<in> set us. edge E A s v}" using False by auto
    ultimately show ?thesis using Cons.IH [OF Cons.prems(1) _ Cons.prems(3)] Cons.prems(2) False
      by (auto split: sum.splits)
  next
    case True
    note at = Cons.prems(1) [unfolded collecting_at_def]
    have "closed E A (m @ e # n)" "u \<in> set A" using at Cons.prems(2) by auto
    moreover have "card (set A - service ` set (m @ e # n)) < k"
      using Cons.prems(3) by (rule le_less_trans [rotated]) (auto intro!: card_mono)
    moreover have "\<forall>c\<in>set (m @ e # n). collectingDependencies c \<longrightarrow> (edge E A)\<^sup>+\<^sup>+ (service c) u"
      using at True by (auto intro: tranclp.trancl_into_trancl)
    ultimately have r: "entered E A u (m @ e # n) (entry u (m @ e # n))" by (rule rec)
    show ?thesis
    proof (cases "entry u (m @ e # n)")
      case (Inl err)
      then show ?thesis using r True by (auto simp: entered_def edge_def)
    next
      case (Inr m')
      then obtain n2 where n2: "m' = m @ e # n @ n2" "closed E A m'" "complete m' u"
        "blocks (edge E A)\<^sup>+\<^sup>+ (map service n2)"
        "\<And>x. x \<in> set n2 \<Longrightarrow> \<not> collectingDependencies x \<and> (edge E A)\<^sup>*\<^sup>* u (service x)"
        using r by (auto simp: entered_def)
      obtain f where f: "find_entry u m' = Some f" "dependencies f = needs E A u"
        using find_complete [OF n2(2,3)] by blast
      let ?e = "appendDependencies (needs E A u) e"
      have dm: "distinct (map service (m @ e # n @ n2))" using n2(1,2) by (simp add: closed_def)
      have ch: "change_entry s (appendDependencies (needs E A u)) m' = m @ ?e # n @ n2"
        unfolding n2(1) by (rule change_entry_mid [OF dm]) (use at in \<open>auto simp: appendDependencies_def\<close>)
      have step: "collect E entry s (u # us) (m @ e # n) = collect E entry s us (m @ ?e # n @ n2)"
        using True Inr f ch by (simp add: edge_def)
      have "\<not> (edge E A)\<^sup>+\<^sup>+ (service x) (service z)" if "x \<in> set n" "z \<in> set n2" for x z
      proof
        assume "(edge E A)\<^sup>+\<^sup>+ (service x) (service z)"
        moreover have "complete (m @ e # n) (service x)" using that(1) at by (auto simp: complete_def)
        ultimately have "complete (m @ e # n) (service z)"
          using complete_reach [of E A "m @ e # n"] at tranclp_into_rtranclp by metis
        then show False using dm that(2) by (auto simp: complete_def image_iff)
      qed
      then have "blocks (edge E A)\<^sup>+\<^sup>+ (map service (n @ n2))"
        using at n2(4) by (auto intro!: blocks_append)
      moreover have "closed E A (m @ ?e # n @ n2)"
        using closed_change [of E A m e "n @ n2" ?e] n2(1,2) at by (simp add: appendDependencies_def)
      moreover have "(edge E A)\<^sup>+\<^sup>+ s (service x)" if "x \<in> set n2" for x
        using n2(5) [OF that] True by (auto intro: tranclp_rtranclp_tranclp)
      ultimately have at': "collecting_at E A s m ?e (n @ n2)"
        using at n2(5) by (auto simp: collecting_at_def appendDependencies_def)
      have kept: "complete (m @ ?e # n @ n2) v" if "complete (m @ e # n) v \<or> v = u" for v
        using that n2(1,3) at by (auto simp: complete_def appendDependencies_def)
      have deps: "dependencies ?e \<union> (\<Union>v\<in>{v \<in> set us. edge E A s v}. needs E A v) =
          dependencies e \<union> (\<Union>v\<in>{v \<in> set (u # us). edge E A s v}. needs E A v)"
        using True by (auto simp: appendDependencies_def)
      have "set us \<subseteq> set A" "card (set A - service ` set (m @ [?e])) < k"
        using Cons.prems(2) few [of ?e] by (auto simp: appendDependencies_def)
      note ih = Cons.IH [OF at' this]
      show ?thesis
      proof (cases "collect E entry s us (m @ ?e # n @ n2)")
        case (Inl err)
        show ?thesis using ih unfolding step Inl sum.case .
      next
        case (Inr m2)
        then obtain e' n' where e': "m2 = m @ e' # n'" "collecting_at E A s m e' n'"
          "dependencies e' = dependencies ?e \<union> (\<Union>v\<in>{v \<in> set us. edge E A s v}. needs E A v)"
          "\<And>v. v \<in> set us \<Longrightarrow> edge E A s v \<Longrightarrow> complete m2 v"
          "\<And>v. complete (m @ ?e # n @ n2) v \<Longrightarrow> complete m2 v"
          using ih unfolding Inr sum.case by blast
        have "complete m2 v" if "v \<in> set (u # us)" "edge E A s v" for v
          using that e'(4,5) kept by auto
        moreover have "complete m2 v" if "complete (m @ e # n) v" for v
          using that e'(5) kept by blast
        ultimately show ?thesis
          unfolding step Inr sum.case using e'(1-3) unfolding deps by blast
      qed
    qed
  qed
qed

lemma getServiceEntry_entered:
  assumes "closed E A m" "s \<in> set A" "card (set A - service ` set m) < k"
    "\<forall>c\<in>set m. collectingDependencies c \<longrightarrow> (edge E A)\<^sup>+\<^sup>+ (service c) s"
  shows "entered E A s m (getServiceEntry E A k s m)"
  using assms
proof (induction k arbitrary: s m)
  case (Suc k)
  show ?case
  proof (cases "find_entry s m")
    case (Some e)
    then have e: "e \<in> set m" "service e = s" by (auto simp: find_entry_def find_Some_iff)
    show ?thesis
    proof (cases "collectingDependencies e")
      case True
      then show ?thesis using Some e Suc.prems(4) by (auto simp: entered_def)
    next
      case False
      then show ?thesis using Some e Suc.prems(1) by (auto simp: entered_def complete_def)
    qed
  next
    case None
    let ?d = "getServiceDependencies E s"
    let ?e = "appendDependencies (set ?d) (new_entry s)"
    let ?done = "\<lambda>e. e\<lparr>collectingDependencies := False\<rparr>"
    have fresh: "s \<notin> service ` set m" using None by (auto simp: find_entry_def find_None_iff)
    have at: "collecting_at E A s m ?e []"
      using Suc.prems(1,2,4) fresh
      by (auto simp: collecting_at_def closed_def new_entry_def appendDependencies_def complete_def)
    have few: "card (set A - service ` set (m @ [?e])) < k"
    proof -
      have "set A - service ` set (m @ [?e]) \<subset> set A - service ` set m"
        using fresh Suc.prems(2) by (auto simp: new_entry_def appendDependencies_def)
      then have "card (set A - service ` set (m @ [?e])) < card (set A - service ` set m)"
        by (rule psubset_card_mono [rotated]) simp
      then show ?thesis using Suc.prems(3) by simp
    qed
    have ch: "change_entry s (appendDependencies (set ?d)) (m @ [new_entry s]) = m @ [?e]"
      using change_entry_mid [of m "new_entry s" "[]"] Suc.prems(1) fresh
      by (simp add: new_entry_def appendDependencies_def closed_def)
    have finish: "entered E A s m (Inr (change_entry s ?done (m @ e' # n')))"
      if "collecting_at E A s m e' n'" "dependencies e' = needs E A s" "\<And>u. edge E A s u \<Longrightarrow> complete (m @ e' # n') u"
      for e' n'
    proof -
      note at' = that(1) [unfolded collecting_at_def]
      have d: "distinct (map service (m @ e' # n'))" using at' unfolding closed_def by blast
      have c: "change_entry s ?done (m @ e' # n') = m @ ?done e' # n'"
        by (rule change_entry_mid [OF d]) (use at' in auto)
      have k: "complete (m @ e' # n') u \<Longrightarrow> complete (m @ ?done e' # n') u" for u
        by (auto simp: complete_def)
      have sv: "map service (m @ ?done e' # n') = map service (m @ e' # n')"
        "service ` set (m @ ?done e' # n') = service ` set (m @ e' # n')" by auto
      have cl: "closed E A (m @ e' # n')" "service e' = s" using at' by auto
      have nc: "\<not> (edge E A)\<^sup>+\<^sup>+ s s"
      proof
        assume "(edge E A)\<^sup>+\<^sup>+ s s"
        then obtain u where "edge E A s u" "(edge E A)\<^sup>*\<^sup>* u s" by (auto dest: tranclpD)
        then have "complete (m @ e' # n') s" using complete_reach [OF cl(1)] that(3) by blast
        then show False using d at' by (auto simp: complete_def image_iff)
      qed
      have "dependencies x = needs E A (service x) \<and> \<not> (edge E A)\<^sup>+\<^sup>+ (service x) (service x) \<and>
          (\<forall>u. edge E A (service x) u \<longrightarrow> complete (m @ ?done e' # n') u)"
        if "x \<in> set (m @ ?done e' # n')" "\<not> collectingDependencies x" for x
      proof (cases "x = ?done e'")
        case True
        then show ?thesis using that(2) \<open>dependencies e' = _\<close> \<open>\<And>u. edge E A s u \<Longrightarrow> _\<close> cl(2) k nc by auto
      next
        case False
        then have "x \<in> set (m @ e' # n')" using that by auto
        then show ?thesis using cl(1) that(2) k unfolding closed_def by blast
      qed
      then have "closed E A (m @ ?done e' # n')"
        using cl(1) unfolding closed_def sv by blast
      moreover have "complete (m @ ?done e' # n') s" using at' by (auto simp: complete_def)
      moreover have "blocks (edge E A)\<^sup>+\<^sup>+ (service e' # map service n')"
        by (rule blocks_Cons_all) (use at' in auto)
      then have "blocks (edge E A)\<^sup>+\<^sup>+ (map service (?done e' # n'))" by simp
      moreover have "\<not> collectingDependencies x \<and> (edge E A)\<^sup>*\<^sup>* s (service x)" if "x \<in> set (?done e' # n')" for x
        using that at' by (auto intro: tranclp_into_rtranclp)
      ultimately show ?thesis
        unfolding entered_def c sum.case by blast
    qed
    show ?thesis
    proof (cases "?d = []")
      case True
      then have no: "\<not> edge E A s u" for u by (simp add: edge_def isDependencyFor_def)
      have "needs E A s = {}" using needs_unfold [of E A s] no True by simp
      moreover have "new_entry s = ?e" using True by (simp add: new_entry_def appendDependencies_def)
      ultimately show ?thesis
        using finish [OF at] None True no by (simp add: new_entry_def appendDependencies_def)
    next
      case False
      have "case collect E (getServiceEntry E A k) s A (m @ [?e]) of
          Inl err \<Rightarrow> err = Cyclic \<and> (\<exists>x. (edge E A)\<^sup>+\<^sup>+ x x)
        | Inr m' \<Rightarrow> \<exists>e' n'. m' = m @ e' # n' \<and> collecting_at E A s m e' n' \<and>
            dependencies e' = dependencies ?e \<union> (\<Union>u\<in>{u \<in> set A. edge E A s u}. needs E A u) \<and>
            (\<forall>u\<in>set A. edge E A s u \<longrightarrow> complete m' u) \<and> (\<forall>v. complete (m @ [?e]) v \<longrightarrow> complete m' v)"
        using collect_entered [OF Suc.IH at few subset_refl] .
      moreover have "dependencies ?e \<union> (\<Union>u\<in>{u \<in> set A. edge E A s u}. needs E A u) = needs E A s"
        unfolding needs_unfold [of E A s] by (auto simp: new_entry_def appendDependencies_def edge_def)
      moreover have "edge E A s u \<Longrightarrow> u \<in> set A" for u by (simp add: edge_def)
      moreover have "getServiceEntry E A (Suc k) s m =
          (case collect E (getServiceEntry E A k) s A (m @ [?e]) of
             Inl err \<Rightarrow> Inl err | Inr m2 \<Rightarrow> Inr (change_entry s ?done m2))"
        using None False ch by simp
      ultimately show ?thesis
        using finish by (cases "collect E (getServiceEntry E A k) s A (m @ [?e])") (auto simp: entered_def)
    qed
  qed
qed simp

lemma build_entered:
  assumes "closed E A m" "\<forall>c\<in>set m. \<not> collectingDependencies c" "set us \<subseteq> set A" "blocks (edge E A)\<^sup>+\<^sup>+ (map service m)"
  shows "case build E A us m of
      Inl err \<Rightarrow> err = Cyclic \<and> (\<exists>x. (edge E A)\<^sup>+\<^sup>+ x x)
    | Inr m' \<Rightarrow> closed E A m' \<and> (\<forall>c\<in>set m'. \<not> collectingDependencies c) \<and> blocks (edge E A)\<^sup>+\<^sup>+ (map service m') \<and>
        service ` set m' \<supseteq> service ` set m \<union> set us"
  using assms
proof (induction us arbitrary: m)
  case (Cons u us)
  have "card (set A - service ` set m) < Suc (length A)"
    using card_mono [of "set A" "set A - service ` set m"] card_length [of A] by (simp add: le_less_trans)
  then have r: "entered E A u m (getServiceEntry E A (Suc (length A)) u m)"
    using Cons.prems by (intro getServiceEntry_entered) auto
  show ?case
  proof (cases "getServiceEntry E A (Suc (length A)) u m")
    case (Inl err)
    then show ?thesis using r by (simp add: entered_def del: getServiceEntry.simps)
  next
    case (Inr m')
    then obtain n where n: "m' = m @ n" "closed E A m'" "complete m' u" "blocks (edge E A)\<^sup>+\<^sup>+ (map service n)"
      "\<And>x. x \<in> set n \<Longrightarrow> \<not> collectingDependencies x"
      using r by (auto simp: entered_def)
    have "\<not> (edge E A)\<^sup>+\<^sup>+ (service x) (service z)" if "x \<in> set m" "z \<in> set n" for x z
    proof
      assume "(edge E A)\<^sup>+\<^sup>+ (service x) (service z)"
      moreover have "complete m (service x)" using that(1) Cons.prems(2) by (auto simp: complete_def)
      ultimately have "complete m (service z)"
        using complete_reach [OF Cons.prems(1)] tranclp_into_rtranclp by metis
      then have "service z \<in> service ` set m" unfolding complete_def by (metis imageI)
      then show False using n(1,2) that(2) by (auto simp: closed_def)
    qed
    then have "blocks (edge E A)\<^sup>+\<^sup>+ (map service m')"
      using Cons.prems(4) n(1,4) by (auto intro!: blocks_append)
    then have "case build E A us m' of
        Inl err \<Rightarrow> err = Cyclic \<and> (\<exists>x. (edge E A)\<^sup>+\<^sup>+ x x)
      | Inr m2 \<Rightarrow> closed E A m2 \<and> (\<forall>c\<in>set m2. \<not> collectingDependencies c) \<and> blocks (edge E A)\<^sup>+\<^sup>+ (map service m2) \<and>
          service ` set m2 \<supseteq> service ` set m' \<union> set us"
      using Cons.IH [of m'] n Cons.prems(2,3) by auto
    moreover have "u \<in> service ` set m'" using n(3) by (auto simp: complete_def)
    ultimately show ?thesis using Inr n(1) by (auto simp del: getServiceEntry.simps split: sum.splits)
  qed
qed simp

text \<open>The built list fits the sorting: comparing entries is comparing by reachability.\<close>

lemma depends_iff:
  assumes "closed E A m" "e \<in> set m" "f \<in> set m" "\<forall>c\<in>set m. \<not> collectingDependencies c"
  shows "isDependsOn E e f \<longleftrightarrow> (edge E A)\<^sup>+\<^sup>+ (service e) (service f)"
proof -
  have d: "dependencies e = needs E A (service e)" "service f \<in> set A" "\<not> (edge E A)\<^sup>+\<^sup>+ (service e) (service e)"
    using assms by (auto simp: closed_def)
  let ?s = "service e" and ?u = "service f"
  have ed: "edge E A x ?u" if "t \<in> set (getServiceDependencies E x)" "is_type E ?u t" "x \<noteq> ?u" for x t
    using that d(2) by (auto simp: edge_def isDependencyFor_def)
  show ?thesis
  proof
    assume "isDependsOn E e f"
    then obtain t x where t: "?u \<noteq> ?s" "is_type E ?u t" "(edge E A)\<^sup>*\<^sup>* ?s x" "t \<in> set (getServiceDependencies E x)"
      by (auto simp: isDependsOn_def d(1) needs_def split: if_splits)
    then show "(edge E A)\<^sup>+\<^sup>+ ?s ?u"
      using ed [OF t(4,2)] by (cases "x = ?u") (auto dest: rtranclpD intro: rtranclp_into_tranclp1)
  next
    assume p: "(edge E A)\<^sup>+\<^sup>+ ?s ?u"
    then obtain x where x: "(edge E A)\<^sup>*\<^sup>* ?s x" "edge E A x ?u" by (auto dest: tranclpD elim: tranclp.cases intro: tranclp_into_rtranclp)
    then obtain t where "t \<in> set (getServiceDependencies E x)" "is_type E ?u t"
      by (auto simp: edge_def isDependencyFor_def)
    moreover have "?u \<noteq> ?s" using p d(3) by metis
    ultimately show "isDependsOn E e f" using x(1) by (auto simp: isDependsOn_def d(1) needs_def)
  qed
qed

lemma built_block_order:
  assumes "closed E A m" "\<forall>c\<in>set m. \<not> collectingDependencies c" "blocks (edge E A)\<^sup>+\<^sup>+ (map service m)"
  shows "block_order (isDependsOn E) (\<lambda>x y. \<exists>i j. i < j \<and> j < length m \<and> m ! i = x \<and> m ! j = y) (set m)"
proof -
  note D = depends_iff [OF assms(1) _ _ assms(2)]
  have d: "distinct m" "distinct (map service m)" using assms(1) by (auto simp: closed_def distinct_map)
  have nc: "\<not> (edge E A)\<^sup>+\<^sup>+ (service x) (service x)" if "x \<in> set m" for x
    using assms(1,2) that by (auto simp: closed_def)
  have bl: "(edge E A)\<^sup>+\<^sup>+ (service (m ! i)) (service (m ! j))"
    if "i < j" "j < k" "k < length m" "(edge E A)\<^sup>+\<^sup>+ (service (m ! i)) (service (m ! k))" for i j k
    using blocks_nth [OF assms(3) that(1,2)] that by simp
  show ?thesis
    unfolding block_order_def
  proof (intro conjI ballI impI)
    fix x y assume x: "x \<in> set m" "y \<in> set m" "isDependsOn E x y"
    show "\<not> isDependsOn E y x"
      using tranclp_trans [of "edge E A" "service x" "service y" "service x"] D [OF x(1,2)] D [OF x(2,1)] x(3) nc [OF x(1)]
      by blast
  next
    fix x y z assume x: "x \<in> set m" "y \<in> set m" "z \<in> set m" "isDependsOn E x y" "isDependsOn E y z"
    show "isDependsOn E x z"
      using tranclp_trans [of "edge E A" "service x" "service y" "service z"] D [OF x(1,2)] D [OF x(2,3)] D [OF x(1,3)] x(4,5)
      by blast
  next
    fix x y assume "x \<in> set m" "y \<in> set m" "x \<noteq> y"
    then obtain i j where ij: "i < length m" "j < length m" "m ! i = x" "m ! j = y" "i \<noteq> j" by (metis in_set_conv_nth)
    have u: "m ! a = m ! b \<longleftrightarrow> a = b" if "a < length m" "b < length m" for a b
      using d(1) that by (rule nth_eq_iff_index_eq)
    have "(\<exists>a b. a < b \<and> b < length m \<and> m ! a = m ! i' \<and> m ! b = m ! j') \<longleftrightarrow> i' < j'"
      if "i' < length m" "j' < length m" for i' j'
    proof
      assume "\<exists>a b. a < b \<and> b < length m \<and> m ! a = m ! i' \<and> m ! b = m ! j'"
      then obtain a b where "a < b" "b < length m" "m ! a = m ! i'" "m ! b = m ! j'" by blast
      then show "i' < j'" using u [of a i'] u [of b j'] that by simp
    qed (use that in blast)
    then show "(\<exists>i j. i < j \<and> j < length m \<and> m ! i = x \<and> m ! j = y) \<noteq>
        (\<exists>i j. i < j \<and> j < length m \<and> m ! i = y \<and> m ! j = x)"
      unfolding ij(3,4) [symmetric] using ij(1,2,5) by auto
  next
    fix x y z assume x: "x \<in> set m" "y \<in> set m" "z \<in> set m" "isDependsOn E x z"
      and "\<exists>i j. i < j \<and> j < length m \<and> m ! i = x \<and> m ! j = y" "\<exists>i j. i < j \<and> j < length m \<and> m ! i = y \<and> m ! j = z"
    then obtain i j j' k where ij: "i < j" "j < length m" "m ! i = x" "m ! j = y" "j' < k" "k < length m" "m ! j' = y" "m ! k = z"
      by blast
    then have "j' = j" using d(1) by (metis less_trans nth_eq_iff_index_eq)
    then show "isDependsOn E x y" using bl [of i j k] ij D x by auto
  qed
qed

lemma build_ok:
  assumes "distinct A"
  shows "case build E A A [] of
      Inl err \<Rightarrow> err = Cyclic \<and> (\<exists>x. (edge E A)\<^sup>+\<^sup>+ x x)
    | Inr m \<Rightarrow> closed E A m \<and> (\<forall>c\<in>set m. \<not> collectingDependencies c) \<and> blocks (edge E A)\<^sup>+\<^sup>+ (map service m) \<and>
        mset (map service m) = mset A \<and> length m = length A"
proof -
  have "closed E A []" by (simp add: closed_def)
  note r = build_entered [OF this, of A, simplified]
  show ?thesis
  proof (cases "build E A A []")
    case (Inr m)
    then have m: "closed E A m" "set A \<subseteq> service ` set m" using r by simp_all
    then have "set (map service m) = set A" "distinct (map service m)" by (auto simp: closed_def)
    then have "mset (map service m) = mset A" using assms set_eq_iff_mset_eq_distinct by blast
    moreover from this have "length m = length A" by (metis length_map size_mset)
    ultimately show ?thesis using r Inr by simp
  qed (use r in simp)
qed

text \<open>
  C2. For every set of services and every declaration of dependencies: either the dependencies have a cycle and
  the order is refused, or there is none, and every service is in exactly one of the two lists, those without
  declared dependencies in the first one, and no service needs, directly or over others, one that comes later.
  The search ends with the bound on its depth.
\<close>
theorem init_order:
  assumes "distinct A"
  shows "case makeInitOrderedServiceList E A of
      Inl err \<Rightarrow> err = Cyclic \<and> (\<exists>s. (edge E A)\<^sup>+\<^sup>+ s s)
    | Inr (independent, dependent) \<Rightarrow>
        (\<forall>s. \<not> (edge E A)\<^sup>+\<^sup>+ s s) \<and> mset (independent @ dependent) = mset A \<and>
        independent = filter (\<lambda>s. getServiceDependencies E s = []) (independent @ dependent) \<and>
        sorted_wrt (\<lambda>first later. \<not> (edge E A)\<^sup>+\<^sup>+ first later) (independent @ dependent)"
proof (cases "build E A A []")
  case (Inl err)
  then show ?thesis
    using build_ok [OF assms, of E] by (simp add: makeInitOrderedServiceList_def takeOutServiceList_def)
next
  case (Inr m)
  have m: "closed E A m" "\<forall>c\<in>set m. \<not> collectingDependencies c" "blocks (edge E A)\<^sup>+\<^sup>+ (map service m)"
    "mset (map service m) = mset A" "length m = length A"
    using build_ok [OF assms, of E] Inr by simp_all
  define bf where "bf x y \<longleftrightarrow> (\<exists>i j. i < j \<and> j < length m \<and> m ! i = x \<and> m ! j = y)" for x y
  let ?l = "list_sort (\<lambda>left right. isDependsOn E right left) m"
  have d: "distinct m" using m(1) by (auto simp: closed_def distinct_map)
  have "good (isDependsOn E) bf ?l"
  proof (rule list_sort_good)
    show "block_order (isDependsOn E) bf (set m)"
      using built_block_order [OF m(1-3)] unfolding bf_def .
    show "sorted_wrt bf m" unfolding sorted_wrt_iff_nth_less bf_def by blast
  qed (use d in auto)
  then have "sorted_wrt (\<lambda>x y. \<not> isDependsOn E x y) ?l"
    unfolding good_def by (rule sorted_wrt_mono_rel [rotated]) simp
  then have srt: "sorted_wrt (\<lambda>x y. \<not> (edge E A)\<^sup>+\<^sup>+ (service x) (service y)) ?l"
    by (rule sorted_wrt_mono_rel [rotated]) (use depends_iff [OF m(1) _ _ m(2)] in auto)
  let ?i = "filter (\<lambda>e. dependencies e = {}) ?l" and ?d = "filter (\<lambda>e. dependencies e \<noteq> {}) ?l"
  have none: "dependencies e = {} \<longleftrightarrow> getServiceDependencies E (service e) = []" if "e \<in> set m" for e
  proof -
    have "dependencies e = needs E A (service e)" using m(1,2) that by (simp add: closed_def)
    moreover have "getServiceDependencies E (service e) = [] \<Longrightarrow> \<not> edge E A (service e) u" for u
      by (simp add: edge_def isDependencyFor_def)
    ultimately show ?thesis using needs_unfold [of E A "service e"] by auto
  qed
  have "\<not> (edge E A)\<^sup>+\<^sup>+ s u" if "getServiceDependencies E s = []" for s u
    using that by (auto dest!: tranclpD simp: edge_def isDependencyFor_def)
  then have "sorted_wrt (\<lambda>x y. \<not> (edge E A)\<^sup>+\<^sup>+ (service x) (service y)) (?i @ ?d)"
    using srt none by (auto simp: sorted_wrt_append intro: sorted_wrt_filter)
  then have 1: "sorted_wrt (\<lambda>x y. \<not> (edge E A)\<^sup>+\<^sup>+ x y) (map service ?i @ map service ?d)"
    unfolding map_append [symmetric] sorted_wrt_map .
  have "mset (?i @ ?d) = mset m" by (simp add: mset_filter)
  then have 2: "mset (map service ?i @ map service ?d) = mset A"
    using m(4) by (metis map_append mset_map)
  have 3: "map service ?i = filter (\<lambda>s. getServiceDependencies E s = []) (map service ?i @ map service ?d)"
  proof -
    let ?n = "\<lambda>s. getServiceDependencies E s = []"
    have "filter ?n (map service ?i) = map service ?i" by (rule filter_True) (use none in auto)
    moreover have "filter ?n (map service ?d) = []" by (rule filter_False) (use none in auto)
    ultimately show ?thesis by simp
  qed
  have "\<not> (edge E A)\<^sup>+\<^sup>+ s s" for s
  proof
    assume c: "(edge E A)\<^sup>+\<^sup>+ s s"
    then have "s \<in> set A" by (metis edge_def tranclp.cases)
    then have "s \<in> service ` set m" using m(4) by (metis set_map set_mset_mset)
    then show False using m(1,2) c by (auto simp: closed_def)
  qed
  then show ?thesis
    using 1 2 3 Inr m(5)
    by (simp add: makeInitOrderedServiceList_def takeOutServiceList_def Let_def)
qed

text \<open>A service has finished by the time of an event.\<close>

definition finished :: "(nat \<Rightarrow> task) \<Rightarrow> event list \<Rightarrow> nat \<Rightarrow> bool" where
  "finished call es s \<longleftrightarrow>
     (\<exists>i. Start s i \<in> set es) \<and>
     (pending (call s) \<longrightarrow> Wait s \<in> set es \<or> (\<exists>us. WaitAll us \<in> set es \<and> s \<in> set us))"

lemma finished_append: "finished call es s \<Longrightarrow> finished call (es @ fs) s" "finished call fs s \<Longrightarrow> finished call (es @ fs) s"
  by (auto simp: finished_def)

lemma started_at_once: "Start s i \<in> set (all_at_once proxies call ss) \<longleftrightarrow> s \<in> set ss \<and> i = getInitializationInstance proxies s"
  by (auto simp: all_at_once_def)

lemma finished_at_once: "s \<in> set ss \<Longrightarrow> finished call (all_at_once proxies call ss) s"
  by (auto simp: finished_def all_at_once_def)

lemma started_one_by_one: "Start s i \<in> set (fst (one_by_one proxies call ss)) \<Longrightarrow> s \<in> set ss"
  by (induction ss) (auto simp: Let_def split: if_splits prod.splits)

text \<open>Where a service is started, those before it in the list have finished.\<close>

lemma one_by_one_before:
  assumes "fst (one_by_one proxies call ss) = es @ Start s i # fs"
  shows "\<exists>ps qs. ss = ps @ s # qs \<and> (\<forall>u\<in>set ps. finished call es u)"
  using assms
proof (induction ss arbitrary: es)
  case (Cons a ss)
  let ?r = "fst (one_by_one proxies call ss)" and ?i = "getInitializationInstance proxies a"
  show ?case
  proof (cases es)
    case Nil
    then have "a = s" using Cons.prems by (auto simp: Let_def split: if_splits prod.splits)
    show ?thesis by (rule exI [of _ "[]"], rule exI [of _ ss]) (simp add: \<open>a = s\<close>)
  next
    case (Cons e es')
    have f: "fst (one_by_one proxies call (a # ss)) =
        Start a ?i # (if call a = Null then ?r else if rejected (call a) then [Wait a] else Wait a # ?r)"
      by (auto simp: Let_def split: prod.splits)
    show ?thesis
    proof (cases "call a = Null")
      case True
      then have "e = Start a ?i" "?r = es' @ Start s i # fs" using f Cons.prems Cons by auto
      moreover from this obtain ps qs where p: "ss = ps @ s # qs" "\<forall>u\<in>set ps. finished call es' u"
        using Cons.IH by blast
      ultimately have all: "\<forall>u\<in>set (a # ps). finished call es u"
        using True Cons by (auto simp: finished_def pending_def)
      show ?thesis by (rule exI [of _ "a # ps"], rule exI [of _ qs]) (use all p(1) in simp)
    next
      case False
      then obtain es2 where e: "\<not> rejected (call a)" "es = Start a ?i # Wait a # es2" "?r = es2 @ Start s i # fs"
        using f Cons.prems Cons by (cases es'; auto split: if_splits)
      from Cons.IH [OF e(3)] obtain ps qs where p: "ss = ps @ s # qs" "\<forall>u\<in>set ps. finished call es2 u"
        by blast
      then have all: "\<forall>u\<in>set (a # ps). finished call es u"
        using e(2) by (auto simp: finished_def)
      show ?thesis by (rule exI [of _ "a # ps"], rule exI [of _ qs]) (use all p(1) in simp)
    qed
  qed
qed simp

text \<open>
  C28. When the initialisation of a service is started, every service that it needs, directly or over others, has
  been started before and its task has ended, whichever of the calls give a task and however the services were
  registered.
\<close>
theorem needed_services_are_ready:
  assumes "distinct A" "initServicesInternal E proxies call A = Inr events"
    "events = before @ Start s i # after" "(edge E A)\<^sup>+\<^sup>+ s u"
  shows "finished call before u"
proof -
  obtain ind dep where o: "makeInitOrderedServiceList E A = Inr (ind, dep)"
    using assms(2) by (auto simp: initServicesInternal_def split: sum.splits)
  have I: "mset (ind @ dep) = mset A" "ind = filter (\<lambda>s. getServiceDependencies E s = []) (ind @ dep)"
    "sorted_wrt (\<lambda>first later. \<not> (edge E A)\<^sup>+\<^sup>+ first later) (ind @ dep)" "\<not> (edge E A)\<^sup>+\<^sup>+ s s"
    using init_order [OF assms(1), of E] unfolding o by auto
  have "\<not> getServiceDependencies E s = []"
    using assms(4) by (auto dest!: tranclpD simp: edge_def isDependencyFor_def)
  moreover have "getServiceDependencies E s = []" if "s \<in> set ind"
    using that by (subst (asm) I(2)) auto
  ultimately have s: "s \<notin> set ind" by blast
  have "u \<in> set A" using assms(4) by (metis edge_def tranclp.cases)
  then have u: "u \<in> set ind \<or> u \<in> set dep" using I(1) by (metis Un_iff set_append set_mset_mset)
  let ?a = "all_at_once proxies call ind" and ?d = "fst (one_by_one proxies call dep)"
  have ev: "before @ Start s i # after = ?a @ ?d" using assms(2,3) o by (simp add: initServicesInternal_def)
  have "Start s i \<notin> set ?a" using s by (simp add: started_at_once)
  have "\<exists>es. before = ?a @ es \<and> ?d = es @ Start s i # after"
  proof -
    from ev [unfolded append_eq_append_conv2] consider
      xs where "before @ xs = ?a" "Start s i # after = xs @ ?d" | xs where "before = ?a @ xs" "xs @ Start s i # after = ?d"
      by auto
    then show ?thesis
    proof cases
      case 1
      then have "xs = []" using \<open>Start s i \<notin> set ?a\<close> by (cases xs) (auto simp flip: 1(1))
      then show ?thesis using 1 by simp
    next
      case 2
      then show ?thesis by auto
    qed
  qed
  then obtain es where b: "before = ?a @ es" "?d = es @ Start s i # after" by blast
  then obtain ps qs where p: "dep = ps @ s # qs" "\<forall>v\<in>set ps. finished call es v"
    using one_by_one_before by blast
  have "u \<in> set ind \<or> u \<in> set ps"
    using u I(3,4) assms(4) p(1) by (auto simp: sorted_wrt_append)
  then show ?thesis using b(1) p(2) finished_append finished_at_once by metis
qed

text \<open>
  The services that shut down and have dependencies are shut down one after the other, before the independent
  ones, and none is before a service that needs it, directly or over others, as far as all of these services shut
  down; the call on a service comes after those on the services that need it have ended.
\<close>
theorem shutdown_order:
  assumes "distinct U" "makeShutdownOrderedServiceList E initialized U = Inr (independent, dependent)"
  shows "mset (independent @ dependent) = mset U \<and>
    sorted_wrt (\<lambda>first later. \<not> (edge E (filter initialized U))\<^sup>+\<^sup>+ later first)
      (dependent @ filter initialized independent)"
proof -
  let ?A = "filter initialized U"
  have d: "distinct ?A" using assms(1) by simp
  have all: "mset ?A + mset (filter (\<lambda>s. \<not> initialized s) U) = mset U"
    by (induction U) auto
  show ?thesis
  proof (cases "?A = []")
    case True
    then have "independent = filter (\<lambda>s. \<not> initialized s) U" "dependent = []"
      using assms(2) by (auto simp: makeShutdownOrderedServiceList_def)
    then show ?thesis using all True by (simp add: filter_empty_conv)
  next
    case False
    then obtain ind dep where o: "makeInitOrderedServiceList E ?A = Inr (ind, dep)"
      "independent = rev ind @ filter (\<lambda>s. \<not> initialized s) U" "dependent = rev dep"
      using assms(2) by (auto simp: makeShutdownOrderedServiceList_def Let_def split: sum.splits prod.splits)
    have I: "mset (ind @ dep) = mset ?A"
      "sorted_wrt (\<lambda>first later. \<not> (edge E ?A)\<^sup>+\<^sup>+ first later) (ind @ dep)"
      using init_order [OF d, of E] unfolding o(1) by auto
    have "set ind \<subseteq> set ?A" using mset_eq_setD [OF I(1)] by auto
    then have f: "filter initialized independent = rev ind"
      unfolding o(2) filter_append by (auto simp: filter_True filter_False subset_iff)
    have "mset (independent @ dependent) = mset (ind @ dep) + mset (filter (\<lambda>s. \<not> initialized s) U)"
      unfolding o(2,3) by simp
    then have "mset (independent @ dependent) = mset U" unfolding I(1) all .
    moreover have "sorted_wrt (\<lambda>first later. \<not> (edge E ?A)\<^sup>+\<^sup>+ later first) (rev (ind @ dep))"
      using I(2) unfolding sorted_wrt_rev .
    ultimately show ?thesis unfolding f o(3) rev_append by blast
  qed
qed

text \<open>
  Five services, each of a type of its own; the last three need each other in a chain, and the first of the chain
  needs an independent one.  Two of the chain shut down.
\<close>

definition demo_services :: services where
  "demo_services = \<lparr>is_type = (\<lambda>s t. s = t),
     getServiceDependencies = (\<lambda>s. if s = 1 then [0] else if s = 2 then [1] else if s = 3 then [2] else [])\<rparr>"

lemma demo_init: "makeInitOrderedServiceList demo_services [3, 4, 2, 1, 0] = Inr ([0, 4], [1, 2, 3])"
  by code_simp

text \<open>
  Shutting down is not the reverse of it: the middle of the chain does not shut down, so that its ends are
  taken to be unrelated.
\<close>

lemma demo_shutdown: "makeShutdownOrderedServiceList demo_services (\<lambda>s. True) [3, 4, 1] = Inr ([4], [1, 3])"
  by code_simp

lemma demo_cycle: "makeInitOrderedServiceList
    \<lparr>is_type = (\<lambda>s t. s = t), getServiceDependencies = (\<lambda>s. [1 - s])\<rparr> [0, 1] = Inl Cyclic"
  by code_simp

theorem init_order_witness:
  "mset ([0, 4] @ [1, 2, 3 :: nat]) = mset [3, 4, 2, 1, 0] \<and>
   sorted_wrt (\<lambda>first later. \<not> (edge demo_services [3, 4, 2, 1, 0])\<^sup>+\<^sup>+ first later) ([0, 4] @ [1, 2, 3])"
proof -
  have "distinct [3, 4, 2, 1, 0 :: nat]" by simp
  from init_order [OF this, of demo_services, unfolded demo_init sum.case prod.case] show ?thesis by blast
qed

theorem needed_services_are_ready_witness:
  "finished (\<lambda>s. Pending True) [Start 0 0, Start 4 4, WaitAll [0, 4], Start 1 1, Wait 1, Start 2 7, Wait 2] 1"
proof -
  let ?call = "\<lambda>s. Pending True"
  have i: "initServicesInternal demo_services [2 \<mapsto> 7] ?call [3, 4, 2, 1, 0] =
      Inr ([Start 0 0, Start 4 4, WaitAll [0, 4], Start 1 1, Wait 1, Start 2 7, Wait 2] @ Start 3 3 # [Wait 3])"
    by code_simp
  have "edge demo_services [3, 4, 2, 1, 0] 3 2" "edge demo_services [3, 4, 2, 1, 0] 2 1" by code_simp+
  then have "(edge demo_services [3, 4, 2, 1, 0])\<^sup>+\<^sup>+ 3 1" by (blast intro: tranclp.intros)
  then show ?thesis using needed_services_are_ready [OF _ i refl] by simp
qed

theorem shutdown_order_witness:
  "sorted_wrt (\<lambda>first later. \<not> (edge demo_services [3, 4, 1])\<^sup>+\<^sup>+ later first) [1, 3, 4]"
proof -
  have "distinct [3, 4, 1 :: nat]" by simp
  from shutdown_order [OF this demo_shutdown] show ?thesis
    by (simp only: filter.simps if_True append.simps)
qed

end
