(* ===== verification/ServiceProvider.thy ===== *)
theory ServiceProvider
  imports ServiceOrder
begin

text \<open>
  The registry of services, \<open>ServiceProviderImpl\<close> (\<open>src/service/service_provider_impl.cpp\<close>), with the accessors of
  \<open>include/my/service/service_provider.h\<close>: services that exist when they are added, and services that are
  constructed when an interface of theirs is first asked for.  Types, classes and existing objects are numbers; an
  object that is constructed gets a serial number.  The result of a query is observed as the service it comes from
  and the type.  The lemmas show that the cache of instances and the lazy construction cannot be seen: the provider
  behaves like a list of services that all exist from the start.
\<close>

section \<open>Accessors\<close>

text \<open>
  What the environment knows: the types of an existing object (\<open>is\<close> and \<open>as\<close> of rtti), the types of the objects of
  a class, and the interfaces that the descriptor of a class declares.
\<close>

record world =
  object_is :: "nat \<Rightarrow> nat \<Rightarrow> bool"
  class_is :: "nat \<Rightarrow> nat \<Rightarrow> bool"
  interfaces :: "nat \<Rightarrow> nat list"

datatype object = Existing nat | Made nat

datatype accessor =
    RttiServiceAccessor nat
  | TypedServiceAccessor nat "nat list"
  | LazyServiceAccessor nat "nat option"

datatype GetApiMode = AllowLazyCreation | DoNotCreate

definition findInterface :: "world \<Rightarrow> nat \<Rightarrow> nat \<Rightarrow> bool" where
  "findInterface W c type = (type \<in> set (interfaces W c))"

fun hasApi :: "world \<Rightarrow> accessor \<Rightarrow> nat \<Rightarrow> bool" where
  "hasApi W (RttiServiceAccessor x) type = object_is W x type"
| "hasApi W (TypedServiceAccessor x types) type = (type \<in> set types)"
| "hasApi W (LazyServiceAccessor c instance') type = findInterface W c type"

text \<open>The accessor afterwards, and the object; \<open>n\<close> is the serial number for an object that is constructed.\<close>

fun getApi :: "world \<Rightarrow> nat \<Rightarrow> accessor \<Rightarrow> nat \<Rightarrow> GetApiMode \<Rightarrow> accessor \<times> object option" where
  "getApi W n (RttiServiceAccessor x) type mode =
     (RttiServiceAccessor x, if object_is W x type then Some (Existing x) else None)"
| "getApi W n (TypedServiceAccessor x types) type mode =
     (TypedServiceAccessor x types, if type \<in> set types then Some (Existing x) else None)"
| "getApi W n (LazyServiceAccessor c instance') type mode =
     (if \<not> findInterface W c type then (LazyServiceAccessor c instance', None)
      else case instance' of
        Some k \<Rightarrow> (LazyServiceAccessor c instance', if class_is W c type then Some (Made k) else None)
      | None \<Rightarrow>
          if mode = DoNotCreate then (LazyServiceAccessor c None, None)
          else (LazyServiceAccessor c (Some n), if class_is W c type then Some (Made n) else None))"

fun instance_of :: "accessor \<Rightarrow> nat option" where
  "instance_of (LazyServiceAccessor c k) = k" | "instance_of _ = None"

section \<open>The provider\<close>

text \<open>\<open>made\<close> is history: the accessor that constructed each object, by serial number.\<close>

record ServiceProvider =
  m_accessors :: "accessor list"
  m_instances :: "nat \<rightharpoonup> object \<times> nat"
  m_classDescriptors :: "nat list"
  m_isDisposed :: bool
  made :: "nat list"

definition createServiceProvider :: ServiceProvider where
  "createServiceProvider =
     \<lparr>m_accessors = [], m_instances = Map.empty, m_classDescriptors = [], m_isDisposed = False, made = []\<rparr>"

text \<open>Calling \<open>getApi\<close> of the accessor at \<open>i\<close>, which may construct the object.\<close>

definition call_getApi ::
  "world \<Rightarrow> nat \<Rightarrow> nat \<Rightarrow> GetApiMode \<Rightarrow> ServiceProvider \<Rightarrow> ServiceProvider \<times> object option" where
  "call_getApi W i type mode s =
     (let old = m_accessors s ! i; (new, api) = getApi W (length (made s)) old type mode
      in (s\<lparr>m_accessors := (m_accessors s)[i := new],
            made := (if instance_of new \<noteq> instance_of old then made s @ [i] else made s)\<rparr>, api))"

definition findInternal :: "world \<Rightarrow> nat \<Rightarrow> ServiceProvider \<Rightarrow> ServiceProvider \<times> (object \<times> nat) option" where
  "findInternal W type s =
     (case m_instances s type of
        Some entry \<Rightarrow> (s, Some entry)
      | None \<Rightarrow>
          (case find_index (\<lambda>a. hasApi W a type) (m_accessors s) of
             None \<Rightarrow> (s, None)
           | Some i \<Rightarrow>
               (case call_getApi W i type AllowLazyCreation s of
                  (s', None) \<Rightarrow> (s', None)
                | (s', Some api) \<Rightarrow>
                    (s'\<lparr>m_instances := (m_instances s')(type \<mapsto> (api, i))\<rparr>, Some (api, i)))))"

fun call_all :: "world \<Rightarrow> nat \<Rightarrow> GetApiMode \<Rightarrow> nat list \<Rightarrow> ServiceProvider \<Rightarrow> ServiceProvider \<times> (object \<times> nat) list" where
  "call_all W type mode [] s = (s, [])"
| "call_all W type mode (i # is) s =
     (let (s', api) = call_getApi W i type mode s; (s'', rest) = call_all W type mode is s'
      in (s'', (case api of None \<Rightarrow> [] | Some x \<Rightarrow> [(x, i)]) @ rest))"

definition findAllInternal ::
  "world \<Rightarrow> nat \<Rightarrow> GetApiMode \<Rightarrow> ServiceProvider \<Rightarrow> ServiceProvider \<times> (object \<times> nat) list" where
  "findAllInternal W type mode s =
     call_all W type mode (filter (\<lambda>i. hasApi W (m_accessors s ! i) type) [0..<length (m_accessors s)]) s"

definition hasApiInternal :: "world \<Rightarrow> nat \<Rightarrow> ServiceProvider \<Rightarrow> bool" where
  "hasApiInternal W type s = (\<exists>a\<in>set (m_accessors s). hasApi W a type)"

definition addServiceAccessorInternal :: "accessor \<Rightarrow> ServiceProvider \<Rightarrow> ServiceProvider option" where
  "addServiceAccessorInternal a s = do {
     require (\<not> m_isDisposed s);
     Some (s\<lparr>m_accessors := m_accessors s @ [a]\<rparr>) }"

definition addClass :: "world \<Rightarrow> nat \<Rightarrow> ServiceProvider \<Rightarrow> ServiceProvider option" where
  "addClass W c s = do {
     require (interfaces W c \<noteq> []);
     Some (s\<lparr>m_classDescriptors := m_classDescriptors s @ [c]\<rparr>) }"

text \<open>\<open>findClass\<close> fails when two classes provide the type.\<close>

fun findClass_loop :: "world \<Rightarrow> nat \<Rightarrow> nat option \<Rightarrow> nat list \<Rightarrow> nat option option" where
  "findClass_loop W type result [] = Some result"
| "findClass_loop W type result (c # cs) =
     (if findInterface W c type
      then (if result \<noteq> None then None else findClass_loop W type (Some c) cs)
      else findClass_loop W type result cs)"

definition findClass :: "world \<Rightarrow> nat \<Rightarrow> ServiceProvider \<Rightarrow> nat option option" where
  "findClass W type s = findClass_loop W type None (m_classDescriptors s)"

definition findClasses :: "world \<Rightarrow> nat \<Rightarrow> ServiceProvider \<Rightarrow> nat list" where
  "findClasses W type s = filter (\<lambda>c. \<exists>t\<in>set (interfaces W c). t = type) (m_classDescriptors s)"

definition findClasses_of :: "world \<Rightarrow> nat list \<Rightarrow> bool \<Rightarrow> ServiceProvider \<Rightarrow> nat list" where
  "findClasses_of W types anyType s =
     filter (\<lambda>c. if anyType then \<exists>t\<in>set types. findInterface W c t else \<forall>t\<in>set types. findInterface W c t)
       (m_classDescriptors s)"

definition dispose_begin :: "ServiceProvider \<Rightarrow> ServiceProvider" where
  "dispose_begin s = s\<lparr>m_isDisposed := True\<rparr>"

text \<open>
  The services that shut down: those that exist; asking does not construct them.  Disposing is asked for in the same
  way, first of the asynchronous interface.
\<close>

definition shutdown_services :: "world \<Rightarrow> nat \<Rightarrow> ServiceProvider \<Rightarrow> ServiceProvider \<times> (object \<times> nat) list" where
  "shutdown_services W shutdownType s =
     call_all W shutdownType DoNotCreate [0..<length (m_accessors s)] s"

section \<open>Calls\<close>

datatype provider_op =
    AddService accessor
  | AddClass nat
  | Find nat
  | FindAll nat GetApiMode
  | Has nat
  | FindClass nat
  | FindClasses nat
  | FindClassesOf "nat list" bool
  | ShutdownServices nat

datatype result = Unit | Service "nat option" | Services "nat list" | Truth bool | Class "nat option" | Classes "nat list"

text \<open>An accessor that is added has no instance yet.\<close>

fun provider_exec :: "world \<Rightarrow> provider_op \<Rightarrow> ServiceProvider \<Rightarrow> (ServiceProvider \<times> result) option" where
  "provider_exec W (AddService a) s = do {
     require (instance_of a = None); s' \<leftarrow> addServiceAccessorInternal a s; Some (s', Unit) }"
| "provider_exec W (AddClass c) s = do { s' \<leftarrow> addClass W c s; Some (s', Unit) }"
| "provider_exec W (Find type) s = (let (s', r) = findInternal W type s in Some (s', Service (map_option snd r)))"
| "provider_exec W (FindAll type mode) s =
     (let (s', rs) = findAllInternal W type mode s in Some (s', Services (map snd rs)))"
| "provider_exec W (Has type) s = Some (s, Truth (hasApiInternal W type s))"
| "provider_exec W (FindClass type) s = do { c \<leftarrow> findClass W type s; Some (s, Class c) }"
| "provider_exec W (FindClasses type) s = Some (s, Classes (findClasses W type s))"
| "provider_exec W (FindClassesOf types anyType) s = Some (s, Classes (findClasses_of W types anyType s))"
| "provider_exec W (ShutdownServices type) s =
     (let (s', rs) = shutdown_services W type (dispose_begin s) in Some (s', Services (map snd rs)))"

section \<open>The specification\<close>

text \<open>
  A list of services, each with what it declares; \<open>existing\<close> are the lazy ones that have been asked for, which only
  the queries that must not construct can see.
\<close>

record service_list =
  declared :: "accessor list"
  existing :: "nat set"
  classes :: "nat list"
  disposed :: bool

fun offers :: "world \<Rightarrow> accessor \<Rightarrow> nat \<Rightarrow> bool" where
  "offers W (LazyServiceAccessor c k) type \<longleftrightarrow> findInterface W c type \<and> class_is W c type"
| "offers W a type \<longleftrightarrow> hasApi W a type"

fun lazy :: "accessor \<Rightarrow> bool" where
  "lazy (LazyServiceAccessor c k) = True" | "lazy _ = False"

fun unmade :: "accessor \<Rightarrow> accessor" where
  "unmade (LazyServiceAccessor c k) = LazyServiceAccessor c None" | "unmade a = a"

definition asked :: "world \<Rightarrow> nat \<Rightarrow> accessor list \<Rightarrow> nat list" where
  "asked W type as = filter (\<lambda>i. hasApi W (as ! i) type) [0..<length as]"

definition shown :: "world \<Rightarrow> nat \<Rightarrow> accessor list \<Rightarrow> nat set \<Rightarrow> nat list" where
  "shown W type as E = filter (\<lambda>i. offers W (as ! i) type \<and> (lazy (as ! i) \<longrightarrow> i \<in> E)) [0..<length as]"

fun provider_spec :: "world \<Rightarrow> provider_op \<Rightarrow> service_list \<Rightarrow> (service_list \<times> result) option" where
  "provider_spec W (AddService a) p =
     (if instance_of a = None \<and> \<not> disposed p then Some (p\<lparr>declared := declared p @ [a]\<rparr>, Unit) else None)"
| "provider_spec W (AddClass c) p =
     (if interfaces W c \<noteq> [] then Some (p\<lparr>classes := classes p @ [c]\<rparr>, Unit) else None)"
| "provider_spec W (Find type) p =
     (case asked W type (declared p) of
        [] \<Rightarrow> Some (p, Service None)
      | i # _ \<Rightarrow> Some (p\<lparr>existing := insert i (existing p)\<rparr>,
          Service (if offers W (declared p ! i) type then Some i else None)))"
| "provider_spec W (FindAll type mode) p =
     (let E = (if mode = AllowLazyCreation then existing p \<union> set (asked W type (declared p)) else existing p)
      in Some (p\<lparr>existing := E\<rparr>, Services (shown W type (declared p) E)))"
| "provider_spec W (Has type) p = Some (p, Truth (asked W type (declared p) \<noteq> []))"
| "provider_spec W (FindClass type) p =
     (case filter (\<lambda>c. findInterface W c type) (classes p) of
        [] \<Rightarrow> Some (p, Class None) | [c] \<Rightarrow> Some (p, Class (Some c)) | _ \<Rightarrow> None)"
| "provider_spec W (FindClasses type) p = Some (p, Classes (filter (\<lambda>c. findInterface W c type) (classes p)))"
| "provider_spec W (FindClassesOf types anyType) p =
     Some (p, Classes (filter (\<lambda>c. if anyType then \<exists>t\<in>set types. findInterface W c t else \<forall>t\<in>set types. findInterface W c t)
       (classes p)))"
| "provider_spec W (ShutdownServices type) p =
     Some (p\<lparr>disposed := True\<rparr>, Services (shown W type (declared p) (existing p)))"

definition no_services :: service_list where
  "no_services = \<lparr>declared = [], existing = {}, classes = [], disposed = False\<rparr>"

section \<open>The relation\<close>

text \<open>Each object was made by one accessor, and the accessor has it; the cache holds what a query would give.\<close>

definition made_once :: "ServiceProvider \<Rightarrow> bool" where
  "made_once s \<longleftrightarrow> distinct (made s) \<and> set (made s) \<subseteq> {..<length (m_accessors s)} \<and>
     (\<forall>i<length (m_accessors s). \<forall>k. instance_of (m_accessors s ! i) = Some k \<longleftrightarrow> k < length (made s) \<and> made s ! k = i)"

fun object_of :: "accessor \<Rightarrow> object option" where
  "object_of (LazyServiceAccessor c k) = map_option Made k"
| "object_of (RttiServiceAccessor x) = Some (Existing x)"
| "object_of (TypedServiceAccessor x types) = Some (Existing x)"

definition cache_ok :: "world \<Rightarrow> ServiceProvider \<Rightarrow> bool" where
  "cache_ok W s \<longleftrightarrow> (\<forall>type x i. m_instances s type = Some (x, i) \<longrightarrow>
     find_index (\<lambda>a. hasApi W a type) (m_accessors s) = Some i \<and> offers W (m_accessors s ! i) type \<and>
     object_of (m_accessors s ! i) = Some x)"

definition provides :: "world \<Rightarrow> ServiceProvider \<Rightarrow> service_list \<Rightarrow> bool" where
  "provides W s p \<longleftrightarrow>
     map unmade (m_accessors s) = declared p \<and>
     (\<forall>i<length (m_accessors s). lazy (m_accessors s ! i) \<longrightarrow> (instance_of (m_accessors s ! i) \<noteq> None \<longleftrightarrow> i \<in> existing p)) \<and>
     existing p \<subseteq> {..<length (m_accessors s)} \<and>
     m_classDescriptors s = classes p \<and> m_isDisposed s = disposed p \<and> made_once s \<and> cache_ok W s"

lemma unrelated_fields [simp]:
  "made_once (s\<lparr>m_instances := m\<rparr>) = made_once s" "made_once (s\<lparr>m_classDescriptors := cs\<rparr>) = made_once s"
  "made_once (s\<lparr>m_isDisposed := b\<rparr>) = made_once s" "cache_ok W (s\<lparr>m_classDescriptors := cs\<rparr>) = cache_ok W s"
  "cache_ok W (s\<lparr>m_isDisposed := b\<rparr>) = cache_ok W s"
  by (simp_all add: made_once_def cache_ok_def)

lemma unmade_simps [simp]:
  "hasApi W (unmade a) = hasApi W a" "offers W (unmade a) = offers W a" "lazy (unmade a) = lazy a"
  by (cases a; auto simp: fun_eq_iff)+

lemma offers_has: "offers W a type \<Longrightarrow> hasApi W a type"
  by (cases a) auto

lemma unmade_id: "instance_of a = None \<Longrightarrow> unmade a = a"
  by (cases a) auto

text \<open>What one call of \<open>getApi\<close> does.\<close>

definition extends :: "ServiceProvider \<Rightarrow> ServiceProvider \<Rightarrow> bool" where
  "extends s s' \<longleftrightarrow> map unmade (m_accessors s') = map unmade (m_accessors s) \<and>
     m_classDescriptors s' = m_classDescriptors s \<and> m_isDisposed s' = m_isDisposed s \<and> m_instances s' = m_instances s \<and>
     (\<forall>i<length (m_accessors s). object_of (m_accessors s ! i) \<noteq> None \<longrightarrow>
        object_of (m_accessors s' ! i) = object_of (m_accessors s ! i))"

lemma extends_lookup:
  assumes "extends s s'"
  shows "length (m_accessors s') = length (m_accessors s)"
    and "i < length (m_accessors s) \<Longrightarrow> hasApi W (m_accessors s' ! i) = hasApi W (m_accessors s ! i)"
    and "i < length (m_accessors s) \<Longrightarrow> offers W (m_accessors s' ! i) = offers W (m_accessors s ! i)"
    and "i < length (m_accessors s) \<Longrightarrow> lazy (m_accessors s' ! i) = lazy (m_accessors s ! i)"
proof -
  have m: "map unmade (m_accessors s') = map unmade (m_accessors s)" using assms by (simp add: extends_def)
  then show l: "length (m_accessors s') = length (m_accessors s)" by (metis length_map)
  assume i: "i < length (m_accessors s)"
  then have "unmade (m_accessors s' ! i) = unmade (m_accessors s ! i)" using m l by (metis nth_map)
  then show "hasApi W (m_accessors s' ! i) = hasApi W (m_accessors s ! i)"
    "offers W (m_accessors s' ! i) = offers W (m_accessors s ! i)" "lazy (m_accessors s' ! i) = lazy (m_accessors s ! i)"
    by (metis unmade_simps)+
qed

lemma extends_refl: "extends s s"
  by (simp add: extends_def)

lemma extends_trans:
  assumes "extends s s1" "extends s1 s2"
  shows "extends s s2"
  using assms extends_lookup(1) [OF assms(1)] unfolding extends_def by auto

text \<open>Whether a lazy accessor has an object after the call.\<close>

definition has_object :: "world \<Rightarrow> accessor \<Rightarrow> nat \<Rightarrow> GetApiMode \<Rightarrow> bool" where
  "has_object W a type mode \<longleftrightarrow> instance_of a \<noteq> None \<or> hasApi W a type \<and> mode = AllowLazyCreation"

lemma getApi_effect:
  assumes "getApi W n a type mode = (a', r)"
  shows "unmade a' = unmade a"
    and "object_of a \<noteq> None \<Longrightarrow> object_of a' = object_of a"
    and "instance_of a' \<noteq> instance_of a \<Longrightarrow> instance_of a = None \<and> instance_of a' = Some n"
    and "lazy a \<Longrightarrow> instance_of a' \<noteq> None \<longleftrightarrow> has_object W a type mode"
    and "r = (if offers W a type \<and> (lazy a \<longrightarrow> has_object W a type mode) then object_of a' else None)"
  using assms by (cases a; cases mode; auto simp: has_object_def split: if_splits option.splits)+

lemma call_getApi_effect:
  assumes "i < length (m_accessors s)" "made_once s" "call_getApi W i type mode s = (s', r)"
  shows "extends s s'" "made_once s'"
    "lazy (m_accessors s ! i) \<Longrightarrow> instance_of (m_accessors s' ! i) \<noteq> None \<longleftrightarrow> has_object W (m_accessors s ! i) type mode"
    "j \<noteq> i \<Longrightarrow> m_accessors s' ! j = m_accessors s ! j"
    "r = (if offers W (m_accessors s ! i) type \<and> (lazy (m_accessors s ! i) \<longrightarrow> has_object W (m_accessors s ! i) type mode)
          then object_of (m_accessors s' ! i) else None)"
proof -
  let ?a = "m_accessors s ! i"
  obtain a' where a': "getApi W (length (made s)) ?a type mode = (a', r)"
    and s': "s' = s\<lparr>m_accessors := (m_accessors s)[i := a'],
      made := (if instance_of a' \<noteq> instance_of ?a then made s @ [i] else made s)\<rparr>"
    using assms(3) by (auto simp: call_getApi_def Let_def split: prod.splits)
  note effect = getApi_effect [OF a']
  have i: "m_accessors s' ! i = a'" using s' assms(1) by simp
  show "extends s s'"
    using effect(1,2) assms(1) s' by (auto simp: extends_def map_update nth_list_update list_update_same_conv)
  show "j \<noteq> i \<Longrightarrow> m_accessors s' ! j = m_accessors s ! j" using s' by simp
  show "lazy ?a \<Longrightarrow> instance_of (m_accessors s' ! i) \<noteq> None \<longleftrightarrow> has_object W ?a type mode"
    unfolding i by (rule effect(4))
  show "r = (if offers W ?a type \<and> (lazy ?a \<longrightarrow> has_object W ?a type mode) then object_of (m_accessors s' ! i) else None)"
    unfolding i by (rule effect(5))
  show "made_once s'"
  proof (cases "instance_of a' = instance_of ?a")
    case True
    then show ?thesis using assms(1,2) s' by (auto simp: made_once_def nth_list_update)
  next
    case False
    then have n: "instance_of ?a = None" "instance_of a' = Some (length (made s))"
      using effect(3) by auto
    have "i \<notin> set (made s)"
      using assms(1,2) n(1) by (fastforce simp: made_once_def in_set_conv_nth)
    then show ?thesis
      using assms(1,2) n s' False unfolding made_once_def
      by (auto simp: nth_list_update nth_append less_Suc_eq)
  qed
qed

text \<open>Calling a list of accessors.\<close>

lemma call_all_effect:
  assumes "\<forall>i\<in>set is. i < length (m_accessors s)" "distinct is" "made_once s" "call_all W type mode is s = (s', rs)"
  shows "extends s s' \<and> made_once s' \<and>
    (\<forall>i<length (m_accessors s). lazy (m_accessors s ! i) \<longrightarrow>
       (instance_of (m_accessors s' ! i) \<noteq> None \<longleftrightarrow>
        instance_of (m_accessors s ! i) \<noteq> None \<or> i \<in> set is \<and> has_object W (m_accessors s ! i) type mode)) \<and>
    map snd rs = filter (\<lambda>i. offers W (m_accessors s ! i) type \<and>
       (lazy (m_accessors s ! i) \<longrightarrow> has_object W (m_accessors s ! i) type mode)) is"
  using assms
proof (induction "is" arbitrary: s s' rs)
  case Nil
  then show ?case by (simp add: extends_refl)
next
  case (Cons i "is")
  obtain s1 x where s1: "call_getApi W i type mode s = (s1, x)" by fastforce
  obtain rs1 where rs1: "call_all W type mode is s1 = (s', rs1)"
    "rs = (case x of None \<Rightarrow> [] | Some x \<Rightarrow> [(x, i)]) @ rs1"
    using Cons.prems(4) s1 by (auto simp: Let_def split: prod.splits)
  have i: "i < length (m_accessors s)" "i \<notin> set is" using Cons.prems by auto
  note one = call_getApi_effect [OF i(1) Cons.prems(3) s1]
  note ext = extends_lookup [OF one(1)]
  have same: "m_accessors s1 ! j = m_accessors s ! j" if "j \<in> set is" for j using one(4) that i(2) by metis
  have "\<forall>i\<in>set is. i < length (m_accessors s1)" "distinct is" using Cons.prems(1,2) ext(1) by auto
  note rest = Cons.IH [OF this one(2) rs1(1)]
  have "extends s s'" using extends_trans [OF one(1)] rest by blast
  moreover have "instance_of (m_accessors s' ! j) \<noteq> None \<longleftrightarrow>
      instance_of (m_accessors s ! j) \<noteq> None \<or> j \<in> set (i # is) \<and> has_object W (m_accessors s ! j) type mode"
    if j: "j < length (m_accessors s)" "lazy (m_accessors s ! j)" for j
  proof (cases "j = i")
    case True
    have "instance_of (m_accessors s' ! j) \<noteq> None \<longleftrightarrow> instance_of (m_accessors s1 ! j) \<noteq> None"
      using rest j ext(1) ext(4) [OF j(1)] i(2) True by metis
    then show ?thesis using one(3) j True by (auto simp: has_object_def)
  next
    case False
    then show ?thesis using rest j ext(1) one(4) [OF False] by simp
  qed
  moreover have "map snd rs1 = filter (\<lambda>i. offers W (m_accessors s ! i) type \<and>
      (lazy (m_accessors s ! i) \<longrightarrow> has_object W (m_accessors s ! i) type mode)) is"
    using rest same by (auto intro!: filter_cong)
  moreover have "map snd rs = (if offers W (m_accessors s ! i) type \<and>
      (lazy (m_accessors s ! i) \<longrightarrow> has_object W (m_accessors s ! i) type mode) then [i] else []) @ map snd rs1"
  proof -
    have "object_of (m_accessors s1 ! i) \<noteq> None" if "lazy (m_accessors s ! i) \<longrightarrow> has_object W (m_accessors s ! i) type mode"
      using that one(3) ext(4) [OF i(1)] by (cases "m_accessors s1 ! i") auto
    then show ?thesis using one(5) rs1(2) by (auto split: if_splits option.splits)
  qed
  ultimately show ?case
    using rest by simp
qed

section \<open>The simulation\<close>

lemma find_index_filter:
  "find_index P xs = (case filter (\<lambda>i. P (xs ! i)) [0..<length xs] of [] \<Rightarrow> None | i # is \<Rightarrow> Some i)"
proof (induction xs)
  case (Cons x xs)
  have "[0..<length (x # xs)] = 0 # map Suc [0..<length xs]" by (simp add: upt_conv_Cons map_Suc_upt del: upt_Suc)
  then show ?case using Cons.IH by (auto simp: filter_map o_def split: list.splits)
qed simp

lemma asked_unmade: "asked W type (map unmade as) = asked W type as"
  by (auto simp: asked_def intro!: filter_cong)

lemma shown_unmade: "shown W type (map unmade as) E = shown W type as E"
  by (auto simp: shown_def intro!: filter_cong)

lemma find_asked:
  "find_index (\<lambda>a. hasApi W a type) as = (case asked W type as of [] \<Rightarrow> None | i # is \<Rightarrow> Some i)"
  by (simp add: asked_def find_index_filter)

lemma asked_less: "i \<in> set (asked W type as) \<Longrightarrow> i < length as \<and> hasApi W (as ! i) type"
  by (auto simp: asked_def)

lemma providesD:
  assumes "provides W s p"
  shows "declared p = map unmade (m_accessors s)" "m_classDescriptors s = classes p" "m_isDisposed s = disposed p"
    "made_once s" "cache_ok W s" "existing p \<subseteq> {..<length (m_accessors s)}"
    "i < length (m_accessors s) \<Longrightarrow> lazy (m_accessors s ! i) \<Longrightarrow> instance_of (m_accessors s ! i) \<noteq> None \<longleftrightarrow> i \<in> existing p"
  using assms by (auto simp: provides_def)

lemma cache_okD:
  assumes "cache_ok W s" "m_instances s type = Some (x, i)"
  shows "find_index (\<lambda>a. hasApi W a type) (m_accessors s) = Some i" "offers W (m_accessors s ! i) type"
    "object_of (m_accessors s ! i) = Some x"
  using assms by (auto simp: cache_ok_def)

lemma cache_ok_extends:
  assumes "cache_ok W s" "extends s s'"
  shows "cache_ok W s'"
  unfolding cache_ok_def
proof (intro allI impI)
  fix type x i
  assume "m_instances s' type = Some (x, i)"
  then have "m_instances s type = Some (x, i)" using assms(2) by (simp add: extends_def)
  note c = cache_okD [OF assms(1) this]
  have i: "i < length (m_accessors s)" using c(1) by (rule find_index_less)
  have "asked W type (m_accessors s') = asked W type (m_accessors s)"
    using assms(2) by (metis asked_unmade extends_def)
  then have "find_index (\<lambda>a. hasApi W a type) (m_accessors s') = Some i" using c(1) by (simp add: find_asked)
  then show "find_index (\<lambda>a. hasApi W a type) (m_accessors s') = Some i \<and> offers W (m_accessors s' ! i) type \<and>
      object_of (m_accessors s' ! i) = Some x"
    using c(2,3) extends_lookup(3) [OF assms(2) i] assms(2) i by (simp add: extends_def)
qed

lemma provides_extends:
  assumes "provides W s p" "extends s s'" "made_once s'" "E \<subseteq> {..<length (m_accessors s)}"
    and "\<And>i. i < length (m_accessors s) \<Longrightarrow> lazy (m_accessors s ! i) \<Longrightarrow> instance_of (m_accessors s' ! i) \<noteq> None \<longleftrightarrow> i \<in> E"
  shows "provides W s' (p\<lparr>existing := E\<rparr>)"
  using providesD [OF assms(1)] assms(2-5) extends_lookup(1,4) [OF assms(2)] cache_ok_extends [OF _ assms(2)]
  by (auto simp: provides_def extends_def)

lemma provides_cache:
  assumes "provides W s p" "find_index (\<lambda>a. hasApi W a type) (m_accessors s) = Some i"
    "offers W (m_accessors s ! i) type" "object_of (m_accessors s ! i) = Some x"
  shows "provides W (s\<lparr>m_instances := (m_instances s)(type \<mapsto> (x, i))\<rparr>) p"
proof -
  let ?s = "s\<lparr>m_instances := (m_instances s)(type \<mapsto> (x, i))\<rparr>"
  have "made_once ?s" using providesD(4) [OF assms(1)] by (simp add: made_once_def)
  moreover have "cache_ok W ?s" using providesD(5) [OF assms(1)] assms(2-) by (simp add: cache_ok_def)
  ultimately show ?thesis using assms(1) by (simp add: provides_def)
qed

lemma find_step:
  assumes "provides W s p"
  shows "same_step (provides W) (provider_exec W (Find type) s) (provider_spec W (Find type) p)"
proof -
  note D = providesD [OF assms]
  let ?E = "\<lambda>i. insert i (existing p)"
  obtain s' r where f: "findInternal W type s = (s', r)" by fastforce
  show ?thesis
  proof (cases "asked W type (m_accessors s)")
    case Nil
    then have n: "find_index (\<lambda>a. hasApi W a type) (m_accessors s) = None" by (simp add: find_asked)
    then have "m_instances s type = None" using cache_okD(1) [OF D(5)] by (cases "m_instances s type") fastforce+
    then show ?thesis using assms n Nil D(1) by (auto simp: findInternal_def asked_unmade)
  next
    case (Cons i "is")
    then have i: "i < length (m_accessors s)" "hasApi W (m_accessors s ! i) type" using asked_less [of i W type "m_accessors s"] by auto
    have n: "find_index (\<lambda>a. hasApi W a type) (m_accessors s) = Some i" using Cons by (simp add: find_asked)
    have spec: "provider_spec W (Find type) p = Some (p\<lparr>existing := ?E i\<rparr>,
        Service (if offers W (m_accessors s ! i) type then Some i else None))"
      using D(1) Cons i(1) by (simp add: asked_unmade)
    have sub: "?E i \<subseteq> {..<length (m_accessors s)}" using D(6) i(1) by simp
    show ?thesis
    proof (cases "m_instances s type")
      case (Some e)
      then obtain x j where e: "m_instances s type = Some (x, j)" by (cases e) auto
      note c = cache_okD [OF D(5) e]
      have j: "j = i" using c(1) n by simp
      have "lazy (m_accessors s ! i) \<Longrightarrow> instance_of (m_accessors s ! i) \<noteq> None"
        using c(3) j by (cases "m_accessors s ! i") auto
      then have "provides W s (p\<lparr>existing := ?E i\<rparr>)"
        using D(7) by (intro provides_extends [OF assms extends_refl D(4) sub]) auto
      then show ?thesis using e j c(2) spec by (auto simp: findInternal_def)
    next
      case None
      obtain s1 api where s1: "call_getApi W i type AllowLazyCreation s = (s1, api)" by fastforce
      note one = call_getApi_effect [OF i(1) D(4) s1]
      have h: "has_object W (m_accessors s ! i) type AllowLazyCreation" using i(2) by (simp add: has_object_def)
      have p1: "provides W s1 (p\<lparr>existing := ?E i\<rparr>)"
      proof (rule provides_extends [OF assms one(1,2) sub])
        fix j assume "j < length (m_accessors s)" "lazy (m_accessors s ! j)"
        then show "instance_of (m_accessors s1 ! j) \<noteq> None \<longleftrightarrow> j \<in> ?E i"
          using one(3,4) D(7) h by (cases "j = i") auto
      qed
      show ?thesis
      proof (cases api)
        case None: None
        have "object_of (m_accessors s1 ! i) \<noteq> None"
          using one(3) extends_lookup(4) [OF one(1) i(1)] h by (cases "m_accessors s1 ! i") auto
        then have "\<not> offers W (m_accessors s ! i) type" using one(5) h None by auto
        then show ?thesis using p1 spec s1 n \<open>m_instances s type = None\<close> None by (auto simp: findInternal_def)
      next
        case (Some x)
        then have o: "offers W (m_accessors s ! i) type" "object_of (m_accessors s1 ! i) = Some x"
          using one(5) by (auto split: if_splits)
        have "asked W type (m_accessors s1) = asked W type (m_accessors s)"
          using one(1) by (metis asked_unmade extends_def)
        then have "find_index (\<lambda>a. hasApi W a type) (m_accessors s1) = Some i" using n by (simp add: find_asked)
        then have "provides W (s1\<lparr>m_instances := (m_instances s1)(type \<mapsto> (x, i))\<rparr>) (p\<lparr>existing := ?E i\<rparr>)"
          using provides_cache [OF p1] o extends_lookup(3) [OF one(1) i(1)] by metis
        then show ?thesis using spec s1 n \<open>m_instances s type = None\<close> Some o(1) by (auto simp: findInternal_def)
      qed
    qed
  qed
qed

lemma asked_filter: "asked W type as = filter (\<lambda>i. hasApi W (as ! i) type) [0..<length as]"
  by (simp add: asked_def)

lemma distinct_asked: "distinct (asked W type as)"
  by (simp add: asked_def)

lemma findAll_step:
  assumes "provides W s p"
  shows "same_step (provides W) (provider_exec W (FindAll type mode) s) (provider_spec W (FindAll type mode) p)"
proof -
  note D = providesD [OF assms]
  let ?as = "m_accessors s"
  let ?E = "if mode = AllowLazyCreation then existing p \<union> set (asked W type ?as) else existing p"
  obtain s' rs where c: "call_all W type mode (asked W type ?as) s = (s', rs)" by fastforce
  have less: "\<forall>i\<in>set (asked W type ?as). i < length ?as" using asked_less by blast
  note all = call_all_effect [OF less distinct_asked D(4) c]
  have has: "has_object W (?as ! i) type mode \<longleftrightarrow> i \<in> existing p \<or> i \<in> set (asked W type ?as) \<and> mode = AllowLazyCreation"
    if "i < length ?as" "lazy (?as ! i)" for i
    using that D(7) by (auto simp: has_object_def asked_def)
  have "provides W s' (p\<lparr>existing := ?E\<rparr>)"
  proof (rule provides_extends [OF assms])
    show "extends s s'" "made_once s'" using all by blast+
    show "?E \<subseteq> {..<length ?as}" using D(6) less by auto
    fix i assume "i < length ?as" "lazy (?as ! i)"
    then show "instance_of (m_accessors s' ! i) \<noteq> None \<longleftrightarrow> i \<in> ?E"
      using all has D(7) by auto
  qed
  moreover have "map snd rs = shown W type ?as ?E"
  proof -
    have "map snd rs = filter (\<lambda>i. offers W (?as ! i) type \<and> (lazy (?as ! i) \<longrightarrow> has_object W (?as ! i) type mode)) (asked W type ?as)"
      using all by blast
    also have "\<dots> = shown W type ?as ?E"
      unfolding shown_def asked_def filter_filter
    proof (rule filter_cong [OF refl])
      fix i assume "i \<in> set [0..<length ?as]"
      then have "i < length ?as" by simp
      then show "(hasApi W (?as ! i) type \<and> offers W (?as ! i) type \<and> (lazy (?as ! i) \<longrightarrow> has_object W (?as ! i) type mode)) \<longleftrightarrow>
          offers W (?as ! i) type \<and> (lazy (?as ! i) \<longrightarrow> i \<in> (if mode = AllowLazyCreation
            then existing p \<union> set (filter (\<lambda>i. hasApi W (?as ! i) type) [0..<length ?as]) else existing p))"
        using has [of i] offers_has [of W "?as ! i" type] by (auto simp: asked_def)
    qed
    finally show ?thesis .
  qed
  ultimately show ?thesis
    using c D(1) by (auto simp: findAllInternal_def asked_def [symmetric] asked_unmade shown_unmade Let_def)
qed

lemma add_step:
  assumes "provides W s p"
  shows "same_step (provides W) (provider_exec W (AddService a) s) (provider_spec W (AddService a) p)"
proof (cases "instance_of a = None \<and> \<not> m_isDisposed s")
  case True
  note D = providesD [OF assms]
  let ?s = "s\<lparr>m_accessors := m_accessors s @ [a]\<rparr>" and ?p = "p\<lparr>declared := declared p @ [a]\<rparr>"
  have c: "cache_ok W ?s"
    using D(5) by (auto simp: cache_ok_def find_index_append nth_append dest!: find_index_less split: option.splits)
  have m: "made_once ?s"
  proof -
    have "made s ! k \<noteq> length (m_accessors s)" if "k < length (made s)" for k
      using D(4) nth_mem [OF that] unfolding made_once_def by (metis lessThan_iff less_irrefl subsetD)
    then show ?thesis using D(4) True by (auto simp: made_once_def nth_append less_Suc_eq)
  qed
  have "provides W ?s ?p"
    using D(1-3,6,7) True c m by (auto simp: provides_def unmade_id nth_append less_Suc_eq)
  then show ?thesis using True D(3) by (auto simp: addServiceAccessorInternal_def)
next
  case False
  then show ?thesis using providesD(3) [OF assms] by (auto simp: addServiceAccessorInternal_def)
qed

lemma findClass_loop_filter:
  "findClass_loop W type r cs =
     (case filter (\<lambda>c. findInterface W c type) cs of
        [] \<Rightarrow> Some r | [c] \<Rightarrow> if r = None then Some (Some c) else None | _ \<Rightarrow> None)"
  by (induction cs arbitrary: r) (auto split: list.splits)

lemma shutdown_step:
  assumes "provides W s p"
  shows "same_step (provides W) (provider_exec W (ShutdownServices type) s) (provider_spec W (ShutdownServices type) p)"
proof -
  let ?s = "dispose_begin s" and ?p = "p\<lparr>disposed := True\<rparr>" and ?as = "m_accessors s"
  have p: "provides W ?s ?p" using assms by (simp add: provides_def dispose_begin_def)
  note D = providesD [OF p]
  have as: "m_accessors ?s = ?as" by (simp add: dispose_begin_def)
  obtain s' rs where c: "call_all W type DoNotCreate [0..<length ?as] ?s = (s', rs)" by fastforce
  note all = call_all_effect [OF _ distinct_upt D(4) c, unfolded as]
  have has: "has_object W a type DoNotCreate \<longleftrightarrow> instance_of a \<noteq> None" for a by (simp add: has_object_def)
  have "provides W s' (?p\<lparr>existing := existing p\<rparr>)"
  proof (rule provides_extends [OF p])
    show "extends ?s s'" "made_once s'" using all by auto
    show "existing p \<subseteq> {..<length (m_accessors ?s)}" using D(6) by simp
    fix i assume "i < length (m_accessors ?s)" "lazy (m_accessors ?s ! i)"
    then show "instance_of (m_accessors s' ! i) \<noteq> None \<longleftrightarrow> i \<in> existing p"
      using all has D(7) as by auto
  qed
  moreover have "map snd rs = shown W type ?as (existing p)"
  proof -
    have "map snd rs = filter (\<lambda>i. offers W (?as ! i) type \<and> (lazy (?as ! i) \<longrightarrow> instance_of (?as ! i) \<noteq> None)) [0..<length ?as]"
      using all unfolding has by auto
    also have "\<dots> = shown W type ?as (existing p)"
      unfolding shown_def
    proof (rule filter_cong [OF refl])
      fix i assume "i \<in> set [0..<length ?as]"
      then show "(offers W (?as ! i) type \<and> (lazy (?as ! i) \<longrightarrow> instance_of (?as ! i) \<noteq> None)) =
          (offers W (?as ! i) type \<and> (lazy (?as ! i) \<longrightarrow> i \<in> existing p))"
        using providesD(7) [OF assms, of i] by auto
    qed
    finally show ?thesis .
  qed
  moreover have "?p\<lparr>existing := existing p\<rparr> = ?p" by (cases p) simp
  ultimately show ?thesis
    using c providesD(1) [OF assms] by (auto simp: shutdown_services_def as shown_unmade Let_def)
qed

text \<open>The classes of the provider are searched as a list; nothing else looks at them.\<close>

lemma class_step:
  assumes "provides W s p"
  shows "same_step (provides W) (provider_exec W (AddClass c) s) (provider_spec W (AddClass c) p)"
    and "same_step (provides W) (provider_exec W (FindClass type) s) (provider_spec W (FindClass type) p)"
    and "same_step (provides W) (provider_exec W (FindClasses type) s) (provider_spec W (FindClasses type) p)"
    and "same_step (provides W) (provider_exec W (FindClassesOf types anyType) s) (provider_spec W (FindClassesOf types anyType) p)"
    and "same_step (provides W) (provider_exec W (Has type) s) (provider_spec W (Has type) p)"
proof -
  note D = providesD [OF assms]
  have "provides W (s\<lparr>m_classDescriptors := m_classDescriptors s @ [c]\<rparr>) (p\<lparr>classes := classes p @ [c]\<rparr>)"
    using assms by (simp add: provides_def)
  then show "same_step (provides W) (provider_exec W (AddClass c) s) (provider_spec W (AddClass c) p)"
    by (auto simp: addClass_def)
  show "same_step (provides W) (provider_exec W (FindClass type) s) (provider_spec W (FindClass type) p)"
    using assms D(2) by (auto simp: findClass_def findClass_loop_filter split: list.splits)
  show "same_step (provides W) (provider_exec W (FindClasses type) s) (provider_spec W (FindClasses type) p)"
    using assms D(2) by (auto simp: findClasses_def findInterface_def)
  show "same_step (provides W) (provider_exec W (FindClassesOf types anyType) s) (provider_spec W (FindClassesOf types anyType) p)"
    using assms D(2) by (auto simp: findClasses_of_def)
  have "hasApiInternal W type s \<longleftrightarrow> asked W type (declared p) \<noteq> []"
    using find_index_None [of "\<lambda>a. hasApi W a type" "m_accessors s"] find_asked [of W type "m_accessors s"]
    by (auto simp: hasApiInternal_def D(1) asked_unmade split: list.splits)
  then show "same_step (provides W) (provider_exec W (Has type) s) (provider_spec W (Has type) p)"
    using assms by auto
qed

interpretation sp: simulation "provider_exec W" "provider_spec W" "provides W" for W
proof
  fix s p x
  assume "provides W s p"
  then show "same_step (provides W) (provider_exec W x s) (provider_spec W x p)"
    by (cases x) (simp_all only: add_step class_step find_step findAll_step shutdown_step)
qed

lemma provides_start: "provides W createServiceProvider no_services"
  by (simp add: provides_def createServiceProvider_def no_services_def made_once_def cache_ok_def)

section \<open>Properties\<close>


text \<open>
  However often and by whichever interfaces services are asked for, every lazy service is constructed at most once,
  and an interface that is found through the cache is the one of the object that the first service declaring it has.
\<close>

theorem constructed_once:
  assumes "run (provider_exec W) ops createServiceProvider = Some (s, rs)"
  shows "distinct (made s) \<and>
    (m_instances s type = Some (x, i) \<longrightarrow>
       find_index (\<lambda>a. hasApi W a type) (m_accessors s) = Some i \<and> object_of (m_accessors s ! i) = Some x)"
proof -
  obtain p where p: "provides W s p" using sp.run_rel [OF provides_start assms] by blast
  then have "distinct (made s)" using providesD(4) by (auto simp: made_once_def)
  then show ?thesis using cache_okD(1,3) [OF providesD(5) [OF p]] by blast
qed

text \<open>Three services: an object of types 5 and 9, and lazy ones of classes 0 (interfaces 7, 9) and 1 (interface 7).\<close>

definition demo_world :: world where
  "demo_world = \<lparr>object_is = (\<lambda>x t. t = 5 \<or> t = 9), class_is = (\<lambda>c t. True),
     interfaces = (\<lambda>c. if c = 0 then [7, 9] else [7])\<rparr>"

definition demo_calls :: "provider_op list" where
  "demo_calls =
     [AddService (LazyServiceAccessor 0 None), AddService (RttiServiceAccessor 3), AddService (LazyServiceAccessor 1 None),
      FindAll 7 DoNotCreate, Find 7, FindAll 7 DoNotCreate, Find 9, FindAll 9 AllowLazyCreation, Find 6, ShutdownServices 7]"

lemma demo_provider:
  "observe (run (provider_exec demo_world) demo_calls createServiceProvider) =
     Some [Unit, Unit, Unit, Services [], Service (Some 0), Services [0], Service (Some 0), Services [0, 1],
       Service None, Services [0]]"
  by code_simp

theorem constructed_once_witness:
  "\<exists>s rs. run (provider_exec demo_world) demo_calls createServiceProvider = Some (s, rs) \<and> distinct (made s) \<and>
     made s = [0] \<and> object_of (m_accessors s ! 0) = Some (Made 0)"
proof -
  have r: "map_option (\<lambda>(s, rs). (made s, m_instances s 7)) (run (provider_exec demo_world) demo_calls createServiceProvider) =
      Some ([0], Some (Made 0, 0))"
    by code_simp
  then obtain s rs where s: "run (provider_exec demo_world) demo_calls createServiceProvider = Some (s, rs)"
    "made s = [0]" "m_instances s 7 = Some (Made 0, 0)"
    by (auto simp: map_option_case split: option.splits)
  show ?thesis
    using constructed_once [OF s(1), of 7 "Made 0" 0] s by auto
qed

end
