(* ===== verification/Executors.thy ===== *)
theory Executors
  imports Prelude
begin

text \<open>
  What all executors share (\<open>src/async/executor.cpp\<close>): invocations, the callback with its two data pointers that
  is handed to an executor and can be called once, and the executor a thread runs under, which the guards of the
  running invocations and the settings of thread and program determine.  Callbacks, data and executors are numbers,
  \<open>0\<close> is the null data pointer.
\<close>

section \<open>Invocations\<close>

record Invocation =
  m_callback :: "nat option"
  m_callbackData1 :: nat
  m_callbackData2 :: nat

definition empty_invocation :: Invocation where
  "empty_invocation = \<lparr>m_callback = None, m_callbackData1 = 0, m_callbackData2 = 0\<rparr>"

definition make_invocation :: "nat option \<Rightarrow> nat \<Rightarrow> nat \<Rightarrow> Invocation" where
  "make_invocation cb d1 d2 = \<lparr>m_callback = cb, m_callbackData1 = d1, m_callbackData2 = d2\<rparr>"

definition reset :: "Invocation \<Rightarrow> Invocation" where
  "reset i = i\<lparr>m_callback := None, m_callbackData1 := 0, m_callbackData2 := 0\<rparr>"

definition given :: "Invocation \<Rightarrow> bool" where
  "given i \<longleftrightarrow> m_callback i \<noteq> None"

text \<open>Moving out of an invocation: the new one, and what is left.\<close>

definition move_construct :: "Invocation \<Rightarrow> Invocation \<times> Invocation" where
  "move_construct other = (make_invocation (m_callback other) (m_callbackData1 other) (m_callbackData2 other), reset other)"

text \<open>Assigning by move inside of an array: the fields are copied first and the source is reset then.\<close>

definition move_assign :: "nat \<Rightarrow> nat \<Rightarrow> Invocation list \<Rightarrow> Invocation list" where
  "move_assign this other xs =
     (let o' = xs ! other;
          xs = xs[this := (xs ! this)\<lparr>m_callback := m_callback o', m_callbackData1 := m_callbackData1 o',
            m_callbackData2 := m_callbackData2 o'\<rparr>]
      in xs[other := reset (xs ! other)])"

text \<open>Calling: the invocation afterwards and the call that is made; calling an empty one fails the assertion.\<close>

definition call :: "Invocation \<Rightarrow> (Invocation \<times> (nat \<times> nat \<times> nat)) option" where
  "call i = (case m_callback i of
       None \<Rightarrow> None
     | Some cb \<Rightarrow> Some (reset i, (cb, m_callbackData1 i, m_callbackData2 i)))"

definition resume :: nat where "resume = 0"

text \<open>\<open>fromCoroutine\<close>: the callback that resumes the coroutine at the address; a null handle is refused.\<close>

definition fromCoroutine :: "nat \<Rightarrow> Invocation option" where
  "fromCoroutine coroutine = do {
     require (coroutine \<noteq> 0);
     Some (make_invocation (Some resume) coroutine 0) }"

lemma reset_eq [simp]: "reset i = empty_invocation"
  by (cases i) (simp add: reset_def empty_invocation_def)

lemma move_construct_eq: "move_construct i = (i, empty_invocation)"
  by (cases i) (simp add: move_construct_def make_invocation_def)

lemma not_given [simp]: "\<not> given empty_invocation"
  by (simp add: given_def empty_invocation_def)

lemma given_make [simp]: "given (make_invocation (Some cb) a b)"
  by (simp add: given_def make_invocation_def)

text \<open>An invocation that is assigned to itself is lost; otherwise the two places exchange one invocation for none.\<close>

lemma move_assign_eq:
  assumes "i < length xs" "j < length xs"
  shows "move_assign i j xs = (if i = j then xs[i := empty_invocation] else xs[i := xs ! j, j := empty_invocation])"
  using assms by (cases "xs ! i"; cases "xs ! j") (auto simp: move_assign_def Let_def)

lemma call_once: "call i = Some (i', c) \<Longrightarrow> call i' = None"
  by (auto simp: call_def empty_invocation_def split: option.splits)

section \<open>The executor of a thread\<close>

text \<open>
  Weak references to the executors that are set, the guards of a thread as a stack of executors, innermost first,
  and which executors live.
\<close>

record executors =
  s_defaultExecutor :: "nat option"
  s_thisThreadExecutor :: "nat \<Rightarrow> nat option"
  s_thisThreadInvokeGuard :: "nat \<Rightarrow> nat list"
  alive :: "nat \<Rightarrow> bool"

definition acquire :: "executors \<Rightarrow> nat option \<Rightarrow> nat option" where
  "acquire s w = (case w of None \<Rightarrow> None | Some e \<Rightarrow> if alive s e then Some e else None)"

definition getInvoked :: "nat \<Rightarrow> executors \<Rightarrow> nat option" where
  "getInvoked t s = (case s_thisThreadInvokeGuard s t of [] \<Rightarrow> None | e # _ \<Rightarrow> Some e)"

definition getDefault :: "executors \<Rightarrow> nat option" where
  "getDefault s = acquire s (s_defaultExecutor s)"

definition getThisThreadExecutor :: "nat \<Rightarrow> executors \<Rightarrow> nat option" where
  "getThisThreadExecutor t s = acquire s (s_thisThreadExecutor s t)"

definition getCurrent :: "nat \<Rightarrow> executors \<Rightarrow> nat option" where
  "getCurrent t s =
     (case getInvoked t s of
        Some e \<Rightarrow> Some e
      | None \<Rightarrow> (case getThisThreadExecutor t s of Some e \<Rightarrow> Some e | None \<Rightarrow> getDefault s))"

definition setDefault :: "nat option \<Rightarrow> executors \<Rightarrow> executors" where
  "setDefault e s = s\<lparr>s_defaultExecutor := e\<rparr>"

definition setThisThreadExecutor :: "nat \<Rightarrow> nat option \<Rightarrow> executors \<Rightarrow> executors" where
  "setThisThreadExecutor t e s = s\<lparr>s_thisThreadExecutor := (s_thisThreadExecutor s)(t := e)\<rparr>"

definition guard_enter :: "nat \<Rightarrow> nat \<Rightarrow> executors \<Rightarrow> executors" where
  "guard_enter t e s =
     s\<lparr>s_thisThreadInvokeGuard := (s_thisThreadInvokeGuard s)(t := e # s_thisThreadInvokeGuard s t)\<rparr>"

definition guard_leave :: "nat \<Rightarrow> executors \<Rightarrow> executors option" where
  "guard_leave t s = do {
     require (s_thisThreadInvokeGuard s t \<noteq> []);
     Some (s\<lparr>s_thisThreadInvokeGuard := (s_thisThreadInvokeGuard s)(t := tl (s_thisThreadInvokeGuard s t))\<rparr>) }"

text \<open>
  \<open>Executor::invoke\<close> of a span: the calls in their order, with the invocations as they are left.  It fails without
  a guard of this executor, and at an empty invocation.
\<close>

fun call_each :: "Invocation list \<Rightarrow> (Invocation list \<times> (nat \<times> nat \<times> nat) list) option" where
  "call_each [] = Some ([], [])"
| "call_each (i # is) = do { (i', c) \<leftarrow> call i; (is', cs) \<leftarrow> call_each is; Some (i' # is', c # cs) }"

definition invoke :: "nat \<Rightarrow> nat \<Rightarrow> executors \<Rightarrow> Invocation list \<Rightarrow> (Invocation list \<times> (nat \<times> nat \<times> nat) list) option" where
  "invoke t e s is = do { require (getInvoked t s = Some e); call_each is }"

lemma guard_current: "getCurrent t (guard_enter t e s) = Some e"
  by (simp add: getCurrent_def getInvoked_def guard_enter_def)

lemma guard_other: "u \<noteq> t \<Longrightarrow> getCurrent u (guard_enter t e s) = getCurrent u s"
  by (simp add: getCurrent_def getInvoked_def guard_enter_def getThisThreadExecutor_def getDefault_def acquire_def
      split: option.splits)

lemma guard_leave_enter: "guard_leave t (guard_enter t e s) = Some s"
  by (simp add: guard_leave_def guard_enter_def)

lemma invoke_guarded:
  assumes "\<forall>i\<in>set is. given i"
  shows "invoke t e (guard_enter t e s) is =
    Some (replicate (length is) empty_invocation, map (\<lambda>i. (the (m_callback i), m_callbackData1 i, m_callbackData2 i)) is)"
proof -
  have "call_each is = Some (replicate (length is) empty_invocation, map (\<lambda>i. (the (m_callback i), m_callbackData1 i, m_callbackData2 i)) is)"
    using assms by (induction "is") (auto simp: call_def given_def)
  then show ?thesis by (simp add: invoke_def getInvoked_def guard_enter_def)
qed

end
