(* ===== verification/WorkQueue.thy ===== *)
theory WorkQueue
  imports Executors
begin

text \<open>
  The work queue, an executor whose invocations one thread runs by \<open>poll\<close> (\<open>src/async/work_queue.cpp\<close>, with the
  event of \<open>src/threading/event.cpp\<close>).  Other threads schedule invocations, stop the poll by \<open>notify\<close> and wait for
  work through a task.  What the mutex covers is one step, and between two steps of the polling thread any calls of
  the others may happen, also those that a running invocation makes.
\<close>

section \<open>The state\<close>

text \<open>A task source: whether its task is ready, and whether it was given out.\<close>

record source =
  ready :: bool
  taskGivenOut :: bool

text \<open>Where the polling thread is in \<open>poll\<close>.\<close>

datatype pc =
    Idle
  | Take                             \<comment> \<open>\<open>takeInvocations\<close>\<close>
  | WaitEvent                        \<comment> \<open>the wait for the event, after the time was looked at\<close>
  | CheckNotified
  | Invoke "Invocation list"         \<comment> \<open>the loop of \<open>Executor::invoke\<close>\<close>
  | Until                            \<comment> \<open>the condition of the outer loop\<close>
  | Leave1 | Leave2                  \<comment> \<open>\<open>scope_on_leave\<close>\<close>

text \<open>\<open>scheduled\<close> and \<open>called\<close> are history.\<close>

record WorkQueue =
  m_invocations :: "Invocation list"
  m_signal :: "nat option"
  sources :: "source list"
  m_isPolled :: bool
  m_isNotified :: bool
  m_event :: bool
  poller :: pc
  timed :: bool
  failed :: bool
  scheduled :: "Invocation list"
  called :: "Invocation list"

definition createWorkQueue :: WorkQueue where
  "createWorkQueue =
     \<lparr>m_invocations = [], m_signal = Some 0, sources = [\<lparr>ready = False, taskGivenOut = False\<rparr>], m_isPolled = False,
      m_isNotified = False, m_event = False, poller = Idle, timed = False, failed = False, scheduled = [], called = []\<rparr>"

section \<open>The operations\<close>

definition event_set :: "WorkQueue \<Rightarrow> WorkQueue" where
  "event_set q = q\<lparr>m_event := True\<rparr>"

definition event_reset :: "WorkQueue \<Rightarrow> WorkQueue" where
  "event_reset q = q\<lparr>m_event := False\<rparr>"

definition resolve :: "nat \<Rightarrow> WorkQueue \<Rightarrow> WorkQueue" where
  "resolve k q = q\<lparr>sources := (sources q)[k := (sources q ! k)\<lparr>ready := True\<rparr>]\<rparr>"

definition notifyInternal :: "WorkQueue \<Rightarrow> WorkQueue" where
  "notifyInternal q = event_set (case m_signal q of None \<Rightarrow> q | Some k \<Rightarrow> resolve k q)"

definition scheduleInvocation :: "Invocation \<Rightarrow> WorkQueue \<Rightarrow> WorkQueue" where
  "scheduleInvocation i q =
     notifyInternal (q\<lparr>m_invocations := m_invocations q @ [i], scheduled := scheduled q @ [i]\<rparr>)"

definition notify :: "WorkQueue \<Rightarrow> WorkQueue" where
  "notify q = notifyInternal (q\<lparr>m_isNotified := True\<rparr>)"

definition hasWorks :: "WorkQueue \<Rightarrow> bool" where
  "hasWorks q \<longleftrightarrow> m_invocations q \<noteq> [] \<or> m_isPolled q"

text \<open>\<open>waitForWork\<close>: a ready task, or the one of the signal; a task that was given out cannot be given out again.\<close>

datatype wait_task = Resolved | TaskOf nat

definition signal_ready :: "WorkQueue \<Rightarrow> bool" where
  "signal_ready q = (case m_signal q of None \<Rightarrow> False | Some k \<Rightarrow> ready (sources q ! k))"

definition waitForWork :: "WorkQueue \<Rightarrow> (wait_task \<times> WorkQueue) option" where
  "waitForWork q = do {
     require (\<not> m_isPolled q);
     if m_invocations q \<noteq> [] then Some (Resolved, q)
     else do {
       let q = (if m_signal q = None \<or> signal_ready q
         then q\<lparr>m_signal := Some (length (sources q)), sources := sources q @ [\<lparr>ready = False, taskGivenOut = False\<rparr>]\<rparr>
         else q);
       let k = the (m_signal q);
       require (\<not> taskGivenOut (sources q ! k));
       Some (TaskOf k, q\<lparr>sources := (sources q)[k := (sources q ! k)\<lparr>taskGivenOut := True\<rparr>]\<rparr>) } }"

definition takeInvocations :: "WorkQueue \<Rightarrow> Invocation list \<times> WorkQueue" where
  "takeInvocations q =
     (let q = (if signal_ready q then q\<lparr>m_signal := None\<rparr> else q)
      in (m_invocations q, event_reset (q\<lparr>m_invocations := []\<rparr>)))"

definition poll :: "bool \<Rightarrow> WorkQueue \<Rightarrow> WorkQueue option" where
  "poll timeout q = do {
     require (\<not> m_isPolled q);
     Some (q\<lparr>m_isPolled := True, timed := timeout, poller := Take\<rparr>) }"

text \<open>
  One step of the polling thread, \<open>None\<close> where it is blocked.  \<open>late\<close> is what the clock says when the step looks at
  it: with no time given it is not looked at.
\<close>

definition poll_step :: "bool \<Rightarrow> WorkQueue \<Rightarrow> WorkQueue option" where
  "poll_step late q =
     (case poller q of
        Idle \<Rightarrow> None
      | Take \<Rightarrow>
          (let (is, q) = takeInvocations q
           in Some (q\<lparr>poller := (if is \<noteq> [] then Invoke is else if timed q \<and> late then Until else WaitEvent)\<rparr>))
      | WaitEvent \<Rightarrow> if m_event q \<or> timed q \<and> late then Some (q\<lparr>poller := CheckNotified\<rparr>) else None
      | CheckNotified \<Rightarrow> Some (q\<lparr>poller := (if m_isNotified q then Until else Take)\<rparr>)
      | Invoke [] \<Rightarrow> Some (q\<lparr>poller := Until\<rparr>)
      | Invoke (i # is) \<Rightarrow> Some (case call i of
            None \<Rightarrow> q\<lparr>failed := True, poller := Invoke is\<rparr>
          | Some c \<Rightarrow> q\<lparr>called := called q @ [i], poller := Invoke is\<rparr>)
      | Until \<Rightarrow> Some (q\<lparr>poller := (if timed q \<and> late \<or> m_isNotified q then Leave1 else Take)\<rparr>)
      | Leave1 \<Rightarrow> Some (q\<lparr>m_isNotified := False, poller := Leave2\<rparr>)
      | Leave2 \<Rightarrow> Some (q\<lparr>m_isPolled := False, poller := Idle\<rparr>))"

text \<open>\<open>Invoke\<close> is reached with invocations only; after the waiting was given up the list is empty and skipped.\<close>

inductive step :: "WorkQueue \<Rightarrow> WorkQueue \<Rightarrow> bool" where
  schedule: "given i \<Longrightarrow> step q (scheduleInvocation i q)"
| notify: "step q (notify q)"
| wait: "waitForWork q = Some (t, q') \<Longrightarrow> step q q'"
| poll: "poll timeout q = Some q' \<Longrightarrow> step q q'"
| poller: "poll_step late q = Some q' \<Longrightarrow> step q q'"

inductive reachable :: "WorkQueue \<Rightarrow> bool" where
  new: "reachable createWorkQueue"
| step: "reachable q \<Longrightarrow> step q q' \<Longrightarrow> reachable q'"

inductive_cases stepE: "step q q'"

section \<open>The invariant\<close>

fun in_hand :: "pc \<Rightarrow> Invocation list" where
  "in_hand (Invoke is) = is" | "in_hand _ = []"

definition current :: "WorkQueue \<Rightarrow> nat \<Rightarrow> bool" where
  "current q k \<longleftrightarrow> m_signal q = Some k"

text \<open>A task that is not ready is the one of the signal, and when it was given out nothing waits to be run.\<close>

definition signals :: "WorkQueue \<Rightarrow> bool" where
  "signals q \<longleftrightarrow>
     (\<forall>k. current q k \<longrightarrow> k < length (sources q)) \<and>
     (\<forall>k<length (sources q). ready (sources q ! k) \<or> current q k) \<and>
     (\<forall>k<length (sources q). ready (sources q ! k) \<or> \<not> taskGivenOut (sources q ! k) \<or> m_invocations q = [])"

definition works :: "WorkQueue \<Rightarrow> bool" where
  "works q \<longleftrightarrow>
     called q @ in_hand (poller q) @ m_invocations q = scheduled q \<and> \<not> failed q \<and>
     (\<forall>i\<in>set (in_hand (poller q)) \<union> set (m_invocations q). given i) \<and>
     (m_isPolled q \<longleftrightarrow> poller q \<noteq> Idle) \<and>
     (m_invocations q \<noteq> [] \<longrightarrow> poller q = WaitEvent \<longrightarrow> m_event q)"

lemmas queue_defs = event_set_def event_reset_def resolve_def notifyInternal_def notify_def
  scheduleInvocation_def takeInvocations_def poll_def Let_def

lemma notified_fields [simp]:
  "m_invocations (notifyInternal q) = m_invocations q" "m_signal (notifyInternal q) = m_signal q"
  "m_isPolled (notifyInternal q) = m_isPolled q" "m_isNotified (notifyInternal q) = m_isNotified q"
  "m_event (notifyInternal q)" "poller (notifyInternal q) = poller q" "timed (notifyInternal q) = timed q"
  "failed (notifyInternal q) = failed q" "scheduled (notifyInternal q) = scheduled q" "called (notifyInternal q) = called q"
  "length (sources (notifyInternal q)) = length (sources q)" "current (notifyInternal q) k = current q k"
  by (auto simp: queue_defs current_def split: option.split)

lemma notified_sources [simp]:
  "k < length (sources q) \<Longrightarrow> ready (sources (notifyInternal q) ! k) \<longleftrightarrow> ready (sources q ! k) \<or> current q k"
  "k < length (sources q) \<Longrightarrow> taskGivenOut (sources (notifyInternal q) ! k) = taskGivenOut (sources q ! k)"
  by (auto simp: queue_defs current_def nth_update split: option.split)

lemma signals_cong:
  "m_signal q' = m_signal q \<Longrightarrow> sources q' = sources q \<Longrightarrow> m_invocations q' = m_invocations q \<Longrightarrow> signals q' = signals q"
  by (simp add: signals_def current_def)

lemma all_ready:
  assumes "signals q" "k < length (sources q)"
  shows "ready (sources (notifyInternal q) ! k)"
  using assms by (auto simp: signals_def)

lemma signals_ready:
  assumes "\<forall>k<length (sources q). ready (sources q ! k)" "\<And>k. current q k \<Longrightarrow> k < length (sources q)"
  shows "signals q"
  using assms by (simp add: signals_def)

lemma schedule_inv:
  assumes "works q" "signals q"
  shows "given i \<Longrightarrow> works (scheduleInvocation i q)" "signals (scheduleInvocation i q)"
    "works (notify q)" "signals (notify q)"
proof -
  have s: "signals (notifyInternal (q\<lparr>m_invocations := xs, scheduled := ys, m_isNotified := b\<rparr>))" for xs ys b
    using assms(2) by (intro signals_ready) (auto simp: signals_def current_def)
  show "signals (scheduleInvocation i q)" "signals (notify q)"
    using s [where xs = "m_invocations q @ [i]" and ys = "scheduled q @ [i]" and b = "m_isNotified q"]
      s [where xs = "m_invocations q" and ys = "scheduled q" and b = True]
    by (simp_all add: scheduleInvocation_def notify_def)
  show "given i \<Longrightarrow> works (scheduleInvocation i q)" "works (notify q)"
    using assms(1) by (auto simp: works_def scheduleInvocation_def notify_def)
qed

definition give_out :: "nat \<Rightarrow> WorkQueue \<Rightarrow> WorkQueue" where
  "give_out k q = q\<lparr>sources := (sources q)[k := (sources q ! k)\<lparr>taskGivenOut := True\<rparr>]\<rparr>"

lemma give_out_signals:
  assumes "signals q" "m_invocations q = []"
  shows "signals (give_out k q)"
  using assms by (auto simp: signals_def give_out_def current_def nth_update)

definition new_signal :: "WorkQueue \<Rightarrow> WorkQueue" where
  "new_signal q = q\<lparr>m_signal := Some (length (sources q)), sources := sources q @ [\<lparr>ready = False, taskGivenOut = False\<rparr>]\<rparr>"

lemma new_signal_signals:
  assumes "signals q" "m_signal q = None \<or> signal_ready q"
  shows "signals (new_signal q)"
proof -
  have r: "ready (sources q ! k)" if "k < length (sources q)" for k
    using that assms by (auto simp: signals_def current_def signal_ready_def)
  then show ?thesis by (auto simp: signals_def new_signal_def current_def nth_append less_Suc_eq)
qed

lemma waitForWork_cases:
  assumes "waitForWork q = Some (t, q')"
  obtains "m_invocations q \<noteq> []" "t = Resolved" "q' = q"
  | k where "m_invocations q = []" "\<not> m_isPolled q" "m_signal q = None \<or> signal_ready q"
      "k = length (sources q)" "t = TaskOf k" "q' = give_out k (new_signal q)"
  | k where "m_invocations q = []" "\<not> m_isPolled q" "m_signal q = Some k" "\<not> signal_ready q"
      "t = TaskOf k" "q' = give_out k q"
proof (cases "m_invocations q = []")
  case False
  then show ?thesis using assms that(1) by (auto simp: waitForWork_def split: if_splits)
next
  case True
  then show ?thesis
  proof (cases "m_signal q = None \<or> signal_ready q")
    case new: True
    then show ?thesis
      using assms True that(2) by (auto simp: waitForWork_def give_out_def new_signal_def Let_def split: if_splits)
  next
    case False
    then obtain k where "m_signal q = Some k" by (cases "m_signal q") auto
    then show ?thesis
      using assms True False that(3) by (auto simp: waitForWork_def give_out_def Let_def split: if_splits)
  qed
qed

lemma wait_inv:
  assumes "works q" "signals q" "waitForWork q = Some (t, q')"
  shows "works q'" "signals q'"
proof -
  have fields: "works (give_out k r) = works r" "works (new_signal r) = works r"
    "m_invocations (new_signal r) = m_invocations r" for k r
    by (simp_all add: works_def give_out_def new_signal_def)
  from assms(3) show "works q'" by (cases rule: waitForWork_cases) (use assms(1) fields in simp_all)
  from assms(3) show "signals q'"
    by (cases rule: waitForWork_cases)
      (use assms(2) in \<open>simp_all add: give_out_signals new_signal_signals fields\<close>)
qed

lemma poll_inv:
  assumes "works q" "signals q" "poll timeout q = Some q'"
  shows "works q'" "signals q'"
proof -
  have q': "q' = q\<lparr>m_isPolled := True, timed := timeout, poller := Take\<rparr>" "\<not> m_isPolled q"
    using assms(3) by (auto simp: poll_def split: if_splits)
  show "works q'" using assms(1) q' by (auto simp: works_def)
  show "signals q'" using assms(2) q' by (simp add: signals_def current_def)
qed

lemma take_signals:
  assumes "signals q"
  shows "signals (snd (takeInvocations q))"
  using assms by (auto simp: takeInvocations_def event_reset_def signals_def current_def signal_ready_def Let_def split: option.splits)

lemma poller_inv:
  assumes "works q" "signals q" "poll_step late q = Some q'"
  shows "works q'" "signals q'"
proof -
  show "works q'"
  proof (cases "poller q")
    case Take
    then show ?thesis
      using assms(1,3) by (auto simp: works_def poll_step_def takeInvocations_def event_reset_def Let_def split: if_splits)
  next
    case (Invoke "is")
    then show ?thesis
      using assms(1,3) by (cases "is") (auto simp: works_def poll_step_def call_def given_def)
  qed (use assms(1,3) in \<open>auto simp: works_def poll_step_def split: if_splits\<close>)
  show "signals q'"
  proof (cases "poller q = Take")
    case True
    then show ?thesis
      using assms(3) take_signals [OF assms(2)]
      by (auto simp: poll_step_def signals_def current_def split: prod.splits)
  next
    case False
    then have "m_signal q' = m_signal q" "sources q' = sources q" "m_invocations q' = m_invocations q"
      using assms(3) by (auto simp: poll_step_def split: pc.splits list.splits if_splits option.splits)
    then show ?thesis using assms(2) signals_cong by metis
  qed
qed

lemma queue_reachable_inv: "reachable q \<Longrightarrow> works q \<and> signals q"
proof (induction rule: reachable.induct)
  case new
  then show ?case by (auto simp: works_def createWorkQueue_def signals_def current_def)
next
  case (step q q')
  then have w: "works q" "signals q" by blast+
  from step.hyps(2) show ?case
  proof cases
    case (schedule i)
    then show ?thesis using schedule_inv(1,2) [OF w] by simp
  next
    case notify
    then show ?thesis using schedule_inv(3,4) [OF w] by simp
  next
    case (wait t)
    then show ?thesis using wait_inv [OF w] by simp
  next
    case (poll timeout)
    then show ?thesis using poll_inv [OF w] by simp
  next
    case (poller late)
    then show ?thesis using poller_inv [OF w] by simp
  qed
qed

section \<open>The polling thread alone\<close>

text \<open>The polling thread for \<open>n\<close> steps, with no time given or the time never over, until it is blocked.\<close>

fun run_poller :: "nat \<Rightarrow> WorkQueue \<Rightarrow> WorkQueue" where
  "run_poller 0 q = q"
| "run_poller (Suc n) q = (case poll_step False q of None \<Rightarrow> q | Some q' \<Rightarrow> run_poller n q')"

text \<open>How many steps it has to do.\<close>

definition take_steps :: "nat \<Rightarrow> nat" where
  "take_steps n = (if n = 0 then 1 else n + 4)"

fun steps_left :: "pc \<Rightarrow> bool \<Rightarrow> nat \<Rightarrow> nat" where
  "steps_left Take e n = take_steps n"
| "steps_left WaitEvent e n = (if e then take_steps n + 2 else 0)"
| "steps_left CheckNotified e n = take_steps n + 1"
| "steps_left (Invoke is) e n = length is + take_steps n + 2"
| "steps_left Until e n = take_steps n + 1"
| "steps_left _ e n = 0"

definition todo :: "WorkQueue \<Rightarrow> nat" where
  "todo q = steps_left (poller q) (m_event q) (length (m_invocations q))"

definition polling :: "WorkQueue \<Rightarrow> bool" where
  "polling q \<longleftrightarrow> poller q \<notin> {Idle, Leave1, Leave2} \<and> \<not> m_isNotified q"

lemma poller_blocked:
  assumes "works q" "polling q" "poll_step False q = None"
  shows "poller q = WaitEvent" "m_invocations q = []" "called q = scheduled q"
proof -
  show p: "poller q = WaitEvent"
    using assms(2,3) by (auto simp: poll_step_def polling_def split: pc.splits list.splits prod.splits if_splits)
  then have "\<not> m_event q" using assms(3) by (auto simp: poll_step_def split: if_splits)
  then show "m_invocations q = []" "called q = scheduled q" using assms(1) p by (auto simp: works_def)
qed

lemma poller_moves:
  assumes "works q" "polling q" "poll_step False q = Some q'"
  shows "polling q'" "todo q' < todo q" "scheduled q' = scheduled q"
  using assms(2,3)
  by (auto simp: poll_step_def polling_def todo_def take_steps_def takeInvocations_def event_reset_def Let_def
      split: pc.splits list.splits prod.splits if_splits option.splits)

lemma run_poller_works:
  assumes "works q" "signals q" "polling q" "todo q \<le> n"
  shows "called (run_poller n q) = scheduled q \<and> m_invocations (run_poller n q) = [] \<and> poller (run_poller n q) = WaitEvent"
  using assms
proof (induction n arbitrary: q)
  case 0
  have "poll_step False q = None"
  proof (cases "poll_step False q")
    case (Some q')
    then show ?thesis using poller_moves(2) [OF 0(1,3)] 0(4) by simp
  qed
  then show ?case using poller_blocked [OF 0(1,3)] by simp
next
  case (Suc n)
  show ?case
  proof (cases "poll_step False q")
    case None
    then show ?thesis using poller_blocked [OF Suc.prems(1,3)] by simp
  next
    case (Some q')
    note m = poller_moves [OF Suc.prems(1,3) Some]
    show ?thesis
      using Suc.IH [OF poller_inv [OF Suc.prems(1,2) Some] m(1)] m Suc.prems(4) Some by simp
  qed
qed

section \<open>Properties\<close>

text \<open>
  C22. The work queue calls what was scheduled in that order and each invocation once, whatever happens in between:
  the called ones, those in the hand of the polling thread and those in the queue are together the scheduled ones,
  and no call fails.
\<close>

theorem called_in_order:
  assumes "reachable q"
  shows "called q @ in_hand (poller q) @ m_invocations q = scheduled q \<and> \<not> failed q"
  using queue_reachable_inv [OF assms] by (simp add: works_def)

text \<open>
  C8. No invocation is lost and no wakeup: whenever a thread polls and was not notified, in at most as many steps as
  there are invocations and eight, by itself and without the time, it has called everything scheduled, and waits.
\<close>

theorem scheduled_is_called:
  assumes "reachable q" "poller q \<notin> {Idle, Leave1, Leave2}" "\<not> m_isNotified q"
  shows "let q' = run_poller (length (in_hand (poller q)) + length (m_invocations q) + 8) q
    in called q' = scheduled q \<and> m_invocations q' = [] \<and> poller q' = WaitEvent"
proof -
  have "todo q \<le> length (in_hand (poller q)) + length (m_invocations q) + 8"
    unfolding todo_def by (cases "poller q") (auto simp: take_steps_def)
  then show ?thesis
    using run_poller_works queue_reachable_inv [OF assms(1)] assms(2,3) by (simp add: polling_def Let_def)
qed

text \<open>
  C23. A task of \<open>waitForWork\<close> is resolved by the next call that schedules or notifies, and as long as it is not, the
  queue is empty: a thread that waits for work misses none.
\<close>

theorem waiting_for_work:
  assumes "reachable q" "k < length (sources q)"
  shows "ready (sources (scheduleInvocation i q) ! k) \<and> ready (sources (notify q) ! k) \<and>
    (ready (sources q ! k) \<or> \<not> taskGivenOut (sources q ! k) \<or> m_invocations q = [])"
  using queue_reachable_inv [OF assms(1)] assms(2)
  by (auto simp: signals_def scheduleInvocation_def notify_def current_def)

text \<open>
  A notification is lost when it comes before the polling thread takes the invocations: with nothing scheduled,
  \<open>poll\<close> after \<open>notify\<close> does not return but blocks, although the queue is marked as notified.
\<close>

theorem notification_lost:
  assumes "reachable q" "poller q = Idle" "m_invocations q = []"
  shows "\<exists>q1 q2. poll False (notify q) = Some q1 \<and> poll_step late q1 = Some q2 \<and>
    m_isNotified q2 \<and> poller q2 = WaitEvent \<and> poll_step late' q2 = None"
proof -
  have "\<not> m_isPolled q" using queue_reachable_inv [OF assms(1)] assms(2) by (simp add: works_def)
  then show ?thesis
    using assms(2,3) by (auto simp: poll_def notify_def poll_step_def takeInvocations_def event_reset_def Let_def)
qed

definition demo_invocation :: "nat \<Rightarrow> Invocation" where
  "demo_invocation n = make_invocation (Some n) n 0"

definition demo_queue :: WorkQueue where
  "demo_queue = the (poll False (scheduleInvocation (demo_invocation 2) (scheduleInvocation (demo_invocation 1) createWorkQueue)))"

lemma demo_queue_reachable: "reachable createWorkQueue" "reachable demo_queue"
proof -
  show new: "reachable createWorkQueue" by (rule reachable.new)
  have g: "given (demo_invocation n)" for n by (simp add: demo_invocation_def)
  have two: "reachable (scheduleInvocation (demo_invocation 2) (scheduleInvocation (demo_invocation 1) createWorkQueue))"
    by (rule reachable.step [OF reachable.step [OF new step.schedule [OF g]] step.schedule [OF g]])
  have "poll False (scheduleInvocation (demo_invocation 2) (scheduleInvocation (demo_invocation 1) createWorkQueue)) = Some demo_queue"
    by (simp add: demo_queue_def poll_def scheduleInvocation_def createWorkQueue_def)
  then show "reachable demo_queue" by (rule reachable.step [OF two step.poll])
qed

lemma demo_fields:
  "poller demo_queue = Take" "\<not> m_isNotified demo_queue" "length (m_invocations demo_queue) = 2"
  "scheduled demo_queue = [demo_invocation 1, demo_invocation 2]"
  by (simp_all add: demo_queue_def poll_def scheduleInvocation_def createWorkQueue_def)

theorem called_in_order_witness:
  "called demo_queue @ m_invocations demo_queue = [demo_invocation 1, demo_invocation 2]"
  using called_in_order [OF demo_queue_reachable(2)] by (simp add: demo_fields)

theorem scheduled_is_called_witness:
  "called (run_poller 10 demo_queue) = [demo_invocation 1, demo_invocation 2] \<and> poller (run_poller 10 demo_queue) = WaitEvent"
  using scheduled_is_called [OF demo_queue_reachable(2)] by (simp add: demo_fields Let_def)

theorem waiting_for_work_witness:
  "ready (sources (notify createWorkQueue) ! 0) \<and> ready (sources (scheduleInvocation (demo_invocation 1) createWorkQueue) ! 0)"
  using waiting_for_work [OF demo_queue_reachable(1), of 0] by (simp add: createWorkQueue_def)

theorem notification_lost_witness:
  "\<exists>q1 q2. poll False (notify createWorkQueue) = Some q1 \<and> poll_step True q1 = Some q2 \<and> m_isNotified q2 \<and>
     poll_step True q2 = None"
  using notification_lost [OF demo_queue_reachable(1), of True True] by (auto simp: createWorkQueue_def)

end
