(* ===== verification/ThreadPool.thy ===== *)
theory ThreadPool
  imports Executors "HOL-Library.Multiset"
begin

text \<open>
  The thread pool (\<open>src/async/thread_pool_executor.cpp\<close>): threads that take invocations under a mutex, wait on a
  condition variable and are joined by the destructor.  A configuration is the state of the pool and any number of
  threads: workers, threads that schedule one invocation (other threads, or a running invocation), and at most one
  that destroys the pool.  Every access to the atomic members and every critical section is a step, except that the
  one of \<open>getOrWaitNextInvocation\<close> is split where it reads \<open>m_isActive\<close>, which is changed without the mutex.
\<close>

section \<open>The state\<close>

text \<open>An invocation is its number; \<open>finished\<close> is history.\<close>

record ThreadPool =
  m_isActive :: bool
  m_invocations :: "Invocation list"
  m_taskCounter :: nat
  m_mutex :: "nat option"
  failed :: bool
  finished :: "Invocation list"

datatype worker =
    Enter                                \<comment> \<open>before the lock\<close>
  | Test                                 \<comment> \<open>in the loop, with the mutex\<close>
  | BeforeWait                           \<comment> \<open>\<open>m_isActive\<close> was read, the wait not begun\<close>
  | Waiting
  | Woken                                \<comment> \<open>notified, before the lock is taken again\<close>
  | LoopEnd "Invocation option"          \<comment> \<open>the condition of the loop\<close>
  | Running Invocation
  | Called Invocation
  | Exited

datatype producer = Scheduling | Counted | Scheduled

datatype joiner = NotBegun | Stopped | Joining | Joined

datatype thread = Worker worker | Producer Invocation producer | Joiner joiner

type_synonym config = "ThreadPool \<times> thread list"

definition new_pool :: ThreadPool where
  "new_pool = \<lparr>m_isActive = True, m_invocations = [], m_taskCounter = 0, m_mutex = None, failed = False, finished = []\<rparr>"

section \<open>The operations\<close>

definition hasWorks :: "ThreadPool \<Rightarrow> bool" where
  "hasWorks s \<longleftrightarrow> m_taskCounter s > 0"

text \<open>Removal by moving the last invocation to the place.\<close>

definition eraseInvocation :: "nat \<Rightarrow> Invocation list \<Rightarrow> Invocation list" where
  "eraseInvocation i xs =
     take (length xs - 1) (if i \<noteq> length xs - 1 then move_assign i (length xs - 1) xs else xs)"

definition take_head :: "Invocation list \<Rightarrow> Invocation \<times> Invocation list" where
  "take_head xs = (let (x, rest) = move_construct (xs ! 0) in (x, eraseInvocation 0 (xs[0 := rest])))"

text \<open>The steps give the thread, the state, and whether all waiting threads are notified.\<close>

definition producer_step :: "Invocation \<Rightarrow> producer \<Rightarrow> ThreadPool \<Rightarrow> (producer \<times> ThreadPool \<times> bool) option" where
  "producer_step i p s =
     (case p of
        Scheduling \<Rightarrow>
          if given i then Some (Counted, s\<lparr>m_taskCounter := m_taskCounter s + 1\<rparr>, False)
          else Some (Scheduled, s\<lparr>failed := True\<rparr>, False)
      | Counted \<Rightarrow>
          if m_mutex s = None then Some (Scheduled, s\<lparr>m_invocations := m_invocations s @ [i]\<rparr>, True) else None
      | Scheduled \<Rightarrow> None)"

definition worker_step :: "nat \<Rightarrow> worker \<Rightarrow> ThreadPool \<Rightarrow> (worker \<times> ThreadPool) option" where
  "worker_step t p s =
     (case p of
        Enter \<Rightarrow> if m_mutex s = None then Some (Test, s\<lparr>m_mutex := Some t\<rparr>) else None
      | Test \<Rightarrow>
          if m_invocations s \<noteq> [] then
            (let (x, xs) = take_head (m_invocations s) in Some (LoopEnd (Some x), s\<lparr>m_invocations := xs\<rparr>))
          else if m_isActive s then Some (BeforeWait, s)
          else Some (LoopEnd None, s)
      | BeforeWait \<Rightarrow> Some (Waiting, s\<lparr>m_mutex := None\<rparr>)
      | Waiting \<Rightarrow> None
      | Woken \<Rightarrow> if m_mutex s = None then Some (LoopEnd None, s\<lparr>m_mutex := Some t\<rparr>) else None
      | LoopEnd (Some i) \<Rightarrow> Some (Running i, s\<lparr>m_mutex := None\<rparr>)
      | LoopEnd None \<Rightarrow> if m_isActive s then Some (Test, s) else Some (Exited, s\<lparr>m_mutex := None\<rparr>)
      | Running i \<Rightarrow> (case call i of
            None \<Rightarrow> Some (Called i, s\<lparr>failed := True\<rparr>)
          | Some c \<Rightarrow> Some (Called i, s))
      | Called i \<Rightarrow>
          if m_taskCounter s > 0 then Some (Enter, s\<lparr>m_taskCounter := m_taskCounter s - 1, finished := i # finished s\<rparr>)
          else Some (Enter, s\<lparr>failed := True\<rparr>)
      | Exited \<Rightarrow> None)"

definition joiner_step :: "bool \<Rightarrow> joiner \<Rightarrow> ThreadPool \<Rightarrow> (joiner \<times> ThreadPool \<times> bool) option" where
  "joiner_step all_exited p s =
     (case p of
        NotBegun \<Rightarrow> Some (Stopped, s\<lparr>m_isActive := False\<rparr>, False)
      | Stopped \<Rightarrow> Some (Joining, s, True)
      | Joining \<Rightarrow> if all_exited then Some (Joined, s, False) else None
      | Joined \<Rightarrow> None)"

fun wake :: "thread \<Rightarrow> thread" where
  "wake (Worker Waiting) = Worker Woken" | "wake t = t"

fun has_exited :: "thread \<Rightarrow> bool" where
  "has_exited (Worker p) \<longleftrightarrow> p = Exited" | "has_exited _ = True"

definition thread_step :: "nat \<Rightarrow> thread list \<Rightarrow> ThreadPool \<Rightarrow> (thread \<times> ThreadPool \<times> bool) option" where
  "thread_step t ts s =
     (case ts ! t of
        Worker p \<Rightarrow> map_option (\<lambda>(p', s'). (Worker p', s', False)) (worker_step t p s)
      | Producer i p \<Rightarrow> map_option (\<lambda>(p', r). (Producer i p', r)) (producer_step i p s)
      | Joiner p \<Rightarrow> map_option (\<lambda>(p', r). (Joiner p', r)) (joiner_step (list_all has_exited ts) p s))"

inductive step :: "config \<Rightarrow> config \<Rightarrow> bool" where
  thread: "t < length ts \<Longrightarrow> thread_step t ts s = Some (x, s', notify_all) \<Longrightarrow>
    step (s, ts) (s', (if notify_all then map wake (ts[t := x]) else ts[t := x]))"

text \<open>A condition variable may wake a thread without a notification.\<close>

inductive spurious :: "config \<Rightarrow> config \<Rightarrow> bool" where
  spurious: "t < length ts \<Longrightarrow> ts ! t = Worker Waiting \<Longrightarrow> spurious (s, ts) (s, ts[t := Worker Woken])"

text \<open>The start: workers, the invocations that are going to be scheduled, and whether the pool is destroyed.\<close>

definition start :: "nat \<Rightarrow> Invocation list \<Rightarrow> bool \<Rightarrow> config" where
  "start w is destroyed =
     (new_pool, replicate w (Worker Enter) @ map (\<lambda>i. Producer i Scheduling) is @ (if destroyed then [Joiner NotBegun] else []))"

inductive reachable :: "nat \<Rightarrow> Invocation list \<Rightarrow> bool \<Rightarrow> config \<Rightarrow> bool" for w "is" destroyed where
  start: "reachable w is destroyed (start w is destroyed)"
| step: "reachable w is destroyed c \<Longrightarrow> step c c' \<Longrightarrow> reachable w is destroyed c'"
| spurious: "reachable w is destroyed c \<Longrightarrow> spurious c c' \<Longrightarrow> reachable w is destroyed c'"

section \<open>The steps as moves\<close>

lemma take_head_eq: "take_head (x # xs) = (x, if xs = [] then [] else last xs # butlast xs)"
proof (cases xs rule: rev_cases)
  case Nil
  then show ?thesis by (simp add: take_head_def eraseInvocation_def move_construct_eq)
next
  case (snoc ys y)
  then have "move_assign 0 (Suc (length ys)) (empty_invocation # ys @ [y]) = y # ys @ [empty_invocation]"
    by (simp add: move_assign_eq nth_append list_update_append)
  then show ?thesis using snoc by (simp add: take_head_def eraseInvocation_def move_construct_eq)
qed

lemma mset_take_head:
  assumes "xs \<noteq> []" "take_head xs = (x, ys)"
  shows "mset xs = add_mset x (mset ys)"
proof -
  obtain z zs where z: "xs = z # zs" using assms(1) by (cases xs) auto
  show ?thesis using assms(2) unfolding z take_head_eq by (cases zs rule: rev_cases) auto
qed

text \<open>What a thread has of the invocations, and what it has announced.\<close>

fun held :: "thread \<Rightarrow> Invocation multiset" where
  "held (Worker (LoopEnd (Some i))) = {#i#}" | "held (Worker (Running i)) = {#i#}" | "held (Worker (Called i)) = {#i#}"
| "held (Producer i Counted) = {#i#}" | "held _ = {#}"

fun announced :: "thread \<Rightarrow> Invocation multiset" where
  "announced (Producer i Counted) = {#i#}" | "announced (Producer i Scheduled) = {#i#}" | "announced _ = {#}"

fun owns :: "thread \<Rightarrow> bool" where
  "owns (Worker Test) = True" | "owns (Worker BeforeWait) = True" | "owns (Worker (LoopEnd r)) = True" | "owns _ = False"

lemma wake_simps [simp]:
  "held (wake t) = held t" "announced (wake t) = announced t" "owns (wake t) = owns t" "has_exited (wake t) = has_exited t"
  by (cases t rule: wake.cases; simp)+

lemma sum_over_wake [simp]: "(\<And>t. f (wake t) = f t) \<Longrightarrow> sum_over f (map wake ts) = sum_over f ts"
  by (simp add: sum_over_def o_def)

inductive move :: "nat \<Rightarrow> bool \<Rightarrow> thread \<Rightarrow> ThreadPool \<Rightarrow> thread \<Rightarrow> ThreadPool \<Rightarrow> bool \<Rightarrow> bool" for t all_exited where
  announce: "given i \<Longrightarrow>
    move t all_exited (Producer i Scheduling) s (Producer i Counted) (s\<lparr>m_taskCounter := Suc (m_taskCounter s)\<rparr>) False"
| refuse: "\<not> given i \<Longrightarrow> move t all_exited (Producer i Scheduling) s (Producer i Scheduled) (s\<lparr>failed := True\<rparr>) False"
| push: "m_mutex s = None \<Longrightarrow>
    move t all_exited (Producer i Counted) s (Producer i Scheduled) (s\<lparr>m_invocations := m_invocations s @ [i]\<rparr>) True"
| enter: "m_mutex s = None \<Longrightarrow> move t all_exited (Worker Enter) s (Worker Test) (s\<lparr>m_mutex := Some t\<rparr>) False"
| taken: "m_invocations s \<noteq> [] \<Longrightarrow> take_head (m_invocations s) = (x, xs) \<Longrightarrow>
    move t all_exited (Worker Test) s (Worker (LoopEnd (Some x))) (s\<lparr>m_invocations := xs\<rparr>) False"
| nothing: "m_invocations s = [] \<Longrightarrow> m_isActive s \<Longrightarrow> move t all_exited (Worker Test) s (Worker BeforeWait) s False"
| inactive: "m_invocations s = [] \<Longrightarrow> \<not> m_isActive s \<Longrightarrow> move t all_exited (Worker Test) s (Worker (LoopEnd None)) s False"
| wait: "move t all_exited (Worker BeforeWait) s (Worker Waiting) (s\<lparr>m_mutex := None\<rparr>) False"
| awake: "m_mutex s = None \<Longrightarrow> move t all_exited (Worker Woken) s (Worker (LoopEnd None)) (s\<lparr>m_mutex := Some t\<rparr>) False"
| again: "m_isActive s \<Longrightarrow> move t all_exited (Worker (LoopEnd None)) s (Worker Test) s False"
| leave: "\<not> m_isActive s \<Longrightarrow> move t all_exited (Worker (LoopEnd None)) s (Worker Exited) (s\<lparr>m_mutex := None\<rparr>) False"
| run: "move t all_exited (Worker (LoopEnd (Some i))) s (Worker (Running i)) (s\<lparr>m_mutex := None\<rparr>) False"
| call: "given i \<Longrightarrow> move t all_exited (Worker (Running i)) s (Worker (Called i)) s False"
| miscall: "\<not> given i \<Longrightarrow> move t all_exited (Worker (Running i)) s (Worker (Called i)) (s\<lparr>failed := True\<rparr>) False"
| finish: "m_taskCounter s > 0 \<Longrightarrow> move t all_exited (Worker (Called i)) s (Worker Enter)
    (s\<lparr>m_taskCounter := m_taskCounter s - Suc 0, finished := i # finished s\<rparr>) False"
| miscount: "m_taskCounter s = 0 \<Longrightarrow> move t all_exited (Worker (Called i)) s (Worker Enter) (s\<lparr>failed := True\<rparr>) False"
| stop: "move t all_exited (Joiner NotBegun) s (Joiner Stopped) (s\<lparr>m_isActive := False\<rparr>) False"
| notify: "move t all_exited (Joiner Stopped) s (Joiner Joining) s True"
| joined: "all_exited \<Longrightarrow> move t all_exited (Joiner Joining) s (Joiner Joined) s False"

lemma worker_moves: "worker_step t p s = Some (p', s') \<Longrightarrow> move t e (Worker p) s (Worker p') s' False"
proof (cases p)
  case (LoopEnd r)
  then show "worker_step t p s = Some (p', s') \<Longrightarrow> move t e (Worker p) s (Worker p') s' False"
    by (cases r) (auto simp: worker_step_def split: if_splits intro: move.intros)
next
  case (Running i)
  then show "worker_step t p s = Some (p', s') \<Longrightarrow> move t e (Worker p) s (Worker p') s' False"
    by (auto simp: worker_step_def call_def given_def split: option.splits intro: move.call move.miscall)
qed (auto simp: worker_step_def split: if_splits prod.splits intro: move.intros)

lemma producer_moves: "producer_step i p s = Some (p', s', n) \<Longrightarrow> move t e (Producer i p) s (Producer i p') s' n"
  by (cases p) (auto simp: producer_step_def split: if_splits intro: move.intros)

lemma joiner_moves: "joiner_step e p s = Some (p', s', n) \<Longrightarrow> move t e (Joiner p) s (Joiner p') s' n"
  by (cases p) (auto simp: joiner_step_def split: if_splits intro: move.intros)

lemma pool_thread_moves:
  assumes "thread_step t ts s = Some (x, s', n)"
  shows "move t (list_all has_exited ts) (ts ! t) s x s' n"
  using assms
  by (cases "ts ! t") (auto simp: thread_step_def intro: worker_moves producer_moves joiner_moves)

text \<open>What a move does to the invocations and the counter.\<close>

lemma move_invocations:
  assumes "move t e x s x' s' n" "\<And>i. x = Producer i Scheduling \<Longrightarrow> given i" "\<And>i. i \<in># held x \<Longrightarrow> given i"
    "held x \<noteq> {#} \<Longrightarrow> m_taskCounter s > 0"
  shows "held x' + mset (m_invocations s') + mset (finished s') + announced x =
      held x + mset (m_invocations s) + mset (finished s) + announced x' \<and>
    m_taskCounter s' + size (held x) + length (m_invocations s) = m_taskCounter s + size (held x') + length (m_invocations s') \<and>
    failed s' = failed s"
  using assms
proof cases
  case (taken y ys)
  then have m: "mset (m_invocations s) = add_mset y (mset ys)" by (intro mset_take_head)
  then have "length (m_invocations s) = Suc (length ys)" by (metis size_mset size_add_mset)
  then show ?thesis using taken m by simp
qed auto

section \<open>The invariant\<close>

fun producers :: "thread \<Rightarrow> Invocation set" where
  "producers (Producer i p) = {i}" | "producers _ = {}"

fun idle :: "thread \<Rightarrow> bool" where
  "idle (Worker p) \<longleftrightarrow> p = Waiting \<or> p = BeforeWait" | "idle _ \<longleftrightarrow> False"

definition counts :: "config \<Rightarrow> bool" where
  "counts c \<longleftrightarrow> (case c of (s, ts) \<Rightarrow>
     sum_over held ts + mset (m_invocations s) + mset (finished s) = sum_over announced ts \<and>
     m_taskCounter s = size (sum_over held ts) + length (m_invocations s) \<and> \<not> failed s \<and>
     (\<forall>x\<in>set ts. \<forall>i\<in>producers x. given i))"

definition locked :: "config \<Rightarrow> bool" where
  "locked c \<longleftrightarrow> (case c of (s, ts) \<Rightarrow>
     (\<forall>t<length ts. owns (ts ! t) \<longrightarrow> Some t = m_mutex s) \<and>
     (\<forall>t. Some t = m_mutex s \<longrightarrow> t < length ts \<and> owns (ts ! t)))"

definition no_sleep :: "config \<Rightarrow> bool" where
  "no_sleep c \<longleftrightarrow> (case c of (s, ts) \<Rightarrow> m_invocations s \<noteq> [] \<longrightarrow> (\<forall>x\<in>set ts. \<not> idle x))"

lemma held_total: "x \<in> set ts \<Longrightarrow> held x \<subseteq># sum_over held ts"
  by (induction ts) (auto simp: sum_over_def subset_mset.add_increasing subset_mset.add_increasing2)

lemma announced_given: "i \<in># sum_over announced ts \<Longrightarrow> \<exists>x\<in>set ts. i \<in> producers x"
proof (induction ts)
  case (Cons x xs)
  moreover have "i \<in># announced x \<Longrightarrow> i \<in> producers x"
    by (cases x rule: announced.cases) auto
  ultimately show ?case by (auto simp: sum_over_def)
qed (simp add: sum_over_def)

lemma producers_wake [simp]: "producers (wake x) = producers x"
  by (cases x rule: wake.cases) auto

lemma move_producers: "move t e x s x' s' n \<Longrightarrow> producers x' = producers x"
  by (erule move.cases) auto

lemma counts_step:
  assumes "counts (s, ts)" "t < length ts" "move t e (ts ! t) s x s' n"
  shows "counts (s', ts[t := x])"
proof -
  let ?x = "ts ! t"
  have mem: "?x \<in> set ts" using assms(2) by simp
  have c: "sum_over held ts + mset (m_invocations s) + mset (finished s) = sum_over announced ts"
    "m_taskCounter s = size (sum_over held ts) + length (m_invocations s)" "\<not> failed s"
    "\<forall>x\<in>set ts. \<forall>i\<in>producers x. given i"
    using assms(1) unfolding counts_def by auto
  note sub = held_total [OF mem]
  have "given i" if "i \<in># held ?x" for i
  proof -
    have "i \<in># sum_over announced ts" using that sub c(1) by (metis mset_subset_eqD union_iff)
    then show ?thesis using announced_given c(4) by blast
  qed
  moreover have "given i" if "?x = Producer i Scheduling" for i using c(4) mem that by force
  moreover have "m_taskCounter s > 0" if "held ?x \<noteq> {#}"
  proof -
    have "0 < size (held ?x)" using that by (simp add: nonempty_has_size)
    then show ?thesis using size_mset_mono [OF sub] c(2) by simp
  qed
  ultimately have m: "held x + mset (m_invocations s') + mset (finished s') + announced ?x =
      held ?x + mset (m_invocations s) + mset (finished s) + announced x"
    "m_taskCounter s' + size (held ?x) + length (m_invocations s) = m_taskCounter s + size (held x) + length (m_invocations s')"
    "failed s' = failed s"
    using move_invocations [OF assms(3)] by blast+
  note h = sum_over_update [OF assms(2), of held x] and a = sum_over_update [OF assms(2), of announced x]
  have "sum_over held (ts[t := x]) + mset (m_invocations s') + mset (finished s') + (held ?x + announced ?x) =
      sum_over announced (ts[t := x]) + (held ?x + announced ?x)"
  proof -
    have "sum_over held (ts[t := x]) + mset (m_invocations s') + mset (finished s') + (held ?x + announced ?x) =
        (sum_over held (ts[t := x]) + held ?x) + (mset (m_invocations s') + mset (finished s') + announced ?x)"
      by (simp add: ac_simps)
    also have "\<dots> = sum_over held ts + (held x + mset (m_invocations s') + mset (finished s') + announced ?x)"
      unfolding h by (simp add: ac_simps)
    also have "\<dots> = (sum_over held ts + mset (m_invocations s) + mset (finished s)) + announced x + held ?x"
      unfolding m(1) by (simp add: ac_simps)
    also have "\<dots> = sum_over announced (ts[t := x]) + (held ?x + announced ?x)"
      unfolding c(1) a [symmetric] by (simp add: ac_simps)
    finally show ?thesis .
  qed
  then have "sum_over held (ts[t := x]) + mset (m_invocations s') + mset (finished s') = sum_over announced (ts[t := x])"
    by simp
  moreover have "m_taskCounter s' = size (sum_over held (ts[t := x])) + length (m_invocations s')"
  proof -
    have "size (sum_over held (ts[t := x])) + size (held ?x) = size (sum_over held ts) + size (held x)"
      using h by (metis size_union)
    then show ?thesis using m(2) c(2) by simp
  qed
  moreover have "\<forall>y\<in>set (ts[t := x]). \<forall>i\<in>producers y. given i"
  proof
    fix y assume "y \<in> set (ts[t := x])"
    then have "y = x \<or> y \<in> set ts" using set_update_subset_insert by fast
    then show "\<forall>i\<in>producers y. given i"
      using c(4) mem move_producers [OF assms(3)] by metis
  qed
  ultimately show ?thesis using m(3) c(3) by (simp add: counts_def)
qed

lemma counts_wake: "counts (s, ts) \<Longrightarrow> counts (s, map wake ts)"
  by (simp add: counts_def)

lemma locked_iff:
  "locked (s, ts) \<longleftrightarrow> (\<forall>t<length ts. owns (ts ! t) \<longrightarrow> Some t = m_mutex s) \<and>
     (\<forall>t. Some t = m_mutex s \<longrightarrow> t < length ts \<and> owns (ts ! t))"
  unfolding locked_def prod.case by (rule refl)

lemma lockedD:
  assumes "locked (s, ts)"
  shows "u < length ts \<Longrightarrow> owns (ts ! u) \<Longrightarrow> m_mutex s = Some u"
    and "m_mutex s = Some u \<Longrightarrow> u < length ts \<and> owns (ts ! u)"
  using assms unfolding locked_iff by metis+

lemma lockedI:
  assumes "\<And>u. u < length ts \<Longrightarrow> owns (ts ! u) \<Longrightarrow> m_mutex s = Some u"
    and "\<And>u. m_mutex s = Some u \<Longrightarrow> u < length ts \<and> owns (ts ! u)"
  shows "locked (s, ts)"
  unfolding locked_iff using assms by metis

lemma locked_wake:
  assumes "locked (s, ts)"
  shows "locked (s, map wake ts)"
proof (rule lockedI)
  fix u
  show "u < length (map wake ts) \<Longrightarrow> owns (map wake ts ! u) \<Longrightarrow> m_mutex s = Some u"
    using lockedD(1) [OF assms, of u] by simp
  show "m_mutex s = Some u \<Longrightarrow> u < length (map wake ts) \<and> owns (map wake ts ! u)"
    using lockedD(2) [OF assms, of u] by simp
qed

lemma move_mutex:
  assumes "move t e x s x' s' n"
  shows "m_mutex s' = m_mutex s \<and> owns x' = owns x \<or> m_mutex s = None \<and> m_mutex s' = Some t \<and> owns x' \<or>
    owns x \<and> \<not> owns x' \<and> m_mutex s' = None"
  using assms by (rule move.cases) auto

lemma locked_step:
  assumes "locked (s, ts)" "t < length ts" "move t e (ts ! t) s x s' n"
  shows "locked (s', ts[t := x])"
proof -
  note a = lockedD(1) [OF assms(1)] and b = lockedD(2) [OF assms(1)]
  have upd: "ts[t := x] ! u = (if u = t then x else ts ! u)" for u
    using assms(2) by auto
  consider "m_mutex s' = m_mutex s" "owns x = owns (ts ! t)" | "m_mutex s = None" "m_mutex s' = Some t" "owns x"
    | "owns (ts ! t)" "\<not> owns x" "m_mutex s' = None"
    using move_mutex [OF assms(3)] by metis
  then show ?thesis
  proof cases
    case 1
    show ?thesis
    proof (rule lockedI)
      fix u
      show "u < length (ts[t := x]) \<Longrightarrow> owns (ts[t := x] ! u) \<Longrightarrow> m_mutex s' = Some u"
        using 1 a [of u] by (simp add: upd split: if_splits)
      show "m_mutex s' = Some u \<Longrightarrow> u < length (ts[t := x]) \<and> owns (ts[t := x] ! u)"
        using 1 b [of u] by (auto simp: upd)
    qed
  next
    case 2
    then have free: "\<not> owns (ts ! u)" if "u < length ts" for u using a [OF that] by auto
    show ?thesis
    proof (rule lockedI)
      fix u
      show "u < length (ts[t := x]) \<Longrightarrow> owns (ts[t := x] ! u) \<Longrightarrow> m_mutex s' = Some u"
        using 2(2) free [of u] by (cases "u = t") simp_all
      show "m_mutex s' = Some u \<Longrightarrow> u < length (ts[t := x]) \<and> owns (ts[t := x] ! u)"
        using 2 assms(2) by simp
    qed
  next
    case 3
    have other: "u = t" if "u < length ts" "owns (ts ! u)" for u using a [OF that] a [OF assms(2) 3(1)] by simp
    show ?thesis
    proof (rule lockedI)
      fix u
      have "\<not> owns (ts[t := x] ! u)" if u: "u < length ts"
      proof (cases "u = t")
        case True
        then show ?thesis using 3(2) assms(2) by simp
      next
        case False
        then have "\<not> owns (ts ! u)" using other [OF u] by blast
        then show ?thesis using False by simp
      qed
      then show "u < length (ts[t := x]) \<Longrightarrow> owns (ts[t := x] ! u) \<Longrightarrow> m_mutex s' = Some u"
        by simp
      show "m_mutex s' = Some u \<Longrightarrow> u < length (ts[t := x]) \<and> owns (ts[t := x] ! u)"
        using 3(3) by simp
    qed
  qed
qed

lemma no_sleep_step:
  assumes "no_sleep (s, ts)" "locked (s, ts)" "t < length ts" "move t e (ts ! t) s x s' n"
  shows "no_sleep (s', if n then map wake (ts[t := x]) else ts[t := x])"
proof -
  have u: "\<forall>y\<in>set (ts[t := x]). \<not> idle y" if "\<forall>y\<in>set ts. \<not> idle y" "\<not> idle x"
    using that set_update_subset_insert [of ts t x] by blast
  have o: "m_mutex s \<noteq> None" if "y \<in> set ts" "y = Worker BeforeWait" for y
    using that lockedD(1) [OF assms(2)] by (auto simp: in_set_conv_nth)
  have w: "idle (wake y) \<longleftrightarrow> y = Worker BeforeWait" for y by (cases y rule: wake.cases) auto
  show ?thesis
    using assms(4)
  proof cases
    case (push i)
    then have "\<forall>y\<in>set (ts[t := x]). y \<noteq> Worker BeforeWait"
      using o set_update_subset_insert [of ts t x] by blast
    then show ?thesis using push w by (auto simp: no_sleep_def)
  next
    case (taken y ys)
    then show ?thesis using assms(1) u by (auto simp: no_sleep_def)
  next
    case (notify)
    then have "Worker BeforeWait \<notin> set (ts[t := x])" if "m_invocations s \<noteq> []"
      using assms(1) u that by (auto simp: no_sleep_def)
    then show ?thesis using notify w by (auto simp: no_sleep_def)
  next
    case wait
    then have "m_invocations s = []" using assms(1) nth_mem [OF assms(3)] by (force simp: no_sleep_def)
    then show ?thesis using wait by (simp add: no_sleep_def)
  qed (use assms(1) u in \<open>auto simp: no_sleep_def\<close>)
qed

definition pool_inv :: "config \<Rightarrow> bool" where
  "pool_inv c \<longleftrightarrow> counts c \<and> locked c \<and> no_sleep c"

lemma pool_inv_step:
  assumes "pool_inv c" "step c c'"
  shows "pool_inv c'"
  using assms(2)
proof cases
  case (thread t ts s x s' n)
  note m = pool_thread_moves [OF thread(4)]
  have i: "counts (s, ts)" "locked (s, ts)" "no_sleep (s, ts)" using assms(1) thread(1) by (simp_all add: pool_inv_def)
  show ?thesis
    using counts_step [OF i(1) thread(3) m] locked_step [OF i(2) thread(3) m] no_sleep_step [OF i(3,2) thread(3) m]
      counts_wake locked_wake thread(2) by (simp add: pool_inv_def)
qed

lemma pool_inv_spurious:
  assumes "pool_inv c" "spurious c c'"
  shows "pool_inv c'"
  using assms(2)
proof cases
  case (spurious t ts s)
  have i: "counts (s, ts)" "locked (s, ts)" "no_sleep (s, ts)" using assms(1) spurious(1) by (simp_all add: pool_inv_def)
  have same: "sum_over f (ts[t := Worker Woken]) = sum_over f ts" if "f (Worker Woken) = f (Worker Waiting)"
    for f :: "thread \<Rightarrow> Invocation multiset"
    using sum_over_update [OF spurious(3), of f "Worker Woken"] spurious(4) that by simp
  have sub: "set (ts[t := Worker Woken]) \<subseteq> insert (Worker Woken) (set ts)" by (rule set_update_subset_insert)
  have "counts (s, ts[t := Worker Woken])"
    using i(1) same [of held] same [of announced] sub by (fastforce simp: counts_def)
  moreover have "owns (ts[t := Worker Woken] ! u) = owns (ts ! u)" for u
    using spurious(3,4) by (cases "u = t") auto
  then have "locked (s, ts[t := Worker Woken])" using i(2) unfolding locked_iff by simp
  moreover have "no_sleep (s, ts[t := Worker Woken])" using i(3) sub by (fastforce simp: no_sleep_def)
  ultimately show ?thesis using spurious(2) by (simp add: pool_inv_def)
qed

lemma start_inv:
  assumes "\<forall>i\<in>set is. given i"
  shows "pool_inv (start w is d)"
proof -
  have "held x = {#} \<and> announced x = {#} \<and> \<not> owns x" if "x \<in> set (snd (start w is d))" for x
    using that by (auto simp: start_def split: if_splits)
  then have "sum_over held (snd (start w is d)) = {#}" "sum_over announced (snd (start w is d)) = {#}"
    "\<forall>t<length (snd (start w is d)). \<not> owns (snd (start w is d) ! t)"
    by (auto intro!: sum_over_zero)
  then show ?thesis
    using assms unfolding pool_inv_def start_def new_pool_def counts_def no_sleep_def locked_iff
    by (auto split: if_splits)
qed

lemma pool_reachable_inv:
  assumes "reachable w is d c" "\<forall>i\<in>set is. given i"
  shows "pool_inv c"
  using assms by (induction rule: reachable.induct) (blast intro: start_inv pool_inv_step pool_inv_spurious)+

section \<open>The threads\<close>

text \<open>A thread keeps its role.\<close>

fun role :: "thread \<Rightarrow> nat \<times> Invocation option" where
  "role (Worker p) = (0, None)" | "role (Producer i p) = (1, Some i)" | "role (Joiner p) = (2, None)"

lemma role_wake [simp]: "role (wake x) = role x"
  by (cases x rule: wake.cases) auto

lemma move_role: "move t e x s x' s' n \<Longrightarrow> role x' = role x"
  by (erule move.cases) auto

lemma map_update_same: "t < length ts \<Longrightarrow> f x = f (ts ! t) \<Longrightarrow> map f (ts[t := x]) = map f ts"
  by (metis list_update_id map_update)

lemma step_roles:
  assumes "step c c'"
  shows "map role (snd c') = map role (snd c)"
  using assms
proof cases
  case (thread t ts s x s' n)
  then show ?thesis
    using map_update_same [OF thread(3) move_role [OF pool_thread_moves [OF thread(4)]]] by (simp add: o_def)
qed

lemma reachable_roles:
  assumes "reachable w is d c"
  shows "map role (snd c) = map role (snd (start w is d))"
  using assms
proof (induction rule: reachable.induct)
  case (spurious c c')
  then show ?case
    using map_update_same [of _ _ role] by (auto elim!: spurious.cases)
qed (simp_all add: step_roles)

lemma start_roles:
  "map role (snd (start w is d)) =
     replicate w (0, None) @ map (\<lambda>i. (1, Some i)) is @ (if d then [(2, None)] else [])"
  by (simp add: start_def o_def)

section \<open>All runs end\<close>

text \<open>What a thread can still do, with \<open>w\<close> workers that a notification wakes.\<close>

fun weight :: "bool \<Rightarrow> nat \<Rightarrow> thread \<Rightarrow> nat" where
  "weight active w (Worker Enter) = 3"
| "weight active w (Worker Test) = 2"
| "weight active w (Worker BeforeWait) = 1"
| "weight active w (Worker Woken) = 4"
| "weight active w (Worker (LoopEnd None)) = (if active then 3 else 1)"
| "weight active w (Worker (LoopEnd (Some i))) = 6"
| "weight active w (Worker (Running i)) = 5"
| "weight active w (Worker (Called i)) = 4"
| "weight active w (Producer i Scheduling) = 7 + 4 * w"
| "weight active w (Producer i Counted) = 6 + 4 * w"
| "weight active w (Joiner NotBegun) = 3 + 4 * w"
| "weight active w (Joiner Stopped) = 2 + 4 * w"
| "weight active w (Joiner Joining) = 1"
| "weight active w _ = 0"

fun is_worker :: "thread \<Rightarrow> nat" where
  "is_worker (Worker p) = 1" | "is_worker _ = 0"

definition rank :: "nat \<Rightarrow> config \<Rightarrow> nat" where
  "rank w c = sum_over (weight (m_isActive (fst c)) w) (snd c) + 5 * length (m_invocations (fst c))"

lemma weight_inactive: "weight False w x \<le> weight b w x"
  by (cases "(b, w, x)" rule: weight.cases) auto

lemma weight_wake: "weight b w (wake x) \<le> weight b w x + 4 * is_worker x"
  by (cases x rule: wake.cases) auto

lemma move_weight:
  assumes "move t e x s x' s' n"
  shows "weight (m_isActive s') w x' + 5 * length (m_invocations s') + (if n then 4 * w else 0) <
    weight (m_isActive s) w x + 5 * length (m_invocations s)"
    and "m_isActive s' = m_isActive s \<or> \<not> m_isActive s' \<and> weight (m_isActive s') w x = weight (m_isActive s) w x"
proof -
  show "m_isActive s' = m_isActive s \<or> \<not> m_isActive s' \<and> weight (m_isActive s') w x = weight (m_isActive s) w x"
    using assms by cases auto
  show "weight (m_isActive s') w x' + 5 * length (m_invocations s') + (if n then 4 * w else 0) <
      weight (m_isActive s) w x + 5 * length (m_invocations s)"
    using assms
  proof cases
    case (taken y ys)
    then have "mset (m_invocations s) = add_mset y (mset ys)" by (intro mset_take_head)
    then have "length (m_invocations s) = Suc (length ys)" by (metis size_mset size_add_mset)
    then show ?thesis using taken by simp
  qed auto
qed

lemma rank_step:
  assumes "step c c'" "sum_over is_worker (snd c) = w"
  shows "rank w c' < rank w c"
  using assms(1)
proof cases
  case (thread t ts s x s' n)
  let ?f = "weight (m_isActive s) w" and ?f' = "weight (m_isActive s') w"
  note m = move_weight [OF pool_thread_moves [OF thread(4)], of w]
  have u: "sum_over ?f' (ts[t := x]) + ?f (ts ! t) \<le> sum_over ?f ts + ?f' x"
  proof (cases "m_isActive s' = m_isActive s")
    case True
    then show ?thesis using sum_over_update [OF thread(3), of ?f x] by simp
  next
    case False
    then have "sum_over ?f' ts \<le> sum_over ?f ts" using m(2) by (intro sum_over_mono) (simp add: weight_inactive)
    moreover have "?f' (ts ! t) = ?f (ts ! t)" using m(2) False by blast
    ultimately show ?thesis using sum_over_update [OF thread(3), of ?f' x] by linarith
  qed
  have "is_worker x = is_worker (ts ! t)"
    using pool_thread_moves [OF thread(4)] by (auto elim: move.cases)
  then have w: "sum_over is_worker (ts[t := x]) = w"
    using sum_over_update [OF thread(3), of is_worker x] assms(2) thread(1) by simp
  have "sum_over ?f' (map wake (ts[t := x])) \<le> sum_over (\<lambda>y. ?f' y + 4 * is_worker y) (ts[t := x])"
    unfolding sum_over_def map_map o_def by (intro sum_list_mono weight_wake)
  also have "\<dots> = sum_over ?f' (ts[t := x]) + 4 * w"
    unfolding sum_over_add using w by (simp add: sum_over_def sum_list_const_mult)
  finally show ?thesis
    using m(1) u thread(1,2) by (cases n) (simp_all add: rank_def)
qed

lemma start_rank: "sum_over is_worker (snd (start w is d)) = w \<and> rank w (start w is d) \<le> (7 + 4 * w) * length is + 7 * w + 3"
proof -
  have "sum_over f (replicate n x) = n * f x" for f :: "thread \<Rightarrow> nat" and n x
    by (induction n) (auto simp: sum_over_def)
  moreover have "sum_over f (map (\<lambda>i. Producer i Scheduling) is) = length is * k" if "\<And>i. f (Producer i Scheduling) = k"
    for f :: "thread \<Rightarrow> nat" and k
    using that by (induction "is") (auto simp: sum_over_def)
  ultimately show ?thesis by (simp add: start_def rank_def new_pool_def algebra_simps)
qed

lemma step_workers: "step c c' \<Longrightarrow> sum_over is_worker (snd c') = sum_over is_worker (snd c)"
proof -
  assume s: "step c c'"
  have "is_worker = (\<lambda>x. if fst (role x) = 0 then 1 else 0)"
  proof
    fix x show "is_worker x = (if fst (role x) = 0 then 1 else 0)" by (cases x) auto
  qed
  then have "sum_over is_worker ts = sum_over (\<lambda>r. if fst r = 0 then 1 else 0) (map role ts)" for ts
    by (simp add: sum_over_def o_def)
  then show ?thesis using step_roles [OF s] by simp
qed

lemma runs_bounded: "(step ^^ n) c c' \<Longrightarrow> sum_over is_worker (snd c) = w \<Longrightarrow> n + rank w c' \<le> rank w c"
proof (induction n arbitrary: c')
  case (Suc n)
  then obtain d where d: "(step ^^ n) c d" "step d c'" by auto
  have "sum_over is_worker (snd d) = sum_over is_worker (snd c)"
    using d(1) by (induction n arbitrary: d) (auto dest!: step_workers)
  then show ?case using Suc.IH [OF d(1) Suc.prems(2)] rank_step [OF d(2)] Suc.prems(2) by fastforce
qed auto

section \<open>Where runs end\<close>

lemma blocked_thread:
  assumes "\<And>c'. \<not> step (s, ts) c'" "t < length ts"
  shows "thread_step t ts s = None"
proof (cases "thread_step t ts s")
  case (Some r)
  then show ?thesis using assms step.thread [OF assms(2)] by (cases r) blast
qed

text \<open>Without a thread that destroys the pool it stays active and no worker exits.\<close>

definition running :: "config \<Rightarrow> bool" where
  "running c \<longleftrightarrow> m_isActive (fst c) \<and> Worker Exited \<notin> set (snd c) \<and> (\<forall>x\<in>set (snd c). fst (role x) \<noteq> 2)"

lemma running_step:
  assumes "running c" "step c c'"
  shows "running c'"
  using assms(2)
proof cases
  case (thread t ts s x s' n)
  note m = pool_thread_moves [OF thread(4)]
  have r: "m_isActive s" "Worker Exited \<notin> set ts" "\<forall>y\<in>set ts. fst (role y) \<noteq> 2"
    using assms(1) thread(1) by (auto simp: running_def)
  have "fst (role (ts ! t)) \<noteq> 2" using r(3) thread(3) by simp
  then have x: "m_isActive s'" "x \<noteq> Worker Exited" "fst (role x) \<noteq> 2"
    using m r(1) by (auto elim: move.cases)
  have sub: "set (ts[t := x]) \<subseteq> insert x (set ts)" by (rule set_update_subset_insert)
  have w: "Worker Exited = wake y \<longleftrightarrow> Worker Exited = y" for y by (cases y rule: wake.cases) auto
  have "Worker Exited \<notin> set (ts[t := x])" "\<forall>y\<in>set (ts[t := x]). fst (role y) \<noteq> 2"
    using r(2,3) x(2,3) sub by blast+
  then show ?thesis using x(1) thread(2) by (auto simp: running_def image_iff w)
qed

lemma reachable_running:
  assumes "reachable w is False c"
  shows "running c"
  using assms
proof (induction rule: reachable.induct)
  case start
  then show ?case by (auto simp: running_def start_def new_pool_def)
next
  case (spurious c c')
  from spurious(2) show ?case
  proof cases
    case (spurious t ts s)
    then show ?thesis
      using spurious.IH set_update_subset_insert [of ts t "Worker Woken"] by (fastforce simp: running_def)
  qed
qed (rule running_step)

lemma blocked_threads:
  assumes "\<And>c'. \<not> step (s, ts) c'" "locked (s, ts)" "running (s, ts)" "\<forall>x\<in>set ts. \<forall>i\<in>producers x. given i" "x \<in> set ts"
  shows "x = Worker Waiting \<or> (\<exists>i. x = Producer i Scheduled)"
proof -
  obtain t where t: "t < length ts" "ts ! t = x" using assms(5) by (auto simp: in_set_conv_nth)
  have none: "thread_step u ts s = None" if "u < length ts" for u using blocked_thread [OF assms(1) that] .
  have active: "m_isActive s" "x \<noteq> Worker Exited" "fst (role x) \<noteq> 2" using assms(3,5) by (auto simp: running_def)
  have owner: "\<not> owns (ts ! u)" if "u < length ts" for u
  proof
    assume o: "owns (ts ! u)"
    then have "thread_step u ts s \<noteq> None"
      using active(1) by (cases "ts ! u" rule: owns.cases)
        (auto simp: thread_step_def worker_step_def Let_def split: option.splits prod.splits)
    then show False using none [OF that] by simp
  qed
  then have free: "m_mutex s = None" using lockedD(2) [OF assms(2)] by (cases "m_mutex s") auto
  show ?thesis
  proof (cases x)
    case (Worker p)
    have "thread_step t ts s = map_option (\<lambda>(p', s'). (Worker p', s', False)) (worker_step t p s)"
      using t(2) Worker by (simp add: thread_step_def)
    then have step: "worker_step t p s = None" using none [OF t(1)] by simp
    have "p \<noteq> Exited" "\<not> owns (Worker p)" using active(2) owner [OF t(1)] t(2) Worker by auto
    then have "p = Waiting"
      using step free by (cases p) (auto simp: worker_step_def split: option.splits if_splits)
    then show ?thesis using Worker by simp
  next
    case (Producer i p)
    have "thread_step t ts s = map_option (\<lambda>(p', r). (Producer i p', r)) (producer_step i p s)"
      using t(2) Producer by (simp add: thread_step_def)
    then have "producer_step i p s = None" using none [OF t(1)] by simp
    then have "p = Scheduled" using free by (cases p) (auto simp: producer_step_def split: if_splits)
    then show ?thesis using Producer by simp
  next
    case (Joiner p)
    then show ?thesis using active(3) by simp
  qed
qed

lemma settled_announced:
  assumes "\<forall>x\<in>set ts. x = Worker Waiting \<or> (\<exists>i. x = Producer i Scheduled)" "map role ts = map role (snd (start w is False))"
  shows "sum_over announced ts = mset is"
proof -
  let ?f = "\<lambda>r. case r of (0::nat, _) \<Rightarrow> {#} | (_, None) \<Rightarrow> {#} | (_, Some i) \<Rightarrow> {#i::Invocation#}"
  have "announced x = ?f (role x)" if "x \<in> set ts" for x
  proof -
    have "?f (0, None) = {#}" "?f (1, Some i) = {#i#}" for i by simp_all
    then show ?thesis using assms(1) that by force
  qed
  then have "map announced ts = map (?f \<circ> role) ts" by simp
  then have "sum_over announced ts = sum_over ?f (map role ts)" by (simp only: sum_over_def map_map)
  also have "\<dots> = sum_over ?f (replicate w (0, None)) + sum_over ?f (map (\<lambda>i. (1, Some i)) is)"
    using assms(2) by (simp add: start_roles)
  also have "sum_over ?f (replicate w (0, None)) = {#}" by (rule sum_over_zero) auto
  also have "sum_over ?f (map (\<lambda>i. (1, Some i)) is) = mset is" by (induction "is") (auto simp: sum_over_def)
  finally show ?thesis by simp
qed

section \<open>Properties\<close>

text \<open>
  C19. Under every interleaving of the workers, the threads that schedule and the one that destroys the pool no
  assertion fails, every invocation is called at most as often as it was scheduled, the counter is the number of
  those not finished, and when it says that there is no work all invocations scheduled so far have been called.
\<close>

theorem pool_calls_once:
  assumes "reachable w is d (s, ts)" "\<forall>i\<in>set is. given i"
  shows "\<not> failed s \<and> mset (finished s) \<subseteq># sum_over announced ts \<and>
    m_taskCounter s + size (mset (finished s)) = size (sum_over announced ts) \<and>
    (hasWorks s \<or> mset (finished s) = sum_over announced ts)"
proof -
  have c: "sum_over held ts + mset (m_invocations s) + mset (finished s) = sum_over announced ts"
    "m_taskCounter s = size (sum_over held ts) + length (m_invocations s)" "\<not> failed s"
    using pool_reachable_inv [OF assms] by (auto simp: pool_inv_def counts_def)
  have "mset (finished s) \<subseteq># sum_over announced ts" unfolding c(1) [symmetric] by simp
  moreover have "m_taskCounter s + size (mset (finished s)) = size (sum_over announced ts)"
    unfolding c(1) [symmetric] c(2) by simp
  moreover have "mset (finished s) = sum_over announced ts" if "\<not> hasWorks s"
    using that c(1,2) by (auto simp: hasWorks_def)
  ultimately show ?thesis using c(3) by blast
qed

text \<open>
  C20. All runs end: whatever the threads do, without wakeups for no reason, \<open>w\<close> workers and \<open>n\<close> scheduled invocations
  need at most \<open>(7 + 4 w) n + 7 w + 3\<close> steps, destroying the pool included.
\<close>

theorem pool_runs_end:
  "(step ^^ n) (start w is d) c \<Longrightarrow> n \<le> (7 + 4 * w) * length is + 7 * w + 3"
  using runs_bounded [of n "start w is d" c w] start_rank [of w "is" d] by simp

text \<open>
  C4. No wakeup is lost as long as the pool is not destroyed: when no thread can step, without a wakeup for no reason,
  every invocation that was to be scheduled has been called.
\<close>

theorem pool_finishes_work:
  assumes "\<forall>i\<in>set is. given i" "0 < w" "reachable w is False (s, ts)" "\<And>c. \<not> step (s, ts) c"
  shows "mset (finished s) = mset is \<and> \<not> hasWorks s \<and> m_invocations s = []"
proof -
  have inv: "counts (s, ts)" "locked (s, ts)" "no_sleep (s, ts)" using pool_reachable_inv [OF assms(3,1)] by (auto simp: pool_inv_def)
  have c: "sum_over held ts + mset (m_invocations s) + mset (finished s) = sum_over announced ts"
    "m_taskCounter s = size (sum_over held ts) + length (m_invocations s)" "\<forall>x\<in>set ts. \<forall>i\<in>producers x. given i"
    using inv(1) by (auto simp: counts_def)
  have settled: "x = Worker Waiting \<or> (\<exists>i. x = Producer i Scheduled)" if "x \<in> set ts" for x
    using blocked_threads [OF assms(4) inv(2) reachable_running [OF assms(3)] c(3) that] .
  have roles: "map role ts = map role (snd (start w is False))" using reachable_roles [OF assms(3)] by simp
  have "(0, None) \<in> set (map role ts)" unfolding roles start_roles using assms(2) by simp
  then obtain x where "x \<in> set ts" "role x = (0, None)" by force
  then have "Worker Waiting \<in> set ts" using settled by fastforce
  then have m: "m_invocations s = []" using inv(3) by (fastforce simp: no_sleep_def)
  have "sum_over held ts = {#}" using settled by (intro sum_over_zero) fastforce
  then show ?thesis
    using c(1,2) m settled_announced [OF _ roles] settled by (simp add: hasWorks_def)
qed

text \<open>The threads one after the other, by their numbers.\<close>

fun run_threads :: "nat list \<Rightarrow> config \<Rightarrow> config option" where
  "run_threads [] c = Some c"
| "run_threads (t # us) c =
     (if length (snd c) \<le> t then None
      else case thread_step t (snd c) (fst c) of
        None \<Rightarrow> None
      | Some (x, s, n) \<Rightarrow> run_threads us (s, if n then map wake ((snd c)[t := x]) else (snd c)[t := x]))"

lemma run_threads_steps: "run_threads us c = Some c' \<Longrightarrow> (step ^^ length us) c c'"
proof (induction us arbitrary: c)
  case (Cons t us)
  obtain s ts where c: "c = (s, ts)" by (cases c)
  obtain x s1 n where t: "t < length ts" "thread_step t ts s = Some (x, s1, n)"
    and r: "run_threads us (s1, if n then map wake (ts[t := x]) else ts[t := x]) = Some c'"
    using Cons.prems c by (auto split: if_splits option.splits)
  have "step c (s1, if n then map wake (ts[t := x]) else ts[t := x])"
    unfolding c by (rule step.thread [OF t])
  then show ?case using Cons.IH [OF r] by (metis length_Cons relpowp_Suc_I2)
qed simp

lemma pool_steps_reachable: "(step ^^ n) (start w is d) c \<Longrightarrow> reachable w is d c"
proof (induction n arbitrary: c)
  case 0
  then show ?case using reachable.start by (metis relpowp_0_E)
next
  case (Suc n)
  then show ?case by (metis reachable.step relpowp_Suc_E)
qed

lemma stuckI: "list_all (\<lambda>t. thread_step t ts s = None) [0..<length ts] \<Longrightarrow> \<not> step (s, ts) c"
  by (auto simp: list_all_iff elim!: step.cases)

text \<open>
  C21. Destroying the pool is not safe: a worker that has read \<open>m_isActive\<close> and does not wait yet misses the
  notification, so that the join never returns; and an invocation whose notification wakes a worker after the pool was
  stopped is never called, although the join returns and it was scheduled before.
\<close>

theorem destroying_races:
  "(\<exists>s. reachable 1 [] True (s, [Worker Waiting, Joiner Joining]) \<and>
      (\<forall>c. \<not> step (s, [Worker Waiting, Joiner Joining]) c)) \<and>
   (\<exists>s i. given i \<and> reachable 1 [i] True (s, [Worker Exited, Producer i Scheduled, Joiner Joined]) \<and>
      finished s = [] \<and> m_invocations s = [i] \<and> hasWorks s)"
proof -
  let ?i = "make_invocation (Some 1) 0 0"
  have a: "run_threads [0, 0, 1, 1, 0] (start 1 [] True) = Some (new_pool\<lparr>m_isActive := False\<rparr>, [Worker Waiting, Joiner Joining])"
    by code_simp
  have "list_all (\<lambda>t. thread_step t [Worker Waiting, Joiner Joining] (new_pool\<lparr>m_isActive := False\<rparr>) = None)
      [0..<length [Worker Waiting, Joiner Joining]]"
    by code_simp
  then have stuck: "\<not> step (new_pool\<lparr>m_isActive := False\<rparr>, [Worker Waiting, Joiner Joining]) c" for c
    by (rule stuckI)
  have "run_threads [0, 0, 0, 1, 1, 2, 0, 0, 2, 2] (start 1 [?i] True) =
      Some (new_pool\<lparr>m_isActive := False, m_invocations := [?i], m_taskCounter := 1\<rparr>,
        [Worker Exited, Producer ?i Scheduled, Joiner Joined])"
    by code_simp
  then have b: "reachable 1 [?i] True (new_pool\<lparr>m_isActive := False, m_invocations := [?i], m_taskCounter := 1\<rparr>,
      [Worker Exited, Producer ?i Scheduled, Joiner Joined])"
    using run_threads_steps pool_steps_reachable by blast
  show ?thesis
  proof (intro conjI exI allI)
    show "reachable 1 [] True (new_pool\<lparr>m_isActive := False\<rparr>, [Worker Waiting, Joiner Joining])"
      using run_threads_steps [OF a] by (rule pool_steps_reachable)
    show "\<not> step (new_pool\<lparr>m_isActive := False\<rparr>, [Worker Waiting, Joiner Joining]) c" for c by (rule stuck)
    show "reachable 1 [?i] True (new_pool\<lparr>m_isActive := False, m_invocations := [?i], m_taskCounter := 1\<rparr>,
      [Worker Exited, Producer ?i Scheduled, Joiner Joined])" by (rule b)
  qed (simp_all add: new_pool_def hasWorks_def)
qed

definition demo_i :: Invocation where "demo_i = make_invocation (Some 7) 0 0"

lemma demo_given: "\<forall>i\<in>set [demo_i]. given i"
  by (simp add: demo_i_def)

definition demo_end :: config where
  "demo_end = (new_pool\<lparr>finished := [demo_i]\<rparr>, [Worker Waiting, Producer demo_i Scheduled])"

lemma demo_run: "(step ^^ 14) (start 1 [demo_i] False) demo_end"
proof -
  have r: "run_threads [0, 0, 0, 1, 1, 0, 0, 0, 0, 0, 0, 0, 0, 0] (start 1 [demo_i] False) = Some demo_end"
    by code_simp
  have "length [0::nat, 0, 0, 1, 1, 0, 0, 0, 0, 0, 0, 0, 0, 0] = 14" by simp
  then show ?thesis using run_threads_steps [OF r] by (simp only:)
qed

lemma demo_stuck: "\<not> step demo_end c"
proof -
  have "list_all (\<lambda>t. thread_step t (snd demo_end) (fst demo_end) = None) [0..<length (snd demo_end)]" by code_simp
  then show ?thesis using stuckI [of "snd demo_end" "fst demo_end"] by simp
qed

theorem pool_calls_once_witness: "mset (finished (fst demo_end)) \<subseteq># {#demo_i#} \<and> \<not> failed (fst demo_end)"
proof -
  have "sum_over announced (snd demo_end) = {#demo_i#}" by (simp add: demo_end_def sum_over_def)
  moreover have "reachable 1 [demo_i] False (fst demo_end, snd demo_end)"
    using pool_steps_reachable [OF demo_run] by simp
  ultimately show ?thesis using pool_calls_once [OF _ demo_given] by fastforce
qed

theorem pool_runs_end_witness: "(14::nat) \<le> (7 + 4 * 1) * length [demo_i] + 7 * 1 + 3"
  by (rule pool_runs_end [OF demo_run])

theorem pool_finishes_work_witness: "mset (finished (fst demo_end)) = mset [demo_i] \<and> \<not> hasWorks (fst demo_end)"
proof -
  have r: "reachable 1 [demo_i] False (fst demo_end, snd demo_end)"
    using pool_steps_reachable [OF demo_run] by simp
  have "\<not> step (fst demo_end, snd demo_end) c" for c using demo_stuck by simp
  then show ?thesis using pool_finishes_work [OF demo_given _ r] by simp
qed

end
