(* ===== verification/RefCounts.thy ===== *)
theory RefCounts
  imports Prelude
begin

text \<open>
  The shared state of a reference-counted object (\<open>src/rtti/rtti_impl.cpp\<close>): a counter of the references to the
  instance, which is destroyed when it reaches zero, and one of all references, with which the storage is freed.
  Any number of threads hold strong and weak references, work on the counters by one atomic operation at a time and
  hand references to each other.  The loop of \<open>tryAddRef\<close> reads the counter twice; the parameter \<open>torn\<close> says whether
  it may change between the two reads.
\<close>

section \<open>The state\<close>

text \<open>
  \<open>destroyed\<close> and \<open>freed\<close> count what happened to the object; \<open>bad\<close> records a failed assertion, an access to freed
  storage and an access to a destroyed instance.
\<close>

record shared =
  m_instanceCounter :: nat
  m_stateCounter :: nat
  destroyed :: nat
  freed :: nat
  bad :: bool

text \<open>Where a thread is between the atomic operations.\<close>

datatype pc =
    Rest
  | AddingState                 \<comment> \<open>\<open>addInstanceRef\<close> after the instance counter\<close>
  | Destroying                  \<comment> \<open>\<open>releaseInstanceRef\<close>: this was the last reference\<close>
  | ReleasingStorage
  | Freeing
  | Trying nat                  \<comment> \<open>\<open>tryAddRef\<close> with the value it has read\<close>
  | Swapping nat nat            \<comment> \<open>before the exchange, with expected and desired value\<close>
  | Acquired

record holder =
  strong :: nat
  weak :: nat
  at :: pc

type_synonym config = "shared \<times> holder list"

definition new_state :: shared where
  "new_state = \<lparr>m_instanceCounter = 1, m_stateCounter = 1, destroyed = 0, freed = 0, bad = False\<rparr>"

definition touch :: "shared \<Rightarrow> shared" where
  "touch s = s\<lparr>bad := (bad s \<or> freed s > 0)\<rparr>"

definition touch_instance :: "shared \<Rightarrow> shared" where
  "touch_instance s = s\<lparr>bad := (bad s \<or> freed s > 0 \<or> destroyed s > 0)\<rparr>"

section \<open>The operations\<close>

definition addRef_instance :: "shared \<Rightarrow> shared" where
  "addRef_instance s =
     (touch_instance s)\<lparr>m_instanceCounter := Suc (m_instanceCounter s), bad := (bad (touch_instance s) \<or> m_instanceCounter s = 0)\<rparr>"

definition addRef_state :: "shared \<Rightarrow> shared" where
  "addRef_state s =
     (touch s)\<lparr>m_stateCounter := Suc (m_stateCounter s), bad := (bad (touch s) \<or> m_stateCounter s = 0)\<rparr>"

definition removeRef_instance :: "shared \<Rightarrow> nat \<times> shared" where
  "removeRef_instance s =
     (m_instanceCounter s,
      (touch_instance s)\<lparr>m_instanceCounter := m_instanceCounter s - 1, bad := (bad (touch_instance s) \<or> m_instanceCounter s = 0)\<rparr>)"

definition removeRef_state :: "shared \<Rightarrow> nat \<times> shared" where
  "removeRef_state s =
     (m_stateCounter s,
      (touch s)\<lparr>m_stateCounter := m_stateCounter s - 1, bad := (bad (touch s) \<or> m_stateCounter s = 0)\<rparr>)"

datatype operation = AddInstanceRef | ReleaseInstanceRef | AcquireWeakRef | AddWeakRef | ReleaseRef | Acquire | IsDead

text \<open>The first atomic operation of a call; it needs a reference of its kind.\<close>

definition begin_op :: "operation \<Rightarrow> holder \<Rightarrow> shared \<Rightarrow> (holder \<times> shared) option" where
  "begin_op op h s =
     (case op of
        AddInstanceRef \<Rightarrow> if strong h > 0 then Some (h\<lparr>at := AddingState\<rparr>, addRef_instance s) else None
      | ReleaseInstanceRef \<Rightarrow>
          if strong h > 0 then
            (let (v, s) = removeRef_instance s
             in Some (h\<lparr>strong := strong h - 1, at := (if v = 1 then Destroying else ReleasingStorage)\<rparr>, s))
          else None
      | AcquireWeakRef \<Rightarrow> if strong h > 0 then Some (h\<lparr>weak := Suc (weak h)\<rparr>, addRef_state s) else None
      | AddWeakRef \<Rightarrow> if weak h > 0 then Some (h\<lparr>weak := Suc (weak h)\<rparr>, addRef_state s) else None
      | ReleaseRef \<Rightarrow> if weak h > 0 then Some (h\<lparr>weak := weak h - 1, at := ReleasingStorage\<rparr>, s) else None
      | Acquire \<Rightarrow> if weak h > 0 then Some (h\<lparr>at := Trying (m_instanceCounter s)\<rparr>, touch s) else None
      | IsDead \<Rightarrow> if weak h > 0 then Some (h, (touch s)\<lparr>bad := (bad (touch s) \<or> m_stateCounter s = 0)\<rparr>) else None)"

text \<open>The following ones; the exchange may fail for no reason.\<close>

definition continue_op :: "bool \<Rightarrow> holder \<Rightarrow> shared \<Rightarrow> (holder \<times> shared) option" where
  "continue_op spurious h s =
     (case at h of
        Rest \<Rightarrow> None
      | AddingState \<Rightarrow> Some (h\<lparr>strong := Suc (strong h), at := Rest\<rparr>, addRef_state s)
      | Destroying \<Rightarrow>
          Some (h\<lparr>at := ReleasingStorage\<rparr>, (touch_instance s)\<lparr>destroyed := Suc (destroyed s)\<rparr>)
      | ReleasingStorage \<Rightarrow>
          (let (v, s) = removeRef_state s in Some (h\<lparr>at := (if v = 1 then Freeing else Rest)\<rparr>, s))
      | Freeing \<Rightarrow>
          Some (h\<lparr>at := Rest\<rparr>, (touch s)\<lparr>freed := Suc (freed s),
            bad := (bad (touch s) \<or> m_stateCounter s \<noteq> 0 \<or> m_instanceCounter s \<noteq> 0)\<rparr>)
      | Trying v \<Rightarrow>
          if v = 0 then Some (h\<lparr>at := Rest\<rparr>, s)
          else Some (h\<lparr>at := Swapping v (Suc (m_instanceCounter s))\<rparr>, touch s)
      | Swapping v d \<Rightarrow>
          if m_instanceCounter s = v \<and> \<not> spurious then Some (h\<lparr>at := Acquired\<rparr>, (touch s)\<lparr>m_instanceCounter := d\<rparr>)
          else Some (h\<lparr>at := Trying (m_instanceCounter s)\<rparr>, touch s)
      | Acquired \<Rightarrow> Some (h\<lparr>strong := Suc (strong h), at := Rest\<rparr>, touch_instance (addRef_state s)))"

datatype action = Begin operation | Continue bool | GiveStrong nat | GiveWeak nat

definition steady :: "holder \<Rightarrow> shared \<Rightarrow> bool" where
  "steady h s = (case at h of Trying v \<Rightarrow> v = 0 \<or> m_instanceCounter s = v | _ \<Rightarrow> True)"

fun act :: "bool \<Rightarrow> nat \<times> action \<Rightarrow> config \<Rightarrow> config option" where
  "act torn (i, Begin op) (s, hs) = do {
     require (i < length hs \<and> at (hs ! i) = Rest);
     (h, s) \<leftarrow> begin_op op (hs ! i) s;
     Some (s, hs[i := h]) }"
| "act torn (i, Continue spurious) (s, hs) = do {
     require (i < length hs \<and> (torn \<or> steady (hs ! i) s));
     (h, s) \<leftarrow> continue_op spurious (hs ! i) s;
     Some (s, hs[i := h]) }"
| "act torn (i, GiveStrong j) (s, hs) = do {
     require (i < length hs \<and> j < length hs \<and> i \<noteq> j \<and> at (hs ! i) = Rest \<and> strong (hs ! i) > 0);
     Some (s, hs[i := (hs ! i)\<lparr>strong := strong (hs ! i) - 1\<rparr>, j := (hs ! j)\<lparr>strong := Suc (strong (hs ! j))\<rparr>]) }"
| "act torn (i, GiveWeak j) (s, hs) = do {
     require (i < length hs \<and> j < length hs \<and> i \<noteq> j \<and> at (hs ! i) = Rest \<and> weak (hs ! i) > 0);
     Some (s, hs[i := (hs ! i)\<lparr>weak := weak (hs ! i) - 1\<rparr>, j := (hs ! j)\<lparr>weak := Suc (weak (hs ! j))\<rparr>]) }"

text \<open>The object is created with one reference, which the first of the threads has.\<close>

definition created :: "nat \<Rightarrow> config" where
  "created n = (new_state, \<lparr>strong = 1, weak = 0, at = Rest\<rparr> # replicate n \<lparr>strong = 0, weak = 0, at = Rest\<rparr>)"

inductive reachable :: "bool \<Rightarrow> config \<Rightarrow> bool" for torn where
  created: "reachable torn (created n)"
| step: "reachable torn c \<Longrightarrow> act torn a c = Some c' \<Longrightarrow> reachable torn c'"

section \<open>The invariant\<close>

fun pending_instance :: "pc \<Rightarrow> nat" where
  "pending_instance AddingState = 1" | "pending_instance Acquired = 1" | "pending_instance _ = 0"

fun pending_state :: "pc \<Rightarrow> nat" where
  "pending_state Destroying = 1" | "pending_state ReleasingStorage = 1" | "pending_state _ = 0"

definition instance_refs :: "holder \<Rightarrow> nat" where
  "instance_refs h = strong h + pending_instance (at h)"

definition state_refs :: "holder \<Rightarrow> nat" where
  "state_refs h = strong h + weak h + pending_state (at h)"

definition destroying :: "holder \<Rightarrow> nat" where
  "destroying h = of_bool (at h = Destroying)"

definition freeing :: "holder \<Rightarrow> nat" where
  "freeing h = of_bool (at h = Freeing)"

definition holder_ok :: "holder \<Rightarrow> bool" where
  "holder_ok h \<longleftrightarrow>
     (case at h of
        AddingState \<Rightarrow> strong h > 0
      | Trying v \<Rightarrow> weak h > 0
      | Swapping v d \<Rightarrow> weak h > 0 \<and> v > 0 \<and> d = Suc v
      | Acquired \<Rightarrow> weak h > 0
      | _ \<Rightarrow> True)"

definition ref_inv :: "config \<Rightarrow> bool" where
  "ref_inv c \<longleftrightarrow> (case c of (s, hs) \<Rightarrow>
     m_instanceCounter s = sum_over instance_refs hs \<and>
     m_stateCounter s = sum_over state_refs hs \<and>
     destroyed s + sum_over destroying hs = of_bool (m_instanceCounter s = 0) \<and>
     freed s + sum_over freeing hs = of_bool (m_stateCounter s = 0) \<and>
     (\<forall>h\<in>set hs. holder_ok h) \<and> \<not> bad s)"

lemmas refs_defs = instance_refs_def state_refs_def destroying_def freeing_def holder_ok_def
lemmas atomic_defs = addRef_instance_def addRef_state_def removeRef_instance_def removeRef_state_def touch_def touch_instance_def

text \<open>One thread: what it changes is in balance with the counters.\<close>

definition balanced :: "holder \<Rightarrow> shared \<Rightarrow> holder \<Rightarrow> shared \<Rightarrow> bool" where
  "balanced h s h' s' \<longleftrightarrow>
     m_instanceCounter s' + instance_refs h = m_instanceCounter s + instance_refs h' \<and>
     m_stateCounter s' + state_refs h = m_stateCounter s + state_refs h' \<and>
     destroyed s' + destroying h' + of_bool (m_instanceCounter s = 0) = destroyed s + destroying h + of_bool (m_instanceCounter s' = 0) \<and>
     freed s' + freeing h' + of_bool (m_stateCounter s = 0) = freed s + freeing h + of_bool (m_stateCounter s' = 0) \<and>
     holder_ok h' \<and> \<not> bad s'"

definition share :: "holder \<Rightarrow> shared \<Rightarrow> bool" where
  "share h s \<longleftrightarrow> holder_ok h \<and> \<not> bad s \<and> instance_refs h \<le> m_instanceCounter s \<and> state_refs h \<le> m_stateCounter s \<and>
     destroyed s + destroying h \<le> of_bool (m_instanceCounter s = 0) \<and>
     freed s + freeing h \<le> of_bool (m_stateCounter s = 0) \<and>
     (m_stateCounter s = 0 \<longrightarrow> m_instanceCounter s = 0)"

lemma share_facts:
  assumes "share h s"
  shows "strong h > 0 \<or> at h = Acquired \<Longrightarrow> m_instanceCounter s > 0 \<and> m_stateCounter s > 0 \<and> freed s = 0 \<and> destroyed s = 0"
    and "weak h > 0 \<or> at h = ReleasingStorage \<Longrightarrow> m_stateCounter s > 0 \<and> freed s = 0"
    and "at h = Destroying \<Longrightarrow> m_instanceCounter s = 0 \<and> m_stateCounter s > 0 \<and> freed s = 0 \<and> destroyed s = 0"
    and "at h = Freeing \<Longrightarrow> m_instanceCounter s = 0 \<and> m_stateCounter s = 0 \<and> freed s = 0"
    and "\<not> bad s" "holder_ok h"
  using assms by (auto simp: share_def refs_defs of_bool_def split: if_splits)

lemma begin_balanced:
  assumes "share h s" "at h = Rest" "begin_op op h s = Some (h', s')"
  shows "balanced h s h' s'"
  using assms(2,3) share_facts [OF assms(1)]
  by (cases op) (clarsimp simp: begin_op_def balanced_def refs_defs atomic_defs of_bool_def split: if_splits)+

lemma continue_balanced:
  assumes "share h s" "steady h s" "continue_op b h s = Some (h', s')"
  shows "balanced h s h' s'"
  using assms(2,3) share_facts [OF assms(1)]
  by (cases "at h") (clarsimp simp: continue_op_def steady_def balanced_def refs_defs atomic_defs of_bool_def split: if_splits)+

lemma ref_inv_share:
  assumes "ref_inv (s, hs)" "i < length hs"
  shows "share (hs ! i) s"
proof -
  have mem: "hs ! i \<in> set hs" using assms(2) by simp
  have inv: "m_instanceCounter s = sum_over instance_refs hs" "m_stateCounter s = sum_over state_refs hs"
    "destroyed s + sum_over destroying hs = of_bool (m_instanceCounter s = 0)"
    "freed s + sum_over freeing hs = of_bool (m_stateCounter s = 0)" "\<forall>h\<in>set hs. holder_ok h" "\<not> bad s"
    using assms(1) by (auto simp: ref_inv_def)
  have "m_instanceCounter s = 0" if "m_stateCounter s = 0"
  proof -
    have "instance_refs h = 0" if "h \<in> set hs" for h
    proof -
      have "state_refs h = 0" using sum_over_member [OF that, of state_refs] inv(2) \<open>m_stateCounter s = 0\<close> by simp
      then show ?thesis using inv(5) that by (cases "at h") (auto simp: refs_defs)
    qed
    then show ?thesis unfolding inv(1) by (rule sum_over_zero)
  qed
  then show ?thesis
    using inv(3-6) mem sum_over_member [OF mem, of instance_refs] sum_over_member [OF mem, of state_refs]
      sum_over_member [OF mem, of destroying] sum_over_member [OF mem, of freeing]
    by (simp add: share_def inv(1,2))
qed

lemma balanced_inv:
  assumes "ref_inv (s, hs)" "i < length hs" "balanced (hs ! i) s h' s'"
  shows "ref_inv (s', hs[i := h'])"
proof -
  have inv: "m_instanceCounter s = sum_over instance_refs hs" "m_stateCounter s = sum_over state_refs hs"
    "destroyed s + sum_over destroying hs = of_bool (m_instanceCounter s = 0)"
    "freed s + sum_over freeing hs = of_bool (m_stateCounter s = 0)" "\<forall>h\<in>set hs. holder_ok h"
    using assms(1) by (auto simp: ref_inv_def)
  note upd = sum_over_update [OF assms(2), of _ h']
  have "\<forall>h\<in>set (hs[i := h']). holder_ok h"
    using inv(5) assms(3) set_update_subset_insert [of hs i h'] unfolding balanced_def by blast
  then show ?thesis
    using assms(3) inv(1-4) upd [of instance_refs] upd [of state_refs] upd [of destroying] upd [of freeing]
    unfolding balanced_def ref_inv_def prod.case by linarith
qed

lemma give_inv:
  assumes "ref_inv (s, hs)" "i < length hs" "j < length hs" "i \<noteq> j"
    and "instance_refs h + instance_refs g = instance_refs (hs ! i) + instance_refs (hs ! j)"
    and "state_refs h + state_refs g = state_refs (hs ! i) + state_refs (hs ! j)"
    and "at h = at (hs ! i)" "at g = at (hs ! j)" "holder_ok h" "holder_ok g"
  shows "ref_inv (s, hs[i := h, j := g])"
proof -
  have "sum_over f (hs[i := h, j := g]) = sum_over f hs" if "f h + f g = f (hs ! i) + f (hs ! j)" for f :: "holder \<Rightarrow> nat"
    using sum_over_update [OF assms(2), of f h] sum_over_update [of j "hs[i := h]" f g] assms(3,4) that by simp
  then have "sum_over instance_refs (hs[i := h, j := g]) = sum_over instance_refs hs"
    "sum_over state_refs (hs[i := h, j := g]) = sum_over state_refs hs"
    "sum_over destroying (hs[i := h, j := g]) = sum_over destroying hs"
    "sum_over freeing (hs[i := h, j := g]) = sum_over freeing hs"
    using assms(5-8) by (auto simp: destroying_def freeing_def)
  moreover have "\<forall>x\<in>set (hs[i := h, j := g]). holder_ok x"
    using assms(1,9,10) set_update_subset_insert [of "hs[i := h]" j g] set_update_subset_insert [of hs i h]
    unfolding ref_inv_def prod.case by blast
  ultimately show ?thesis using assms(1) by (simp add: ref_inv_def)
qed

lemma act_inv:
  assumes "ref_inv c" "act False (i, a) c = Some c'"
  shows "ref_inv c'"
proof -
  obtain s hs where c: "c = (s, hs)" by (cases c)
  note inv = assms(1) [unfolded c]
  show ?thesis
  proof (cases a)
    case (Begin op)
    then obtain h s' where b: "i < length hs" "at (hs ! i) = Rest" "begin_op op (hs ! i) s = Some (h, s')" "c' = (s', hs[i := h])"
      using assms(2) c by (auto split: if_splits Option.bind_splits)
    show ?thesis
      unfolding b(4) by (rule balanced_inv [OF inv b(1) begin_balanced [OF ref_inv_share [OF inv b(1)] b(2,3)]])
  next
    case (Continue f)
    then obtain h s' where b: "i < length hs" "steady (hs ! i) s" "continue_op f (hs ! i) s = Some (h, s')" "c' = (s', hs[i := h])"
      using assms(2) c by (auto split: if_splits Option.bind_splits)
    show ?thesis
      unfolding b(4) by (rule balanced_inv [OF inv b(1) continue_balanced [OF ref_inv_share [OF inv b(1)] b(2,3)]])
  next
    case (GiveStrong j)
    then have b: "i < length hs" "j < length hs" "i \<noteq> j" "at (hs ! i) = Rest" "strong (hs ! i) > 0"
      and c': "c' = (s, hs[i := (hs ! i)\<lparr>strong := strong (hs ! i) - 1\<rparr>, j := (hs ! j)\<lparr>strong := Suc (strong (hs ! j))\<rparr>])"
      using assms(2) c by (auto split: if_splits)
    have "holder_ok (hs ! j)" using inv b(2) by (auto simp: ref_inv_def)
    then show ?thesis
      unfolding c' using b by (intro give_inv [OF inv]) (auto simp: refs_defs split: pc.splits)
  next
    case (GiveWeak j)
    then have b: "i < length hs" "j < length hs" "i \<noteq> j" "at (hs ! i) = Rest" "weak (hs ! i) > 0"
      and c': "c' = (s, hs[i := (hs ! i)\<lparr>weak := weak (hs ! i) - 1\<rparr>, j := (hs ! j)\<lparr>weak := Suc (weak (hs ! j))\<rparr>])"
      using assms(2) c by (auto split: if_splits)
    have "holder_ok (hs ! j)" using inv b(2) by (auto simp: ref_inv_def)
    then show ?thesis
      unfolding c' using b by (intro give_inv [OF inv]) (auto simp: refs_defs split: pc.splits)
  qed
qed

lemma refs_reachable_inv: "reachable False c \<Longrightarrow> ref_inv c"
proof (induction rule: reachable.induct)
  case (created n)
  have "sum_over f (replicate n h) = n * f h" for f :: "holder \<Rightarrow> nat" and h
    by (induction n) (auto simp: sum_over_def)
  then show ?case by (auto simp: created_def ref_inv_def new_state_def refs_defs sum_over_def)
next
  case (step c a c')
  then show ?case using act_inv by (cases a) simp
qed

section \<open>Properties\<close>


fun run_actions :: "bool \<Rightarrow> (nat \<times> action) list \<Rightarrow> config \<Rightarrow> config option" where
  "run_actions torn [] c = Some c"
| "run_actions torn (a # as) c = (case act torn a c of None \<Rightarrow> None | Some c' \<Rightarrow> run_actions torn as c')"

lemma run_actions_reachable: "reachable torn c \<Longrightarrow> run_actions torn as c = Some c' \<Longrightarrow> reachable torn c'"
proof (induction "as" arbitrary: c)
  case (Cons a "as")
  then show ?case by (auto split: option.splits intro: reachable.step)
qed simp

text \<open>
  C25. Because \<open>tryAddRef\<close> reads the counter again to compute the desired value, an increment of another thread can be
  lost: the instance is destroyed while a thread holds the strong reference that it got from its weak one.
\<close>

definition lost_reference :: "(nat \<times> action) list" where
  "lost_reference =
     [(0, Begin AcquireWeakRef), (0, GiveWeak 1),
      (0, Begin AddInstanceRef), (0, Continue False),
      (1, Begin Acquire),                                   \<comment> \<open>reads 2\<close>
      (0, Begin ReleaseInstanceRef), (0, Continue False),   \<comment> \<open>the counter is 1\<close>
      (1, Continue False),                                  \<comment> \<open>desires 1 + 1\<close>
      (0, Begin AddInstanceRef), (0, Continue False),       \<comment> \<open>the counter is 2 again\<close>
      (1, Continue False), (1, Continue False),             \<comment> \<open>exchanges 2 for 2\<close>
      (0, Begin ReleaseInstanceRef), (0, Continue False),
      (0, Begin ReleaseInstanceRef), (0, Continue False)]"

theorem reference_lost:
  "\<exists>s hs. reachable True (s, hs) \<and> destroyed s = 1 \<and> (\<exists>h\<in>set hs. at h = Rest \<and> strong h = 1)"
proof -
  have r: "map_option (\<lambda>(s, hs). (destroyed s, map (\<lambda>h. (at h, strong h)) hs)) (run_actions True lost_reference (created 1)) =
      Some (1, [(ReleasingStorage, 0), (Rest, 1)])"
    by code_simp
  then obtain s hs where run: "run_actions True lost_reference (created 1) = Some (s, hs)"
    and "destroyed s = 1" "map (\<lambda>h. (at h, strong h)) hs = [(ReleasingStorage, 0), (Rest, 1)]"
    by (auto simp: map_option_case split: option.splits)
  then show ?thesis
    using run_actions_reachable [OF reachable.created run] by (intro exI [of _ s] exI [of _ hs]) auto
qed

definition demo_refs :: "(nat \<times> action) list" where
  "demo_refs =
     [(0, Begin AcquireWeakRef), (0, GiveWeak 1), (1, Begin Acquire), (1, Continue False), (1, Continue False),
      (1, Continue False), (0, Begin ReleaseInstanceRef), (0, Continue False)]"


end
