(* ===== verification/Pointers.thy ===== *)
theory Pointers
  imports RefCounts
begin

text \<open>
  The pointers \<open>Ptr\<close> and \<open>WeakPtr\<close> (\<open>include/my/rtti/ptr.h\<close>, \<open>weak_ptr.h\<close>) over the shared states of theory
  RefCounts, in one thread: every call runs its atomic operations one after the other.  Pointers are numbered
  variables, objects are numbered in the order of their creation.
\<close>

section \<open>The shared state, whole calls\<close>

definition addInstanceRef :: "shared \<Rightarrow> shared" where
  "addInstanceRef s = addRef_state (addRef_instance s)"

definition releaseStorageRef :: "shared \<Rightarrow> shared" where
  "releaseStorageRef s =
     (let (v, s) = removeRef_state s
      in if v = 1 then s\<lparr>freed := Suc (freed s),
           bad := (bad s \<or> freed s > 0 \<or> m_stateCounter s \<noteq> 0 \<or> m_instanceCounter s \<noteq> 0)\<rparr> else s)"

definition releaseInstanceRef :: "shared \<Rightarrow> shared" where
  "releaseInstanceRef s =
     (let (v, s) = removeRef_instance s
      in releaseStorageRef (if v = 1 then (touch_instance s)\<lparr>destroyed := Suc (destroyed s)\<rparr> else s))"

definition acquireWeakRef :: "shared \<Rightarrow> shared" where
  "acquireWeakRef s = addRef_state s"

definition addWeakRef :: "shared \<Rightarrow> shared" where
  "addWeakRef s = addRef_state s"

definition releaseRef :: "shared \<Rightarrow> shared" where
  "releaseRef s = releaseStorageRef s"

definition tryAddRef :: "shared \<Rightarrow> bool \<times> shared" where
  "tryAddRef s =
     (if m_instanceCounter s = 0 then (False, touch s)
      else (True, (touch s)\<lparr>m_instanceCounter := Suc (m_instanceCounter s)\<rparr>))"

definition acquire_ref :: "shared \<Rightarrow> bool \<times> shared" where
  "acquire_ref s = (let (b, s) = tryAddRef s in (b, if b then touch_instance (addRef_state s) else s))"

definition isDead_ref :: "shared \<Rightarrow> bool \<times> shared" where
  "isDead_ref s = (m_instanceCounter s = 0, (touch s)\<lparr>bad := (bad (touch s) \<or> m_stateCounter s = 0)\<rparr>)"

section \<open>Pointers\<close>

record pointers =
  m_instance :: "nat option list"
  m_weakRef :: "nat option list"
  objects :: "shared list"

definition at_object :: "(shared \<Rightarrow> shared) \<Rightarrow> nat option \<Rightarrow> pointers \<Rightarrow> pointers" where
  "at_object f x s = (case x of None \<Rightarrow> s | Some i \<Rightarrow> s\<lparr>objects := (objects s)[i := f (objects s ! i)]\<rparr>)"

definition setPtr :: "nat \<Rightarrow> nat option \<Rightarrow> pointers \<Rightarrow> pointers" where
  "setPtr v x s = s\<lparr>m_instance := (m_instance s)[v := x]\<rparr>"

definition setWeak :: "nat \<Rightarrow> nat option \<Rightarrow> pointers \<Rightarrow> pointers" where
  "setWeak k x s = s\<lparr>m_weakRef := (m_weakRef s)[k := x]\<rparr>"

text \<open>\<open>Ptr\<close>: the exchange of the pointer, the release of the previous instance, and the new reference.\<close>

definition acquire :: "nat \<Rightarrow> nat option \<Rightarrow> pointers \<Rightarrow> pointers" where
  "acquire v x s = at_object addInstanceRef x (at_object releaseInstanceRef (m_instance s ! v) (setPtr v x s))"

definition moveAcquire :: "nat \<Rightarrow> nat option \<Rightarrow> pointers \<Rightarrow> pointers" where
  "moveAcquire v x s = at_object releaseInstanceRef (m_instance s ! v) (setPtr v x s)"

definition giveUp :: "nat \<Rightarrow> pointers \<Rightarrow> nat option \<times> pointers" where
  "giveUp v s = (m_instance s ! v, setPtr v None s)"

definition copyPtr :: "nat \<Rightarrow> nat option \<Rightarrow> pointers \<Rightarrow> pointers" where
  "copyPtr v x s = at_object addInstanceRef x (setPtr v x s)"

definition createInstance :: "nat \<Rightarrow> pointers \<Rightarrow> pointers" where
  "createInstance v s = moveAcquire v (Some (length (objects s))) (s\<lparr>objects := objects s @ [new_state]\<rparr>)"

text \<open>\<open>WeakPtr\<close>.\<close>

definition weak_reset :: "nat \<Rightarrow> pointers \<Rightarrow> pointers" where
  "weak_reset k s = at_object releaseRef (m_weakRef s ! k) (setWeak k None s)"

definition weak_from :: "nat \<Rightarrow> nat option \<Rightarrow> pointers \<Rightarrow> pointers" where
  "weak_from k x s = at_object acquireWeakRef x (setWeak k x s)"

definition weak_copy :: "nat \<Rightarrow> nat option \<Rightarrow> pointers \<Rightarrow> pointers" where
  "weak_copy k x s = at_object addWeakRef x (setWeak k x s)"

definition weak_copy_assign :: "nat \<Rightarrow> nat \<Rightarrow> pointers \<Rightarrow> pointers" where
  "weak_copy_assign k l s = (let s = weak_reset k s in weak_copy k (m_weakRef s ! l) s)"

definition weak_move_assign :: "nat \<Rightarrow> nat \<Rightarrow> pointers \<Rightarrow> pointers" where
  "weak_move_assign k l s =
     (let s = weak_reset k s; x = m_weakRef s ! k; y = m_weakRef s ! l in setWeak l x (setWeak k y s))"

definition weak_acquire :: "nat \<Rightarrow> nat \<Rightarrow> pointers \<Rightarrow> bool \<times> pointers" where
  "weak_acquire v k s =
     (case m_weakRef s ! k of
        None \<Rightarrow> (False, s)
      | Some i \<Rightarrow>
          (let (b, r) = acquire_ref (objects s ! i); s = s\<lparr>objects := (objects s)[i := r]\<rparr>
           in (b, if b then setPtr v (Some i) s else s)))"

definition weak_isDead :: "nat \<Rightarrow> pointers \<Rightarrow> bool \<times> pointers" where
  "weak_isDead k s =
     (case m_weakRef s ! k of
        None \<Rightarrow> (True, s)
      | Some i \<Rightarrow> (let (b, r) = isDead_ref (objects s ! i) in (b, s\<lparr>objects := (objects s)[i := r]\<rparr>)))"

section \<open>Calls\<close>

text \<open>Constructors have a variable that is null.\<close>

datatype pointer_op =
    Create nat
  | CopyConstruct nat nat | MoveConstruct nat nat | CopyAssign nat nat | MoveAssign nat nat | Reset nat
  | WeakConstruct nat nat | WeakAssign nat nat | WeakCopyConstruct nat nat | WeakMoveConstruct nat nat
  | WeakCopyAssign nat nat | WeakMoveAssign nat nat | WeakReset nat
  | Lock nat nat | Dead nat

definition checked :: "bool \<times> pointers \<Rightarrow> (pointers \<times> bool) option" where
  "checked r = (if list_all (\<lambda>x. \<not> bad x) (objects (snd r)) then Some (snd r, fst r) else None)"

abbreviation quietly :: "pointers \<Rightarrow> (pointers \<times> bool) option" where
  "quietly s \<equiv> checked (False, s)"

fun pointer_exec :: "pointer_op \<Rightarrow> pointers \<Rightarrow> (pointers \<times> bool) option" where
  "pointer_exec (Create v) s =
     (if v < length (m_instance s) then quietly (createInstance v s) else None)"
| "pointer_exec (CopyConstruct v w) s =
     (if v < length (m_instance s) \<and> w < length (m_instance s) \<and> m_instance s ! v = None
      then quietly (copyPtr v (m_instance s ! w) s) else None)"
| "pointer_exec (MoveConstruct v w) s =
     (if v < length (m_instance s) \<and> w < length (m_instance s) \<and> m_instance s ! v = None
      then quietly (let (x, s) = giveUp w s in setPtr v x s) else None)"
| "pointer_exec (CopyAssign v w) s =
     (if v < length (m_instance s) \<and> w < length (m_instance s) then quietly (acquire v (m_instance s ! w) s) else None)"
| "pointer_exec (MoveAssign v w) s =
     (if v < length (m_instance s) \<and> w < length (m_instance s)
      then quietly (let (x, s) = giveUp w s in moveAcquire v x s) else None)"
| "pointer_exec (Reset v) s =
     (if v < length (m_instance s) then quietly (acquire v None s) else None)"
| "pointer_exec (WeakConstruct k v) s =
     (if k < length (m_weakRef s) \<and> v < length (m_instance s) \<and> m_weakRef s ! k = None
      then quietly (weak_from k (m_instance s ! v) s) else None)"
| "pointer_exec (WeakAssign k v) s =
     (if k < length (m_weakRef s) \<and> v < length (m_instance s)
      then quietly (weak_from k (m_instance s ! v) (weak_reset k s)) else None)"
| "pointer_exec (WeakCopyConstruct k l) s =
     (if k < length (m_weakRef s) \<and> l < length (m_weakRef s) \<and> m_weakRef s ! k = None
      then quietly (weak_copy k (m_weakRef s ! l) s) else None)"
| "pointer_exec (WeakMoveConstruct k l) s =
     (if k < length (m_weakRef s) \<and> l < length (m_weakRef s) \<and> m_weakRef s ! k = None
      then quietly (setWeak k (m_weakRef s ! l) (setWeak l None s)) else None)"
| "pointer_exec (WeakCopyAssign k l) s =
     (if k < length (m_weakRef s) \<and> l < length (m_weakRef s) then quietly (weak_copy_assign k l s) else None)"
| "pointer_exec (WeakMoveAssign k l) s =
     (if k < length (m_weakRef s) \<and> l < length (m_weakRef s) then quietly (weak_move_assign k l s) else None)"
| "pointer_exec (WeakReset k) s =
     (if k < length (m_weakRef s) then quietly (weak_reset k s) else None)"
| "pointer_exec (Lock v k) s =
     (if v < length (m_instance s) \<and> k < length (m_weakRef s) \<and> m_instance s ! v = None
      then checked (weak_acquire v k s) else None)"
| "pointer_exec (Dead k) s =
     (if k < length (m_weakRef s) then checked (weak_isDead k s) else None)"

section \<open>The specification\<close>

text \<open>The variables and the number of objects: an object lives as long as a pointer variable has it.\<close>

type_synonym variables = "nat option list \<times> nat option list \<times> nat"

definition refs :: "nat option list \<Rightarrow> nat \<Rightarrow> nat" where
  "refs xs i = count_list xs (Some i)"

fun pointer_spec :: "pointer_op \<Rightarrow> variables \<Rightarrow> (variables \<times> bool) option" where
  "pointer_spec (Create v) (ps, ws, n) =
     (if v < length ps then Some ((ps[v := Some n], ws, Suc n), False) else None)"
| "pointer_spec (CopyConstruct v w) (ps, ws, n) =
     (if v < length ps \<and> w < length ps \<and> ps ! v = None then Some ((ps[v := ps ! w], ws, n), False) else None)"
| "pointer_spec (MoveConstruct v w) (ps, ws, n) =
     (if v < length ps \<and> w < length ps \<and> ps ! v = None then Some ((ps[w := None, v := ps ! w], ws, n), False) else None)"
| "pointer_spec (CopyAssign v w) (ps, ws, n) =
     (if v < length ps \<and> w < length ps \<and> \<not> (v = w \<and> (\<exists>i\<in>set_option (ps ! v). refs ps i = 1))
      then Some ((ps[v := ps ! w], ws, n), False) else None)"
| "pointer_spec (MoveAssign v w) (ps, ws, n) =
     (if v < length ps \<and> w < length ps then Some ((ps[w := None, v := ps ! w], ws, n), False) else None)"
| "pointer_spec (Reset v) (ps, ws, n) =
     (if v < length ps then Some ((ps[v := None], ws, n), False) else None)"
| "pointer_spec (WeakConstruct k v) (ps, ws, n) =
     (if k < length ws \<and> v < length ps \<and> ws ! k = None then Some ((ps, ws[k := ps ! v], n), False) else None)"
| "pointer_spec (WeakAssign k v) (ps, ws, n) =
     (if k < length ws \<and> v < length ps then Some ((ps, ws[k := ps ! v], n), False) else None)"
| "pointer_spec (WeakCopyConstruct k l) (ps, ws, n) =
     (if k < length ws \<and> l < length ws \<and> ws ! k = None then Some ((ps, ws[k := ws ! l], n), False) else None)"
| "pointer_spec (WeakMoveConstruct k l) (ps, ws, n) =
     (if k < length ws \<and> l < length ws \<and> ws ! k = None then Some ((ps, ws[l := None, k := ws ! l], n), False) else None)"
| "pointer_spec (WeakCopyAssign k l) (ps, ws, n) =
     (if k < length ws \<and> l < length ws then Some ((ps, ws[k := (if k = l then None else ws ! l)], n), False) else None)"
| "pointer_spec (WeakMoveAssign k l) (ps, ws, n) =
     (if k < length ws \<and> l < length ws
      then Some ((ps, ws[k := (if k = l then None else ws ! l), l := None], n), False) else None)"
| "pointer_spec (WeakReset k) (ps, ws, n) =
     (if k < length ws then Some ((ps, ws[k := None], n), False) else None)"
| "pointer_spec (Lock v k) (ps, ws, n) =
     (if v < length ps \<and> k < length ws \<and> ps ! v = None
      then (case ws ! k of
          None \<Rightarrow> Some ((ps, ws, n), False)
        | Some i \<Rightarrow> if refs ps i = 0 then Some ((ps, ws, n), False) else Some ((ps[v := Some i], ws, n), True))
      else None)"
| "pointer_spec (Dead k) (ps, ws, n) =
     (if k < length ws then Some ((ps, ws, n), case ws ! k of None \<Rightarrow> True | Some i \<Rightarrow> refs ps i = 0) else None)"

section \<open>The relation\<close>

definition shared_of :: "nat \<Rightarrow> nat \<Rightarrow> shared" where
  "shared_of s w = \<lparr>m_instanceCounter = s, m_stateCounter = s + w, destroyed = of_bool (s = 0), freed = of_bool (s + w = 0),
     bad = False\<rparr>"

definition fits :: "shared list \<Rightarrow> (nat \<Rightarrow> nat) \<Rightarrow> (nat \<Rightarrow> nat) \<Rightarrow> bool" where
  "fits xs S W \<longleftrightarrow> (\<forall>i<length xs. xs ! i = shared_of (S i) (W i))"

definition below :: "nat \<Rightarrow> nat option list \<Rightarrow> bool" where
  "below n xs \<longleftrightarrow> (\<forall>i. Some i \<in> set xs \<longrightarrow> i < n)"

text \<open>The objects fit to the variables.\<close>

definition shared_by :: "shared list \<Rightarrow> nat option list \<Rightarrow> nat option list \<Rightarrow> bool" where
  "shared_by xs ps ws \<longleftrightarrow> fits xs (refs ps) (refs ws) \<and> below (length xs) ps \<and> below (length xs) ws"

definition pointer_rel :: "pointers \<Rightarrow> variables \<Rightarrow> bool" where
  "pointer_rel s a \<longleftrightarrow> (case a of (ps, ws, n) \<Rightarrow>
     m_instance s = ps \<and> m_weakRef s = ws \<and> length (objects s) = n \<and> shared_by (objects s) ps ws)"

lemmas whole_defs = addInstanceRef_def releaseStorageRef_def releaseInstanceRef_def acquireWeakRef_def addWeakRef_def
  releaseRef_def tryAddRef_def acquire_ref_def isDead_ref_def atomic_defs shared_of_def Let_def

lemma shared_calls:
  "0 < S \<Longrightarrow> addInstanceRef (shared_of S W) = shared_of (Suc S) W"
  "bad (addInstanceRef (shared_of 0 W))"
  "0 < S \<Longrightarrow> releaseInstanceRef (shared_of S W) = shared_of (S - 1) W"
  "0 < S + W \<Longrightarrow> addRef_state (shared_of S W) = shared_of S (Suc W)"
  "0 < W \<Longrightarrow> releaseRef (shared_of S W) = shared_of S (W - 1)"
  "0 < W \<Longrightarrow> acquire_ref (shared_of S W) = (0 < S, shared_of (if 0 < S then Suc S else S) W)"
  "0 < W \<Longrightarrow> isDead_ref (shared_of S W) = (S = 0, shared_of S W)"
  "new_state = shared_of 1 0" "\<not> bad (shared_of S W)"
  by (auto simp: whole_defs new_state_def)

section \<open>One variable changes\<close>

definition obj_at :: "(shared \<Rightarrow> shared) \<Rightarrow> nat option \<Rightarrow> shared list \<Rightarrow> shared list" where
  "obj_at f x xs = (case x of None \<Rightarrow> xs | Some i \<Rightarrow> xs[i := f (xs ! i)])"

lemma pointer_fields [simp]:
  "m_instance (at_object f x s) = m_instance s" "m_weakRef (at_object f x s) = m_weakRef s"
  "objects (at_object f x s) = obj_at f x (objects s)"
  "m_instance (setPtr v x s) = (m_instance s)[v := x]" "m_weakRef (setPtr v x s) = m_weakRef s" "objects (setPtr v x s) = objects s"
  "m_instance (setWeak v x s) = m_instance s" "m_weakRef (setWeak v x s) = (m_weakRef s)[v := x]" "objects (setWeak v x s) = objects s"
  by (auto simp: at_object_def obj_at_def setPtr_def setWeak_def split: option.split)

lemma obj_at_simps [simp]: "obj_at f None xs = xs" "length (obj_at f x xs) = length xs"
  by (auto simp: obj_at_def split: option.split)

lemma refs_set_some:
  assumes "v < length xs" "xs ! v = None"
  shows "refs (xs[v := Some i]) = (refs xs)(i := Suc (refs xs i))"
proof
  fix j show "refs (xs[v := Some i]) j = ((refs xs)(i := Suc (refs xs i))) j"
    using count_list_update [OF assms(1), of "Some i" "Some j"] assms(2) by (auto simp: refs_def of_bool_def split: if_splits)
qed

lemma refs_drop:
  assumes "v < length xs" "xs ! v = Some i"
  shows "refs (xs[v := None]) = (refs xs)(i := refs xs i - 1)" "0 < refs xs i"
proof -
  show "0 < refs xs i" using assms by (metis count_list_0_iff gr0I nth_mem refs_def)
  show "refs (xs[v := None]) = (refs xs)(i := refs xs i - 1)"
  proof
    fix j show "refs (xs[v := None]) j = ((refs xs)(i := refs xs i - 1)) j"
      using count_list_update [OF assms(1), of None "Some j"] assms(2) by (auto simp: refs_def of_bool_def split: if_splits)
  qed
qed

lemma refs_pos: "0 < refs xs i \<longleftrightarrow> Some i \<in> set xs"
  by (metis count_list_0_iff gr0I less_irrefl refs_def)

lemma refs_none [simp]: "v < length xs \<Longrightarrow> xs ! v = None \<Longrightarrow> refs (xs[v := None]) = refs xs"
  by (metis list_update_id)

lemma below_update: "below n xs \<Longrightarrow> (\<And>i. x = Some i \<Longrightarrow> i < n) \<Longrightarrow> below n (xs[v := x])"
  using set_update_subset_insert [of xs v x] by (fastforce simp: below_def)

lemma below_none [simp]: "below n xs \<Longrightarrow> below n (xs[v := None])"
  by (rule below_update) auto

lemma below_some [simp]: "below n xs \<Longrightarrow> i < n \<Longrightarrow> below n (xs[v := Some i])"
  by (rule below_update) auto

lemma below_mono: "below n xs \<Longrightarrow> n \<le> m \<Longrightarrow> below m xs"
  by (auto simp: below_def)

lemma below_refs: "below n xs \<Longrightarrow> 0 < refs xs i \<Longrightarrow> i < n"
  by (simp add: below_def refs_pos)

lemma fits_change:
  assumes "fits xs S W" "i < length xs" "r = shared_of (S' i) (W' i)" "\<And>j. j \<noteq> i \<Longrightarrow> S' j = S j \<and> W' j = W j"
  shows "fits (xs[i := r]) S' W'"
  using assms by (auto simp: fits_def nth_list_update)

definition held :: "nat option list \<Rightarrow> nat option list \<Rightarrow> nat option \<Rightarrow> bool" where
  "held ps ws x \<longleftrightarrow> (\<forall>i. x = Some i \<longrightarrow> 0 < refs ps i + refs ws i)"

lemma drop_ptr:
  assumes "shared_by xs ps ws" "v < length ps"
  shows "shared_by (obj_at releaseInstanceRef (ps ! v) xs) (ps[v := None]) ws"
proof (cases "ps ! v")
  case None
  then show ?thesis using assms by (simp add: shared_by_def below_update)
next
  case (Some i)
  note r = refs_drop [OF assms(2) Some]
  have i: "i < length xs" using assms(1) r(2) below_refs by (auto simp: shared_by_def)
  then have "xs ! i = shared_of (refs ps i) (refs ws i)" using assms(1) by (simp add: shared_by_def fits_def)
  then have "fits (xs[i := releaseInstanceRef (xs ! i)]) (refs (ps[v := None])) (refs ws)"
    using assms(1) i r by (intro fits_change [of xs "refs ps" "refs ws"]) (auto simp: shared_by_def shared_calls)
  then show ?thesis using assms Some by (simp add: shared_by_def obj_at_def below_update)
qed

lemma put_ptr:
  assumes "shared_by xs ps ws" "v < length ps" "ps ! v = None" "\<And>i. x = Some i \<Longrightarrow> 0 < refs ps i"
  shows "shared_by (obj_at addInstanceRef x xs) (ps[v := x]) ws"
proof (cases x)
  case None
  then show ?thesis using assms by (simp add: shared_by_def below_update)
next
  case (Some i)
  have i: "i < length xs" using assms(1) assms(4) [OF Some] below_refs by (auto simp: shared_by_def)
  then have "xs ! i = shared_of (refs ps i) (refs ws i)" using assms(1) by (simp add: shared_by_def fits_def)
  then have "fits (xs[i := addInstanceRef (xs ! i)]) (refs (ps[v := Some i])) (refs ws)"
    using assms(1) i assms(4) [OF Some] refs_set_some [OF assms(2,3), of i]
    by (intro fits_change [of xs "refs ps" "refs ws"]) (auto simp: shared_by_def shared_calls)
  then show ?thesis using assms Some i by (simp add: shared_by_def obj_at_def below_update)
qed

lemma drop_weak:
  assumes "shared_by xs ps ws" "k < length ws"
  shows "shared_by (obj_at releaseRef (ws ! k) xs) ps (ws[k := None])"
proof (cases "ws ! k")
  case None
  then show ?thesis using assms by (simp add: shared_by_def below_update)
next
  case (Some i)
  note r = refs_drop [OF assms(2) Some]
  have i: "i < length xs" using assms(1) r(2) below_refs by (auto simp: shared_by_def)
  then have "xs ! i = shared_of (refs ps i) (refs ws i)" using assms(1) by (simp add: shared_by_def fits_def)
  then have "fits (xs[i := releaseRef (xs ! i)]) (refs ps) (refs (ws[k := None]))"
    using assms(1) i r by (intro fits_change [of xs "refs ps" "refs ws"]) (auto simp: shared_by_def shared_calls)
  then show ?thesis using assms Some by (simp add: shared_by_def obj_at_def below_update)
qed

lemma put_weak:
  assumes "shared_by xs ps ws" "k < length ws" "ws ! k = None" "held ps ws x"
  shows "shared_by (obj_at addRef_state x xs) ps (ws[k := x])"
proof (cases x)
  case None
  then show ?thesis using assms by (simp add: shared_by_def below_update)
next
  case (Some i)
  then have h: "0 < refs ps i + refs ws i" using assms(4) by (simp add: held_def)
  have i: "i < length xs" using assms(1) h below_refs by (auto simp: shared_by_def)
  then have "xs ! i = shared_of (refs ps i) (refs ws i)" using assms(1) by (simp add: shared_by_def fits_def)
  then have "fits (xs[i := addRef_state (xs ! i)]) (refs ps) (refs (ws[k := Some i]))"
    using assms(1) i h refs_set_some [OF assms(2,3), of i]
    by (intro fits_change [of xs "refs ps" "refs ws"]) (auto simp: shared_by_def shared_calls)
  then show ?thesis using assms Some i by (simp add: shared_by_def obj_at_def below_update)
qed

lemma refs_move:
  assumes "v < length xs" "w < length xs" "xs ! v = None"
  shows "refs (xs[w := None, v := xs ! w]) = refs xs"
proof (cases "xs ! w")
  case None
  then show ?thesis using assms by (metis list_update_id nth_list_update_neq)
next
  case (Some i)
  then have "v \<noteq> w" using assms(3) by auto
  then have "refs (xs[w := None, v := xs ! w]) = (refs (xs[w := None]))(i := Suc (refs (xs[w := None]) i))"
    using refs_set_some [of v "xs[w := None]" i] assms(1,3) Some by simp
  then show ?thesis using refs_drop [OF assms(2) Some] by (simp add: fun_eq_iff)
qed

lemma below_nth: "below n xs \<Longrightarrow> w < length xs \<Longrightarrow> xs ! w = Some i \<Longrightarrow> i < n"
  unfolding below_def by (metis nth_mem)

lemma move_ptr:
  assumes "shared_by xs ps ws" "v < length ps" "w < length ps" "ps ! v = None"
  shows "shared_by xs (ps[w := None, v := ps ! w]) ws"
  using assms refs_move [OF assms(2-4)] below_nth [of "length xs" ps w]
  by (auto simp: shared_by_def intro!: below_update)

lemma move_weak:
  assumes "shared_by xs ps ws" "v < length ws" "w < length ws" "ws ! v = None"
  shows "shared_by xs ps (ws[w := None, v := ws ! w])"
  using assms refs_move [OF assms(2-4)] below_nth [of "length xs" ws w]
  by (auto simp: shared_by_def intro!: below_update)

lemma shared_not_bad:
  assumes "shared_by xs ps ws"
  shows "list_all (\<lambda>x. \<not> bad x) xs"
  using assms by (auto simp: list_all_length shared_by_def fits_def shared_calls)

section \<open>The simulation\<close>

lemma weak_adds: "acquireWeakRef = addRef_state" "addWeakRef = addRef_state"
  by (simp_all add: fun_eq_iff acquireWeakRef_def addWeakRef_def)

lemma checked_step:
  assumes "shared_by (objects s) ps ws" "m_instance s = ps" "m_weakRef s = ws" "length (objects s) = n"
  shows "same_step pointer_rel (checked (b, s)) (Some ((ps, ws, n), b))"
proof (rule same_stepI(2) [OF _ refl])
  show "checked (b, s) = Some (s, b)" using shared_not_bad [OF assms(1)] by (simp add: checked_def)
  show "pointer_rel s (ps, ws, n)" using assms by (simp add: pointer_rel_def)
qed

lemma refs_other: "v \<noteq> w \<Longrightarrow> w < length ps \<Longrightarrow> ps ! w = Some i \<Longrightarrow> 0 < refs (ps[v := x]) i"
  unfolding refs_pos by (metis length_list_update nth_list_update_neq nth_mem)

lemma create_step:
  assumes "shared_by (objects s) (m_instance s) (m_weakRef s)" "v < length (m_instance s)"
  shows "shared_by (objects (createInstance v s)) ((m_instance s)[v := Some (length (objects s))]) (m_weakRef s)"
proof -
  let ?n = "length (objects s)" and ?ps = "m_instance s" and ?ws = "m_weakRef s"
  have d: "shared_by (obj_at releaseInstanceRef (?ps ! v) (objects s)) (?ps[v := None]) ?ws"
    using drop_ptr [OF assms] .
  have none: "Some ?n \<notin> set (?ps[v := None])" "Some ?n \<notin> set ?ws"
    using d by (auto simp: shared_by_def below_def)
  have b: "?ps ! v = Some i \<Longrightarrow> i < ?n" for i using assms below_nth by (auto simp: shared_by_def)
  have objs: "objects (createInstance v s) = obj_at releaseInstanceRef (?ps ! v) (objects s) @ [new_state]"
    using b by (auto simp: createInstance_def moveAcquire_def obj_at_def nth_append list_update_append split: option.split)
  let ?xs = "obj_at releaseInstanceRef (?ps ! v) (objects s)"
  have r: "refs (?ps[v := Some ?n]) = (refs (?ps[v := None]))(?n := Suc 0)"
    using refs_set_some [of v "?ps[v := None]" ?n] assms(2) none(1) refs_pos [of "?ps[v := None]" ?n] by simp
  have w: "refs ?ws ?n = 0" using none(2) refs_pos by (metis gr0I)
  have "fits (?xs @ [new_state]) (refs (?ps[v := Some ?n])) (refs ?ws)"
    using d r w by (auto simp: shared_by_def fits_def nth_append shared_calls less_Suc_eq)
  moreover have "below (Suc ?n) ?ps" "below (Suc ?n) ?ws"
    using assms(1) by (auto simp: shared_by_def elim: below_mono)
  ultimately show ?thesis unfolding objs by (simp add: shared_by_def)
qed

lemma ptr_assign_step:
  assumes "shared_by (objects s) (m_instance s) (m_weakRef s)" "v < length (m_instance s)" "w < length (m_instance s)"
    and "\<not> (v = w \<and> (\<exists>i\<in>set_option (m_instance s ! v). refs (m_instance s) i = 1))"
  shows "shared_by (objects (acquire v (m_instance s ! w) s)) ((m_instance s)[v := m_instance s ! w]) (m_weakRef s)"
proof -
  have "0 < refs ((m_instance s)[v := None]) i" if "m_instance s ! w = Some i" for i
  proof (cases "v = w")
    case True
    then have "1 < refs (m_instance s) i"
      using assms(4) that refs_drop(2) [OF assms(3) that] by auto
    then show ?thesis using refs_drop(1) [OF assms(3) that] True by simp
  qed (use refs_other assms(3) that in blast)
  then show ?thesis
    using put_ptr [OF drop_ptr [OF assms(1,2)], of v "m_instance s ! w"] assms(2) by (simp add: acquire_def)
qed

lemma self_assign_fails:
  assumes "shared_by (objects s) (m_instance s) (m_weakRef s)" "v < length (m_instance s)" "m_instance s ! v = Some i"
    "refs (m_instance s) i = 1"
  shows "checked (False, acquire v (m_instance s ! v) s) = None"
proof -
  have i: "i < length (objects s)" using assms(1) below_nth [OF _ assms(2,3)] by (auto simp: shared_by_def)
  then have "objects s ! i = shared_of 1 (refs (m_weakRef s) i)"
    using assms(1,4) by (simp add: shared_by_def fits_def)
  then have "bad (objects (acquire v (Some i) s) ! i)"
    using assms(3) i by (simp add: acquire_def obj_at_def shared_calls)
  moreover have "i < length (objects (acquire v (Some i) s))" using i by (simp add: acquire_def)
  ultimately show ?thesis using assms(3) by (auto simp: checked_def list_all_length)
qed

lemma move_assign_step:
  assumes "shared_by (objects s) (m_instance s) (m_weakRef s)" "v < length (m_instance s)" "w < length (m_instance s)"
  shows "shared_by (objects (moveAcquire v (m_instance s ! w) (setPtr w None s))) ((m_instance s)[w := None, v := m_instance s ! w]) (m_weakRef s)"
proof (cases "v = w")
  case True
  then show ?thesis using assms by (simp add: moveAcquire_def)
next
  case False
  have "shared_by (obj_at releaseInstanceRef (m_instance s ! v) (objects s))
      ((m_instance s)[v := None, w := None, v := m_instance s ! w]) (m_weakRef s)"
    using move_ptr [OF drop_ptr [OF assms(1,2)], of v w] assms(2,3) False by simp
  moreover have "(m_instance s)[v := None, w := None, v := m_instance s ! w] = (m_instance s)[w := None, v := m_instance s ! w]"
    using False by (metis list_update_overwrite list_update_swap)
  ultimately show ?thesis using False by (simp add: moveAcquire_def)
qed

lemma weak_from_step:
  assumes "shared_by (objects s) (m_instance s) (m_weakRef s)" "k < length (m_weakRef s)" "v < length (m_instance s)"
    "m_weakRef s ! k = None"
  shows "shared_by (objects (weak_from k (m_instance s ! v) s)) (m_instance s) ((m_weakRef s)[k := m_instance s ! v])"
proof -
  have "held (m_instance s) (m_weakRef s) (m_instance s ! v)"
    using refs_drop(2) [OF assms(3)] by (auto simp: held_def)
  then show ?thesis
    using put_weak [OF assms(1,2,4)] by (simp add: weak_from_def weak_adds)
qed

lemma weak_copy_step:
  assumes "shared_by (objects s) (m_instance s) (m_weakRef s)" "k < length (m_weakRef s)" "m_weakRef s ! k = None"
    "l < length (m_weakRef s)"
  shows "shared_by (objects (weak_copy k (m_weakRef s ! l) s)) (m_instance s) ((m_weakRef s)[k := m_weakRef s ! l])"
proof -
  have "held (m_instance s) (m_weakRef s) (m_weakRef s ! l)"
    using refs_drop(2) [OF assms(4)] by (auto simp: held_def)
  then show ?thesis
    using put_weak [OF assms(1-3)] by (simp add: weak_copy_def weak_adds)
qed

lemma weak_reset_step:
  assumes "shared_by (objects s) (m_instance s) (m_weakRef s)" "k < length (m_weakRef s)"
  shows "shared_by (objects (weak_reset k s)) (m_instance s) ((m_weakRef s)[k := None])"
  using drop_weak [OF assms] by (simp add: weak_reset_def)

lemma weak_reset_fields [simp]:
  "m_instance (weak_reset k s) = m_instance s" "m_weakRef (weak_reset k s) = (m_weakRef s)[k := None]"
  "length (objects (weak_reset k s)) = length (objects s)"
  by (simp_all add: weak_reset_def)

lemma ptr_lock_step:
  assumes "shared_by (objects s) (m_instance s) (m_weakRef s)" "v < length (m_instance s)" "k < length (m_weakRef s)"
    "m_instance s ! v = None"
  shows "same_step pointer_rel (checked (weak_acquire v k s)) (pointer_spec (Lock v k) (m_instance s, m_weakRef s, length (objects s)))"
proof (cases "m_weakRef s ! k")
  case None
  then show ?thesis
    using checked_step [OF assms(1) refl refl refl, of False] assms(2-4) by (simp add: weak_acquire_def)
next
  case (Some i)
  have i: "i < length (objects s)" using assms(1,3) Some below_nth by (auto simp: shared_by_def)
  then have o: "objects s ! i = shared_of (refs (m_instance s) i) (refs (m_weakRef s) i)"
    using assms(1) by (simp add: shared_by_def fits_def)
  have w: "0 < refs (m_weakRef s) i" using refs_drop(2) [OF assms(3) Some] .
  show ?thesis
  proof (cases "refs (m_instance s) i = 0")
    case True
    then have "(objects s)[i := shared_of 0 (refs (m_weakRef s) i)] = objects s" using o by (metis list_update_id)
    then have "weak_acquire v k s = (False, s)"
      using Some o w True by (simp add: weak_acquire_def shared_calls)
    then show ?thesis
      using checked_step [OF assms(1) refl refl refl, of False] assms(2-4) Some True by simp
  next
    case False
    then have a: "weak_acquire v k s =
        (True, setPtr v (Some i) (s\<lparr>objects := (objects s)[i := shared_of (Suc (refs (m_instance s) i)) (refs (m_weakRef s) i)]\<rparr>))"
      using Some o w by (simp add: weak_acquire_def shared_calls)
    have "shared_by ((objects s)[i := shared_of (Suc (refs (m_instance s) i)) (refs (m_weakRef s) i)])
        ((m_instance s)[v := Some i]) (m_weakRef s)"
      using put_ptr [OF assms(1,2,4), of "Some i"] False o by (simp add: obj_at_def shared_calls)
    then have "same_step pointer_rel (checked (weak_acquire v k s))
        (Some (((m_instance s)[v := Some i], m_weakRef s, length (objects s)), True))"
      unfolding a by (intro checked_step) (simp_all add: setPtr_def)
    then show ?thesis using assms(2-4) Some False by simp
  qed
qed

lemma dead_step:
  assumes "shared_by (objects s) (m_instance s) (m_weakRef s)" "k < length (m_weakRef s)"
  shows "same_step pointer_rel (checked (weak_isDead k s)) (pointer_spec (Dead k) (m_instance s, m_weakRef s, length (objects s)))"
proof (cases "m_weakRef s ! k")
  case None
  then show ?thesis
    using checked_step [OF assms(1) refl refl refl, of True] assms(2) by (simp add: weak_isDead_def)
next
  case (Some i)
  have i: "i < length (objects s)" using assms Some below_nth by (auto simp: shared_by_def)
  then have o: "objects s ! i = shared_of (refs (m_instance s) i) (refs (m_weakRef s) i)"
    using assms(1) by (simp add: shared_by_def fits_def)
  have "(objects s)[i := shared_of (refs (m_instance s) i) (refs (m_weakRef s) i)] = objects s" using o by (metis list_update_id)
  then have "weak_isDead k s = (refs (m_instance s) i = 0, s)"
    using Some o refs_drop(2) [OF assms(2) Some] by (simp add: weak_isDead_def shared_calls)
  then show ?thesis
    using checked_step [OF assms(1) refl refl refl] assms(2) Some by simp
qed

text \<open>Undefined on both sides where the arguments are no variables.\<close>

lemma pointer_step:
  assumes "pointer_rel s a"
  shows "same_step pointer_rel (pointer_exec x s) (pointer_spec x a)"
proof -
  let ?ps = "m_instance s" and ?ws = "m_weakRef s" and ?n = "length (objects s)"
  have a: "a = (?ps, ?ws, ?n)" and S: "shared_by (objects s) ?ps ?ws"
    using assms by (auto simp: pointer_rel_def)
  note step = checked_step [where b = False]
  show ?thesis
    unfolding a
  proof (cases x)
    case (Create v)
    then show "same_step pointer_rel (pointer_exec x s) (pointer_spec x (?ps, ?ws, ?n))"
      using step [OF create_step [OF S]] by (auto simp: createInstance_def moveAcquire_def)
  next
    case (CopyConstruct v w)
    have "shared_by (objects (copyPtr v (?ps ! w) s)) (?ps[v := ?ps ! w]) ?ws" if "v < length ?ps" "w < length ?ps" "?ps ! v = None"
      using put_ptr [OF S that(1,3), of "?ps ! w"] refs_drop(2) [OF that(2)] by (simp add: copyPtr_def)
    then show "same_step pointer_rel (pointer_exec x s) (pointer_spec x (?ps, ?ws, ?n))"
      using CopyConstruct step [of "copyPtr v (?ps ! w) s"] by (auto simp: copyPtr_def)
  next
    case (MoveConstruct v w)
    then show "same_step pointer_rel (pointer_exec x s) (pointer_spec x (?ps, ?ws, ?n))"
      using step [of "setPtr v (?ps ! w) (setPtr w None s)"] move_ptr [OF S, of v w] by (auto simp: giveUp_def)
  next
    case (CopyAssign v w)
    show "same_step pointer_rel (pointer_exec x s) (pointer_spec x (?ps, ?ws, ?n))"
    proof (cases "v < length ?ps \<and> w < length ?ps")
      case True
      show ?thesis
      proof (cases "v = w \<and> (\<exists>i\<in>set_option (?ps ! v). refs ?ps i = 1)")
        case bad: True
        then obtain i where "?ps ! v = Some i" "refs ?ps i = 1" by auto
        then have "pointer_exec x s = None" using CopyAssign True bad self_assign_fails [OF S] by simp
        moreover have "pointer_spec x (?ps, ?ws, ?n) = None" using CopyAssign bad by auto
        ultimately show ?thesis by (rule same_stepI(1))
      next
        case False
        then show ?thesis
          using CopyAssign True step [OF ptr_assign_step [OF S _ _ False]] by (simp add: acquire_def)
      qed
    qed (use CopyAssign in auto)
  next
    case (MoveAssign v w)
    then show "same_step pointer_rel (pointer_exec x s) (pointer_spec x (?ps, ?ws, ?n))"
      using step [OF move_assign_step [OF S]] by (auto simp: giveUp_def moveAcquire_def)
  next
    case (Reset v)
    then show "same_step pointer_rel (pointer_exec x s) (pointer_spec x (?ps, ?ws, ?n))"
      using step [of "acquire v None s"] drop_ptr [OF S, of v] by (auto simp: acquire_def)
  next
    case (WeakConstruct k v)
    then show "same_step pointer_rel (pointer_exec x s) (pointer_spec x (?ps, ?ws, ?n))"
      using step [OF weak_from_step [OF S]] by (auto simp: weak_from_def)
  next
    case (WeakAssign k v)
    then show "same_step pointer_rel (pointer_exec x s) (pointer_spec x (?ps, ?ws, ?n))"
      using step [of "weak_from k (?ps ! v) (weak_reset k s)"] weak_from_step [of "weak_reset k s" k v] weak_reset_step [OF S, of k]
      by (auto simp: weak_from_def)
  next
    case (WeakCopyConstruct k l)
    then show "same_step pointer_rel (pointer_exec x s) (pointer_spec x (?ps, ?ws, ?n))"
      using step [OF weak_copy_step [OF S]] by (auto simp: weak_copy_def)
  next
    case (WeakMoveConstruct k l)
    then show "same_step pointer_rel (pointer_exec x s) (pointer_spec x (?ps, ?ws, ?n))"
      using step [of "setWeak k (?ws ! l) (setWeak l None s)"] move_weak [OF S, of k l] by auto
  next
    case (WeakCopyAssign k l)
    show "same_step pointer_rel (pointer_exec x s) (pointer_spec x (?ps, ?ws, ?n))"
    proof (cases "k < length ?ws \<and> l < length ?ws")
      case True
      have "shared_by (objects (weak_copy_assign k l s)) ?ps (?ws[k := (if k = l then None else ?ws ! l)])"
        using True weak_copy_step [of "weak_reset k s" k l] weak_reset_step [OF S, of k]
        by (cases "k = l") (simp_all add: weak_copy_assign_def Let_def)
      then show ?thesis
        using WeakCopyAssign True by (auto intro!: step simp: weak_copy_assign_def weak_copy_def Let_def)
    qed (use WeakCopyAssign in auto)
  next
    case (WeakMoveAssign k l)
    show "same_step pointer_rel (pointer_exec x s) (pointer_spec x (?ps, ?ws, ?n))"
    proof (cases "k < length ?ws \<and> l < length ?ws")
      case True
      have "shared_by (objects (weak_move_assign k l s)) ?ps (?ws[k := (if k = l then None else ?ws ! l), l := None])"
      proof (cases "k = l")
        case False
        then have "shared_by (objects (weak_reset k s)) ?ps (?ws[k := None, l := None, k := ?ws ! l])"
          using True move_weak [OF weak_reset_step [OF S, of k], of k l] by simp
        moreover have "?ws[k := None, l := None, k := ?ws ! l] = ?ws[k := ?ws ! l, l := None]"
          using False by (metis list_update_overwrite list_update_swap)
        ultimately show ?thesis using False by (simp add: weak_move_assign_def Let_def)
      qed (use True weak_reset_step [OF S, of k] in \<open>simp add: weak_move_assign_def Let_def\<close>)
      then show ?thesis
        using WeakMoveAssign True by (auto intro!: step simp: weak_move_assign_def Let_def)
    qed (use WeakMoveAssign in auto)
  next
    case (WeakReset k)
    then show "same_step pointer_rel (pointer_exec x s) (pointer_spec x (?ps, ?ws, ?n))"
      using step [OF weak_reset_step [OF S]] by auto
  next
    case (Lock v k)
    then show "same_step pointer_rel (pointer_exec x s) (pointer_spec x (?ps, ?ws, ?n))"
      using ptr_lock_step [OF S, of v k] by (cases "v < length ?ps \<and> k < length ?ws \<and> ?ps ! v = None") auto
  next
    case (Dead k)
    then show "same_step pointer_rel (pointer_exec x s) (pointer_spec x (?ps, ?ws, ?n))"
      using dead_step [OF S, of k] by (cases "k < length ?ws") auto
  qed
qed

interpretation pointer: simulation pointer_exec pointer_spec pointer_rel
  by unfold_locales (rule pointer_step)

definition null_variables :: "nat \<Rightarrow> nat \<Rightarrow> pointers" where
  "null_variables p w = \<lparr>m_instance = replicate p None, m_weakRef = replicate w None, objects = []\<rparr>"

lemma pointer_start: "pointer_rel (null_variables p w) (replicate p None, replicate w None, 0)"
  by (auto simp: null_variables_def pointer_rel_def shared_by_def fits_def below_def)

section \<open>Properties\<close>



definition demo_pointers :: "pointer_op list" where
  "demo_pointers =
     [Create 0, WeakConstruct 0 0, CopyConstruct 1 0, MoveAssign 0 1, Lock 2 0, Reset 2, Reset 0, Dead 0, Lock 2 0, Create 1]"


end
