(* ===== verification/Spec2Isabelle.thy ===== *)
theory Spec2Isabelle
  imports Strings FsPath IntrusiveList Base64 Buffer MemoryStream Vfs CoreTaskLiveness TaskJoinRuns Cancelling HttpParser CoreTaskPtr ObjectRegistry
    RuntimeStack RuntimeValue ServiceOrder ServiceProvider WorkQueue ThreadPool Pointers
begin

text \<open>
  A model of the kernel library of the engine (\<open>engine/kernel\<close> under \<open>src/\<close>) and what makes it correct.

  The program.  The kernel is the library under the engine's modules.  At its bottom are memory (page memory,
  block allocators, the stack allocator of a thread, reference-counted byte buffers) and the utilities on
  strings and containers.  Above them are paths, streams and the virtual file system; tasks, the unit of
  asynchronous work, whose storage comes from the block allocators; the registry of live runtime objects; and
  runtime values, the type-erased representation through which configuration and serialization read and write
  C++ data.  The other modules (Lua scripting, the core application) are clients of the kernel.

  The conventions.  A \<open>struct\<close> or class with state is a record, a pointer an address or an index with \<open>0\<close> or
  \<open>None\<close> for null, a heap an explicit map.  An operation is a function on the state; \<open>None\<close> means that the code
  has no defined behaviour or stops: a failed \<open>MY_DEBUG_ASSERT\<close>, \<open>MY_DEBUG_FATAL\<close> or \<open>MY_FATAL\<close>, a null
  dereference, a call outside the standard library's preconditions.  The build modelled is the one with
  assertions, so that a proved refinement includes that no assertion fails.  In the task model a failing
  assertion is recorded in the state instead, since the other threads go on.  \<open>size_t\<close> is a natural number,
  with the width written out where a size is rounded (theory MemBase) or an integer narrowed (Base64, CoreTask,
  CoreTaskPtr, RuntimeValue).  A mutex makes a call one step; the lock-free code of tasks is a step relation.

  The shape.  Most components are interpreters of their operations, \<open>exec\<close>, beside a specification, \<open>spec\<close>, on
  an abstract state; the locales \<open>simulation\<close> and \<open>implements\<close> of the theory Prelude state the two contracts
  (the same results always, or wherever the specification defines them: the callers' obligations) and lift them
  to programs, and every component interprets one of them on its own definitions.

  The theories, in the order of their dependencies:
  Prelude: searching in strings, string views, the two contracts.
  Strings: \<open>src/utils/string_utils.cpp\<close>, \<open>include/my/utils/string_utils.h\<close>: tokenizers, trimming, comparison.
    The tokenizers are compared with the list of maximal pieces, the case-insensitive order is shown a weak order.
  FsPath: \<open>src/io/fs_path.cpp\<close>: normal form of paths and its laws, relative paths, name and parent.
  IntrusiveList: \<open>include/my/containers/intrusive_list.h\<close>: lists linked through their elements against lists of
    elements; the heap invariant is that each list is a doubly linked chain and all are disjoint.
  Base64: \<open>src/utils/base64.cpp\<close>: variable length quantities of source maps, decoded back.
  MemBase, HostMemory: \<open>include/my/memory/mem_base.h\<close>, \<open>src/memory/host_memory.cpp\<close> and the virtual memory of
    \<open>src/platform/windows/memory/host_virtual_memory.cpp\<close>; the locales \<open>page_memory\<close> and \<open>consecutive_memory\<close>
    are the contract of \<open>IHostMemory\<close> that the allocators rely on, interpreted on the virtual memory.
  BlockAllocator: \<open>src/memory/fixed_size_block_allocator.cpp\<close> over any page memory: blocks are private arrays.  The
    invariant gives every address one owner.
  RuntimeStack: \<open>src/memory/runtime_stack.cpp\<close>: guards, scopes and allocations of one thread.
  Buffer: \<open>src/memory/buffer.cpp\<close>: mutable and read-only byte buffers over shared counted blocks behave as
    values, and every block is freed with its last buffer.
  MemoryStream: \<open>src/io/memory_stream.cpp\<close>: a stream is a string with a position.
  Vfs: \<open>src/io/virtual_file_system_impl.cpp\<close>, \<open>directory_iterator.cpp\<close>: mounting is a table of prefixes; what is
    opened and listed is what the table gives.
  CoreTask, CoreTaskSafety, CoreTaskLiveness: \<open>src/async/core_task_impl.cpp\<close>: resolution, continuation and ready
    callback of a task as a step relation on one flag word, its members and any number of threads; the invariant
    counts the threads in every region of the code; a rank shows that all calls can finish.
  CoreTaskPtr: ownership and placement of tasks in the same file.
  ObjectRegistry: \<open>src/runtime/runtime_object_registry.cpp\<close>: a vector with swap-and-pop removal against a table.
  RuntimeValue: \<open>src/serialization/runtime_value.cpp\<close> and the native values of
    \<open>include/my/serialization/native_runtime_value\<close>: assignment between typed values.

  Bounds.  No definition uses fuel: the loops are structural or have a termination proof, and the step relation
  of tasks is unbounded in threads and steps.  Sizes of block allocators are bounded by \<open>2^48\<close>, stacks by
  \<open>2^32\<close> kilobytes, so that the roundings do not wrap; base addresses are those of the operating system.

  Not modelled.  Vendored code (\<open>engine/3rdparty\<close>: Lua, the vector math headers) and what comes from packages
  (JsonCpp, libuv, mimalloc).  Pure input and output: the Windows files, sockets, timers, consoles and log
  sinks.  Left for later, in this order: \<open>whenAll\<close>/\<open>whenAny\<close> and cancellation; executors, work queues and the
  thread pool; property containers; the service provider and module manager; the HTTP parser; class meta data
  and dynamic dispatch; the debug adapter protocol; the Lua toolkit; zip archives and containers of files.  Math
  types, template utilities and threading primitives are thin wrappers of the language.
\<close>

end
